(* ===== verification/Prelude.thy ===== *)
theory Prelude
  imports Main "HOL-Library.Word"
begin

text \<open>
  Shared vocabulary of the development: the machine integers and byte buffers of the C++ code,
  the ways an operation of the code can fail (\<open>fault\<close>) and the sequencing of fallible
  operations (\<open>rbind\<close>), the byte order functions \<open>htonl\<close> and \<open>ntohl\<close>, reads and writes of
  32-bit struct fields in a byte buffer, and generic lemmas on lists that several components use.
  The collections \<open>fault_simps\<close> and \<open>wire_simps\<close> gather the rewrite rules of the fallible
  sequencing and of the byte buffers.
\<close>

unbundle bit_operations_syntax

named_theorems fault_simps "sequencing of fallible operations"
named_theorems wire_simps "struct fields in byte buffers"

type_synonym u32 = "32 word"
type_synonym byte = "8 word"
type_synonym hostname = string

section \<open>Failing operations\<close>

text \<open>
  \<open>OutOfRange\<close> is \<open>std::out_of_range\<close> thrown by \<open>at\<close>; \<open>LengthError\<close> is \<open>std::length_error\<close>
  thrown by the constructor of a vector; \<open>InvalidArgument\<close> is \<open>std::invalid_argument\<close> thrown by \<open>stoi\<close>; \<open>CheckFailed\<close> a failing glog \<open>CHECK\<close>
  or \<open>CHECK_EQ\<close>; \<open>FatalLog\<close> a \<open>LOG(FATAL)\<close>; \<open>RuntimeError\<close> a thrown \<open>std::runtime_error\<close>;
  \<open>TransportException\<close> the class of that name (a subclass of \<open>std::runtime_error\<close>);
  \<open>UndefinedBehaviour\<close> an access outside an object; \<open>ProcessExit\<close> a call of \<open>exit\<close>;
  \<open>Blocked\<close> a receive for which no message ever arrives.
\<close>

datatype fault =
    OutOfRange
  | LengthError
  | InvalidArgument
  | CheckFailed
  | FatalLog
  | RuntimeError
  | TransportException
  | UndefinedBehaviour
  | ProcessExit
  | Blocked

type_synonym 'a res = "fault + 'a"

definition rbind :: "'a res \<Rightarrow> ('a \<Rightarrow> 'b res) \<Rightarrow> 'b res" where
  "rbind r f = (case r of Inl e \<Rightarrow> Inl e | Inr x \<Rightarrow> f x)"

lemma rbind_Inl [simp, fault_simps]: "rbind (Inl e) f = Inl e"
  by (simp add: rbind_def)

lemma rbind_Inr [simp, fault_simps]: "rbind (Inr x) f = f x"
  by (simp add: rbind_def)

lemma rbind_return [simp, fault_simps]: "rbind r Inr = r"
  by (cases r) auto

lemma rbind_eq_Inr: "rbind r f = Inr y \<longleftrightarrow> (\<exists>x. r = Inr x \<and> f x = Inr y)"
  by (cases r) auto

lemma rbind_eq_InrE:
  assumes "rbind r f = Inr y"
  obtains x where "r = Inr x" and "f x = Inr y"
  using assms by (auto simp: rbind_eq_Inr)

lemma rbind_cong [fundef_cong]:
  "r = r' \<Longrightarrow> (\<And>x. r' = Inr x \<Longrightarrow> f x = f' x) \<Longrightarrow> rbind r f = rbind r' f'"
  by (cases r') auto

definition check :: "bool \<Rightarrow> unit res" where
  "check b = (if b then Inr () else Inl CheckFailed)"

lemma check_True [simp, fault_simps]: "check True = Inr ()"
  by (simp add: check_def)

lemma check_False [simp, fault_simps]: "check False = Inl CheckFailed"
  by (simp add: check_def)

lemma check_eq_Inr [simp]: "check b = Inr u \<longleftrightarrow> b"
  by (simp add: check_def)

text \<open>Lookup of a key that must be present: \<open>std::unordered_map::at\<close>.\<close>

definition map_at :: "('k \<rightharpoonup> 'v) \<Rightarrow> 'k \<Rightarrow> 'v res" where
  "map_at m k = (case m k of None \<Rightarrow> Inl OutOfRange | Some v \<Rightarrow> Inr v)"

lemma map_at_Some [simp, fault_simps]: "m k = Some v \<Longrightarrow> map_at m k = Inr v"
  by (simp add: map_at_def)

lemma map_at_None [simp, fault_simps]: "m k = None \<Longrightarrow> map_at m k = Inl OutOfRange"
  by (simp add: map_at_def)

lemma map_at_eq_Inr: "map_at m k = Inr v \<longleftrightarrow> m k = Some v"
  by (auto simp: map_at_def split: option.splits)

section \<open>Byte order\<close>

text \<open>
  The byte order of the host is a parameter: \<open>store32\<close> and \<open>load32\<close> are the representation of
  an \<open>uint32_t\<close> in the memory of such a host; \<open>htonl\<close> and \<open>ntohl\<close> are the library functions on it.
\<close>

datatype endian = LittleEndian | BigEndian

definition byte_at :: "nat \<Rightarrow> u32 \<Rightarrow> byte" where
  "byte_at i w = ucast (drop_bit (8 * i) w)"

definition wire32 :: "u32 \<Rightarrow> byte list" where
  "wire32 w = [byte_at 3 w, byte_at 2 w, byte_at 1 w, byte_at 0 w]"

fun unwire32 :: "byte list \<Rightarrow> u32" where
  "unwire32 [a, b, c, d] =
     push_bit 24 (ucast a) OR push_bit 16 (ucast b) OR push_bit 8 (ucast c) OR ucast d"
| "unwire32 _ = 0"

definition store32 :: "endian \<Rightarrow> u32 \<Rightarrow> byte list" where
  "store32 en w = (case en of BigEndian \<Rightarrow> wire32 w | LittleEndian \<Rightarrow> rev (wire32 w))"

definition load32 :: "endian \<Rightarrow> byte list \<Rightarrow> u32" where
  "load32 en bs = (case en of BigEndian \<Rightarrow> unwire32 bs | LittleEndian \<Rightarrow> unwire32 (rev bs))"

definition htonl :: "endian \<Rightarrow> u32 \<Rightarrow> u32" where
  "htonl en w = (case en of BigEndian \<Rightarrow> w | LittleEndian \<Rightarrow> unwire32 (rev (wire32 w)))"

definition ntohl :: "endian \<Rightarrow> u32 \<Rightarrow> u32" where
  "ntohl en w = htonl en w"

lemma length_wire32 [simp]: "length (wire32 w) = 4"
  by (simp add: wire32_def)

lemma length_store32 [simp]: "length (store32 en w) = 4"
  by (simp add: store32_def split: endian.split)

lemma unwire32_wire32 [simp]: "unwire32 (wire32 w) = w"
proof -
  have "unwire32 [byte_at 3 w, byte_at 2 w, byte_at 1 w, byte_at 0 w] = w"
  proof (rule bit_word_eqI)
    fix n :: nat
    assume "n < LENGTH(32)"
    then consider "n < 8" | "8 \<le> n" "n < 16" | "16 \<le> n" "n < 24" | "24 \<le> n" "n < 32"
      by fastforce
    then show "bit (unwire32 [byte_at 3 w, byte_at 2 w, byte_at 1 w, byte_at 0 w]) n = bit w n"
      by cases (auto simp: byte_at_def bit_simps)
  qed
  then show ?thesis by (simp add: wire32_def)
qed

lemma byte_at_unwire32:
  "byte_at 0 (unwire32 [a, b, c, d]) = d"
  "byte_at (Suc 0) (unwire32 [a, b, c, d]) = c"
  "byte_at 2 (unwire32 [a, b, c, d]) = b"
  "byte_at 3 (unwire32 [a, b, c, d]) = a"
  by (rule bit_word_eqI; auto simp: byte_at_def bit_simps dest: bit_imp_le_length)+

lemma wire32_unwire32: "length bs = 4 \<Longrightarrow> wire32 (unwire32 bs) = bs"
proof -
  assume "length bs = 4"
  then obtain a b c d where "bs = [a, b, c, d]"
    by (auto simp: numeral_eq_Suc length_Suc_conv)
  then show ?thesis by (simp add: wire32_def byte_at_unwire32 del: unwire32.simps)
qed

lemma store32_htonl [simp, wire_simps]: "store32 en (htonl en w) = wire32 w"
  by (cases en) (auto simp: store32_def htonl_def wire32_unwire32)

lemma ntohl_load32 [simp, wire_simps]: "length bs = 4 \<Longrightarrow> ntohl en (load32 en bs) = unwire32 bs"
  by (cases en) (auto simp: load32_def ntohl_def htonl_def wire32_unwire32)

lemma htonl_htonl [simp]: "ntohl en (htonl en w) = w"
  by (cases en) (auto simp: ntohl_def htonl_def wire32_unwire32)

lemma wire32_inject [simp]: "wire32 a = wire32 b \<longleftrightarrow> a = b"
  by (metis unwire32_wire32)

section \<open>Struct fields in a byte buffer\<close>

text \<open>
  \<open>put32 en off w buf\<close> is the assignment of \<open>w\<close> to the 32-bit field at byte offset \<open>off\<close> of the
  struct overlaid on \<open>buf\<close> (the \<open>reinterpret_cast\<close> of the code); \<open>get32\<close> reads such a field.
\<close>

definition put32 :: "endian \<Rightarrow> nat \<Rightarrow> u32 \<Rightarrow> byte list \<Rightarrow> byte list" where
  "put32 en off w buf = take off buf @ store32 en w @ drop (off + 4) buf"

definition get32 :: "endian \<Rightarrow> nat \<Rightarrow> byte list \<Rightarrow> u32" where
  "get32 en off buf = load32 en (take 4 (drop off buf))"

lemma length_put32 [simp, wire_simps]:
  "off + 4 \<le> length buf \<Longrightarrow> length (put32 en off w buf) = length buf"
  by (simp add: put32_def)

lemma get32_cong_take:
  "off + 4 \<le> n \<Longrightarrow> take n buf = take n buf' \<Longrightarrow> get32 en off buf = get32 en off buf'"
proof -
  assume le: "off + 4 \<le> n" and eq: "take n buf = take n buf'"
  have cut: "take 4 (drop off xs) = take 4 (drop off (take n xs))" for xs :: "byte list"
    using le by (simp add: drop_take)
  show ?thesis
    unfolding get32_def using cut [of buf] cut [of buf'] by (simp only: eq)
qed

lemma ntohl_get32_wire [simp, wire_simps]:
  "take 4 (drop off buf) = wire32 w \<Longrightarrow> ntohl en (get32 en off buf) = w"
  by (simp add: get32_def)

lemma wire32_ntohl_get32:
  "off + 4 \<le> length buf \<Longrightarrow> wire32 (ntohl en (get32 en off buf)) = take 4 (drop off buf)"
  by (simp add: get32_def wire32_unwire32)

text \<open>Writing fields of the words \<open>ws\<close> one after the other fills the buffer with their wire image.\<close>

definition wire_words :: "u32 list \<Rightarrow> byte list" where
  "wire_words ws = concat (map wire32 ws)"

lemma length_wire_words [simp]: "length (wire_words ws) = 4 * length ws"
  by (induction ws) (auto simp: wire_words_def)

lemma wire_words_simps [wire_simps]:
  "wire_words [] = []"
  "wire_words (w # ws) = wire32 w @ wire_words ws"
  by (auto simp: wire_words_def)

lemma wire_words_append: "wire_words (vs @ ws) = wire_words vs @ wire_words ws"
  by (simp add: wire_words_def)

lemma wire32_append_inject: "wire32 v @ xs = wire32 w @ ys \<longleftrightarrow> v = w \<and> xs = ys"
  by (subst append_eq_append_conv) simp_all

lemma wire32_not_Nil [simp]: "wire32 w \<noteq> []"
  by (simp add: wire32_def)

lemma wire_words_inject: "wire_words vs = wire_words ws \<longleftrightarrow> vs = ws"
proof (induction vs arbitrary: ws)
  case Nil
  then show ?case by (cases ws) (simp_all add: wire_words_simps)
next
  case (Cons v vs)
  then show ?case by (cases ws) (simp_all add: wire32_append_inject wire_words_simps)
qed

lemma put32_wire_words:
  "off = 4 * length vs \<Longrightarrow>
   put32 en off (htonl en w) (wire_words (vs @ x # ws) @ rest) = wire_words (vs @ w # ws) @ rest"
  by (simp add: put32_def wire_words_append wire_words_simps)

lemma get32_wire_words:
  "off = 4 * length vs \<Longrightarrow>
   ntohl en (get32 en off (wire_words (vs @ w # ws) @ rest)) = w"
  by (rule ntohl_get32_wire) (simp add: wire_words_append wire_words_simps)

text \<open>Every buffer of \<open>4 * n\<close> bytes is the image of \<open>n\<close> words.\<close>

lemma wire_words_exhaust:
  "length buf = 4 * n \<Longrightarrow> \<exists>ws. length ws = n \<and> buf = wire_words ws"
proof (induction n arbitrary: buf)
  case 0
  then show ?case by (auto simp: wire_words_simps)
next
  case (Suc n)
  then have "length (drop 4 buf) = 4 * n" by simp
  then obtain ws where ws: "length ws = n" "drop 4 buf = wire_words ws"
    using Suc.IH by blast
  have "buf = take 4 buf @ drop 4 buf" by simp
  also have "\<dots> = wire_words (unwire32 (take 4 buf) # ws)"
    using Suc.prems ws
    by (simp add: wire32_unwire32 wire_words_simps del: append_take_drop_id)
  finally show ?case
    using ws(1) by (intro exI [of _ "unwire32 (take 4 buf) # ws"]) auto
qed

end
