(* ===== verification/Sender.thy ===== *)
theory Sender
  imports Prelude
begin

text \<open>
  The class template \<open>ContinuousMsgSender\<close> of lab1 (\<open>part1/multicast.h\<close>, \<open>part1/multicast.cpp\<close>):
  a list of messages, each with the recipients that have not acknowledged it yet, a thread that
  keeps sending every message to its remaining recipients, and the growing interval between two
  rounds. The template parameter is the type \<open>'m\<close>; its \<open>msg_id\<close> field and the serializer are
  arguments. What the multicast service relies on is the locale \<open>retransmitter\<close>.
\<close>

section \<open>State\<close>

record 'm MsgHolder =
  orgMsg :: 'm
  serializedMsg :: "byte list"
  holder_recipients :: "hostname set"

text \<open>
  \<open>Top\<close>: at the head of the sending loop; \<open>Waiting\<close>: in the wait on the condition variable, the
  list having been found empty; \<open>Sending\<close>: about to run the sending round.
\<close>

datatype sender_pc = Top | Waiting | Sending

record 'm ContinuousMsgSender =
  retryCount :: nat
  maxSendingIntervalMillis :: int
  cms_recipients :: "hostname list"
  cms_udpSenderMap :: "hostname set"
  queueContainsData :: bool
  msgList :: "'m MsgHolder list"
  sender_pc :: sender_pc

definition newContinuousMsgSender :: "int \<Rightarrow> hostname list \<Rightarrow> 'm ContinuousMsgSender" where
  "newContinuousMsgSender maxInterval rs =
     \<lparr>retryCount = 0, maxSendingIntervalMillis = maxInterval, cms_recipients = rs,
      cms_udpSenderMap = set rs, queueContainsData = False, msgList = [], sender_pc = Top\<rparr>"

definition newMsgHolder :: "('m \<Rightarrow> byte list) \<Rightarrow> 'm \<Rightarrow> hostname list \<Rightarrow> 'm MsgHolder" where
  "newMsgHolder serializer m rs =
     \<lparr>orgMsg = m, serializedMsg = serializer m, holder_recipients = set rs\<rparr>"

section \<open>Operations\<close>

definition queueMsg ::
  "('m \<Rightarrow> byte list) \<Rightarrow> 'm \<Rightarrow> 'm ContinuousMsgSender \<Rightarrow> 'm ContinuousMsgSender" where
  "queueMsg serializer message s =
     s\<lparr>msgList := msgList s @ [newMsgHolder serializer message (cms_recipients s)],
       queueContainsData := True\<rparr>"

text \<open>
  The two loops of \<open>removeRecipient\<close>: the first message with the id loses the recipient, then the
  first message without recipients is dropped from the list.
\<close>

fun eraseRecipient ::
  "('m \<Rightarrow> u32) \<Rightarrow> u32 \<Rightarrow> hostname \<Rightarrow> 'm MsgHolder list \<Rightarrow> bool \<times> 'm MsgHolder list" where
  "eraseRecipient mid messageId recipient [] = (False, [])"
| "eraseRecipient mid messageId recipient (h # hs) =
     (if messageId = mid (orgMsg h)
      then (recipient \<in> holder_recipients h,
            h\<lparr>holder_recipients := holder_recipients h - {recipient}\<rparr> # hs)
      else (let (removed, hs') = eraseRecipient mid messageId recipient hs in (removed, h # hs')))"

fun eraseFirstDone :: "'m MsgHolder list \<Rightarrow> 'm MsgHolder list" where
  "eraseFirstDone [] = []"
| "eraseFirstDone (h # hs) = (if holder_recipients h = {} then hs else h # eraseFirstDone hs)"

definition removeRecipient ::
  "('m \<Rightarrow> u32) \<Rightarrow> u32 \<Rightarrow> hostname \<Rightarrow> 'm ContinuousMsgSender \<Rightarrow> bool \<times> 'm ContinuousMsgSender"
where
  "removeRecipient mid messageId recipient s =
     (let (removed, hs) = eraseRecipient mid messageId recipient (msgList s)
      in (removed, s\<lparr>msgList := eraseFirstDone hs\<rparr>))"

definition getSendingInterval :: "'m ContinuousMsgSender \<Rightarrow> int \<times> 'm ContinuousMsgSender" where
  "getSendingInterval s =
     (let interval = 2 ^ retryCount s * 200 in
      if interval > maxSendingIntervalMillis s then (200, s\<lparr>retryCount := 0\<rparr>)
      else (interval, s\<lparr>retryCount := Suc (retryCount s)\<rparr>))"

text \<open>
  One sending round, under the lock: every message goes to each of its remaining recipients. The
  recipients have sockets of their own, so the round is given by the datagrams each of them is
  sent, in the order of the list. \<open>udpSenderMap.at\<close> throws for a recipient without a socket.
\<close>

definition roundSends :: "'m ContinuousMsgSender \<Rightarrow> hostname \<Rightarrow> byte list list" where
  "roundSends s q = map serializedMsg (filter (\<lambda>h. q \<in> holder_recipients h) (msgList s))"

definition sendRound ::
  "'m ContinuousMsgSender \<Rightarrow> (hostname \<Rightarrow> byte list list) res" where
  "sendRound s =
     (if \<forall>h \<in> set (msgList s). holder_recipients h \<subseteq> cms_udpSenderMap s
      then Inr (roundSends s) else Inl OutOfRange)"

text \<open>
  The steps of \<open>startSendingMessages\<close>: \<open>None\<close> is a thread that waits. The result holds the
  datagrams sent and the length of the sleep before the next round.
\<close>

definition senderStep ::
  "'m ContinuousMsgSender \<Rightarrow>
     ('m ContinuousMsgSender \<times> (hostname \<Rightarrow> byte list list) \<times> int) res option" where
  "senderStep s =
     (case sender_pc s of
        Top \<Rightarrow> Some (Inr (s\<lparr>sender_pc := (if msgList s = [] then Waiting else Sending)\<rparr>, (\<lambda>_. []), 0))
      | Waiting \<Rightarrow>
          (if queueContainsData s
           then Some (Inr (s\<lparr>queueContainsData := False, sender_pc := Sending\<rparr>, (\<lambda>_. []), 0))
           else None)
      | Sending \<Rightarrow>
          Some (rbind (sendRound s) (\<lambda>sends.
            let (interval, s') = getSendingInterval s
            in Inr (s'\<lparr>sender_pc := Top\<rparr>, sends, interval))))"

section \<open>The interface of a retransmitting sender\<close>

text \<open>
  \<open>owed s m r\<close>: message \<open>m\<close> is still being sent to \<open>r\<close>. A client may queue a message whose id is
  not in use, and learns from \<open>remove\<close> whether this acknowledgement is the first one.
\<close>

locale retransmitter =
  fixes queue :: "'m \<Rightarrow> 's \<Rightarrow> 's"
    and remove :: "u32 \<Rightarrow> hostname \<Rightarrow> 's \<Rightarrow> bool \<times> 's"
    and owed :: "'s \<Rightarrow> 'm \<Rightarrow> hostname \<Rightarrow> bool"
    and mid :: "'m \<Rightarrow> u32"
    and peers :: "'s \<Rightarrow> hostname set"
    and ok :: "'s \<Rightarrow> bool"
  assumes owed_queue: "owed (queue m s) m' r \<longleftrightarrow> owed s m' r \<or> m' = m \<and> r \<in> peers s"
    and remove_iff: "ok s \<Longrightarrow> fst (remove i r s) \<longleftrightarrow> (\<exists>m. mid m = i \<and> owed s m r)"
    and owed_remove: "ok s \<Longrightarrow>
          owed (snd (remove i r s)) m' r' \<longleftrightarrow> owed s m' r' \<and> \<not> (mid m' = i \<and> r' = r)"
    and ok_queue: "ok s \<Longrightarrow> (\<And>m' r. owed s m' r \<Longrightarrow> mid m' \<noteq> mid m) \<Longrightarrow> ok (queue m s)"
    and ok_remove: "ok s \<Longrightarrow> ok (snd (remove i r s))"
    and mid_unique: "ok s \<Longrightarrow> owed s m r \<Longrightarrow> owed s m' r' \<Longrightarrow> mid m = mid m' \<Longrightarrow> m = m'"
    and peers_queue: "peers (queue m s) = peers s"
    and peers_remove: "peers (snd (remove i r s)) = peers s"
begin

lemma remove_twice:
  "ok s \<Longrightarrow> \<not> fst (remove i r (snd (remove i r s)))"
  by (auto simp: remove_iff owed_remove ok_remove)

lemma remove_other:
  "ok s \<Longrightarrow> r \<noteq> r' \<or> i \<noteq> i' \<Longrightarrow> fst (remove i r (snd (remove i' r' s))) \<longleftrightarrow> fst (remove i r s)"
  by (auto simp: remove_iff owed_remove ok_remove)

text \<open>
  Running a list of acknowledgements. Those that are counted are exactly the distinct pairs of an
  id and a recipient that was owed a message with that id: each counts once, whatever the
  duplicates and the order.
\<close>

fun acks :: "(u32 \<times> hostname) list \<Rightarrow> 's \<Rightarrow> (u32 \<times> hostname) list \<times> 's" where
  "acks [] s = ([], s)"
| "acks ((i, r) # as) s =
     (let result = acks as (snd (remove i r s))
      in (if fst (remove i r s) then (i, r) # fst result else fst result, snd result))"

lemma acks_ok: "ok s \<Longrightarrow> ok (snd (acks as s))"
  by (induction as s rule: acks.induct) (simp_all add: Let_def ok_remove)

lemma acks_counted:
  "ok s \<Longrightarrow> distinct (fst (acks as s)) \<and>
     set (fst (acks as s)) = {(i, r). (i, r) \<in> set as \<and> (\<exists>m. mid m = i \<and> owed s m r)}"
proof (induction as s rule: acks.induct)
  case (1 s)
  then show ?case by simp
next
  case (2 i r as s)
  let ?s = "snd (remove i r s)"
  have IH: "distinct (fst (acks as ?s)) \<and>
     set (fst (acks as ?s)) = {(j, q). (j, q) \<in> set as \<and> (\<exists>m. mid m = j \<and> owed ?s m q)}"
    using 2 ok_remove by blast
  then show ?case
    using 2(2) by (auto simp: Let_def remove_iff owed_remove)
qed

lemma acks_owed:
  "ok s \<Longrightarrow> owed (snd (acks as s)) m r \<longleftrightarrow> owed s m r \<and> (mid m, r) \<notin> set as"
proof (induction as s rule: acks.induct)
  case (1 s)
  then show ?case by simp
next
  case (2 i q as s)
  then have "owed (snd (acks as (snd (remove i q s)))) m r \<longleftrightarrow>
      owed (snd (remove i q s)) m r \<and> (mid m, r) \<notin> set as"
    using ok_remove by blast
  then show ?case
    using 2(2) by (auto simp: Let_def owed_remove)
qed

end

section \<open>The model provides the interface\<close>

definition owed :: "'m ContinuousMsgSender \<Rightarrow> 'm \<Rightarrow> hostname \<Rightarrow> bool" where
  "owed s m r \<longleftrightarrow> (\<exists>h \<in> set (msgList s). orgMsg h = m \<and> r \<in> holder_recipients h)"

text \<open>
  The invariant of the list: every message still has recipients, the ids are distinct, and the
  stored bytes are the serialized message.
\<close>

definition sender_ok ::
  "('m \<Rightarrow> u32) \<Rightarrow> ('m \<Rightarrow> byte list) \<Rightarrow> 'm ContinuousMsgSender \<Rightarrow> bool" where
  "sender_ok mid serializer s \<longleftrightarrow>
     cms_recipients s \<noteq> [] \<and> cms_udpSenderMap s = set (cms_recipients s) \<and>
     distinct (map (mid \<circ> orgMsg) (msgList s)) \<and>
     (\<forall>h \<in> set (msgList s). holder_recipients h \<noteq> {} \<and>
        holder_recipients h \<subseteq> set (cms_recipients s) \<and> serializedMsg h = serializer (orgMsg h))"

lemma eraseRecipient_result:
  "distinct (map (mid \<circ> orgMsg) hs) \<Longrightarrow>
   fst (eraseRecipient mid i r hs) \<longleftrightarrow> (\<exists>h \<in> set hs. mid (orgMsg h) = i \<and> r \<in> holder_recipients h)"
  by (induction hs) (auto simp: split_beta image_iff)

lemma eraseRecipient_orgMsg:
  "map orgMsg (snd (eraseRecipient mid i r hs)) = map orgMsg hs"
  by (induction hs) (auto simp: split_beta)

lemma eraseRecipient_holders:
  "distinct (map (mid \<circ> orgMsg) hs) \<Longrightarrow>
   set (snd (eraseRecipient mid i r hs)) =
     (\<lambda>h. if mid (orgMsg h) = i then h\<lparr>holder_recipients := holder_recipients h - {r}\<rparr> else h) ` set hs"
proof (induction hs)
  case (Cons h hs)
  let ?f = "\<lambda>h. if mid (orgMsg h) = i
      then h\<lparr>holder_recipients := holder_recipients h - {r}\<rparr> else h"
  show ?case
  proof (cases "mid (orgMsg h) = i")
    case True
    with Cons.prems have "\<forall>h' \<in> set hs. ?f h' = h'" by (auto simp: image_iff)
    then have "?f ` set hs = set hs" by force
    with True show ?thesis by simp
  next
    case False
    with Cons show ?thesis by (auto simp: split_beta)
  qed
qed simp

lemma set_eraseFirstDone_subset: "set (eraseFirstDone hs) \<subseteq> set hs"
  by (induction hs) auto

lemma eraseFirstDone_keeps:
  "h \<in> set hs \<Longrightarrow> holder_recipients h \<noteq> {} \<Longrightarrow> h \<in> set (eraseFirstDone hs)"
  by (induction hs) auto

lemma distinct_eraseFirstDone:
  "distinct (map f hs) \<Longrightarrow> distinct (map f (eraseFirstDone hs))"
  using set_eraseFirstDone_subset by (induction hs) fastforce+

lemma eraseFirstDone_none:
  "(\<forall>h \<in> set hs. holder_recipients h \<noteq> {}) \<Longrightarrow> eraseFirstDone hs = hs"
  by (induction hs) auto

text \<open>One recipient was erased, so at most one message can have become empty: none is left behind.\<close>

lemma eraseFirstDone_complete:
  assumes "distinct (map (mid \<circ> orgMsg) hs)" and "\<forall>h \<in> set hs. holder_recipients h \<noteq> {}"
    and "h \<in> set (eraseFirstDone (snd (eraseRecipient mid i r hs)))"
  shows "holder_recipients h \<noteq> {}"
  using assms
proof (induction hs)
  case (Cons g gs)
  show ?case
  proof (cases "mid (orgMsg g) = i")
    case True
    with Cons.prems show ?thesis
      using eraseFirstDone_none [of gs] by (auto split: if_splits)
  next
    case False
    with Cons show ?thesis by (auto simp: split_beta)
  qed
qed simp

lemma owed_queueMsg:
  "owed (queueMsg ser m s) m' r \<longleftrightarrow> owed s m' r \<or> m' = m \<and> r \<in> set (cms_recipients s)"
  by (auto simp: owed_def queueMsg_def newMsgHolder_def)

lemma queueMsg_recipients [simp]: "cms_recipients (queueMsg ser m s) = cms_recipients s"
  by (simp add: queueMsg_def)

lemma removeRecipient_msgList:
  "msgList (snd (removeRecipient mid i r s)) =
     eraseFirstDone (snd (eraseRecipient mid i r (msgList s)))"
  "fst (removeRecipient mid i r s) = fst (eraseRecipient mid i r (msgList s))"
  "cms_recipients (snd (removeRecipient mid i r s)) = cms_recipients s"
  "cms_udpSenderMap (snd (removeRecipient mid i r s)) = cms_udpSenderMap s"
  by (simp_all add: removeRecipient_def split_beta)

lemma owed_removeRecipient:
  assumes "sender_ok mid ser s"
  shows "owed (snd (removeRecipient mid i r s)) m' r' \<longleftrightarrow> owed s m' r' \<and> \<not> (mid m' = i \<and> r' = r)"
    (is "?lhs \<longleftrightarrow> ?rhs")
proof -
  let ?hs = "snd (eraseRecipient mid i r (msgList s))"
  have dist: "distinct (map (mid \<circ> orgMsg) (msgList s))"
    using assms by (simp add: sender_ok_def)
  have "?lhs \<longleftrightarrow> (\<exists>h \<in> set ?hs. orgMsg h = m' \<and> r' \<in> holder_recipients h)"
    using set_eraseFirstDone_subset [of ?hs] eraseFirstDone_keeps [of _ ?hs]
    by (auto simp: owed_def removeRecipient_msgList)
  also have "\<dots> \<longleftrightarrow> ?rhs"
    unfolding eraseRecipient_holders [OF dist] owed_def bex_simps by (auto split: if_splits)
  finally show ?thesis .
qed

lemma sender_ok_removeRecipient:
  assumes "sender_ok mid ser s"
  shows "sender_ok mid ser (snd (removeRecipient mid i r s))"
proof -
  let ?hs = "snd (eraseRecipient mid i r (msgList s))"
  have dist: "distinct (map (mid \<circ> orgMsg) (msgList s))"
    and full: "\<forall>h \<in> set (msgList s). holder_recipients h \<noteq> {}"
    using assms by (simp_all add: sender_ok_def)
  have "distinct (map (mid \<circ> orgMsg) ?hs)"
    using dist by (metis eraseRecipient_orgMsg map_map)
  moreover have "\<forall>h \<in> set ?hs. holder_recipients h \<subseteq> set (cms_recipients s) \<and>
      serializedMsg h = ser (orgMsg h)"
    using assms unfolding eraseRecipient_holders [OF dist] ball_simps sender_ok_def
    by (simp add: Diff_subset_conv subset_insertI2)
  ultimately show ?thesis
    using assms eraseFirstDone_complete [OF dist full] set_eraseFirstDone_subset [of ?hs]
    by (auto simp: sender_ok_def removeRecipient_msgList distinct_eraseFirstDone)
qed

lemma sender_ok_queueMsg:
  assumes "sender_ok mid ser s" and "\<And>m' r. owed s m' r \<Longrightarrow> mid m' \<noteq> mid m"
  shows "sender_ok mid ser (queueMsg ser m s)"
proof -
  have "\<forall>h \<in> set (msgList s). mid (orgMsg h) \<noteq> mid m"
    using assms by (fastforce simp: owed_def sender_ok_def)
  with assms(1) show ?thesis
    by (auto simp: sender_ok_def queueMsg_def newMsgHolder_def)
qed

lemma owed_mid_unique:
  assumes "sender_ok mid ser s" and "owed s m r" and "owed s m' r'" and "mid m = mid m'"
  shows "m = m'"
  using assms unfolding sender_ok_def owed_def
  by (metis (mono_tags, lifting) comp_apply distinct_map inj_onD)

text \<open>
  The model of the class provides the interface, for every message type with an id and every
  serializer; the multicast service uses it for \<open>DataMessage\<close> and \<open>SeqMessage\<close>.
\<close>

interpretation cms: retransmitter "queueMsg ser" "removeRecipient mid" owed mid
  "\<lambda>s. set (cms_recipients s)" "sender_ok mid ser"
  for ser :: "'m \<Rightarrow> byte list" and mid :: "'m \<Rightarrow> u32"
proof unfold_locales
  show "fst (removeRecipient mid i r s) \<longleftrightarrow> (\<exists>m. mid m = i \<and> owed s m r)"
    if "sender_ok mid ser s" for s :: "'m ContinuousMsgSender" and i r
    using that eraseRecipient_result [of mid "msgList s" i r]
    by (auto simp: sender_ok_def owed_def removeRecipient_msgList)
qed (auto simp: owed_queueMsg owed_removeRecipient sender_ok_removeRecipient sender_ok_queueMsg
  removeRecipient_msgList dest: owed_mid_unique)

section \<open>The sending thread\<close>

lemma sendRound_ok: "sender_ok mid ser s \<Longrightarrow> sendRound s = Inr (roundSends s)"
  by (simp add: sendRound_def sender_ok_def)

lemma roundSends_owed:
  "sender_ok mid ser s \<Longrightarrow> b \<in> set (roundSends s q) \<longleftrightarrow> (\<exists>m. owed s m q \<and> b = ser m)"
  by (auto simp: roundSends_def sender_ok_def owed_def)

lemma getSendingInterval_frame [simp]:
  "msgList (snd (getSendingInterval s)) = msgList s"
  "cms_recipients (snd (getSendingInterval s)) = cms_recipients s"
  "cms_udpSenderMap (snd (getSendingInterval s)) = cms_udpSenderMap s"
  "queueContainsData (snd (getSendingInterval s)) = queueContainsData s"
  "maxSendingIntervalMillis (snd (getSendingInterval s)) = maxSendingIntervalMillis s"
  by (simp_all add: getSendingInterval_def Let_def)

text \<open>
  The effect of a step of the thread on a well-formed sender: the list of messages is untouched,
  and the datagrams are none, or those of a complete round.
\<close>

lemma senderStep_cases:
  assumes "sender_ok mid ser s" and "senderStep s = Some r"
  obtains s' sends interval where "r = Inr (s', sends, interval)"
    and "msgList s' = msgList s" and "cms_recipients s' = cms_recipients s"
    and "cms_udpSenderMap s' = cms_udpSenderMap s"
    and "sends = (\<lambda>_. []) \<or> sends = roundSends s"
  using assms(2)
  by (auto simp: senderStep_def sendRound_ok [OF assms(1)] split_beta Let_def split: sender_pc.splits if_splits)

lemma senderStep_frame:
  assumes "sender_ok mid ser s" and "senderStep s = Some (Inr (s', sends, n))"
  shows "msgList s' = msgList s \<and> cms_recipients s' = cms_recipients s \<and>
    cms_udpSenderMap s' = cms_udpSenderMap s \<and> (sends = (\<lambda>_. []) \<or> sends = roundSends s)"
  by (rule senderStep_cases [OF assms]) simp

lemma senderStep_ok:
  assumes "sender_ok mid ser s" and "senderStep s = Some (Inr (s', sends, n))"
  shows "sender_ok mid ser s'"
  using senderStep_frame [OF assms] assms(1) by (simp add: sender_ok_def)

lemma senderStep_owed:
  assumes "sender_ok mid ser s" and "senderStep s = Some (Inr (s', sends, n))"
  shows "owed s' m q \<longleftrightarrow> owed s m q"
  using senderStep_frame [OF assms] by (simp add: owed_def)

text \<open>
  All interleavings of the sending thread with the two operations of the class, as the service
  calls them: a message is queued under an id that is not in use.
\<close>

inductive sender_reachable ::
  "('m \<Rightarrow> u32) \<Rightarrow> ('m \<Rightarrow> byte list) \<Rightarrow> 'm ContinuousMsgSender \<Rightarrow> bool"
  for mid ser where
  sr_new: "rs \<noteq> [] \<Longrightarrow> sender_reachable mid ser (newContinuousMsgSender n rs)"
| sr_queue: "sender_reachable mid ser s \<Longrightarrow> (\<forall>m' r. owed s m' r \<longrightarrow> mid m' \<noteq> mid m) \<Longrightarrow>
    sender_reachable mid ser (queueMsg ser m s)"
| sr_remove: "sender_reachable mid ser s \<Longrightarrow>
    sender_reachable mid ser (snd (removeRecipient mid i r s))"
| sr_thread: "sender_reachable mid ser s \<Longrightarrow> senderStep s = Some (Inr (s', sends, n)) \<Longrightarrow>
    sender_reachable mid ser s'"

lemma sender_reachable_ok: "sender_reachable mid ser s \<Longrightarrow> sender_ok mid ser s"
proof (induction rule: sender_reachable.induct)
  case (sr_new rs n)
  then show ?case by (simp add: sender_ok_def newContinuousMsgSender_def)
qed (auto intro: sender_ok_queueMsg sender_ok_removeRecipient senderStep_ok)

text \<open>No wakeup is lost: a thread that waits while there are messages has been notified.\<close>

definition wake_ok :: "'m ContinuousMsgSender \<Rightarrow> bool" where
  "wake_ok s \<longleftrightarrow> (sender_pc s = Waiting \<and> msgList s \<noteq> [] \<longrightarrow> queueContainsData s)"

lemma eraseFirstDone_Nil: "eraseFirstDone hs \<noteq> [] \<Longrightarrow> hs \<noteq> []"
  by (cases hs) auto

lemma eraseRecipient_Nil [simp]: "snd (eraseRecipient mid i r hs) = [] \<longleftrightarrow> hs = []"
  by (metis eraseRecipient_orgMsg map_is_Nil_conv)

lemma sender_reachable_wake: "sender_reachable mid ser s \<Longrightarrow> wake_ok s"
proof (induction rule: sender_reachable.induct)
  case (sr_remove s i r)
  then show ?case
    by (auto simp: wake_ok_def removeRecipient_def split_beta dest!: eraseFirstDone_Nil)
next
  case (sr_thread s s' sends n)
  then show ?case
    by (auto simp: wake_ok_def senderStep_def split_beta Let_def rbind_eq_Inr
        split: sender_pc.splits if_splits)
qed (auto simp: wake_ok_def newContinuousMsgSender_def queueMsg_def)

text \<open>Steps of the thread alone, with everything it sends on the way.\<close>

fun threadRun ::
  "nat \<Rightarrow> 'm ContinuousMsgSender \<Rightarrow> ('m ContinuousMsgSender \<times> (hostname \<Rightarrow> byte list list)) res"
where
  "threadRun 0 s = Inr (s, (\<lambda>_. []))"
| "threadRun (Suc n) s =
     (case senderStep s of
        None \<Rightarrow> Inl Blocked
      | Some r \<Rightarrow> rbind r (\<lambda>(s', sends, interval).
          rbind (threadRun n s') (\<lambda>(s'', sends'). Inr (s'', \<lambda>q. sends q @ sends' q))))"

text \<open>
  C24 (liveness): whatever the interleaving so far, as long as a message is owed to a recipient the
  sending thread is not blocked and puts that message on the wire for that recipient within two
  of its steps.
\<close>

theorem owed_message_is_sent:
  assumes reach: "sender_reachable mid ser s" and m: "owed s m q"
  shows "\<exists>n s' sends. n \<le> 2 \<and> threadRun n s = Inr (s', sends) \<and> ser m \<in> set (sends q)"
proof -
  have ok: "sender_ok mid ser s" and wake: "wake_ok s"
    using reach by (rule sender_reachable_ok, rule sender_reachable_wake)
  have ne: "msgList s \<noteq> []" using m by (auto simp: owed_def)
  have round: "\<exists>s'. threadRun 1 t = Inr (s', roundSends t)"
    if "sender_pc t = Sending" "sender_ok mid ser t" for t :: "'a ContinuousMsgSender"
    using that by (simp add: senderStep_def sendRound_ok [OF that(2)] split_beta)
  have sent: "ser m \<in> set (roundSends t q)" if "msgList t = msgList s" for t :: "'a ContinuousMsgSender"
    using roundSends_owed [OF ok, of "ser m" q] m that by (auto simp: roundSends_def)
  show ?thesis
  proof (cases "sender_pc s = Sending")
    case True
    with round [OF True ok] sent [of s] show ?thesis by (intro exI [of _ 1]) auto
  next
    case False
    then obtain t where t: "senderStep s = Some (Inr (t, (\<lambda>_. []), 0))" "sender_pc t = Sending"
      "msgList t = msgList s"
      using ne wake by (cases "sender_pc s") (auto simp: senderStep_def wake_ok_def)
    obtain u where "threadRun 1 t = Inr (u, roundSends t)"
      using round [OF t(2) senderStep_ok [OF ok t(1)]] by blast
    then have "threadRun 2 s = Inr (u, roundSends t)"
      using t(1) by (simp add: numeral_2_eq_2)
    with sent [OF t(3)] show ?thesis by (intro exI [of _ 2]) auto
  qed
qed

theorem owed_message_is_sent_witness:
  "\<exists>n s' sends. n \<le> 2 \<and>
    threadRun n (queueMsg (\<lambda>m. [ucast m]) (7 :: u32) (newContinuousMsgSender 4000 [''a'', ''b''])) =
      Inr (s', sends) \<and> [7] \<in> set (sends ''b'')"
proof -
  let ?s = "queueMsg (\<lambda>m :: u32. [ucast m]) 7 (newContinuousMsgSender 4000 [''a'', ''b''])"
  have "sender_reachable (\<lambda>m. m) (\<lambda>m. [ucast m]) ?s"
    by (intro sr_queue sr_new) (simp_all add: owed_def newContinuousMsgSender_def)
  moreover have "owed ?s 7 ''b''" by (simp add: owed_queueMsg newContinuousMsgSender_def)
  ultimately show ?thesis
    using owed_message_is_sent [of "\<lambda>m. m" "\<lambda>m. [ucast m]" ?s 7 "''b''"] by simp
qed

text \<open>The intervals returned by \<open>n\<close> calls of \<open>getSendingInterval\<close>.\<close>

fun sendingIntervals :: "nat \<Rightarrow> 'm ContinuousMsgSender \<Rightarrow> int list" where
  "sendingIntervals 0 s = []"
| "sendingIntervals (Suc n) s =
     (let (interval, s') = getSendingInterval s in interval # sendingIntervals n s')"

lemma getSendingInterval_4000:
  assumes "maxSendingIntervalMillis s = 4000" and "retryCount s \<le> 5"
  shows "getSendingInterval s =
     ([200, 400, 800, 1600, 3200, 200] ! retryCount s, s\<lparr>retryCount := (retryCount s + 1) mod 6\<rparr>)"
proof -
  from assms(2) consider "retryCount s = 0" | "retryCount s = 1" | "retryCount s = 2"
    | "retryCount s = 3" | "retryCount s = 4" | "retryCount s = 5"
    by linarith
  then show ?thesis by cases (simp_all add: getSendingInterval_def assms(1))
qed

lemma sendingIntervals_nth_aux:
  assumes "maxSendingIntervalMillis s = 4000" and "retryCount s \<le> 5" and "i < n"
  shows "sendingIntervals n s ! i = [200, 400, 800, 1600, 3200, 200] ! ((retryCount s + i) mod 6)"
  using assms
proof (induction n s arbitrary: i rule: sendingIntervals.induct)
  case (2 n s)
  show ?case
  proof (cases i)
    case 0
    with 2 show ?thesis by (simp add: getSendingInterval_4000)
  next
    case (Suc j)
    have "((retryCount s + 1) mod 6 + j) mod 6 = (retryCount s + i) mod 6"
      by (simp add: Suc mod_simps)
    with 2 Suc show ?thesis by (simp add: getSendingInterval_4000)
  qed
qed simp

text \<open>
  With the interval limit of the multicast service the rounds of a sender, from its
  creation on, are 200, 400, 800, 1600, 3200 and 200 milliseconds apart, over and over: the back-off
  is reset before the limit of 4000 is reached, and the shortest interval occurs twice in a row.
\<close>

theorem sending_intervals:
  assumes "i < n"
  shows "sendingIntervals n (newContinuousMsgSender 4000 rs) ! i = [200, 400, 800, 1600, 3200, 200] ! (i mod 6)"
  using sendingIntervals_nth_aux [OF _ _ assms, of "newContinuousMsgSender 4000 rs"]
  by (simp add: newContinuousMsgSender_def)

theorem sending_intervals_witness:
  "map ((!) (sendingIntervals 8 (newContinuousMsgSender 4000 [''a'']))) [5, 6, 7] = [200, 200, 400]"
  using sending_intervals [of 5 8 "[''a'']"] sending_intervals [of 6 8 "[''a'']"]
    sending_intervals [of 7 8 "[''a'']"]
  by simp

end
