(* ===== verification/Codec.thy ===== *)
theory Codec
  imports Prelude
begin

text \<open>
  The \<open>Message\<close> class of \<open>network_utils.h\<close> of lab1 and lab2 (a received buffer, the number of
  bytes received and the name of the sender), and the contract of the fixed-size struct codecs of
  the two \<open>serde.cpp\<close> files as the locale \<open>struct_codec\<close>: what a serializer writes on one host a
  deserializer reads back on another, whatever the byte orders of the two hosts and whatever the
  buffer held before. \<open>Lab1Wire\<close> and \<open>Lab2Wire\<close> interpret it for the message types.
\<close>

record Message =
  m_buffer :: "byte list"
  m_n :: nat
  m_sender :: string

text \<open>
  The message that a receive call builds for a datagram \<open>bs\<close>: the receive buffer has
  \<open>MAX_BUFFER_SIZE\<close> bytes, a longer datagram is cut off, and what lies behind the received bytes
  (\<open>junk\<close>) is whatever the buffer held before.
\<close>

definition MAX_BUFFER_SIZE :: nat where
  "MAX_BUFFER_SIZE = 1024"

definition received :: "byte list \<Rightarrow> byte list \<Rightarrow> string \<Rightarrow> Message" where
  "received bs junk from =
     \<lparr>m_buffer = take MAX_BUFFER_SIZE (bs @ junk), m_n = min (length bs) MAX_BUFFER_SIZE,
      m_sender = from\<rparr>"

lemma received_simps [simp]:
  "m_sender (received bs junk from) = from"
  "length bs \<le> MAX_BUFFER_SIZE \<Longrightarrow> m_n (received bs junk from) = length bs"
  by (simp_all add: received_def)

lemma take_received:
  "n \<le> length bs \<Longrightarrow> length bs \<le> MAX_BUFFER_SIZE \<Longrightarrow>
   take n (m_buffer (received bs junk from)) = take n bs"
  by (simp add: received_def)

text \<open>
  \<open>NetworkUtils::parseHostnameFromSender\<close> and \<open>Message::getParsedSender\<close>: the sender's name up to
  its first dot (\<open>find\<close> returns \<open>npos\<close> if there is none, and \<open>substr\<close> then takes everything).
\<close>

definition parseHostnameFromSender :: "string \<Rightarrow> string" where
  "parseHostnameFromSender sender = takeWhile (\<lambda>c. c \<noteq> CHR ''.'') sender"

definition getParsedSender :: "Message \<Rightarrow> string" where
  "getParsedSender message = parseHostnameFromSender (m_sender message)"

lemma parseHostnameFromSender_host:
  "CHR ''.'' \<notin> set host \<Longrightarrow> parseHostnameFromSender (host @ CHR ''.'' # net) = host"
  unfolding parseHostnameFromSender_def by (subst takeWhile_append2) auto

lemma parseHostnameFromSender_bare:
  "CHR ''.'' \<notin> set host \<Longrightarrow> parseHostnameFromSender host = host"
  unfolding parseHostnameFromSender_def takeWhile_eq_all_conv by auto

text \<open>
  The first word of a message is its type in both labs; the code reads it after checking only that
  the message is not empty.
\<close>

definition getTypeWord :: "endian \<Rightarrow> Message \<Rightarrow> u32 res" where
  "getTypeWord en message =
     rbind (check (m_n message > 0)) (\<lambda>_. Inr (ntohl en (get32 en 0 (m_buffer message))))"

lemma getTypeWord_received:
  assumes "take 4 bs = wire32 w" and "length bs \<le> MAX_BUFFER_SIZE" and "4 \<le> length bs"
  shows "getTypeWord en (received bs junk from) = Inr w"
proof -
  have "take 4 (drop 0 (m_buffer (received bs junk from))) = wire32 w"
    using assms by (simp add: take_received)
  then show ?thesis
    using assms(2,3) by (cases bs) (simp_all add: getTypeWord_def)
qed

text \<open>
  The rules that run a serializer on a buffer of the right size, given as its list of words, and a
  deserializer on a buffer with a known prefix.
\<close>

lemma put32_words:
  "put32 en 0 (htonl en w) (wire_words (a # ws)) = wire_words (w # ws)"
  "put32 en 4 (htonl en w) (wire_words (a # b # ws)) = wire_words (a # w # ws)"
  "put32 en 8 (htonl en w) (wire_words (a # b # c # ws)) = wire_words (a # b # w # ws)"
  "put32 en 12 (htonl en w) (wire_words (a # b # c # d # ws)) = wire_words (a # b # c # w # ws)"
  "put32 en 16 (htonl en w) (wire_words (a # b # c # d # e # ws)) =
     wire_words (a # b # c # d # w # ws)"
  using put32_wire_words [of 0 "[]" en w a ws "[]"] put32_wire_words [of 4 "[a]" en w b ws "[]"]
    put32_wire_words [of 8 "[a, b]" en w c ws "[]"] put32_wire_words [of 12 "[a, b, c]" en w d ws "[]"]
    put32_wire_words [of 16 "[a, b, c, d]" en w e ws "[]"]
  by simp_all

lemma words_of_buffer:
  "length buf = 8 \<Longrightarrow> \<exists>a b. buf = wire_words [a, b]"
  "length buf = 12 \<Longrightarrow> \<exists>a b c. buf = wire_words [a, b, c]"
  "length buf = 16 \<Longrightarrow> \<exists>a b c d. buf = wire_words [a, b, c, d]"
  "length buf = 20 \<Longrightarrow> \<exists>a b c d e. buf = wire_words [a, b, c, d, e]"
proof -
  have split: "length ws = 2 \<Longrightarrow> \<exists>a b. ws = [a, b]" "length ws = 3 \<Longrightarrow> \<exists>a b c. ws = [a, b, c]"
    "length ws = 4 \<Longrightarrow> \<exists>a b c d. ws = [a, b, c, d]"
    "length ws = 5 \<Longrightarrow> \<exists>a b c d e. ws = [a, b, c, d, e]" for ws :: "u32 list"
    by (auto simp: numeral_eq_Suc length_Suc_conv)
  show "length buf = 8 \<Longrightarrow> \<exists>a b. buf = wire_words [a, b]"
    using wire_words_exhaust [of buf 2] by (auto dest!: split(1))
  show "length buf = 12 \<Longrightarrow> \<exists>a b c. buf = wire_words [a, b, c]"
    using wire_words_exhaust [of buf 3] by (auto dest!: split(2))
  show "length buf = 16 \<Longrightarrow> \<exists>a b c d. buf = wire_words [a, b, c, d]"
    using wire_words_exhaust [of buf 4] by (auto dest!: split(3))
  show "length buf = 20 \<Longrightarrow> \<exists>a b c d e. buf = wire_words [a, b, c, d, e]"
    using wire_words_exhaust [of buf 5] by (auto dest!: split(4) simp: wire_words_inject)
qed

lemma get32_words:
  assumes "take n buf = wire_words (vs @ w # ws)" and "off = 4 * length vs"
  shows "ntohl en (get32 en off buf) = w"
proof -
  have "take n buf = wire_words (vs @ w # ws) @ []" using assms(1) by simp
  moreover have "4 * Suc (length vs) \<le> length (take n buf)"
    unfolding assms(1) by simp
  then have "4 * Suc (length vs) \<le> n" by simp
  then have "get32 en off buf = get32 en off (take n buf)"
    using assms(2) by (intro get32_cong_take [of _ n]) simp_all
  ultimately show ?thesis
    using get32_wire_words [OF assms(2), of en w ws "[]"] by simp
qed

lemma get32_fields:
  "take n buf = wire_words (a # ws) \<Longrightarrow> ntohl en (get32 en 0 buf) = a"
  "take n buf = wire_words (a # b # ws) \<Longrightarrow> ntohl en (get32 en 4 buf) = b"
  "take n buf = wire_words (a # b # c # ws) \<Longrightarrow> ntohl en (get32 en 8 buf) = c"
  "take n buf = wire_words (a # b # c # d # ws) \<Longrightarrow> ntohl en (get32 en 12 buf) = d"
  "take n buf = wire_words (a # b # c # d # e # ws) \<Longrightarrow> ntohl en (get32 en 16 buf) = e"
  using get32_words [of n buf "[]" a ws] get32_words [of n buf "[a]" b ws]
    get32_words [of n buf "[a, b]" c ws] get32_words [of n buf "[a, b, c]" d ws]
    get32_words [of n buf "[a, b, c, d]" e ws]
  by simp_all

lemma rbind_check_eq_Inr: "rbind (check b) (\<lambda>_. Inr x) = Inr y \<longleftrightarrow> b \<and> x = y"
  by (cases b) auto

locale struct_codec =
  fixes sz :: nat
    and ser :: "endian \<Rightarrow> 'm \<Rightarrow> byte list \<Rightarrow> byte list"
    and deser :: "endian \<Rightarrow> Message \<Rightarrow> 'm res"
    and fields :: "'m \<Rightarrow> u32 list"
  assumes sz_fields: "sz = 4 * length (fields m)"
    and fields_inject: "fields m = fields m' \<Longrightarrow> m = m'"
    and ser_image: "length buf = sz \<Longrightarrow> ser en m buf = wire_words (fields m)"
    and deser_image: "m_n message = sz \<Longrightarrow> take sz (m_buffer message) = wire_words (fields m) \<Longrightarrow>
          deser en message = Inr m"
    and deser_size: "deser en message = Inr m \<Longrightarrow> m_n message = sz"
    and deser_reject: "m_n message \<noteq> sz \<Longrightarrow> deser en message = Inl CheckFailed"
begin

lemma ser_length: "length buf = sz \<Longrightarrow> length (ser en m buf) = sz"
  using sz_fields by (simp add: ser_image)

lemma ser_portable:
  "length buf = sz \<Longrightarrow> length buf' = sz \<Longrightarrow> ser en m buf = ser en' m buf'"
  by (simp add: ser_image)

lemma ser_inject:
  "length buf = sz \<Longrightarrow> length buf' = sz \<Longrightarrow> ser en m buf = ser en' m' buf' \<longleftrightarrow> m = m'"
  using fields_inject by (auto simp: ser_image wire_words_inject)

lemma roundtrip:
  assumes "length buf = sz" and "sz \<le> MAX_BUFFER_SIZE"
  shows "deser en' (received (ser en m buf) junk from) = Inr m"
proof (rule deser_image)
  have len: "length (ser en m buf) = sz" using assms(1) by (rule ser_length)
  with assms(2) show "m_n (received (ser en m buf) junk from) = sz" by simp
  from len assms have "take sz (m_buffer (received (ser en m buf) junk from)) = ser en m buf"
    by (simp add: take_received)
  with assms(1) show "take sz (m_buffer (received (ser en m buf) junk from)) = wire_words (fields m)"
    by (simp add: ser_image)
qed

end

end
