(* ===== verification/Decimal.thy ===== *)
theory Decimal
  imports Prelude
begin

text \<open>
  Decimal output of unsigned integers, as \<open>std::ostream\<close> and \<open>std::to_string\<close> print them, and the
  fact that the printed text determines the number, also in front of other text.
\<close>

definition digit_char :: "nat \<Rightarrow> char" where
  "digit_char d = char_of (48 + d)"

definition is_digit :: "char \<Rightarrow> bool" where
  "is_digit c \<longleftrightarrow> 48 \<le> (of_char c :: nat) \<and> (of_char c :: nat) \<le> 57"

fun show_nat :: "nat \<Rightarrow> string" where
  "show_nat n = (if n < 10 then [digit_char n] else show_nat (n div 10) @ [digit_char (n mod 10)])"

declare show_nat.simps [simp del]

definition show_u32 :: "u32 \<Rightarrow> string" where
  "show_u32 w = show_nat (unat w)"

text \<open>Reading digits back: the inverse, used to show that printing loses nothing.\<close>

definition read_nat :: "string \<Rightarrow> nat" where
  "read_nat s = foldl (\<lambda>n c. 10 * n + (of_char c - 48)) 0 s"

lemma of_char_digit: "d < 10 \<Longrightarrow> (of_char (digit_char d) :: nat) = 48 + d"
  by (simp add: digit_char_def)

lemma is_digit_digit_char: "d < 10 \<Longrightarrow> is_digit (digit_char d)"
  by (simp add: is_digit_def of_char_digit)

lemma show_nat_digits: "c \<in> set (show_nat n) \<Longrightarrow> is_digit c"
proof (induction n rule: show_nat.induct)
  case (1 n)
  then show ?case
    by (cases "n < 10") (auto simp: show_nat.simps [of n] is_digit_digit_char)
qed

lemma read_show_nat [simp]: "read_nat (show_nat n) = n"
proof (induction n rule: show_nat.induct)
  case (1 n)
  then show ?case
    by (cases "n < 10") (simp_all add: show_nat.simps [of n] read_nat_def of_char_digit)
qed

lemma show_nat_inject [simp]: "show_nat m = show_nat n \<longleftrightarrow> m = n"
  by (metis read_show_nat)

text \<open>A number followed by a character that is not a digit is read off unambiguously.\<close>

lemma show_nat_append_inject:
  assumes eq: "show_nat m @ c # xs = show_nat n @ c # ys" and c: "\<not> is_digit c"
  shows "m = n \<and> xs = ys"
proof -
  have cut: "takeWhile is_digit (show_nat k @ c # zs) = show_nat k" for k zs
    using c show_nat_digits by (subst takeWhile_append2) auto
  from eq have "takeWhile is_digit (show_nat m @ c # xs) = takeWhile is_digit (show_nat n @ c # ys)"
    by simp
  then have "m = n" by (simp add: cut)
  with eq show ?thesis by simp
qed

lemma show_u32_inject [simp]: "show_u32 v = show_u32 w \<longleftrightarrow> v = w"
  by (auto simp: show_u32_def intro: unsigned_word_eqI)

lemma show_u32_append_inject:
  assumes "\<not> is_digit c"
  shows "show_u32 v @ c # xs = show_u32 w @ c # ys \<longleftrightarrow> v = w \<and> xs = ys"
  using show_nat_append_inject [of "unat v" c xs "unat w" ys] assms
  by (auto simp: show_u32_def intro: unsigned_word_eqI)

end
