(* ===== verification/Lab1Wire.thy ===== *)
theory Lab1Wire
  imports Codec Decimal
begin

text \<open>
  The message types of lab1 (\<open>common/message.h\<close>), their printing (\<open>common/message.cpp\<close>) and their
  serialization (\<open>common/serde.cpp\<close>). Each struct is a record of 32-bit fields; the serializers
  write the fields in the order of the source, the deserializers check the size first. The
  interpretations at the end establish the codec contract for all five types.
\<close>

section \<open>Message types\<close>

datatype MessageType = Data | Ack | Seq | SeqAck | Marker | UnknownType u32

text \<open>The enumerators' values, and the \<open>static_cast\<close> from the wire value.\<close>

fun messageTypeCode :: "MessageType \<Rightarrow> u32" where
  "messageTypeCode Data = 1"
| "messageTypeCode Ack = 2"
| "messageTypeCode Seq = 3"
| "messageTypeCode SeqAck = 4"
| "messageTypeCode Marker = 5"
| "messageTypeCode (UnknownType w) = w"

definition messageTypeOf :: "u32 \<Rightarrow> MessageType" where
  "messageTypeOf w =
     (if w = 1 then Data else if w = 2 then Ack else if w = 3 then Seq
      else if w = 4 then SeqAck else if w = 5 then Marker else UnknownType w)"

lemma messageTypeCode_messageTypeOf [simp]: "messageTypeCode (messageTypeOf w) = w"
  by (simp add: messageTypeOf_def)

lemma messageTypeOf_code [simp]:
  "messageTypeOf 1 = Data" "messageTypeOf 2 = Ack" "messageTypeOf 3 = Seq"
  "messageTypeOf 4 = SeqAck" "messageTypeOf 5 = Marker"
  by (simp_all add: messageTypeOf_def)

record DataMessage =
  d_type :: u32
  d_sender :: u32
  d_msg_id :: u32
  d_data :: u32

record AckMessage =
  a_type :: u32
  a_sender :: u32
  a_msg_id :: u32
  a_proposed_seq :: u32
  a_proposer :: u32

record SeqMessage =
  s_type :: u32
  s_sender :: u32
  s_msg_id :: u32
  s_final_seq :: u32
  s_final_seq_proposer :: u32

record SeqAckMessage =
  sa_type :: u32
  sa_sender :: u32
  sa_msg_id :: u32
  sa_ack_sender :: u32

record MarkerMessage =
  mk_type :: u32
  mk_sender :: u32

definition sizeof_DataMessage :: nat where
  "sizeof_DataMessage = 16"

definition sizeof_AckMessage :: nat where
  "sizeof_AckMessage = 20"

definition sizeof_SeqMessage :: nat where
  "sizeof_SeqMessage = 20"

definition sizeof_SeqAckMessage :: nat where
  "sizeof_SeqAckMessage = 16"

definition sizeof_MarkerMessage :: nat where
  "sizeof_MarkerMessage = 8"

section \<open>Printing\<close>

text \<open>
  The stream output operators. A message type that is none of the enumerators makes
  \<open>operator<<\<close> throw a \<open>std::runtime_error\<close>.
\<close>

fun showMessageType :: "MessageType \<Rightarrow> string res" where
  "showMessageType Data = Inr ''DataMsg''"
| "showMessageType Ack = Inr ''AckMsg''"
| "showMessageType Seq = Inr ''SeqMsg''"
| "showMessageType SeqAck = Inr ''SeqAckMsg''"
| "showMessageType Marker = Inr ''MarkerMsg''"
| "showMessageType (UnknownType w) = Inl RuntimeError"

definition showDataMessage :: "DataMessage \<Rightarrow> string" where
  "showDataMessage m =
     ''type: '' @ show_u32 (d_type m) @
     '', sender: '' @ show_u32 (d_sender m) @
     '', msg_id: '' @ show_u32 (d_msg_id m) @
     '', data: '' @ show_u32 (d_data m)"

definition showAckMessage :: "AckMessage \<Rightarrow> string" where
  "showAckMessage m =
     ''type: '' @ show_u32 (a_type m) @
     '', sender: '' @ show_u32 (a_sender m) @
     '', msg_id: '' @ show_u32 (a_msg_id m) @
     '', proposed_seq: '' @ show_u32 (a_proposed_seq m) @
     '', proposer: '' @ show_u32 (a_proposer m)"

definition showSeqMessage :: "SeqMessage \<Rightarrow> string" where
  "showSeqMessage m =
     ''type: '' @ show_u32 (s_type m) @
     '', sender: '' @ show_u32 (s_sender m) @
     '', msg_id: '' @ show_u32 (s_msg_id m) @
     '', final_seq: '' @ show_u32 (s_final_seq m) @
     '', final_seq_proposer: '' @ show_u32 (s_final_seq_proposer m)"

definition showSeqAckMessage :: "SeqAckMessage \<Rightarrow> string" where
  "showSeqAckMessage m =
     ''type: '' @ show_u32 (sa_type m) @
     '', sender: '' @ show_u32 (sa_sender m) @
     '', msg_id: '' @ show_u32 (sa_msg_id m) @
     '', ack_sender: '' @ show_u32 (sa_ack_sender m)"

definition showMarkerMessage :: "MarkerMessage \<Rightarrow> string" where
  "showMarkerMessage m =
     ''type: '' @ show_u32 (mk_type m) @
     '', sender: '' @ show_u32 (mk_sender m)"

section \<open>Serialization\<close>

text \<open>\<open>Serde::getMessageType\<close>.\<close>

definition getMessageType :: "endian \<Rightarrow> Message \<Rightarrow> MessageType res" where
  "getMessageType en message = rbind (getTypeWord en message) (\<lambda>w. Inr (messageTypeOf w))"

definition serializeDataMessage :: "endian \<Rightarrow> DataMessage \<Rightarrow> byte list \<Rightarrow> byte list" where
  "serializeDataMessage en m buffer =
    (let buffer = put32 en 12 (htonl en (d_data m)) buffer;
         buffer = put32 en 4 (htonl en (d_sender m)) buffer;
         buffer = put32 en 8 (htonl en (d_msg_id m)) buffer;
         buffer = put32 en 0 (htonl en (d_type m)) buffer
     in buffer)"

definition serializeAckMessage :: "endian \<Rightarrow> AckMessage \<Rightarrow> byte list \<Rightarrow> byte list" where
  "serializeAckMessage en m buffer =
    (let buffer = put32 en 0 (htonl en (a_type m)) buffer;
         buffer = put32 en 4 (htonl en (a_sender m)) buffer;
         buffer = put32 en 8 (htonl en (a_msg_id m)) buffer;
         buffer = put32 en 12 (htonl en (a_proposed_seq m)) buffer;
         buffer = put32 en 16 (htonl en (a_proposer m)) buffer
     in buffer)"

definition serializeSeqMessage :: "endian \<Rightarrow> SeqMessage \<Rightarrow> byte list \<Rightarrow> byte list" where
  "serializeSeqMessage en m buffer =
    (let buffer = put32 en 0 (htonl en (s_type m)) buffer;
         buffer = put32 en 4 (htonl en (s_sender m)) buffer;
         buffer = put32 en 8 (htonl en (s_msg_id m)) buffer;
         buffer = put32 en 12 (htonl en (s_final_seq m)) buffer;
         buffer = put32 en 16 (htonl en (s_final_seq_proposer m)) buffer
     in buffer)"

definition serializeSeqAckMessage :: "endian \<Rightarrow> SeqAckMessage \<Rightarrow> byte list \<Rightarrow> byte list" where
  "serializeSeqAckMessage en m buffer =
    (let buffer = put32 en 0 (htonl en (sa_type m)) buffer;
         buffer = put32 en 4 (htonl en (sa_sender m)) buffer;
         buffer = put32 en 8 (htonl en (sa_msg_id m)) buffer;
         buffer = put32 en 12 (htonl en (sa_ack_sender m)) buffer
     in buffer)"

definition serializeMarkerMessage :: "endian \<Rightarrow> MarkerMessage \<Rightarrow> byte list \<Rightarrow> byte list" where
  "serializeMarkerMessage en m buffer =
    (let buffer = put32 en 0 (htonl en (mk_type m)) buffer;
         buffer = put32 en 4 (htonl en (mk_sender m)) buffer
     in buffer)"

definition deserializeDataMsg :: "endian \<Rightarrow> Message \<Rightarrow> DataMessage res" where
  "deserializeDataMsg en message =
     rbind (check (m_n message = sizeof_DataMessage)) (\<lambda>_.
       Inr \<lparr>d_type = ntohl en (get32 en 0 (m_buffer message)),
              d_sender = ntohl en (get32 en 4 (m_buffer message)),
              d_msg_id = ntohl en (get32 en 8 (m_buffer message)),
              d_data = ntohl en (get32 en 12 (m_buffer message))\<rparr>)"

definition deserializeAckMessage :: "endian \<Rightarrow> Message \<Rightarrow> AckMessage res" where
  "deserializeAckMessage en message =
     rbind (check (m_n message = sizeof_AckMessage)) (\<lambda>_.
       Inr \<lparr>a_type = ntohl en (get32 en 0 (m_buffer message)),
              a_sender = ntohl en (get32 en 4 (m_buffer message)),
              a_msg_id = ntohl en (get32 en 8 (m_buffer message)),
              a_proposed_seq = ntohl en (get32 en 12 (m_buffer message)),
              a_proposer = ntohl en (get32 en 16 (m_buffer message))\<rparr>)"

definition deserializeSeqMessage :: "endian \<Rightarrow> Message \<Rightarrow> SeqMessage res" where
  "deserializeSeqMessage en message =
     rbind (check (m_n message = sizeof_SeqMessage)) (\<lambda>_.
       Inr \<lparr>s_type = ntohl en (get32 en 0 (m_buffer message)),
              s_sender = ntohl en (get32 en 4 (m_buffer message)),
              s_msg_id = ntohl en (get32 en 8 (m_buffer message)),
              s_final_seq = ntohl en (get32 en 12 (m_buffer message)),
              s_final_seq_proposer = ntohl en (get32 en 16 (m_buffer message))\<rparr>)"

definition deserializeSeqAckMessage :: "endian \<Rightarrow> Message \<Rightarrow> SeqAckMessage res" where
  "deserializeSeqAckMessage en message =
     rbind (check (m_n message = sizeof_SeqAckMessage)) (\<lambda>_.
       Inr \<lparr>sa_type = ntohl en (get32 en 0 (m_buffer message)),
              sa_sender = ntohl en (get32 en 4 (m_buffer message)),
              sa_msg_id = ntohl en (get32 en 8 (m_buffer message)),
              sa_ack_sender = ntohl en (get32 en 12 (m_buffer message))\<rparr>)"

definition deserializeMarkerMessage :: "endian \<Rightarrow> Message \<Rightarrow> MarkerMessage res" where
  "deserializeMarkerMessage en message =
     rbind (check (m_n message = sizeof_MarkerMessage)) (\<lambda>_.
       Inr \<lparr>mk_type = ntohl en (get32 en 0 (m_buffer message)),
              mk_sender = ntohl en (get32 en 4 (m_buffer message))\<rparr>)"

section \<open>The codec contract\<close>

definition fieldsDataMessage :: "DataMessage \<Rightarrow> u32 list" where
  "fieldsDataMessage m = [d_type m, d_sender m, d_msg_id m, d_data m]"

definition fieldsAckMessage :: "AckMessage \<Rightarrow> u32 list" where
  "fieldsAckMessage m = [a_type m, a_sender m, a_msg_id m, a_proposed_seq m, a_proposer m]"

definition fieldsSeqMessage :: "SeqMessage \<Rightarrow> u32 list" where
  "fieldsSeqMessage m = [s_type m, s_sender m, s_msg_id m, s_final_seq m, s_final_seq_proposer m]"

definition fieldsSeqAckMessage :: "SeqAckMessage \<Rightarrow> u32 list" where
  "fieldsSeqAckMessage m = [sa_type m, sa_sender m, sa_msg_id m, sa_ack_sender m]"

definition fieldsMarkerMessage :: "MarkerMessage \<Rightarrow> u32 list" where
  "fieldsMarkerMessage m = [mk_type m, mk_sender m]"

lemmas lab1_codec_defs =
  sizeof_DataMessage_def serializeDataMessage_def deserializeDataMsg_def fieldsDataMessage_def
  sizeof_AckMessage_def serializeAckMessage_def deserializeAckMessage_def fieldsAckMessage_def
  sizeof_SeqMessage_def serializeSeqMessage_def deserializeSeqMessage_def fieldsSeqMessage_def
  sizeof_SeqAckMessage_def serializeSeqAckMessage_def deserializeSeqAckMessage_def
  fieldsSeqAckMessage_def
  sizeof_MarkerMessage_def serializeMarkerMessage_def deserializeMarkerMessage_def
  fieldsMarkerMessage_def

interpretation data_codec:
  struct_codec sizeof_DataMessage serializeDataMessage deserializeDataMsg fieldsDataMessage
  by unfold_locales
    (auto simp: lab1_codec_defs put32_words get32_fields rbind_check_eq_Inr dest!: words_of_buffer)

interpretation ack_codec:
  struct_codec sizeof_AckMessage serializeAckMessage deserializeAckMessage fieldsAckMessage
  by unfold_locales
    (auto simp: lab1_codec_defs put32_words get32_fields rbind_check_eq_Inr dest!: words_of_buffer)

interpretation seq_codec:
  struct_codec sizeof_SeqMessage serializeSeqMessage deserializeSeqMessage fieldsSeqMessage
  by unfold_locales
    (auto simp: lab1_codec_defs put32_words get32_fields rbind_check_eq_Inr dest!: words_of_buffer)

interpretation seqAck_codec:
  struct_codec sizeof_SeqAckMessage serializeSeqAckMessage deserializeSeqAckMessage fieldsSeqAckMessage
  by unfold_locales
    (auto simp: lab1_codec_defs put32_words get32_fields rbind_check_eq_Inr dest!: words_of_buffer)

interpretation marker_codec:
  struct_codec sizeof_MarkerMessage serializeMarkerMessage deserializeMarkerMessage fieldsMarkerMessage
  by unfold_locales
    (auto simp: lab1_codec_defs put32_words get32_fields rbind_check_eq_Inr dest!: words_of_buffer)

end
