(* ===== verification/HoldBack.thy ===== *)
theory HoldBack
  imports Lab1Wire "HOL-Library.Product_Lexorder" "HOL-Library.Multiset"
begin

text \<open>
  The hold-back queue of the multicast service (\<open>MsgIdentifier\<close>, \<open>PendingMsg\<close> and \<open>HoldBackQueue\<close>
  of \<open>part1/multicast.h\<close> and \<open>part1/multicast.cpp\<close>). \<open>PendingMsg::operator<\<close> becomes the order of
  the type \<open>PendKey\<close>, which is shown to be linear, so that \<open>std::sort\<close> on the queue is
  \<open>sort_key pm_key\<close>. The delivery callback's calls are returned as a list. The invariant
  \<open>order_ok\<close> relates the messages delivered so far, the queue and the latest sequence number; it is
  what makes the delivery order the order of the final sequence numbers.
\<close>

section \<open>Pending messages and their order\<close>

datatype MsgIdentifier = MsgIdentifier (mi_msgId: u32) (mi_sender: u32)

text \<open>
  The equality and the hash function with which the hash tables of the service are declared;
  \<open>std::hash\<close> is an argument. The equality is that of the type and the hash function fits it, so that
  the tables behave as sets and maps.
\<close>

definition msgIdentifierEq :: "MsgIdentifier \<Rightarrow> MsgIdentifier \<Rightarrow> bool" where
  "msgIdentifierEq i other \<longleftrightarrow> mi_msgId i = mi_msgId other \<and> mi_sender i = mi_sender other"

definition msgIdentifierHash :: "(u32 \<Rightarrow> 64 word) \<Rightarrow> MsgIdentifier \<Rightarrow> 64 word" where
  "msgIdentifierHash std_hash i =
     (let msgIdHash = std_hash (mi_msgId i); senderIdHash = std_hash (mi_sender i)
      in msgIdHash XOR push_bit 1 senderIdHash)"

lemma msgIdentifierEq_iff: "msgIdentifierEq i j \<longleftrightarrow> i = j"
  by (cases i; cases j) (simp add: msgIdentifierEq_def)

lemma msgIdentifierHash_fits: "msgIdentifierEq i j \<Longrightarrow> msgIdentifierHash h i = msgIdentifierHash h j"
  by (simp add: msgIdentifierEq_iff)

record PendingMsg =
  dataMsg :: DataMessage
  finalSeqId :: u32
  finalSeqProposer :: u32
  deliverable :: bool

definition newPendingMsg :: "DataMessage \<Rightarrow> u32 \<Rightarrow> u32 \<Rightarrow> PendingMsg" where
  "newPendingMsg d proposedSeq proposer =
     \<lparr>dataMsg = d, finalSeqId = proposedSeq, finalSeqProposer = proposer, deliverable = False\<rparr>"

text \<open>\<open>PendingMsg::operator<\<close>.\<close>

definition pendingMsgLess :: "PendingMsg \<Rightarrow> PendingMsg \<Rightarrow> bool" where
  "pendingMsgLess p other =
     (if finalSeqId p = finalSeqId other
      then (if deliverable p = deliverable other
            then finalSeqProposer p < finalSeqProposer other
            else deliverable other)
      else finalSeqId p < finalSeqId other)"

datatype PendKey = PendKey (pk_seq: u32) (pk_deliverable: bool) (pk_proposer: u32)

definition pm_key :: "PendingMsg \<Rightarrow> PendKey" where
  "pm_key p = PendKey (finalSeqId p) (deliverable p) (finalSeqProposer p)"

instantiation PendKey :: linorder
begin

definition less_PendKey :: "PendKey \<Rightarrow> PendKey \<Rightarrow> bool" where
  "less_PendKey k other =
     (if pk_seq k = pk_seq other
      then (if pk_deliverable k = pk_deliverable other
            then pk_proposer k < pk_proposer other
            else pk_deliverable other)
      else pk_seq k < pk_seq other)"

definition less_eq_PendKey :: "PendKey \<Rightarrow> PendKey \<Rightarrow> bool" where
  "less_eq_PendKey k other \<longleftrightarrow> k = other \<or> k < other"

instance
proof
  fix x y z :: PendKey
  show "x < y \<longleftrightarrow> x \<le> y \<and> \<not> y \<le> x"
    by (cases x; cases y) (auto simp: less_PendKey_def less_eq_PendKey_def split: if_splits)
  show "x \<le> y \<Longrightarrow> y \<le> z \<Longrightarrow> x \<le> z"
    by (cases x; cases y; cases z) (auto simp: less_PendKey_def less_eq_PendKey_def split: if_splits)
  show "x \<le> y \<Longrightarrow> y \<le> x \<Longrightarrow> x = y"
    by (cases x; cases y) (auto simp: less_PendKey_def less_eq_PendKey_def split: if_splits)
  show "x \<le> y \<or> y \<le> x"
    by (cases x; cases y) (auto simp: less_PendKey_def less_eq_PendKey_def split: if_splits)
qed (simp add: less_eq_PendKey_def)

end

lemma pendingMsgLess_key: "pendingMsgLess p q \<longleftrightarrow> pm_key p < pm_key q"
  by (simp add: pendingMsgLess_def pm_key_def less_PendKey_def)

lemma less_PendKey_simps [simp]:
  "PendKey s True r < PendKey s' True r' \<longleftrightarrow> (s, r) < (s', r')"
  "PendKey s False r < PendKey s' False r' \<longleftrightarrow> (s, r) < (s', r')"
  "PendKey s True r < PendKey s' False r' \<longleftrightarrow> s < s'"
  "PendKey s False r < PendKey s' True r' \<longleftrightarrow> s \<le> s'"
  by (auto simp: less_PendKey_def)

text \<open>
  \<open>std::sort\<close> is free in how it orders equivalent elements. Whatever sorted permutation it
  produces, it is the one of the model when the keys are distinct.
\<close>

lemma sorted_permutation_unique:
  assumes perm: "mset ys = mset xs" and sorted: "sorted_wrt (\<lambda>p q. \<not> pendingMsgLess q p) ys"
    and keys: "distinct (map pm_key xs)"
  shows "ys = sort_key pm_key xs"
proof -
  have sets: "set ys = set xs" using perm by (rule mset_eq_setD)
  have "mset (map pm_key ys) = mset (map pm_key xs)" by (simp add: perm)
  then have "distinct (map pm_key ys)" using keys mset_eq_imp_distinct_iff by blast
  moreover have "distinct (map pm_key (sort_key pm_key xs))"
    using keys by (simp add: distinct_map)
  moreover have "sorted (map pm_key ys)"
    using sorted by (simp add: pendingMsgLess_key sorted_wrt_map not_less)
  ultimately show ?thesis
    using keys sets by (intro map_sorted_distinct_set_unique [of pm_key]) (auto simp: distinct_map)
qed

section \<open>The queue\<close>

record HoldBackQueue =
  pendingMsgSet :: "MsgIdentifier set"
  deque :: "PendingMsg list"

definition newHoldBackQueue :: HoldBackQueue where
  "newHoldBackQueue = \<lparr>pendingMsgSet = {}, deque = []\<rparr>"

definition data_id :: "DataMessage \<Rightarrow> MsgIdentifier" where
  "data_id d = MsgIdentifier (d_msg_id d) (d_sender d)"

definition seq_id :: "SeqMessage \<Rightarrow> MsgIdentifier" where
  "seq_id m = MsgIdentifier (s_msg_id m) (s_sender m)"

definition pm_id :: "PendingMsg \<Rightarrow> MsgIdentifier" where
  "pm_id p = data_id (dataMsg p)"

definition addToQueue ::
  "DataMessage \<Rightarrow> u32 \<Rightarrow> u32 \<Rightarrow> HoldBackQueue \<Rightarrow> bool \<times> HoldBackQueue" where
  "addToQueue d proposedSeq proposer q =
     (if data_id d \<notin> pendingMsgSet q
      then (True, q\<lparr>pendingMsgSet := insert (data_id d) (pendingMsgSet q),
                    deque := deque q @ [newPendingMsg d proposedSeq proposer]\<rparr>)
      else (False, q))"

text \<open>The loop that marks the first entry with the message's id.\<close>

fun markFirst :: "SeqMessage \<Rightarrow> PendingMsg list \<Rightarrow> bool \<times> PendingMsg list" where
  "markFirst seqMsg [] = (False, [])"
| "markFirst seqMsg (p # ps) =
     (if d_msg_id (dataMsg p) = s_msg_id seqMsg \<and> d_sender (dataMsg p) = s_sender seqMsg
      then (True, p\<lparr>deliverable := True, finalSeqId := s_final_seq seqMsg,
                    finalSeqProposer := s_final_seq_proposer seqMsg\<rparr> # ps)
      else (let (marked, ps') = markFirst seqMsg ps in (marked, p # ps')))"

text \<open>
  The delivery loop: messages delivered, entries left, and the id set. It is the id of the
  sequence message, not that of the delivered message, that is erased from the set.
\<close>

fun deliverLoop ::
  "MsgIdentifier \<Rightarrow> PendingMsg list \<Rightarrow> MsgIdentifier set \<Rightarrow>
     PendingMsg list \<times> PendingMsg list \<times> MsgIdentifier set" where
  "deliverLoop i [] ids = ([], [], ids)"
| "deliverLoop i (p # ps) ids =
     (if deliverable p
      then (let (delivered, rest, ids') = deliverLoop i ps (ids - {i}) in (p # delivered, rest, ids'))
      else ([], p # ps, ids))"

definition markDeliverable ::
  "SeqMessage \<Rightarrow> HoldBackQueue \<Rightarrow> bool \<times> HoldBackQueue \<times> PendingMsg list" where
  "markDeliverable seqMsg q =
     (if seq_id seqMsg \<in> pendingMsgSet q
      then (let (marked, ps) = markFirst seqMsg (deque q);
                (delivered, rest, ids) =
                  deliverLoop (seq_id seqMsg) (sort_key pm_key ps) (pendingMsgSet q)
            in (marked, q\<lparr>pendingMsgSet := ids, deque := rest\<rparr>, delivered))
      else (False, q, []))"

section \<open>What the operations do\<close>

lemma deliverLoop_eq:
  "deliverLoop i ps ids =
     (takeWhile deliverable ps, dropWhile deliverable ps,
      if takeWhile deliverable ps = [] then ids else ids - {i})"
  by (induction ps arbitrary: ids) (auto split: if_splits)


lemma markFirst_absent:
  "seq_id m \<notin> pm_id ` set ps \<Longrightarrow> markFirst m ps = (False, ps)"
  by (induction ps) (auto simp: pm_id_def seq_id_def data_id_def)

definition marked_entry :: "SeqMessage \<Rightarrow> PendingMsg \<Rightarrow> PendingMsg" where
  "marked_entry m p = p\<lparr>deliverable := True, finalSeqId := s_final_seq m,
     finalSeqProposer := s_final_seq_proposer m\<rparr>"

lemma marked_entry_simps [simp]:
  "dataMsg (marked_entry m p) = dataMsg p" "pm_id (marked_entry m p) = pm_id p"
  "deliverable (marked_entry m p)" "finalSeqId (marked_entry m p) = s_final_seq m"
  "finalSeqProposer (marked_entry m p) = s_final_seq_proposer m"
  by (simp_all add: marked_entry_def pm_id_def)

lemma markFirst_split:
  assumes "pm_id p = seq_id m" and "seq_id m \<notin> pm_id ` set before"
  shows "markFirst m (before @ p # after) = (True, before @ marked_entry m p # after)"
  using assms(2)
proof (induction before)
  case Nil
  show ?case using assms(1) by (simp add: pm_id_def seq_id_def data_id_def marked_entry_def)
next
  case (Cons x xs)
  then show ?case by (auto simp: pm_id_def seq_id_def data_id_def)
qed

lemma markFirst_result: "fst (markFirst m ps) \<longleftrightarrow> seq_id m \<in> pm_id ` set ps"
  by (induction ps) (auto simp: pm_id_def seq_id_def data_id_def split_beta)

lemma markFirst_dataMsg: "map dataMsg (snd (markFirst m ps)) = map dataMsg ps"
  by (induction ps) (auto simp: split_beta)

text \<open>
  C31: what a sequence message does to the queue. If its message is pending and \<open>x\<close> is the first entry
  of the message, then the entries delivered and those left are together all other entries, unchanged,
  and \<open>x\<close> with its final number, deliverable; they are delivered in the order of \<open>operator<\<close>; exactly the
  entries in front of the first undeliverable one are delivered; and the id of the sequence message is
  erased if anything is delivered.
\<close>

theorem markDeliverable_conserves:
  assumes "seq_id m \<in> pendingMsgSet q" and "deque q = before @ x # after"
    and "pm_id x = seq_id m" and "seq_id m \<notin> pm_id ` set before"
  shows "\<exists>q' delivered. markDeliverable m q = (True, q', delivered) \<and>
    mset (delivered @ deque q') = mset before + {#x\<lparr>deliverable := True, finalSeqId := s_final_seq m,
      finalSeqProposer := s_final_seq_proposer m\<rparr>#} + mset after \<and>
    sorted (map pm_key (delivered @ deque q')) \<and>
    (\<forall>p \<in> set delivered. deliverable p) \<and> (deque q' \<noteq> [] \<longrightarrow> \<not> deliverable (hd (deque q'))) \<and>
    pendingMsgSet q' = (if delivered = [] then pendingMsgSet q else pendingMsgSet q - {seq_id m})"
proof -
  let ?ps = "sort_key pm_key (before @ marked_entry m x # after)"
  let ?q' = "q\<lparr>pendingMsgSet := if takeWhile deliverable ?ps = [] then pendingMsgSet q else pendingMsgSet q - {seq_id m},
    deque := dropWhile deliverable ?ps\<rparr>"
  have "markDeliverable m q = (True, ?q', takeWhile deliverable ?ps)"
    using assms markFirst_split [OF assms(3,4), of after]
    by (simp add: markDeliverable_def deliverLoop_eq)
  moreover have all: "takeWhile deliverable ?ps @ deque ?q' = ?ps" by simp
  have "mset (takeWhile deliverable ?ps @ deque ?q') = mset before + {#marked_entry m x#} + mset after"
    unfolding all by simp
  moreover have "sorted (map pm_key (takeWhile deliverable ?ps @ deque ?q'))"
    unfolding all by simp
  moreover have "\<forall>p \<in> set (takeWhile deliverable ?ps). deliverable p" by (auto dest: set_takeWhileD)
  moreover have "deque ?q' \<noteq> [] \<longrightarrow> \<not> deliverable (hd (deque ?q'))"
    using hd_dropWhile [of deliverable ?ps] by simp
  ultimately show ?thesis unfolding marked_entry_def [symmetric]
    by (intro exI [of _ ?q'] exI [of _ "takeWhile deliverable ?ps"] conjI) (assumption | simp)+
qed

theorem markDeliverable_conserves_witness:
  "let d = \<lparr>d_type = 1, d_sender = 2, d_msg_id = 1, d_data = 12\<rparr>;
       e = \<lparr>d_type = 1, d_sender = 1, d_msg_id = 1, d_data = 11\<rparr>;
       q = snd (addToQueue e 2 1 (snd (addToQueue d 1 1 newHoldBackQueue)));
       m = \<lparr>s_type = 3, s_sender = 1, s_msg_id = 1, s_final_seq = 3, s_final_seq_proposer = 2\<rparr>
   in \<exists>q' delivered. markDeliverable m q = (True, q', delivered) \<and>
        mset (delivered @ deque q') = {#newPendingMsg d 1 1, marked_entry m (newPendingMsg e 2 1)#}"
proof -
  let ?d = "\<lparr>d_type = 1, d_sender = 2, d_msg_id = 1, d_data = 12\<rparr>"
  let ?e = "\<lparr>d_type = 1, d_sender = 1, d_msg_id = 1, d_data = 11\<rparr>"
  let ?q = "snd (addToQueue ?e 2 1 (snd (addToQueue ?d 1 1 newHoldBackQueue)))"
  let ?m = "\<lparr>s_type = 3, s_sender = 1, s_msg_id = 1, s_final_seq = 3, s_final_seq_proposer = 2\<rparr>"
  have "seq_id ?m \<in> pendingMsgSet ?q" "deque ?q = [newPendingMsg ?d 1 1] @ newPendingMsg ?e 2 1 # []"
    "pm_id (newPendingMsg ?e 2 1) = seq_id ?m" "seq_id ?m \<notin> pm_id ` set [newPendingMsg ?d 1 1]"
    by (simp_all add: addToQueue_def newHoldBackQueue_def data_id_def seq_id_def pm_id_def newPendingMsg_def)
  from markDeliverable_conserves [OF this] show ?thesis
    by (auto simp: Let_def marked_entry_def add_mset_commute)
qed

section \<open>Delivery in the order of the final sequence numbers\<close>

text \<open>
  The key by which all processes agree on the order of two messages: the final sequence number,
  then the process that proposed it.
\<close>

definition seqKey :: "PendingMsg \<Rightarrow> u32 \<times> u32" where
  "seqKey p = (finalSeqId p, finalSeqProposer p)"

text \<open>
  The invariant between the log of delivered messages, the queue and \<open>latestSeqId\<close>: the log is
  strictly ascending in the key, the queue in \<open>operator<\<close>; no sequence number exceeds the latest
  one; what has been delivered lies below what is in the queue, strictly below every proposal; and
  the head of the queue waits for its final number.
\<close>

definition order_ok :: "u32 \<Rightarrow> PendingMsg list \<Rightarrow> PendingMsg list \<Rightarrow> bool" where
  "order_ok latest log dq \<longleftrightarrow>
     sorted_wrt (<) (map seqKey log) \<and> sorted_wrt (<) (map pm_key dq) \<and>
     (\<forall>p \<in> set log \<union> set dq. finalSeqId p \<le> latest) \<and>
     (\<forall>p \<in> set log. \<forall>x \<in> set dq.
        if deliverable x then seqKey p < seqKey x else finalSeqId p < finalSeqId x) \<and>
     (dq \<noteq> [] \<longrightarrow> \<not> deliverable (hd dq))"

lemma order_ok_init: "order_ok latest [] []"
  by (simp add: order_ok_def)

lemma order_ok_append:
  assumes ok: "order_ok latest log dq" and above: "latest < v"
  shows "order_ok v log (dq @ [newPendingMsg d v r])"
proof -
  have key: "pm_key x < pm_key (newPendingMsg d v r)" if "x \<in> set dq" for x
    using ok above that by (force simp: order_ok_def pm_key_def newPendingMsg_def less_PendKey_def)
  have le: "\<forall>p \<in> set log \<union> set dq. finalSeqId p < v"
    using ok above by (auto simp: order_ok_def intro: le_less_trans)
  with key ok show ?thesis
    by (auto simp: order_ok_def sorted_wrt_append newPendingMsg_def order_less_imp_le hd_append)
qed

lemma seqKey_marked: "seqKey (marked_entry m p) = (s_final_seq m, s_final_seq_proposer m)"
  by (simp add: seqKey_def)

lemma sort_key_sorted_id:
  "sorted_wrt (<) (map pm_key dq) \<Longrightarrow> sort_key pm_key dq = dq"
  by (intro sort_key_id_if_sorted strict_sorted_imp_sorted)

text \<open>Delivering from a strictly sorted queue, when the log lies below it.\<close>

lemma order_ok_deliver:
  assumes log: "sorted_wrt (<) (map seqKey log)"
    and keys: "distinct (map pm_key ps)"
    and latest: "\<forall>p \<in> set log \<union> set ps. finalSeqId p \<le> latest"
    and below: "\<forall>p \<in> set log. \<forall>x \<in> set ps.
        if deliverable x then seqKey p < seqKey x else finalSeqId p < finalSeqId x"
  shows "order_ok latest (log @ takeWhile deliverable (sort_key pm_key ps))
    (dropWhile deliverable (sort_key pm_key ps))"
proof -
  let ?s = "sort_key pm_key ps"
  let ?d = "takeWhile deliverable ?s" and ?r = "dropWhile deliverable ?s"
  have s: "sorted_wrt (<) (map pm_key (?d @ ?r))"
    using keys by (simp add: strict_sorted_iff distinct_map)
  have d: "\<forall>p \<in> set ?d. deliverable p" by (auto dest: set_takeWhileD)
  have sets: "set ?d \<subseteq> set ps" "set ?r \<subseteq> set ps"
    by (auto dest: set_takeWhileD set_dropWhileD)
  have key: "if deliverable x then seqKey p < seqKey x else finalSeqId p < finalSeqId x"
    if "pm_key p < pm_key x" "deliverable p" for p x
    using that by (auto simp: pm_key_def seqKey_def less_PendKey_def split: if_splits)
  have "sorted_wrt (\<lambda>p x. pm_key p < pm_key x) ?d"
    using s by (simp add: sorted_wrt_append sorted_wrt_map)
  then have "sorted_wrt (\<lambda>p x. seqKey p < seqKey x) ?d"
  proof (rule sorted_wrt_mono_rel [rotated])
    show "seqKey p < seqKey x" if "p \<in> set ?d" "x \<in> set ?d" "pm_key p < pm_key x" for p x
      using key [OF that(3)] d that(1,2) by auto
  qed
  moreover have "\<forall>p \<in> set log. \<forall>x \<in> set ?d. seqKey p < seqKey x"
    using below d sets(1) by (metis subsetD)
  ultimately have "sorted_wrt (<) (map seqKey (log @ ?d))"
    using log by (auto simp: sorted_wrt_append sorted_wrt_map)
  moreover have "\<forall>p \<in> set ?d. \<forall>x \<in> set ?r. pm_key p < pm_key x"
    using s unfolding map_append sorted_wrt_append by simp
  then have "\<forall>p \<in> set ?d. \<forall>x \<in> set ?r.
      if deliverable x then seqKey p < seqKey x else finalSeqId p < finalSeqId x"
    using d key by blast
  moreover have "?r \<noteq> [] \<longrightarrow> \<not> deliverable (hd ?r)"
    using hd_dropWhile by blast
  moreover have "sorted_wrt (<) (map pm_key ?r)"
    using s unfolding map_append sorted_wrt_append by simp
  ultimately show ?thesis
    unfolding order_ok_def using below latest sets
    by (intro conjI ballI) auto
qed

text \<open>
  Marking the entry of a message that waits for its final number keeps the invariant, provided the
  final number is at least this process's proposal and the key is not in use in the queue.
\<close>

lemma order_ok_mark:
  assumes ok: "order_ok latest log (before @ p # after)"
    and p: "\<not> deliverable p" "finalSeqId p \<le> s_final_seq m"
    and fresh: "\<forall>x \<in> set before \<union> set after. deliverable x \<longrightarrow>
        seqKey x \<noteq> (s_final_seq m, s_final_seq_proposer m)"
    and res: "ps = sort_key pm_key (before @ marked_entry m p # after)"
  shows "order_ok (max latest (s_final_seq m)) (log @ takeWhile deliverable ps)
    (dropWhile deliverable ps)"
  unfolding res
proof (rule order_ok_deliver)
  show "sorted_wrt (<) (map seqKey log)" using ok by (simp add: order_ok_def)
  have "pm_key x \<noteq> pm_key (marked_entry m p)" if "x \<in> set before \<union> set after" for x
    using fresh that by (auto simp: pm_key_def seqKey_def)
  moreover have "distinct (map pm_key (before @ p # after))"
    using ok by (auto simp: order_ok_def strict_sorted_iff)
  ultimately show "distinct (map pm_key (before @ marked_entry m p # after))" by fastforce
  show "\<forall>x \<in> set log \<union> set (before @ marked_entry m p # after).
      finalSeqId x \<le> max latest (s_final_seq m)"
    using ok by (auto simp: order_ok_def le_max_iff_disj)
  have "seqKey x < seqKey (marked_entry m p)" if "x \<in> set log" for x
  proof -
    have "finalSeqId x < finalSeqId p" using ok p(1) that by (auto simp: order_ok_def)
    with p(2) show ?thesis by (auto simp: seqKey_def)
  qed
  then show "\<forall>x \<in> set log. \<forall>y \<in> set (before @ marked_entry m p # after).
      if deliverable y then seqKey x < seqKey y else finalSeqId x < finalSeqId y"
    using ok by (auto simp: order_ok_def)
qed

text \<open>A queue that satisfies the invariant delivers nothing when it is sorted again.\<close>

lemma order_ok_idle:
  assumes "order_ok latest log dq"
  shows "sort_key pm_key dq = dq" and "takeWhile deliverable dq = []"
    and "dropWhile deliverable dq = dq"
proof -
  have sorted: "sorted_wrt (<) (map pm_key dq)" and head: "dq \<noteq> [] \<longrightarrow> \<not> deliverable (hd dq)"
    using assms by (simp_all add: order_ok_def)
  show "sort_key pm_key dq = dq" using sorted by (rule sort_key_sorted_id)
  show "takeWhile deliverable dq = []" using head by (cases dq) simp_all
  show "dropWhile deliverable dq = dq" using head by (cases dq) simp_all
qed

end
