(* ===== verification/Multicast.thy ===== *)
theory Multicast
  imports Sender HoldBack "HOL-Library.AList"
begin

text \<open>
  The class \<open>MulticastService\<close> of lab1 (\<open>part1/multicast.h\<close>, \<open>part1/multicast.cpp\<close>): the state of
  one process, \<open>multicast\<close>, the handlers of the four message types and one turn of the receiving
  loop. Handlers return the new state and the datagrams they send, or the fault they die of. The
  callback for delivered messages is the field \<open>deliveredLog\<close>, the callback for incoming messages
  an argument of the receiving loop. The random decision to drop a message is an argument;
  \<open>delayMessage\<close> only sleeps.
\<close>

section \<open>State\<close>

record MulticastService =
  senderId :: u32
  recipients :: "hostname list"
  recipientIdMap :: "u32 \<rightharpoonup> hostname"
  msgId :: u32
  latestSeqId :: u32
  proposedSeqIdMap :: "u32 \<rightharpoonup> (u32 \<times> u32) list"
  holdBackQueue :: HoldBackQueue
  dataMsgSender :: "DataMessage ContinuousMsgSender"
  seqMsgSender :: "SeqMessage ContinuousMsgSender"
  ackMessageCache :: "MsgIdentifier \<rightharpoonup> AckMessage"
  udpSenderMap :: "hostname set"
  deliveredLog :: "PendingMsg list"

definition newMulticastService ::
  "u32 \<Rightarrow> hostname list \<Rightarrow> (u32 \<rightharpoonup> hostname) \<Rightarrow> MulticastService" where
  "newMulticastService sid rs idMap =
     \<lparr>senderId = sid, recipients = rs, recipientIdMap = idMap, msgId = 0, latestSeqId = 0,
      proposedSeqIdMap = Map.empty, holdBackQueue = newHoldBackQueue,
      dataMsgSender = newContinuousMsgSender 4000 rs,
      seqMsgSender = newContinuousMsgSender 4000 rs,
      ackMessageCache = Map.empty, udpSenderMap = set rs, deliveredLog = []\<rparr>"

text \<open>The serializers handed to the two senders, on a fresh buffer of the size of the struct.\<close>

definition dataBytes :: "endian \<Rightarrow> DataMessage \<Rightarrow> byte list" where
  "dataBytes en m = serializeDataMessage en m (replicate sizeof_DataMessage 0)"

definition ackBytes :: "endian \<Rightarrow> AckMessage \<Rightarrow> byte list" where
  "ackBytes en m = serializeAckMessage en m (replicate sizeof_AckMessage 0)"

definition seqBytes :: "endian \<Rightarrow> SeqMessage \<Rightarrow> byte list" where
  "seqBytes en m = serializeSeqMessage en m (replicate sizeof_SeqMessage 0)"

definition seqAckBytes :: "endian \<Rightarrow> SeqAckMessage \<Rightarrow> byte list" where
  "seqAckBytes en m = serializeSeqAckMessage en m (replicate sizeof_SeqAckMessage 0)"

type_synonym sends = "(hostname \<times> byte list) list"

section \<open>Sending a message\<close>

definition createDataMessage :: "u32 \<Rightarrow> MulticastService \<Rightarrow> DataMessage \<times> MulticastService" where
  "createDataMessage data svc =
     (let svc' = svc\<lparr>msgId := msgId svc + 1\<rparr>
      in (\<lparr>d_type = messageTypeCode Data, d_sender = senderId svc, d_msg_id = msgId svc',
           d_data = data\<rparr>, svc'))"

definition multicast :: "endian \<Rightarrow> u32 \<Rightarrow> MulticastService \<Rightarrow> MulticastService" where
  "multicast en data svc =
     (let (dataMessage, svc') = createDataMessage data svc
      in svc'\<lparr>dataMsgSender := queueMsg (dataBytes en) dataMessage (dataMsgSender svc')\<rparr>)"

section \<open>Handlers\<close>

definition createOrGetAckMessage ::
  "DataMessage \<Rightarrow> u32 \<Rightarrow> bool \<Rightarrow> MulticastService \<Rightarrow> (AckMessage \<times> MulticastService) res" where
  "createOrGetAckMessage d proposedSeq createNew svc =
     (let ackMsg = \<lparr>a_type = messageTypeCode Ack, a_sender = d_sender d, a_msg_id = d_msg_id d,
                    a_proposed_seq = proposedSeq, a_proposer = senderId svc\<rparr>;
          svc' = (if createNew
                  then svc\<lparr>ackMessageCache := (ackMessageCache svc)(data_id d \<mapsto> ackMsg)\<rparr>
                  else svc)
      in rbind (map_at (ackMessageCache svc') (data_id d)) (\<lambda>cached. Inr (cached, svc')))"

text \<open>\<open>udpSenderMap.at(host)->send(buffer, size)\<close>.\<close>

definition udpSend :: "MulticastService \<Rightarrow> hostname \<Rightarrow> byte list \<Rightarrow> sends res" where
  "udpSend svc host buffer =
     (if host \<in> udpSenderMap svc then Inr [(host, buffer)] else Inl OutOfRange)"

definition processDataMsg ::
  "endian \<Rightarrow> DataMessage \<Rightarrow> MulticastService \<Rightarrow> (MulticastService \<times> sends) res" where
  "processDataMsg en d svc =
     (let proposedSeq = latestSeqId svc + 1;
          (added, q) = addToQueue d proposedSeq (senderId svc) (holdBackQueue svc);
          svc1 = svc\<lparr>holdBackQueue := q\<rparr>
      in rbind (createOrGetAckMessage d proposedSeq added svc1) (\<lambda>(ackMsg, svc2).
           let svc3 = (if added then svc2\<lparr>latestSeqId := latestSeqId svc2 + 1\<rparr> else svc2);
               buffer = ackBytes en ackMsg
           in rbind (map_at (recipientIdMap svc3) (d_sender d)) (\<lambda>sender.
              rbind (udpSend svc3 sender buffer) (\<lambda>out. Inr (svc3, out)))))"

text \<open>
  \<open>std::max_element\<close> over the proposals, in the iteration order of the hash map: the order of the
  list. The comparison prefers the smaller proposer among equal numbers.
\<close>

definition proposalLess :: "u32 \<times> u32 \<Rightarrow> u32 \<times> u32 \<Rightarrow> bool" where
  "proposalLess p1 p2 = (if snd p1 = snd p2 then fst p1 > fst p2 else snd p1 < snd p2)"

fun max_element :: "('a \<Rightarrow> 'a \<Rightarrow> bool) \<Rightarrow> 'a list \<Rightarrow> 'a option" where
  "max_element cmp [] = None"
| "max_element cmp (x # xs) = Some (foldl (\<lambda>largest y. if cmp largest y then y else largest) x xs)"

definition createSeqMessage :: "AckMessage \<Rightarrow> (u32 \<times> u32) list \<Rightarrow> SeqMessage res" where
  "createSeqMessage ackMsg proposedSeqIds =
     (case max_element proposalLess proposedSeqIds of
        None \<Rightarrow> Inl UndefinedBehaviour
      | Some maxElement \<Rightarrow>
          Inr \<lparr>s_type = messageTypeCode Seq, s_sender = a_sender ackMsg, s_msg_id = a_msg_id ackMsg,
               s_final_seq = snd maxElement, s_final_seq_proposer = fst maxElement\<rparr>)"

definition processAckMsg ::
  "endian \<Rightarrow> AckMessage \<Rightarrow> MulticastService \<Rightarrow> (MulticastService \<times> sends) res" where
  "processAckMsg en ackMsg svc =
     rbind (map_at (recipientIdMap svc) (a_proposer ackMsg)) (\<lambda>recipient.
       let (removed, ds) = removeRecipient d_msg_id (a_msg_id ackMsg) recipient (dataMsgSender svc);
           svc1 = svc\<lparr>dataMsgSender := ds\<rparr>
       in if removed
          then (let old = (case proposedSeqIdMap svc1 (a_msg_id ackMsg) of None \<Rightarrow> [] | Some l \<Rightarrow> l);
                    proposedSeqIds = AList.update (a_proposer ackMsg) (a_proposed_seq ackMsg) old;
                    svc2 = svc1\<lparr>proposedSeqIdMap :=
                             (proposedSeqIdMap svc1)(a_msg_id ackMsg \<mapsto> proposedSeqIds)\<rparr>
                in if length proposedSeqIds = length (recipients svc2)
                   then rbind (createSeqMessage ackMsg proposedSeqIds) (\<lambda>seqMsg.
                     Inr (svc2\<lparr>seqMsgSender := queueMsg (seqBytes en) seqMsg (seqMsgSender svc2)\<rparr>, []))
                   else Inr (svc2, []))
          else Inr (svc1, []))"

definition createSeqAckMessage :: "SeqMessage \<Rightarrow> MulticastService \<Rightarrow> SeqAckMessage" where
  "createSeqAckMessage seqMsg svc =
     \<lparr>sa_type = messageTypeCode SeqAck, sa_sender = s_sender seqMsg, sa_msg_id = s_msg_id seqMsg,
      sa_ack_sender = senderId svc\<rparr>"

definition processSeqMsg ::
  "endian \<Rightarrow> SeqMessage \<Rightarrow> MulticastService \<Rightarrow> (MulticastService \<times> sends) res" where
  "processSeqMsg en seqMsg svc =
     (let (marked, q, delivered) = markDeliverable seqMsg (holdBackQueue svc);
          svc1 = svc\<lparr>holdBackQueue := q, deliveredLog := deliveredLog svc @ delivered\<rparr>;
          svc2 = (if marked then svc1\<lparr>latestSeqId := max (latestSeqId svc1) (s_final_seq seqMsg)\<rparr>
                  else svc1);
          buffer = seqAckBytes en (createSeqAckMessage seqMsg svc2)
      in rbind (map_at (recipientIdMap svc2) (s_sender seqMsg)) (\<lambda>sender.
         rbind (udpSend svc2 sender buffer) (\<lambda>out.
           Inr (svc2\<lparr>ackMessageCache := (ackMessageCache svc2)(seq_id seqMsg := None)\<rparr>, out))))"

definition processSeqAckMsg ::
  "endian \<Rightarrow> SeqAckMessage \<Rightarrow> MulticastService \<Rightarrow> (MulticastService \<times> sends) res" where
  "processSeqAckMsg en seqAckMsg svc =
     rbind (map_at (recipientIdMap svc) (sa_ack_sender seqAckMsg)) (\<lambda>recipient.
       let (removed, ss) = removeRecipient s_msg_id (sa_msg_id seqAckMsg) recipient (seqMsgSender svc)
       in Inr (svc\<lparr>seqMsgSender := ss\<rparr>, []))"

section \<open>The receiving loop\<close>

definition dispatch ::
  "endian \<Rightarrow> MessageType \<Rightarrow> Message \<Rightarrow> MulticastService \<Rightarrow> (MulticastService \<times> sends) res" where
  "dispatch en messageType message svc =
     (case messageType of
        Data \<Rightarrow> rbind (deserializeDataMsg en message) (\<lambda>m. processDataMsg en m svc)
      | Ack \<Rightarrow> rbind (deserializeAckMessage en message) (\<lambda>m. processAckMsg en m svc)
      | Seq \<Rightarrow> rbind (deserializeSeqMessage en message) (\<lambda>m. processSeqMsg en m svc)
      | SeqAck \<Rightarrow> rbind (deserializeSeqAckMessage en message) (\<lambda>m. processSeqAckMsg en m svc)
      | _ \<Rightarrow> Inl FatalLog)"

text \<open>
  One turn of \<open>startListeningForMessages\<close> after the receive. The log line that prints the type
  throws for an unknown one. The callback sees every message, also the ones that are then dropped;
  \<open>'c\<close> is the state of the object behind the callback.
\<close>

definition listenStep ::
  "endian \<Rightarrow> (Message \<Rightarrow> 'c \<Rightarrow> 'c res) \<Rightarrow> bool \<Rightarrow> Message \<Rightarrow> MulticastService \<times> 'c \<Rightarrow>
     ((MulticastService \<times> 'c) \<times> sends) res" where
  "listenStep en incomingMessageCb dropIt message state =
     rbind (getMessageType en message) (\<lambda>messageType.
     rbind (showMessageType messageType) (\<lambda>_.
     rbind (incomingMessageCb message (snd state)) (\<lambda>c.
       if dropIt then Inr ((fst state, c), [])
       else rbind (dispatch en messageType message (fst state)) (\<lambda>(svc, out).
              Inr ((svc, c), out)))))"

section \<open>The final sequence number\<close>

text \<open>
  The comparison is a strict linear order on proposals, so the result of \<open>max_element\<close> does not
  depend on the iteration order of the hash map.
\<close>

lemma proposalLess_iff:
  "proposalLess p q \<longleftrightarrow> snd p < snd q \<or> snd p = snd q \<and> fst q < fst p"
  by (auto simp: proposalLess_def)

lemma foldl_largest:
  "(let r = foldl (\<lambda>largest y. if proposalLess largest y then y else largest) x xs
    in r \<in> insert x (set xs) \<and> (\<forall>y \<in> insert x (set xs). \<not> proposalLess r y))"
proof (induction xs arbitrary: x)
  case Nil
  then show ?case by (simp add: proposalLess_iff)
next
  case (Cons a xs)
  let ?x = "if proposalLess x a then a else x"
  let ?r = "foldl (\<lambda>largest y. if proposalLess largest y then y else largest) ?x xs"
  have IH: "?r \<in> insert ?x (set xs)" "\<forall>y \<in> insert ?x (set xs). \<not> proposalLess ?r y"
    using Cons.IH [of ?x] by (simp_all add: Let_def split del: if_split)
  have "\<not> proposalLess ?r x" "\<not> proposalLess ?r a"
    using IH(2) by (auto simp: proposalLess_iff split: if_splits)
  with IH show ?case by (auto simp: Let_def split: if_splits)
qed

lemma max_element_proposalLess:
  assumes "max_element proposalLess ps = Some p"
  shows "p \<in> set ps" and "q \<in> set ps \<Longrightarrow> \<not> proposalLess p q"
  using assms foldl_largest [of "hd ps" "tl ps"] by (cases ps; auto simp: Let_def)+

lemma max_element_None [simp]: "max_element cmp ps = None \<longleftrightarrow> ps = []"
  by (cases ps) auto

lemma createSeqMessage_type: "createSeqMessage ackMsg ps = Inr m \<Longrightarrow> s_type m = 3"
  by (auto simp: createSeqMessage_def split: option.splits)

lemma createSeqMessage_ex: "ps \<noteq> [] \<Longrightarrow> \<exists>m. createSeqMessage ackMsg ps = Inr m"
  by (cases ps) (simp_all add: createSeqMessage_def)

lemma createSeqMessage_max:
  assumes "createSeqMessage ackMsg ps = Inr m"
  shows "(s_final_seq_proposer m, s_final_seq m) \<in> set ps \<and>
    (\<forall>(r, v) \<in> set ps. v \<le> s_final_seq m \<and>
       (v = s_final_seq m \<longrightarrow> s_final_seq_proposer m \<le> r)) \<and>
    seq_id m = MsgIdentifier (a_msg_id ackMsg) (a_sender ackMsg)"
proof -
  obtain p where p: "max_element proposalLess ps = Some p"
    and m: "s_final_seq m = snd p" "s_final_seq_proposer m = fst p"
      "s_msg_id m = a_msg_id ackMsg" "s_sender m = a_sender ackMsg"
    using assms by (auto simp: createSeqMessage_def split: option.splits)
  have "v \<le> snd p \<and> (v = snd p \<longrightarrow> fst p \<le> r)" if "(r, v) \<in> set ps" for r v
    using max_element_proposalLess(2) [OF p that] by (auto simp: proposalLess_iff)
  then show ?thesis
    using max_element_proposalLess(1) [OF p] m by (auto simp: seq_id_def)
qed

lemma max_element_order_independent:
  assumes "set ps = set qs"
  shows "max_element proposalLess ps = max_element proposalLess qs"
proof (cases ps)
  case Nil
  with assms show ?thesis by simp
next
  case (Cons a as)
  then obtain p q where "max_element proposalLess ps = Some p" "max_element proposalLess qs = Some q"
    using assms by (metis max_element_None not_Some_eq list.distinct(1) set_empty)
  moreover from this have "\<not> proposalLess p q" "\<not> proposalLess q p"
    using max_element_proposalLess assms by metis+
  then have "p = q" by (auto simp: proposalLess_iff prod_eq_iff not_less)
  ultimately show ?thesis by simp
qed

text \<open>
  The sequence message carries the largest proposed number, and of those who
  proposed it the smallest process id, whatever the iteration order of the hash map.
\<close>

theorem createSeqMessage_announces_max:
  assumes "set ps = set qs" and "ps \<noteq> []"
  shows "\<exists>m. createSeqMessage ackMsg ps = Inr m \<and> createSeqMessage ackMsg qs = Inr m \<and>
    (s_final_seq_proposer m, s_final_seq m) \<in> set ps \<and>
    (\<forall>(r, v) \<in> set ps. v \<le> s_final_seq m \<and>
       (v = s_final_seq m \<longrightarrow> s_final_seq_proposer m \<le> r)) \<and>
    seq_id m = MsgIdentifier (a_msg_id ackMsg) (a_sender ackMsg)"
proof -
  obtain m where m: "createSeqMessage ackMsg ps = Inr m"
    using createSeqMessage_ex [OF assms(2)] by blast
  moreover have "createSeqMessage ackMsg qs = Inr m"
    using m max_element_order_independent [OF assms(1)] by (simp add: createSeqMessage_def)
  ultimately show ?thesis using createSeqMessage_max [OF m] by blast
qed

theorem createSeqMessage_announces_max_witness:
  "\<exists>m. createSeqMessage \<lparr>a_type = 2, a_sender = 1, a_msg_id = 9, a_proposed_seq = 7, a_proposer = 3\<rparr>
      [(1, 5), (2, 7), (3, 7)] = Inr m \<and> s_final_seq m = 7 \<and> s_final_seq_proposer m = 2"
  using createSeqMessage_announces_max [of "[(1, 5), (2, 7), (3, 7)]" "[(3, 7), (1, 5), (2, 7)]"
      "\<lparr>a_type = 2, a_sender = 1, a_msg_id = 9, a_proposed_seq = 7, a_proposer = 3\<rparr>"]
  by (auto simp: insert_commute)

end
