(* ===== verification/Hosts.thy ===== *)
theory Hosts
  imports Prelude
begin

text \<open>
  The host file and the process identifiers (\<open>utils.cpp\<close> of the three labs, the \<open>recipientIdMap\<close>
  of lab1's \<open>main.cpp\<close>). The host file is given by its content.
\<close>

section \<open>The host file\<close>

definition newline :: char where
  "newline = CHR 0x0A"

text \<open>What \<open>std::getline\<close> leaves is shorter.\<close>

lemma rest_shorter: "xs \<noteq> [] \<Longrightarrow> length (drop 1 (dropWhile P xs)) < length xs"
  using length_dropWhile_le [of P xs] unfolding length_drop length_greater_0_conv [symmetric] by linarith

text \<open>The lines that \<open>std::getline\<close> yields: nothing after a final line feed.\<close>

function fileLines :: "string \<Rightarrow> string list" where
  "fileLines content =
     (if content = [] then []
      else takeWhile (\<lambda>c. c \<noteq> newline) content
             # fileLines (drop 1 (dropWhile (\<lambda>c. c \<noteq> newline) content)))"
  by pat_completeness auto
termination by (relation "measure length") (simp_all only: in_measure rest_shorter wf_measure simp_thms)

declare fileLines.simps [simp del]

text \<open>The loop that keeps the first occurrence of every line.\<close>

fun uniqueLines :: "string set \<Rightarrow> string list \<Rightarrow> hostname list" where
  "uniqueLines seen [] = []"
| "uniqueLines seen (line # ls) =
     (if line \<notin> seen then line # uniqueLines (insert line seen) ls else uniqueLines seen ls)"

definition readHostFile_lab0 :: "string \<Rightarrow> hostname list res" where
  "readHostFile_lab0 content =
     (let hostnames = uniqueLines {} (fileLines content)
      in if length hostnames < 2 then Inl FatalLog else Inr hostnames)"

definition readHostFile_lab1 :: "string \<Rightarrow> hostname list res" where
  "readHostFile_lab1 content =
     (let hostnames = uniqueLines {} (fileLines content)
      in rbind (check (length hostnames \<ge> 3)) (\<lambda>_. Inr hostnames))"

definition readHostFile_lab2 :: "string \<Rightarrow> hostname list res" where
  "readHostFile_lab2 content =
     (let hostnames = uniqueLines {} (fileLines content)
      in rbind (check (length hostnames \<ge> 5)) (\<lambda>_.
         rbind (check (length hostnames \<le> 10)) (\<lambda>_. Inr hostnames)))"

definition getPeerContainerHostnames :: "hostname list \<Rightarrow> hostname \<Rightarrow> hostname list" where
  "getPeerContainerHostnames allHostnames currentHostname =
     filter (\<lambda>hostname. hostname \<noteq> currentHostname) allHostnames"

text \<open>The functions of the same name in lab0 and lab2.\<close>

definition getPeerContainerHostnames_lab0 :: "hostname list \<Rightarrow> hostname \<Rightarrow> hostname list" where
  "getPeerContainerHostnames_lab0 allHostnames currentHostname =
     filter (\<lambda>hostname. hostname \<noteq> currentHostname) allHostnames"

definition getPeerContainerHostnames_lab2 :: "hostname list \<Rightarrow> hostname \<Rightarrow> hostname list" where
  "getPeerContainerHostnames_lab2 allHostnames currentHostname =
     filter (\<lambda>hostname. hostname \<noteq> currentHostname) allHostnames"

lemma getPeerContainerHostnames_same [simp]:
  "getPeerContainerHostnames_lab0 = getPeerContainerHostnames"
  "getPeerContainerHostnames_lab2 = getPeerContainerHostnames"
  by (simp_all add: fun_eq_iff getPeerContainerHostnames_def getPeerContainerHostnames_lab0_def
      getPeerContainerHostnames_lab2_def)

lemma uniqueLines_distinct: "distinct (uniqueLines seen ls) \<and> set (uniqueLines seen ls) \<inter> seen = {}"
  by (induction seen ls rule: uniqueLines.induct) auto

lemma uniqueLines_set: "set (uniqueLines seen ls) = set ls - seen"
  by (induction seen ls rule: uniqueLines.induct) auto

lemma uniqueLines_id: "distinct ls \<Longrightarrow> set ls \<inter> seen = {} \<Longrightarrow> uniqueLines seen ls = ls"
  by (induction seen ls rule: uniqueLines.induct) auto

section \<open>Process identifiers\<close>

text \<open>The search loop from index \<open>i\<close> on; an unknown name is fatal.\<close>

fun processIdLoop :: "nat \<Rightarrow> hostname list \<Rightarrow> hostname \<Rightarrow> u32 res" where
  "processIdLoop i [] hostname = Inl FatalLog"
| "processIdLoop i (h # hs) hostname =
     (if h = hostname then Inr (of_nat (i + 1)) else processIdLoop (Suc i) hs hostname)"

definition getProcessIdentifier :: "hostname list \<Rightarrow> hostname \<Rightarrow> u32 res" where
  "getProcessIdentifier allHostnames hostname = processIdLoop 0 allHostnames hostname"

text \<open>In lab0 the identifier is an \<open>int\<close>.\<close>

fun processIdLoop_lab0 :: "nat \<Rightarrow> hostname list \<Rightarrow> hostname \<Rightarrow> int res" where
  "processIdLoop_lab0 i [] hostname = Inl FatalLog"
| "processIdLoop_lab0 i (h # hs) hostname =
     (if h = hostname then Inr (int i + 1) else processIdLoop_lab0 (Suc i) hs hostname)"

definition getProcessIdentifier_lab0 :: "hostname list \<Rightarrow> hostname \<Rightarrow> int res" where
  "getProcessIdentifier_lab0 allHostnames hostname = processIdLoop_lab0 0 allHostnames hostname"

lemma processIdLoop_lab0_ex: "h \<in> set hs \<Longrightarrow> \<exists>k < length hs. hs ! k = h \<and> processIdLoop_lab0 i hs h = Inr (int (i + k) + 1)"
proof (induction hs arbitrary: i)
  case (Cons h' hs)
  show ?case
  proof (cases "h' = h")
    case True
    then show ?thesis by (intro exI [of _ 0]) simp
  next
    case False
    then have "h \<in> set hs" using Cons.prems by auto
    then obtain k where "k < length hs" "hs ! k = h" "processIdLoop_lab0 (Suc i) hs h = Inr (int (Suc i + k) + 1)"
      using Cons.IH [of "Suc i"] by blast
    with False show ?thesis by (intro exI [of _ "Suc k"]) simp
  qed
qed simp

lemma getProcessIdentifier_lab0_ex:
  "h \<in> set hs \<Longrightarrow> \<exists>k < length hs. hs ! k = h \<and> getProcessIdentifier_lab0 hs h = Inr (int k + 1)"
  using processIdLoop_lab0_ex [of h hs 0] by (simp add: getProcessIdentifier_lab0_def)

text \<open>The loop of lab1's \<open>main\<close> that fills \<open>recipientIdMap\<close>.\<close>

fun recipientIdLoop :: "hostname list \<Rightarrow> hostname list \<Rightarrow> (u32 \<rightharpoonup> hostname) \<Rightarrow> (u32 \<rightharpoonup> hostname) res"
where
  "recipientIdLoop allHostnames [] mapping = Inr mapping"
| "recipientIdLoop allHostnames (h # hs) mapping =
     rbind (getProcessIdentifier allHostnames h) (\<lambda>recipientId.
       recipientIdLoop allHostnames hs (mapping(recipientId \<mapsto> h)))"

definition recipientIdMapOf :: "hostname list \<Rightarrow> (u32 \<rightharpoonup> hostname) res" where
  "recipientIdMapOf hostnames = recipientIdLoop hostnames hostnames Map.empty"

lemma processIdLoop_nth:
  "distinct hs \<Longrightarrow> k < length hs \<Longrightarrow> processIdLoop i hs (hs ! k) = Inr (of_nat (i + k + 1))"
proof (induction hs arbitrary: i k)
  case (Cons h hs)
  then show ?case by (cases k) auto
qed simp

lemma getProcessIdentifier_nth:
  "distinct hs \<Longrightarrow> k < length hs \<Longrightarrow> getProcessIdentifier hs (hs ! k) = Inr (of_nat (k + 1))"
  by (simp add: getProcessIdentifier_def processIdLoop_nth)

lemma processIdLoop_absent: "h \<notin> set hs \<Longrightarrow> processIdLoop i hs h = Inl FatalLog"
  by (induction hs arbitrary: i) auto

lemma of_nat_u32_inject:
  "m < 2 ^ 32 \<Longrightarrow> n < 2 ^ 32 \<Longrightarrow> (of_nat m :: u32) = of_nat n \<longleftrightarrow> m = n"
  by (simp add: word_of_nat_eq_iff take_bit_nat_eq_self)

definition valid_hosts :: "hostname list \<Rightarrow> bool" where
  "valid_hosts hosts \<longleftrightarrow> distinct hosts \<and> length hosts < 2 ^ 32"

lemma getProcessIdentifier_iff:
  assumes "distinct hosts"
  shows "getProcessIdentifier hosts h = Inr i \<longleftrightarrow>
    (\<exists>k < length hosts. hosts ! k = h \<and> i = of_nat (k + 1))"
proof (cases "h \<in> set hosts")
  case True
  then obtain k where "k < length hosts" "hosts ! k = h" by (auto simp: in_set_conv_nth)
  with assms show ?thesis
    using getProcessIdentifier_nth [OF assms, of k] by (auto simp: nth_eq_iff_index_eq)
next
  case False
  then show ?thesis by (auto simp: getProcessIdentifier_def processIdLoop_absent)
qed

lemma getProcessIdentifier_inject:
  assumes "valid_hosts hosts" and "getProcessIdentifier hosts h = Inr i"
    and "getProcessIdentifier hosts h' = Inr i"
  shows "h = h'"
proof -
  have d: "distinct hosts" and len: "length hosts < 2 ^ 32"
    using assms(1) by (auto simp: valid_hosts_def)
  obtain k where k: "k < length hosts" "hosts ! k = h" "i = of_nat (k + 1)"
    using assms(2) unfolding getProcessIdentifier_iff [OF d] by blast
  obtain k' where k': "k' < length hosts" "hosts ! k' = h'" "i = of_nat (k' + 1)"
    using assms(3) unfolding getProcessIdentifier_iff [OF d] by blast
  have "k + 1 = k' + 1"
    using k k' len by (subst of_nat_u32_inject [symmetric]) auto
  with k k' show ?thesis by simp
qed

lemma getProcessIdentifier_ex:
  "distinct hosts \<Longrightarrow> h \<in> set hosts \<Longrightarrow> \<exists>i. getProcessIdentifier hosts h = Inr i"
  unfolding getProcessIdentifier_iff by (auto simp: in_set_conv_nth)

lemma recipientIdLoop_lookup:
  assumes v: "valid_hosts all" and "set hs \<subseteq> set all"
  shows "\<exists>m'. recipientIdLoop all hs m = Inr m' \<and>
    (\<forall>i h. m' i = Some h \<longleftrightarrow> h \<in> set hs \<and> getProcessIdentifier all h = Inr i \<or>
       m i = Some h \<and> (\<forall>h' \<in> set hs. getProcessIdentifier all h' \<noteq> Inr i))"
  using assms(2)
proof (induction hs arbitrary: m)
  case (Cons h hs)
  have "distinct all" using v by (simp add: valid_hosts_def)
  then obtain j where j: "getProcessIdentifier all h = Inr j"
    using getProcessIdentifier_ex Cons.prems by (metis list.set_intros(1) subsetD)
  from Cons.prems have "set hs \<subseteq> set all" by simp
  from Cons.IH [OF this, of "m(j \<mapsto> h)"]
  obtain m' where m': "recipientIdLoop all hs (m(j \<mapsto> h)) = Inr m'"
    "\<And>i h'. m' i = Some h' \<longleftrightarrow> h' \<in> set hs \<and> getProcessIdentifier all h' = Inr i \<or>
       (m(j \<mapsto> h)) i = Some h' \<and> (\<forall>h'' \<in> set hs. getProcessIdentifier all h'' \<noteq> Inr i)"
    by blast
  have inj: "h' = h" if "getProcessIdentifier all h' = Inr j" for h'
    using getProcessIdentifier_inject [OF v that j] .
  have "m' i = Some h' \<longleftrightarrow> h' \<in> set (h # hs) \<and> getProcessIdentifier all h' = Inr i \<or>
       m i = Some h' \<and> (\<forall>h'' \<in> set (h # hs). getProcessIdentifier all h'' \<noteq> Inr i)" for i h'
  proof (cases "i = j")
    case True
    have only: "getProcessIdentifier all h'' = Inr j \<longleftrightarrow> h'' = h" for h''
      using inj j by blast
    show ?thesis unfolding m'(2) True only by auto
  next
    case False
    with j show ?thesis unfolding m'(2) by (cases "h' = h") simp_all
  qed
  moreover have "recipientIdLoop all (h # hs) m = Inr m'" using m'(1) j by simp
  ultimately show ?case by blast
qed simp

lemma recipientIdMapOf_lookup:
  assumes v: "valid_hosts hosts"
  shows "\<exists>m. recipientIdMapOf hosts = Inr m \<and>
    (\<forall>i h. m i = Some h \<longleftrightarrow> getProcessIdentifier hosts h = Inr i)"
proof -
  have "distinct hosts" using v by (simp add: valid_hosts_def)
  then have "h \<in> set hosts" if "getProcessIdentifier hosts h = Inr i" for h i
    using that unfolding getProcessIdentifier_iff [OF \<open>distinct hosts\<close>] by auto
  with recipientIdLoop_lookup [OF v subset_refl, of Map.empty] show ?thesis
    unfolding recipientIdMapOf_def by fastforce
qed

text \<open>Every line costs at least one character, so a file below 4 GiB gives valid hosts.\<close>

lemma length_fileLines: "length (fileLines content) \<le> length content"
proof (induction content rule: fileLines.induct)
  case (1 content)
  show ?case
  proof (cases "content = []")
    case True
    then show ?thesis by (simp add: fileLines.simps)
  next
    case False
    let ?rest = "drop 1 (dropWhile (\<lambda>c. c \<noteq> newline) content)"
    have "length ?rest < length content" by (rule rest_shorter [OF False])
    with 1 False show ?thesis by (subst fileLines.simps) simp
  qed
qed

lemma length_uniqueLines: "length (uniqueLines seen ls) \<le> length ls"
  by (induction seen ls rule: uniqueLines.induct) auto

lemma uniqueLines_valid:
  "length content < 2 ^ 32 \<Longrightarrow> valid_hosts (uniqueLines {} (fileLines content))"
  using uniqueLines_distinct [of "{}" "fileLines content"] length_fileLines [of content]
    length_uniqueLines [of "{}" "fileLines content"]
  by (simp add: valid_hosts_def)

text \<open>
  Whatever the host file of lab1 contains, if the reader accepts it then every
  line of it has a process identifier, different lines have different ones, and the map that
  \<open>main\<close> builds is the inverse of the identifiers.
\<close>

theorem hostfile_identifiers:
  assumes "readHostFile_lab1 content = Inr hosts" and "length content < 2 ^ 32"
  shows "set hosts = set (fileLines content) \<and> 3 \<le> length hosts \<and>
    (\<forall>h \<in> set hosts. \<exists>i. getProcessIdentifier hosts h = Inr i) \<and>
    (\<exists>m. recipientIdMapOf hosts = Inr m \<and>
       (\<forall>i h. m i = Some h \<longleftrightarrow> getProcessIdentifier hosts h = Inr i))"
proof -
  have hosts: "hosts = uniqueLines {} (fileLines content)" and three: "3 \<le> length hosts"
    using assms(1) by (auto simp: readHostFile_lab1_def Let_def rbind_eq_Inr)
  have v: "valid_hosts hosts" unfolding hosts by (rule uniqueLines_valid [OF assms(2)])
  then have "distinct hosts" by (simp add: valid_hosts_def)
  then show ?thesis
    using three getProcessIdentifier_ex recipientIdMapOf_lookup [OF v] uniqueLines_set [of "{}"]
    by (auto simp: hosts)
qed

theorem hostfile_identifiers_witness:
  "set [''a'', ''b'', ''c''] = set (fileLines (''a'' @ newline # ''b'' @ newline # ''a'' @ newline # ''c''))"
  using hostfile_identifiers [of "''a'' @ newline # ''b'' @ newline # ''a'' @ newline # ''c''"
      "[''a'', ''b'', ''c'']"]
  by (simp add: readHostFile_lab1_def fileLines.simps newline_def)

end
