(* ===== verification/MulticastSystem.thy ===== *)
theory MulticastSystem
  imports Multicast Hosts
begin

text \<open>
  The processes of lab1 together: every host of the host file runs a \<open>MulticastService\<close>
  (\<open>main.cpp\<close>), datagrams travel on one channel per ordered pair of hosts. A channel may lose,
  duplicate and reorder datagrams, at any time, as UDP may; the processes drop datagrams as
  \<open>dropMessage\<close> decides. Which datagram may overtake which is a parameter, so that a theorem that needs
  the network to keep some order says so. The steps interleave the threads of all processes: a call of
  \<open>multicast\<close>, a step of either sending thread, a turn of the receiving loop.
\<close>

section \<open>Packets on the wire\<close>

datatype packet = PData DataMessage | PAck AckMessage | PSeq SeqMessage | PSeqAck SeqAckMessage

fun packet_type :: "packet \<Rightarrow> u32" where
  "packet_type (PData m) = d_type m"
| "packet_type (PAck m) = a_type m"
| "packet_type (PSeq m) = s_type m"
| "packet_type (PSeqAck m) = sa_type m"

fun packet_words :: "packet \<Rightarrow> u32 list" where
  "packet_words (PData m) = fieldsDataMessage m"
| "packet_words (PAck m) = fieldsAckMessage m"
| "packet_words (PSeq m) = fieldsSeqMessage m"
| "packet_words (PSeqAck m) = fieldsSeqAckMessage m"

definition wire :: "packet \<Rightarrow> byte list" where
  "wire k = wire_words (packet_words k)"

fun typed :: "packet \<Rightarrow> bool" where
  "typed (PData m) \<longleftrightarrow> d_type m = 1"
| "typed (PAck m) \<longleftrightarrow> a_type m = 2"
| "typed (PSeq m) \<longleftrightarrow> s_type m = 3"
| "typed (PSeqAck m) \<longleftrightarrow> sa_type m = 4"

fun processPacket ::
  "endian \<Rightarrow> packet \<Rightarrow> MulticastService \<Rightarrow> (MulticastService \<times> sends) res" where
  "processPacket en (PData m) svc = processDataMsg en m svc"
| "processPacket en (PAck m) svc = processAckMsg en m svc"
| "processPacket en (PSeq m) svc = processSeqMsg en m svc"
| "processPacket en (PSeqAck m) svc = processSeqAckMsg en m svc"

lemma bytes_wire:
  "dataBytes en d = wire (PData d)" "ackBytes en a = wire (PAck a)"
  "seqBytes en m = wire (PSeq m)" "seqAckBytes en k = wire (PSeqAck k)"
  by (simp_all add: dataBytes_def ackBytes_def seqBytes_def seqAckBytes_def wire_def
      data_codec.ser_image ack_codec.ser_image seq_codec.ser_image seqAck_codec.ser_image)

lemma length_wire: "length (wire k) \<le> 20" "4 \<le> length (wire k)"
  by (cases k; simp add: wire_def lab1_codec_defs)+

lemma take4_wire: "take 4 (wire k) = wire32 (packet_type k)"
  by (cases k) (simp_all add: wire_def lab1_codec_defs wire_words_simps)

text \<open>A noise-free callback for incoming messages: it accepts every message and keeps no state.\<close>

definition acceptAll :: "Message \<Rightarrow> 'c \<Rightarrow> 'c res" where
  "acceptAll message c = Inr c"

lemma listenStep_wire:
  assumes "typed k"
  shows "listenStep en acceptAll dropIt (received (wire k) junk from) (svc, c) =
    (if dropIt then Inr ((svc, c), [])
     else rbind (processPacket en k svc) (\<lambda>(svc', out). Inr ((svc', c), out)))"
proof -
  let ?msg = "received (wire k) junk from"
  have small: "length (wire k) \<le> MAX_BUFFER_SIZE"
    using length_wire(1) [of k] by (simp add: MAX_BUFFER_SIZE_def)
  have ty: "getMessageType en ?msg = Inr (messageTypeOf (packet_type k))"
    using getTypeWord_received [OF take4_wire small length_wire(2)]
    by (simp add: getMessageType_def)
  have n: "m_n ?msg = length (wire k)" using small by simp
  have buf: "take (length (wire k)) (m_buffer ?msg) = wire k"
    using small by (simp add: take_received)
  show ?thesis
  proof (cases k)
    case (PData d)
    have "deserializeDataMsg en ?msg = Inr d"
      by (rule data_codec.deser_image)
        (use n buf PData in \<open>simp_all add: wire_def lab1_codec_defs\<close>)
    with PData assms ty show ?thesis
      by (simp add: listenStep_def acceptAll_def dispatch_def)
  next
    case (PAck a)
    have "deserializeAckMessage en ?msg = Inr a"
      by (rule ack_codec.deser_image)
        (use n buf PAck in \<open>simp_all add: wire_def lab1_codec_defs\<close>)
    with PAck assms ty show ?thesis
      by (simp add: listenStep_def acceptAll_def dispatch_def)
  next
    case (PSeq m)
    have "deserializeSeqMessage en ?msg = Inr m"
      by (rule seq_codec.deser_image)
        (use n buf PSeq in \<open>simp_all add: wire_def lab1_codec_defs\<close>)
    with PSeq assms ty show ?thesis
      by (simp add: listenStep_def acceptAll_def dispatch_def)
  next
    case (PSeqAck m)
    have "deserializeSeqAckMessage en ?msg = Inr m"
      by (rule seqAck_codec.deser_image)
        (use n buf PSeqAck in \<open>simp_all add: wire_def lab1_codec_defs\<close>)
    with PSeqAck assms ty show ?thesis
      by (simp add: listenStep_def acceptAll_def dispatch_def)
  qed
qed

section \<open>The system\<close>

text \<open>
  What \<open>main\<close> of lab1 sets up on one host: its process identifier, the map from identifiers to
  hosts, and the service, whose recipients are all hosts, itself included.
\<close>

definition startNode :: "hostname list \<Rightarrow> hostname \<Rightarrow> MulticastService res" where
  "startNode hostnames currentHostname =
     rbind (getProcessIdentifier hostnames currentHostname) (\<lambda>currentProcessIdentifier.
     rbind (recipientIdMapOf hostnames) (\<lambda>idMap.
       Inr (newMulticastService currentProcessIdentifier hostnames idMap)))"

text \<open>\<open>casts p\<close> is the history of the messages that \<open>p\<close> has multicast so far.\<close>

record sys =
  nodes :: "hostname \<Rightarrow> MulticastService"
  chan :: "hostname \<Rightarrow> hostname \<Rightarrow> byte list list"
  casts :: "hostname \<Rightarrow> DataMessage list"

definition initSys :: "hostname list \<Rightarrow> sys" where
  "initSys hosts =
     \<lparr>nodes = (\<lambda>h. projr (startNode hosts h)), chan = (\<lambda>_ _. []), casts = (\<lambda>_. [])\<rparr>"

text \<open>Datagrams sent by \<open>p\<close> join the channels from \<open>p\<close>.\<close>

definition transmit ::
  "hostname \<Rightarrow> (hostname \<Rightarrow> 'b list) \<Rightarrow> (hostname \<Rightarrow> hostname \<Rightarrow> 'b list) \<Rightarrow>
     (hostname \<Rightarrow> hostname \<Rightarrow> 'b list)" where
  "transmit p out ch = ch(p := (\<lambda>q. ch p q @ out q))"

definition outTo :: "sends \<Rightarrow> hostname \<Rightarrow> byte list list" where
  "outTo out q = map snd (filter (\<lambda>x. fst x = q) out)"

definition setNode :: "hostname \<Rightarrow> MulticastService \<Rightarrow> sys \<Rightarrow> sys" where
  "setNode p svc s = s\<lparr>nodes := (nodes s)(p := svc)\<rparr>"

definition setChan :: "hostname \<Rightarrow> hostname \<Rightarrow> byte list list \<Rightarrow> sys \<Rightarrow> sys" where
  "setChan p q c s = s\<lparr>chan := (chan s)(p := (chan s p)(q := c))\<rparr>"

text \<open>
  \<open>ov c b\<close>: the datagram \<open>c\<close>, sent after \<open>b\<close> on the same channel, may overtake it. UDP promises nothing
  (\<open>anyOrder\<close>). What the protocol needs is \<open>dataFirst\<close>: that no copy of a data message arrives behind
  the sequence message that announces its final number, which the sender only sends when all have
  acknowledged the data message. All other reorderings are harmless.
\<close>

type_synonym overtaking = "byte list \<Rightarrow> byte list \<Rightarrow> bool"

definition anyOrder :: overtaking where
  "anyOrder c b \<longleftrightarrow> True"

definition dataFirst :: "overtaking \<Rightarrow> bool" where
  "dataFirst ov \<longleftrightarrow> (\<forall>m d. s_type m = 3 \<longrightarrow> d_type d = 1 \<longrightarrow> seq_id m = data_id d \<longrightarrow>
     \<not> ov (wire (PSeq m)) (wire (PData d)))"

inductive mstep :: "hostname list \<Rightarrow> (hostname \<Rightarrow> endian) \<Rightarrow> overtaking \<Rightarrow> sys \<Rightarrow> sys \<Rightarrow> bool"
  for hosts en ov where
  ms_multicast: "p \<in> set hosts \<Longrightarrow>
    mstep hosts en ov s
      ((setNode p (multicast (en p) data (nodes s p)) s)
        \<lparr>casts := (casts s)(p := casts s p @ [fst (createDataMessage data (nodes s p))])\<rparr>)"
| ms_dataThread: "p \<in> set hosts \<Longrightarrow>
    senderStep (dataMsgSender (nodes s p)) = Some (Inr (ds, out, interval)) \<Longrightarrow>
    mstep hosts en ov s
      ((setNode p ((nodes s p)\<lparr>dataMsgSender := ds\<rparr>) s)\<lparr>chan := transmit p out (chan s)\<rparr>)"
| ms_seqThread: "p \<in> set hosts \<Longrightarrow>
    senderStep (seqMsgSender (nodes s p)) = Some (Inr (ss, out, interval)) \<Longrightarrow>
    mstep hosts en ov s
      ((setNode p ((nodes s p)\<lparr>seqMsgSender := ss\<rparr>) s)\<lparr>chan := transmit p out (chan s)\<rparr>)"
| ms_receive: "p \<in> set hosts \<Longrightarrow> q \<in> set hosts \<Longrightarrow> chan s p q = b # rest \<Longrightarrow>
    listenStep (en q) acceptAll dropIt (received b junk from) (nodes s q, ()) =
      Inr ((svc, ()), out) \<Longrightarrow>
    mstep hosts en ov s
      ((setNode q svc (setChan p q rest s))
        \<lparr>chan := transmit q (outTo out) (chan (setChan p q rest s))\<rparr>)"
| ms_lose: "p \<in> set hosts \<Longrightarrow> q \<in> set hosts \<Longrightarrow> chan s p q = bs @ b # cs \<Longrightarrow>
    mstep hosts en ov s (setChan p q (bs @ cs) s)"
| ms_duplicate: "p \<in> set hosts \<Longrightarrow> q \<in> set hosts \<Longrightarrow> chan s p q = bs @ b # cs \<Longrightarrow>
    mstep hosts en ov s (setChan p q (bs @ b # b # cs) s)"
| ms_overtake: "p \<in> set hosts \<Longrightarrow> q \<in> set hosts \<Longrightarrow> chan s p q = bs @ b # c # cs \<Longrightarrow> ov c b \<Longrightarrow>
    mstep hosts en ov s (setChan p q (bs @ c # b # cs) s)"

inductive mreach :: "hostname list \<Rightarrow> (hostname \<Rightarrow> endian) \<Rightarrow> overtaking \<Rightarrow> sys \<Rightarrow> bool"
  for hosts en ov where
  mr_init: "mreach hosts en ov (initSys hosts)"
| mr_step: "mreach hosts en ov s \<Longrightarrow> mstep hosts en ov s t \<Longrightarrow> mreach hosts en ov t"

text \<open>
  The sequence numbers are 32-bit words. The theorems hold as long as the number of processes times
  the number of messages multicast stays below \<open>2 ^ 32 - 1\<close>.
\<close>

definition totalCasts :: "hostname list \<Rightarrow> sys \<Rightarrow> nat" where
  "totalCasts hosts s = (\<Sum>p \<leftarrow> hosts. length (casts s p))"

definition smallRun :: "hostname list \<Rightarrow> sys \<Rightarrow> bool" where
  "smallRun hosts s \<longleftrightarrow> length hosts * totalCasts hosts s < 2 ^ 32 - 1"

end
