(* ===== verification/Isis.thy ===== *)
theory Isis
  imports MulticastSystem
begin

text \<open>
  The abstract specification of the total order multicast (the ISIS algorithm): a state of sets and
  packet channels, one rule per protocol event, and the invariant of the protocol. The state keeps
  what the protocol is about: who holds which message with which number, which proposals the
  senders have collected, and which acknowledgements are outstanding. \<open>MulticastRefine\<close> shows that
  the services of lab1 implement it.
\<close>

section \<open>The abstract machine\<close>

record isis =
  held :: "hostname \<Rightarrow> PendingMsg set"
  latest :: "hostname \<Rightarrow> u32"
  props :: "hostname \<Rightarrow> u32 \<Rightarrow> (u32 \<times> u32) set"
  owedData :: "hostname \<Rightarrow> (DataMessage \<times> hostname) set"
  owedSeq :: "hostname \<Rightarrow> (SeqMessage \<times> hostname) set"
  sent :: "hostname \<Rightarrow> DataMessage set"
  net :: "hostname \<Rightarrow> hostname \<Rightarrow> packet list"

text \<open>All hosts have proposed a number for message \<open>i\<close> of \<open>p\<close>.\<close>

definition complete :: "hostname set \<Rightarrow> (hostname \<Rightarrow> u32) \<Rightarrow> (u32 \<times> u32) set \<Rightarrow> bool" where
  "complete H hid S \<longleftrightarrow> fst ` S = hid ` H"

text \<open>The winning proposal of a set, and the sequence message that announces it.\<close>

definition winner :: "(u32 \<times> u32) set \<Rightarrow> u32 \<times> u32 \<Rightarrow> bool" where
  "winner S w \<longleftrightarrow> w \<in> S \<and> (\<forall>(r, v) \<in> S. v \<le> snd w \<and> (v = snd w \<longrightarrow> fst w \<le> r))"

definition announces :: "(u32 \<times> u32) set \<Rightarrow> DataMessage \<Rightarrow> SeqMessage \<Rightarrow> bool" where
  "announces S d m \<longleftrightarrow> s_type m = 3 \<and> s_sender m = d_sender d \<and> s_msg_id m = d_msg_id d \<and>
     winner S (s_final_seq_proposer m, s_final_seq m)"

definition ackFor :: "DataMessage \<Rightarrow> u32 \<Rightarrow> u32 \<Rightarrow> AckMessage" where
  "ackFor d v r = \<lparr>a_type = 2, a_sender = d_sender d, a_msg_id = d_msg_id d, a_proposed_seq = v,
     a_proposer = r\<rparr>"

definition seqAckFor :: "SeqMessage \<Rightarrow> u32 \<Rightarrow> SeqAckMessage" where
  "seqAckFor m r = \<lparr>sa_type = 4, sa_sender = s_sender m, sa_msg_id = s_msg_id m, sa_ack_sender = r\<rparr>"

text \<open>Taking the head off a channel and answering on the way back.\<close>

definition reply ::
  "hostname \<Rightarrow> hostname \<Rightarrow> 'k list \<Rightarrow> 'k list \<Rightarrow> (hostname \<Rightarrow> hostname \<Rightarrow> 'k list) \<Rightarrow>
     (hostname \<Rightarrow> hostname \<Rightarrow> 'k list)" where
  "reply p q rest answer ch =
     transmit q (\<lambda>r. if r = p then answer else []) (ch(p := (ch p)(q := rest)))"

text \<open>
  \<open>fifo a b\<close>: the packet \<open>a\<close> may be in front of \<open>b\<close> in a channel. Packets overtake one another, but a
  sequence message does not overtake the data message that it is about.
\<close>

definition fifo :: "packet \<Rightarrow> packet \<Rightarrow> bool" where
  "fifo a b \<longleftrightarrow> \<not> (\<exists>m d. a = PSeq m \<and> b = PData d \<and> seq_id m = data_id d)"

inductive isis_step :: "hostname set \<Rightarrow> (hostname \<Rightarrow> u32) \<Rightarrow> isis \<Rightarrow> isis \<Rightarrow> bool"
  for H hid where
  is_cast: "p \<in> H \<Longrightarrow> d_sender d = hid p \<Longrightarrow> d_type d = 1 \<Longrightarrow>
    \<forall>d' \<in> sent s p. d_msg_id d' \<noteq> d_msg_id d \<Longrightarrow>
    isis_step H hid s
      (s\<lparr>sent := (sent s)(p := insert d (sent s p)),
         owedData := (owedData s)(p := owedData s p \<union> {d} \<times> H)\<rparr>)"
| is_send: "p \<in> H \<Longrightarrow>
    \<forall>q k. k \<in> set (out q) \<longrightarrow>
      (\<exists>d. k = PData d \<and> (d, q) \<in> owedData s p) \<or> (\<exists>m. k = PSeq m \<and> (m, q) \<in> owedSeq s p) \<Longrightarrow>
    isis_step H hid s (s\<lparr>net := transmit p out (net s)\<rparr>)"
| is_lose: "p \<in> H \<Longrightarrow> q \<in> H \<Longrightarrow> net s p q = bs @ b # cs \<Longrightarrow>
    isis_step H hid s (s\<lparr>net := (net s)(p := (net s p)(q := bs @ cs))\<rparr>)"
| is_duplicate: "p \<in> H \<Longrightarrow> q \<in> H \<Longrightarrow> net s p q = bs @ b # cs \<Longrightarrow>
    isis_step H hid s (s\<lparr>net := (net s)(p := (net s p)(q := bs @ b # b # cs))\<rparr>)"
| is_overtake: "p \<in> H \<Longrightarrow> q \<in> H \<Longrightarrow> net s p q = bs @ b # c # cs \<Longrightarrow> fifo c b \<Longrightarrow>
    isis_step H hid s (s\<lparr>net := (net s)(p := (net s p)(q := bs @ c # b # cs))\<rparr>)"
| is_propose: "p \<in> H \<Longrightarrow> q \<in> H \<Longrightarrow> net s p q = PData d # rest \<Longrightarrow> d \<in> sent s p \<Longrightarrow>
    \<forall>x \<in> held s q. dataMsg x \<noteq> d \<Longrightarrow> latest s q < latest s q + 1 \<Longrightarrow>
    isis_step H hid s
      (s\<lparr>held := (held s)(q := insert (newPendingMsg d (latest s q + 1) (hid q)) (held s q)),
         latest := (latest s)(q := latest s q + 1),
         net := reply p q rest [PAck (ackFor d (latest s q + 1) (hid q))] (net s)\<rparr>)"
| is_repeat: "p \<in> H \<Longrightarrow> q \<in> H \<Longrightarrow> net s p q = PData d # rest \<Longrightarrow> d \<in> sent s p \<Longrightarrow>
    x \<in> held s q \<Longrightarrow> dataMsg x = d \<Longrightarrow> \<not> deliverable x \<Longrightarrow>
    isis_step H hid s
      (s\<lparr>net := reply p q rest [PAck (ackFor d (finalSeqId x) (hid q))] (net s)\<rparr>)"
| is_collect: "p \<in> H \<Longrightarrow> q \<in> H \<Longrightarrow> net s q p = PAck (ackFor d v (hid q)) # rest \<Longrightarrow>
    d \<in> sent s p \<Longrightarrow> (d, q) \<in> owedData s p \<Longrightarrow>
    S = insert (hid q, v) (props s p (d_msg_id d)) \<Longrightarrow>
    (if complete H hid S then announces S d m \<and> new = {m} \<times> H else new = {}) \<Longrightarrow>
    isis_step H hid s
      (s\<lparr>props := (props s)(p := (props s p)(d_msg_id d := S)),
         owedData := (owedData s)(p := owedData s p - {(d, q)}),
         owedSeq := (owedSeq s)(p := owedSeq s p \<union> new),
         net := (net s)(q := (net s q)(p := rest))\<rparr>)"
| is_finish: "p \<in> H \<Longrightarrow> q \<in> H \<Longrightarrow> net s p q = PSeq m # rest \<Longrightarrow> x \<in> held s q \<Longrightarrow>
    pm_id x = seq_id m \<Longrightarrow> \<not> deliverable x \<Longrightarrow>
    isis_step H hid s
      (s\<lparr>held := (held s)(q := insert (marked_entry m x) (held s q - {x})),
         latest := (latest s)(q := max (latest s q) (s_final_seq m)),
         net := reply p q rest [PSeqAck (seqAckFor m (hid q))] (net s)\<rparr>)"
| is_finished: "p \<in> H \<Longrightarrow> q \<in> H \<Longrightarrow> net s p q = PSeq m # rest \<Longrightarrow> x \<in> held s q \<Longrightarrow>
    pm_id x = seq_id m \<Longrightarrow> deliverable x \<Longrightarrow>
    isis_step H hid s
      (s\<lparr>net := reply p q rest [PSeqAck (seqAckFor m (hid q))] (net s)\<rparr>)"
| is_confirm: "p \<in> H \<Longrightarrow> q \<in> H \<Longrightarrow> net s q p = PSeqAck k # rest \<Longrightarrow>
    isis_step H hid s
      (s\<lparr>owedSeq := (owedSeq s)(p := {(m, r) \<in> owedSeq s p. \<not> (s_msg_id m = sa_msg_id k \<and> r = q)}),
         net := (net s)(q := (net s q)(p := rest))\<rparr>)"

section \<open>The invariant\<close>

definition castInv :: "hostname set \<Rightarrow> (hostname \<Rightarrow> u32) \<Rightarrow> isis \<Rightarrow> bool" where
  "castInv H hid s \<longleftrightarrow> (\<forall>p \<in> H.
     (\<forall>d \<in> sent s p. d_sender d = hid p \<and> d_type d = 1) \<and> inj_on d_msg_id (sent s p))"

definition heldInv :: "hostname set \<Rightarrow> isis \<Rightarrow> bool" where
  "heldInv H s \<longleftrightarrow> (\<forall>q \<in> H. inj_on dataMsg (held s q) \<and>
     (\<forall>x \<in> held s q. (\<exists>p \<in> H. dataMsg x \<in> sent s p) \<and> finalSeqId x \<le> latest s q))"

text \<open>Whoever has proposed a number holds the message, with that number until the final one is known.\<close>

definition holds :: "isis \<Rightarrow> hostname \<Rightarrow> DataMessage \<Rightarrow> u32 \<Rightarrow> bool" where
  "holds s q d v \<longleftrightarrow> (\<exists>x \<in> held s q. dataMsg x = d \<and> (\<not> deliverable x \<longrightarrow> finalSeqId x = v))"

definition isFinal :: "isis \<Rightarrow> hostname \<Rightarrow> DataMessage \<Rightarrow> bool" where
  "isFinal s q d \<longleftrightarrow> (\<exists>x \<in> held s q. dataMsg x = d \<and> deliverable x)"

definition propInv :: "hostname set \<Rightarrow> (hostname \<Rightarrow> u32) \<Rightarrow> isis \<Rightarrow> bool" where
  "propInv H hid s \<longleftrightarrow> (\<forall>p \<in> H. \<forall>i r v. (r, v) \<in> props s p i \<longrightarrow>
     (\<exists>q \<in> H. \<exists>d \<in> sent s p. r = hid q \<and> d_msg_id d = i \<and> v \<le> latest s q \<and> holds s q d v) \<and>
     (\<forall>v'. (r, v') \<in> props s p i \<longrightarrow> v' = v))"

definition owedInv :: "hostname set \<Rightarrow> (hostname \<Rightarrow> u32) \<Rightarrow> isis \<Rightarrow> bool" where
  "owedInv H hid s \<longleftrightarrow> (\<forall>p \<in> H. owedData s p \<subseteq> sent s p \<times> H \<and>
     (\<forall>d \<in> sent s p. \<forall>q \<in> H.
        (d, q) \<in> owedData s p \<longleftrightarrow> hid q \<notin> fst ` props s p (d_msg_id d)))"

text \<open>A number together with its proposer belongs to one message.\<close>

definition uniqInv :: "hostname set \<Rightarrow> (hostname \<Rightarrow> u32) \<Rightarrow> isis \<Rightarrow> bool" where
  "uniqInv H hid s \<longleftrightarrow>
     (\<forall>p \<in> H. \<forall>p' \<in> H. \<forall>i i' r v. (r, v) \<in> props s p i \<longrightarrow> (r, v) \<in> props s p' i' \<longrightarrow> p = p' \<and> i = i')"

definition freshInv :: "hostname set \<Rightarrow> (hostname \<Rightarrow> u32) \<Rightarrow> isis \<Rightarrow> bool" where
  "freshInv H hid s \<longleftrightarrow>
     (\<forall>p \<in> H. \<forall>q \<in> H. \<forall>i v. \<forall>x \<in> held s q. (hid q, v) \<in> props s p i \<longrightarrow>
        \<not> deliverable x \<longrightarrow> finalSeqId x = v \<longrightarrow> pm_id x = MsgIdentifier i (hid p))"

definition ownInv :: "hostname set \<Rightarrow> isis \<Rightarrow> bool" where
  "ownInv H s \<longleftrightarrow> (\<forall>q \<in> H. \<forall>x \<in> held s q. \<forall>y \<in> held s q.
     \<not> deliverable x \<longrightarrow> \<not> deliverable y \<longrightarrow> finalSeqId x = finalSeqId y \<longrightarrow> x = y)"

definition announceInv :: "hostname set \<Rightarrow> (hostname \<Rightarrow> u32) \<Rightarrow> isis \<Rightarrow> bool" where
  "announceInv H hid s \<longleftrightarrow> (\<forall>p \<in> H. \<forall>m q. (m, q) \<in> owedSeq s p \<longrightarrow> q \<in> H \<and>
     (\<exists>d \<in> sent s p. complete H hid (props s p (d_msg_id d)) \<and> announces (props s p (d_msg_id d)) d m))"

definition finalInv :: "hostname set \<Rightarrow> (hostname \<Rightarrow> u32) \<Rightarrow> isis \<Rightarrow> bool" where
  "finalInv H hid s \<longleftrightarrow>
     (\<forall>p \<in> H. \<forall>q \<in> H. \<forall>x \<in> held s q. deliverable x \<longrightarrow> dataMsg x \<in> sent s p \<longrightarrow>
        complete H hid (props s p (d_msg_id (dataMsg x))) \<and>
        winner (props s p (d_msg_id (dataMsg x))) (finalSeqProposer x, finalSeqId x))"

definition doneInv :: "hostname set \<Rightarrow> (hostname \<Rightarrow> u32) \<Rightarrow> isis \<Rightarrow> bool" where
  "doneInv H hid s \<longleftrightarrow>
     (\<forall>p \<in> H. \<forall>q \<in> H. \<forall>d \<in> sent s p. \<forall>m. complete H hid (props s p (d_msg_id d)) \<longrightarrow>
        announces (props s p (d_msg_id d)) d m \<longrightarrow> (m, q) \<notin> owedSeq s p \<longrightarrow> isFinal s q d)"

definition seqInv :: "hostname set \<Rightarrow> (hostname \<Rightarrow> u32) \<Rightarrow> isis \<Rightarrow> bool" where
  "seqInv H hid s \<longleftrightarrow> announceInv H hid s \<and> finalInv H hid s \<and> doneInv H hid s"

text \<open>What is in flight. A data message behind a sequence message of the same id cannot be in a channel.\<close>

fun packetOk :: "hostname set \<Rightarrow> (hostname \<Rightarrow> u32) \<Rightarrow> isis \<Rightarrow> hostname \<Rightarrow> hostname \<Rightarrow> packet \<Rightarrow> bool" where
  "packetOk H hid s p q (PData d) \<longleftrightarrow> d \<in> sent s p \<and> \<not> isFinal s q d"
| "packetOk H hid s q p (PAck a) \<longleftrightarrow>
     (\<exists>d v. d \<in> sent s p \<and> a = ackFor d v (hid q) \<and> holds s q d v)"
| "packetOk H hid s p q (PSeq m) \<longleftrightarrow>
     (\<exists>d \<in> sent s p. complete H hid (props s p (d_msg_id d)) \<and> announces (props s p (d_msg_id d)) d m)"
| "packetOk H hid s q p (PSeqAck k) \<longleftrightarrow>
     (\<exists>d \<in> sent s p. sa_type k = 4 \<and> sa_sender k = hid p \<and> sa_msg_id k = d_msg_id d \<and>
        sa_ack_sender k = hid q \<and> isFinal s q d)"

definition chanInv ::
  "hostname set \<Rightarrow> (hostname \<Rightarrow> hostname \<Rightarrow> packet \<Rightarrow> bool) \<Rightarrow>
     (hostname \<Rightarrow> hostname \<Rightarrow> packet list) \<Rightarrow> bool" where
  "chanInv H ok ch \<longleftrightarrow> (\<forall>p \<in> H. \<forall>q \<in> H.
     (\<forall>k \<in> set (ch p q). ok p q k) \<and> sorted_wrt fifo (ch p q))"

definition netInv :: "hostname set \<Rightarrow> (hostname \<Rightarrow> u32) \<Rightarrow> isis \<Rightarrow> bool" where
  "netInv H hid s \<longleftrightarrow> chanInv H (packetOk H hid s) (net s)"

definition isisInv :: "hostname set \<Rightarrow> (hostname \<Rightarrow> u32) \<Rightarrow> isis \<Rightarrow> bool" where
  "isisInv H hid s \<longleftrightarrow> castInv H hid s \<and> heldInv H s \<and> propInv H hid s \<and> owedInv H hid s \<and>
     uniqInv H hid s \<and> freshInv H hid s \<and> ownInv H s \<and> seqInv H hid s \<and> netInv H hid s"

end
