(* ===== verification/IsisInvariant.thy ===== *)
theory IsisInvariant
  imports Isis
begin

text \<open>
  Every step of the abstract machine of \<open>Isis\<close> keeps its invariant. The lemmas are grouped by
  rule; what a rule does not touch is carried over by the frame lemmas.
\<close>

section \<open>Frame lemmas and channels\<close>

lemma isis_frame_net:
  "castInv H hid (s\<lparr>net := n\<rparr>) = castInv H hid s" "heldInv H (s\<lparr>net := n\<rparr>) = heldInv H s"
  "propInv H hid (s\<lparr>net := n\<rparr>) = propInv H hid s" "owedInv H hid (s\<lparr>net := n\<rparr>) = owedInv H hid s"
  "uniqInv H hid (s\<lparr>net := n\<rparr>) = uniqInv H hid s" "freshInv H hid (s\<lparr>net := n\<rparr>) = freshInv H hid s"
  "ownInv H (s\<lparr>net := n\<rparr>) = ownInv H s" "seqInv H hid (s\<lparr>net := n\<rparr>) = seqInv H hid s"
  by (simp_all add: castInv_def heldInv_def propInv_def owedInv_def uniqInv_def freshInv_def
      ownInv_def seqInv_def announceInv_def finalInv_def doneInv_def holds_def isFinal_def)

lemma packetOk_frame_net: "packetOk H hid (s\<lparr>net := n\<rparr>) p q k = packetOk H hid s p q k"
  by (cases k) (simp_all add: isFinal_def holds_def)

lemma isisInv_net:
  assumes "isisInv H hid s" and "chanInv H (packetOk H hid s) n"
  shows "isisInv H hid (s\<lparr>net := n\<rparr>)"
  using assms by (simp add: isisInv_def isis_frame_net netInv_def packetOk_frame_net [abs_def])

lemma chanInv_mono:
  assumes "chanInv H ok ch" and "\<And>p q k. p \<in> H \<Longrightarrow> q \<in> H \<Longrightarrow> k \<in> set (ch p q) \<Longrightarrow> ok p q k \<Longrightarrow> ok' p q k"
  shows "chanInv H ok' ch"
  using assms by (simp add: chanInv_def)

lemma chanInv_update:
  assumes "chanInv H ok ch" and "p \<in> H \<Longrightarrow> q \<in> H \<Longrightarrow> \<forall>k \<in> set c. ok p q k"
    and "p \<in> H \<Longrightarrow> q \<in> H \<Longrightarrow> sorted_wrt fifo c"
  shows "chanInv H ok (ch(p := (ch p)(q := c)))"
  using assms by (simp add: chanInv_def)

lemma chanInv_tail:
  assumes "chanInv H ok ch" and "ch p q = k # rest"
  shows "chanInv H ok (ch(p := (ch p)(q := rest)))"
proof (rule chanInv_update [OF assms(1)])
  show "\<forall>k \<in> set rest. ok p q k" if "p \<in> H" "q \<in> H"
    using assms that by (force simp: chanInv_def)
  have "sorted_wrt fifo (k # rest)" if "p \<in> H" "q \<in> H"
    using assms that by (metis chanInv_def)
  then show "sorted_wrt fifo rest" if "p \<in> H" "q \<in> H"
    using that by simp
qed

lemma chanInv_transmit:
  assumes "chanInv H ok ch"
    and "\<And>q k. q \<in> H \<Longrightarrow> k \<in> set (out q) \<Longrightarrow> ok p q k"
    and "\<And>q. q \<in> H \<Longrightarrow> sorted_wrt fifo (out q)"
    and "\<And>q a b. q \<in> H \<Longrightarrow> a \<in> set (ch p q) \<Longrightarrow> b \<in> set (out q) \<Longrightarrow> fifo a b"
  shows "chanInv H ok (transmit p out ch)"
  using assms by (auto simp: chanInv_def transmit_def sorted_wrt_append)

lemma chanInv_reply:
  assumes ch: "chanInv H ok ch" and hd: "ch p q = k # rest"
    and ok: "\<forall>a \<in> set answer. ok q p a \<and> (\<forall>d. a \<noteq> PData d)"
  shows "chanInv H ok (reply p q rest answer ch)"
  unfolding reply_def
proof (rule chanInv_transmit)
  show "chanInv H ok (ch(p := (ch p)(q := rest)))" using ch hd by (rule chanInv_tail)
  have ff: "fifo a b" if "b \<in> set answer" for a b
    using ok that by (auto simp: fifo_def)
  show "fifo a b" if "b \<in> set (if r = p then answer else [])" for r a b
    using that ff by (auto split: if_splits)
  show "sorted_wrt fifo (if r = p then answer else [])" for r
    using ff by (auto intro: sorted_wrt_mono_rel [of _ "\<lambda>_ _. True"] simp: sorted_wrt_iff_nth_less)
  show "ok q r a" if "a \<in> set (if r = p then answer else [])" for r a
    using that ok by (auto split: if_splits)
qed

lemma chanInv_head:
  assumes "chanInv H ok ch" and "p \<in> H" and "q \<in> H" and "ch p q = k # rest"
  shows "ok p q k" and "\<forall>k' \<in> set rest. fifo k k'"
  using assms by (force simp: chanInv_def)+

section \<open>Facts about proposals\<close>

lemma winner_unique: "winner S a \<Longrightarrow> winner S b \<Longrightarrow> a = b"
  by (cases a; cases b) (force simp: winner_def)

lemma announces_unique:
  "announces S d m \<Longrightarrow> announces S d m' \<Longrightarrow> m = m'"
  using winner_unique [of S "(s_final_seq_proposer m, s_final_seq m)"
      "(s_final_seq_proposer m', s_final_seq m')"]
  by (cases m; cases m') (auto simp: announces_def)

text \<open>The sequence number part of the invariant, clause by clause.\<close>

lemma seqInvI:
  assumes "\<And>p m q. p \<in> H \<Longrightarrow> (m, q) \<in> owedSeq s p \<Longrightarrow> q \<in> H \<and>
      (\<exists>d \<in> sent s p. complete H hid (props s p (d_msg_id d)) \<and> announces (props s p (d_msg_id d)) d m)"
    and "\<And>p q x. p \<in> H \<Longrightarrow> q \<in> H \<Longrightarrow> x \<in> held s q \<Longrightarrow> deliverable x \<Longrightarrow> dataMsg x \<in> sent s p \<Longrightarrow>
      complete H hid (props s p (d_msg_id (dataMsg x))) \<and>
      winner (props s p (d_msg_id (dataMsg x))) (finalSeqProposer x, finalSeqId x)"
    and "\<And>p q d m. p \<in> H \<Longrightarrow> q \<in> H \<Longrightarrow> d \<in> sent s p \<Longrightarrow>
      complete H hid (props s p (d_msg_id d)) \<Longrightarrow> announces (props s p (d_msg_id d)) d m \<Longrightarrow>
      (m, q) \<notin> owedSeq s p \<Longrightarrow> isFinal s q d"
  shows "seqInv H hid s"
  unfolding seqInv_def announceInv_def finalInv_def doneInv_def
  using assms by (intro conjI ballI allI impI) blast+

lemma seqInvD:
  assumes "seqInv H hid s" and "p \<in> H"
  shows "(m, q) \<in> owedSeq s p \<Longrightarrow> q \<in> H \<and>
      (\<exists>d \<in> sent s p. complete H hid (props s p (d_msg_id d)) \<and> announces (props s p (d_msg_id d)) d m)"
    and "q \<in> H \<Longrightarrow> x \<in> held s q \<Longrightarrow> deliverable x \<Longrightarrow> dataMsg x \<in> sent s p \<Longrightarrow>
      complete H hid (props s p (d_msg_id (dataMsg x))) \<and>
      winner (props s p (d_msg_id (dataMsg x))) (finalSeqProposer x, finalSeqId x)"
    and "q \<in> H \<Longrightarrow> d \<in> sent s p \<Longrightarrow>
      complete H hid (props s p (d_msg_id d)) \<Longrightarrow> announces (props s p (d_msg_id d)) d m \<Longrightarrow>
      (m, q) \<notin> owedSeq s p \<Longrightarrow> isFinal s q d"
proof -
  have inv: "announceInv H hid s" "finalInv H hid s" "doneInv H hid s"
    using assms(1) by (simp_all add: seqInv_def)
  show "(m, q) \<in> owedSeq s p \<Longrightarrow> q \<in> H \<and>
      (\<exists>d \<in> sent s p. complete H hid (props s p (d_msg_id d)) \<and> announces (props s p (d_msg_id d)) d m)"
    using inv(1) assms(2) unfolding announceInv_def by blast
  show "q \<in> H \<Longrightarrow> x \<in> held s q \<Longrightarrow> deliverable x \<Longrightarrow> dataMsg x \<in> sent s p \<Longrightarrow>
      complete H hid (props s p (d_msg_id (dataMsg x))) \<and>
      winner (props s p (d_msg_id (dataMsg x))) (finalSeqProposer x, finalSeqId x)"
    using inv(2) assms(2) unfolding finalInv_def by blast
  show "q \<in> H \<Longrightarrow> d \<in> sent s p \<Longrightarrow>
      complete H hid (props s p (d_msg_id d)) \<Longrightarrow> announces (props s p (d_msg_id d)) d m \<Longrightarrow>
      (m, q) \<notin> owedSeq s p \<Longrightarrow> isFinal s q d"
    using inv(3) assms(2) unfolding doneInv_def by blast
qed

lemma sent_unique:
  assumes "castInv H hid s" "inj_on hid H" "p \<in> H" "p' \<in> H" "d \<in> sent s p" "d' \<in> sent s p'"
    and "data_id d = data_id d'"
  shows "p = p' \<and> d = d'"
proof -
  have "hid p = hid p'"
    using assms by (auto simp: castInv_def data_id_def)
  then have "p = p'" using assms by (auto dest: inj_onD)
  with assms show ?thesis
    by (auto simp: castInv_def data_id_def dest: inj_onD)
qed

lemma sent_sender:
  assumes "castInv H hid s" "inj_on hid H" "p \<in> H" "p' \<in> H" "d \<in> sent s p" "d \<in> sent s p'"
  shows "p = p'"
  using sent_unique [OF assms] by simp

lemma owed_not_complete:
  assumes "isisInv H hid s" "p \<in> H" "q \<in> H" "d \<in> sent s p" "(d, q) \<in> owedData s p"
  shows "\<not> complete H hid (props s p (d_msg_id d))"
  using assms by (auto simp: isisInv_def owedInv_def complete_def)

lemma final_complete:
  assumes "isisInv H hid s" "p \<in> H" "q \<in> H" "d \<in> sent s p" "isFinal s q d"
  shows "complete H hid (props s p (d_msg_id d))"
  using assms unfolding isisInv_def seqInv_def finalInv_def isFinal_def by blast

section \<open>Sending, losing and duplicating\<close>

lemma isisInv_chan: "isisInv H hid s \<Longrightarrow> chanInv H (packetOk H hid s) (net s)"
  by (simp add: isisInv_def netInv_def)

lemma isis_send_inv:
  assumes inv: "isisInv H hid s" and inj: "inj_on hid H" and p: "p \<in> H"
    and out: "\<forall>q k. k \<in> set (out q) \<longrightarrow>
      (\<exists>d. k = PData d \<and> (d, q) \<in> owedData s p) \<or> (\<exists>m. k = PSeq m \<and> (m, q) \<in> owedSeq s p)"
  shows "isisInv H hid (s\<lparr>net := transmit p out (net s)\<rparr>)"
proof (rule isisInv_net [OF inv], rule chanInv_transmit [OF isisInv_chan [OF inv]])
  have owed: "d \<in> sent s p" if "(d, q) \<in> owedData s p" for d q
    using inv that p by (auto simp: isisInv_def owedInv_def)
  have seq: "\<exists>d \<in> sent s p. complete H hid (props s p (d_msg_id d)) \<and> announces (props s p (d_msg_id d)) d m"
    if "(m, q) \<in> owedSeq s p" for m q
    using inv that p unfolding isisInv_def seqInv_def announceInv_def by blast
  show ok: "packetOk H hid s p q k" if q: "q \<in> H" and k: "k \<in> set (out q)" for q k
  proof -
    consider d where "k = PData d" "(d, q) \<in> owedData s p"
      | m where "k = PSeq m" "(m, q) \<in> owedSeq s p"
      using out k by blast
    then show ?thesis
    proof cases
      case 1
      have "\<not> isFinal s q d"
        using owed_not_complete [OF inv p q owed [OF 1(2)] 1(2)]
          final_complete [OF inv p q owed [OF 1(2)]] by blast
      with 1 owed show ?thesis by auto
    next
      case 2
      then show ?thesis using seq by auto
    qed
  qed
  have order: "fifo a b" if q: "q \<in> H" and b: "b \<in> set (out q)" and a: "packetOk H hid s p q a" for q a b
  proof (rule ccontr)
    assume "\<not> fifo a b"
    then obtain m d where ab: "a = PSeq m" "b = PData d" "seq_id m = data_id d" by (auto simp: fifo_def)
    from out b ab(2) have d: "(d, q) \<in> owedData s p" by blast
    from a ab(1) obtain d' where d': "d' \<in> sent s p"
      "complete H hid (props s p (d_msg_id d'))" "announces (props s p (d_msg_id d')) d' m" by auto
    from d'(3) ab(3) have "d_msg_id d' = d_msg_id d"
      by (simp add: announces_def seq_id_def data_id_def)
    with d'(2) owed_not_complete [OF inv p q owed [OF d] d] show False by simp
  qed
  show "fifo a b" if "q \<in> H" "a \<in> set (net s p q)" "b \<in> set (out q)" for q a b
    using order [OF that(1,3)] isisInv_chan [OF inv] p that by (auto simp: chanInv_def)
  show "sorted_wrt fifo (out q)" if "q \<in> H" for q
    using order [OF that] ok [OF that] by (auto simp: sorted_wrt_iff_nth_less)
qed

lemma isis_lose_inv:
  assumes inv: "isisInv H hid s" and c: "net s p q = bs @ b # cs"
    and new: "new = bs @ cs \<or> new = bs @ b # b # cs" and pq: "p \<in> H" "q \<in> H"
  shows "isisInv H hid (s\<lparr>net := (net s)(p := (net s p)(q := new))\<rparr>)"
proof (rule isisInv_net [OF inv], rule chanInv_update [OF isisInv_chan [OF inv]])
  have old: "\<forall>k \<in> set (bs @ b # cs). packetOk H hid s p q k" "sorted_wrt fifo (bs @ b # cs)"
    using isisInv_chan [OF inv] pq unfolding chanInv_def c [symmetric] by blast+
  have "fifo b b" by (auto simp: fifo_def)
  with old new show "\<forall>k \<in> set new. packetOk H hid s p q k" "sorted_wrt fifo new"
    by (auto simp: sorted_wrt_append)
qed

lemma isis_overtake_inv:
  assumes inv: "isisInv H hid s" and n: "net s p q = bs @ b # c # cs" and "fifo c b" and pq: "p \<in> H" "q \<in> H"
  shows "isisInv H hid (s\<lparr>net := (net s)(p := (net s p)(q := bs @ c # b # cs))\<rparr>)"
proof (rule isisInv_net [OF inv], rule chanInv_update [OF isisInv_chan [OF inv]])
  have "\<forall>k \<in> set (bs @ b # c # cs). packetOk H hid s p q k" "sorted_wrt fifo (bs @ b # c # cs)"
    using isisInv_chan [OF inv] pq unfolding chanInv_def n [symmetric] by blast+
  with \<open>fifo c b\<close> show "\<forall>k \<in> set (bs @ c # b # cs). packetOk H hid s p q k" "sorted_wrt fifo (bs @ c # b # cs)"
    by (auto simp: sorted_wrt_append)
qed

section \<open>Casting a message\<close>

lemma complete_nonempty: "H \<noteq> {} \<Longrightarrow> complete H hid S \<Longrightarrow> S \<noteq> {}"
  by (auto simp: complete_def)

lemma fresh_props:
  assumes "isisInv H hid s" "p \<in> H" "\<forall>d' \<in> sent s p. d_msg_id d' \<noteq> i"
  shows "props s p i = {}"
  using assms by (fastforce simp: isisInv_def propInv_def)

lemma isis_cast_inv:
  assumes inv: "isisInv H hid s" and inj: "inj_on hid H" and p: "p \<in> H"
    and d: "d_sender d = hid p" "d_type d = 1" and fresh: "\<forall>d' \<in> sent s p. d_msg_id d' \<noteq> d_msg_id d"
    and t: "t = s\<lparr>sent := (sent s)(p := insert d (sent s p)),
         owedData := (owedData s)(p := owedData s p \<union> {d} \<times> H)\<rparr>"
  shows "isisInv H hid t"
proof -
  have sent: "sent t p' = (if p' = p then insert d (sent s p) else sent s p')" for p'
    by (simp add: t)
  have mono: "d' \<in> sent s p' \<Longrightarrow> d' \<in> sent t p'" for d' p' by (auto simp: sent)
  have owed: "owedData t p' = (if p' = p then owedData s p \<union> {d} \<times> H else owedData s p')" for p'
    by (simp add: t)
  have same: "held t = held s" "latest t = latest s" "props t = props s" "owedSeq t = owedSeq s"
    "net t = net s"
    by (simp_all add: t)
  have fin: "isFinal t = isFinal s" "holds t = holds s"
    by (intro ext; simp add: isFinal_def holds_def same)+
  have none: "props s p (d_msg_id d) = {}" using fresh_props [OF inv p fresh] .
  then have incomplete: "\<not> complete H hid (props s p (d_msg_id d))"
    using p by (auto simp: complete_def)
  have cast: "castInv H hid t"
    using inv d fresh p unfolding isisInv_def castInv_def sent by (auto simp: inj_on_def)
  moreover have "heldInv H t"
    using inv mono unfolding isisInv_def heldInv_def same by blast
  moreover have "propInv H hid t"
    using inv mono unfolding isisInv_def propInv_def same fin by fast
  moreover have "owedInv H hid t"
    using inv none fresh unfolding isisInv_def owedInv_def same owed sent by auto
  moreover have "uniqInv H hid t" "freshInv H hid t" "ownInv H t"
    using inv by (simp_all add: isisInv_def uniqInv_def freshInv_def ownInv_def same)
  moreover have "seqInv H hid t"
  proof -
    have seq: "seqInv H hid s" using inv by (simp add: isisInv_def)
    have old: "d' \<in> sent s p'" if "d' \<in> sent t p'" "p' \<in> H" "complete H hid (props s p' (d_msg_id d'))" for d' p'
      using that incomplete by (auto simp: sent split: if_splits)
    have held: "dataMsg x \<noteq> d" if "q \<in> H" "x \<in> held s q" for x q
    proof
      assume "dataMsg x = d"
      with inv that obtain p' where "p' \<in> H" "d \<in> sent s p'"
        unfolding isisInv_def heldInv_def by blast
      with fresh d p inv inj show False
        unfolding isisInv_def castInv_def by (metis inj_onD)
    qed
    show ?thesis
    proof (rule seqInvI)
      show "q \<in> H \<and> (\<exists>d \<in> sent t p'. complete H hid (props t p' (d_msg_id d)) \<and>
          announces (props t p' (d_msg_id d)) d m)" if "p' \<in> H" "(m, q) \<in> owedSeq t p'" for p' m q
        using seqInvD(1) [OF seq that(1), of m q] that(2) mono unfolding same by blast
      show "complete H hid (props t p' (d_msg_id (dataMsg x))) \<and>
          winner (props t p' (d_msg_id (dataMsg x))) (finalSeqProposer x, finalSeqId x)"
        if "p' \<in> H" "q \<in> H" "x \<in> held t q" "deliverable x" "dataMsg x \<in> sent t p'" for p' q x
      proof -
        have "dataMsg x \<in> sent s p'"
          using that(5) held [OF that(2) that(3) [unfolded same]] by (auto simp: sent split: if_splits)
        then show ?thesis using seqInvD(2) [OF seq that(1,2) _ that(4)] that(3) unfolding same by blast
      qed
      show "isFinal t q d'" if "p' \<in> H" "q \<in> H" "d' \<in> sent t p'"
        "complete H hid (props t p' (d_msg_id d'))" "announces (props t p' (d_msg_id d')) d' m"
        "(m, q) \<notin> owedSeq t p'" for p' q d' m
        using seqInvD(3) [OF seq that(1,2) old [OF that(3,1)]] that(4-6) unfolding same fin by blast
    qed
  qed
  moreover have "packetOk H hid t p' q k" if "packetOk H hid s p' q k" for p' q k
    using that mono by (cases k) (auto simp: fin same)
  then have "netInv H hid t"
    using chanInv_mono [OF isisInv_chan [OF inv]] by (simp add: netInv_def same)
  ultimately show ?thesis by (simp add: isisInv_def)
qed


text \<open>What is in flight stays legitimate as long as nothing that it vouches for is taken back.\<close>

lemma packetOk_mono:
  assumes ok: "packetOk H hid s p q k"
    and sent: "\<And>p d. d \<in> sent s p \<Longrightarrow> d \<in> sent t p"
    and holds: "\<And>q d v. holds s q d v \<Longrightarrow> holds t q d v"
    and fin: "\<And>q d. isFinal s q d \<Longrightarrow> isFinal t q d"
    and stable: "\<And>p (d :: DataMessage). complete H hid (props s p (d_msg_id d)) \<Longrightarrow>
        props t p (d_msg_id d) = props s p (d_msg_id d)"
    and data: "\<And>d. k = PData d \<Longrightarrow> \<not> isFinal t q d"
  shows "packetOk H hid t p q k"
proof (cases k)
  case (PData d)
  with ok sent data show ?thesis by simp
next
  case (PAck a)
  with ok sent holds show ?thesis unfolding PAck packetOk.simps by blast
next
  case (PSeq m)
  with ok obtain d where "d \<in> sent s p" "complete H hid (props s p (d_msg_id d))"
    "announces (props s p (d_msg_id d)) d m" by auto
  moreover from this have "props t p (d_msg_id d) = props s p (d_msg_id d)" by (intro stable)
  ultimately show ?thesis using sent unfolding PSeq packetOk.simps by (intro bexI [of _ d]) auto
next
  case (PSeqAck m)
  with ok sent fin show ?thesis unfolding PSeqAck packetOk.simps by blast
qed

section \<open>Proposing a number\<close>

lemma propInvD:
  assumes "propInv H hid s" "p \<in> H" "(r, v) \<in> props s p i"
  obtains q d where "q \<in> H" "d \<in> sent s p" "r = hid q" "d_msg_id d = i" "v \<le> latest s q" "holds s q d v"
  using assms unfolding propInv_def by blast

lemma propInv_latest:
  assumes "isisInv H hid s" "inj_on hid H" "p \<in> H" "q \<in> H" "(hid q, v) \<in> props s p i"
  shows "v \<le> latest s q"
proof -
  obtain q' where "q' \<in> H" "hid q = hid q'" "v \<le> latest s q'"
    using assms(1,3,5) unfolding isisInv_def by (blast elim: propInvD)
  with assms(2,4) show ?thesis by (auto dest: inj_onD)
qed

text \<open>An entry is added, or replaced by one with the same message.\<close>

lemma heldInv_change:
  assumes inv: "heldInv H s" and sent: "sent t = sent s" and le: "\<And>q. latest s q \<le> latest t q"
    and inj: "\<And>q. q \<in> H \<Longrightarrow> inj_on dataMsg (held s q) \<Longrightarrow> inj_on dataMsg (held t q)"
    and new: "\<And>q y. q \<in> H \<Longrightarrow> y \<in> held t q \<Longrightarrow> y \<notin> held s q \<Longrightarrow>
      (\<exists>p \<in> H. dataMsg y \<in> sent s p) \<and> finalSeqId y \<le> latest t q"
  shows "heldInv H t"
  unfolding heldInv_def sent
proof (intro ballI conjI)
  fix q assume q: "q \<in> H"
  then show "inj_on dataMsg (held t q)" using inv inj by (simp add: heldInv_def)
  fix y assume y: "y \<in> held t q"
  have "(\<exists>p \<in> H. dataMsg y \<in> sent s p) \<and> finalSeqId y \<le> latest t q"
    using inv q y new [OF q y] order_trans [OF _ le] unfolding heldInv_def by blast
  then show "\<exists>p \<in> H. dataMsg y \<in> sent s p" "finalSeqId y \<le> latest t q" by blast+
qed

lemma isis_propose_inv:
  assumes inv: "isisInv H hid s" and inj: "inj_on hid H" and q: "q \<in> H" and p: "p \<in> H"
    and d: "d \<in> sent s p" and new: "\<forall>x \<in> held s q. dataMsg x \<noteq> d"
    and less: "latest s q < v"
    and t: "t = s\<lparr>held := (held s)(q := insert (newPendingMsg d v (hid q)) (held s q)),
         latest := (latest s)(q := v)\<rparr>"
  shows "isisInv H hid t"
proof -
  let ?x = "newPendingMsg d v (hid q)"
  have x: "dataMsg ?x = d" "finalSeqId ?x = v" "\<not> deliverable ?x"
    by (simp_all add: newPendingMsg_def)
  have same: "sent t = sent s" "props t = props s" "owedSeq t = owedSeq s" "owedData t = owedData s"
    "net t = net s"
    by (simp_all add: t)
  have held: "held t q' = (if q' = q then insert ?x (held s q) else held s q')" for q'
    by (simp add: t)
  have latest: "latest t q' = (if q' = q then v else latest s q')" for q'
    by (simp add: t)
  have le: "latest s q' \<le> latest t q'" for q' using less by (simp add: latest order_less_imp_le)
  have fin: "isFinal t = isFinal s"
    by (intro ext) (auto simp: isFinal_def held x)
  have holds: "holds t q' d' w" if "holds s q' d' w" for q' d' w
    using that by (auto simp: holds_def held)
  have inv': "heldInv H s" "castInv H hid s" "propInv H hid s" "uniqInv H hid s" "owedInv H hid s"
    "seqInv H hid s" "freshInv H hid s" "ownInv H s"
    using inv by (simp_all add: isisInv_def)
  have "castInv H hid t" using inv'(2) unfolding castInv_def same .
  moreover have "heldInv H t"
    by (rule heldInv_change [OF inv'(1) same(1) le])
      (use new p d in \<open>auto simp: held latest x split: if_splits\<close>)
  moreover have "propInv H hid t"
    using inv'(3) le holds unfolding propInv_def same by (blast intro: order_trans)
  moreover have "owedInv H hid t" using inv'(5) unfolding owedInv_def same .
  moreover have "uniqInv H hid t" using inv'(4) unfolding uniqInv_def same .
  moreover have "freshInv H hid t"
    unfolding freshInv_def same
  proof (intro ballI allI impI)
    fix p' q' i w y
    assume pq: "p' \<in> H" "q' \<in> H" and y: "y \<in> held t q'" "\<not> deliverable y" "finalSeqId y = w"
      and w: "(hid q', w) \<in> props s p' i"
    have "w < v" if "q' = q"
      using propInv_latest [OF inv inj pq w] less that by simp
    then have "y \<in> held s q'" using y x by (auto simp: held split: if_splits)
    then show "pm_id y = MsgIdentifier i (hid p')"
      using inv'(7) pq w y unfolding freshInv_def by blast
  qed
  moreover have "ownInv H t"
  proof -
    have "finalSeqId y < v" if "y \<in> held s q" for y
      using inv'(1) q that less unfolding heldInv_def by (meson le_less_trans)
    then show ?thesis
      using inv'(8) x unfolding ownInv_def held by (metis insertE less_irrefl)
  qed
  moreover have "seqInv H hid t"
  proof (rule seqInvI)
    show "q' \<in> H \<and> (\<exists>d \<in> sent t p'. complete H hid (props t p' (d_msg_id d)) \<and>
          announces (props t p' (d_msg_id d)) d m)" if "p' \<in> H" "(m, q') \<in> owedSeq t p'" for p' m q'
      using seqInvD(1) [OF inv'(6) that(1)] that(2) unfolding same by blast
    show "complete H hid (props t p' (d_msg_id (dataMsg y))) \<and>
        winner (props t p' (d_msg_id (dataMsg y))) (finalSeqProposer y, finalSeqId y)"
      if "p' \<in> H" "q' \<in> H" "y \<in> held t q'" "deliverable y" "dataMsg y \<in> sent t p'" for p' q' y
    proof -
      have "y \<in> held s q'" using that(3,4) x by (auto simp: held split: if_splits)
      then show ?thesis using seqInvD(2) [OF inv'(6) that(1,2) _ that(4)] that(5) unfolding same by blast
    qed
    show "isFinal t q' d'" if "p' \<in> H" "q' \<in> H" "d' \<in> sent t p'"
      "complete H hid (props t p' (d_msg_id d'))" "announces (props t p' (d_msg_id d')) d' m"
      "(m, q') \<notin> owedSeq t p'" for p' q' d' m
      using seqInvD(3) [OF inv'(6) that(1,2)] that(3-6) unfolding same fin by blast
  qed
  moreover have "packetOk H hid t p' q' k" if "packetOk H hid s p' q' k" for p' q' k
    by (rule packetOk_mono [OF that]) (use that holds in \<open>auto simp: fin same\<close>)
  then have "netInv H hid t"
    using chanInv_mono [OF isisInv_chan [OF inv]] by (simp add: netInv_def same)
  ultimately show ?thesis by (simp add: isisInv_def)
qed

section \<open>Collecting a proposal\<close>

text \<open>
  \<open>q\<close> has proposed a number for \<open>d\<close>, which \<open>p\<close> has cast: the proposals that \<open>p\<close> has are then \<open>S\<close>, and \<open>new\<close>
  is what it owes of final numbers.
\<close>

definition collected :: "hostname \<Rightarrow> hostname \<Rightarrow> DataMessage \<Rightarrow> (u32 \<times> u32) set \<Rightarrow>
    (SeqMessage \<times> hostname) set \<Rightarrow> isis \<Rightarrow> isis" where
  "collected p q d S new s = s\<lparr>props := (props s)(p := (props s p)(d_msg_id d := S)),
     owedData := (owedData s)(p := owedData s p - {(d, q)}),
     owedSeq := (owedSeq s)(p := owedSeq s p \<union> new)\<rparr>"

lemma collected_simps [simp]:
  "sent (collected p q d S new s) = sent s" "held (collected p q d S new s) = held s"
  "latest (collected p q d S new s) = latest s" "net (collected p q d S new s) = net s"
  "props (collected p q d S new s) p' i = (if p' = p \<and> i = d_msg_id d then S else props s p' i)"
  "owedData (collected p q d S new s) p' = (if p' = p then owedData s p - {(d, q)} else owedData s p')"
  "owedSeq (collected p q d S new s) p' = (if p' = p then owedSeq s p \<union> new else owedSeq s p')"
  by (simp_all add: collected_def)

lemma collected_fin [simp]:
  "isFinal (collected p q d S new s) = isFinal s" "holds (collected p q d S new s) = holds s"
  by (intro ext; simp add: isFinal_def holds_def)+

text \<open>The proposal is the first one of \<open>q\<close> for \<open>d\<close>, and its entry is not final.\<close>

lemma collect_first:
  assumes "isisInv H hid s" "p \<in> H" "q \<in> H" "d \<in> sent s p" "(d, q) \<in> owedData s p"
  shows "hid q \<notin> fst ` props s p (d_msg_id d)"
  using assms unfolding isisInv_def owedInv_def by blast

lemma collect_entry:
  assumes "isisInv H hid s" "p \<in> H" "q \<in> H" "d \<in> sent s p" "(d, q) \<in> owedData s p" "holds s q d v"
  obtains x where "x \<in> held s q" "dataMsg x = d" "\<not> deliverable x" "finalSeqId x = v"
  using assms(6) final_complete [OF assms(1-4)] owed_not_complete [OF assms(1-5)]
  by (auto simp: holds_def isFinal_def)

lemma cast_unique:
  "castInv H hid s \<Longrightarrow> p \<in> H \<Longrightarrow> d \<in> sent s p \<Longrightarrow> d' \<in> sent s p \<Longrightarrow> d_msg_id d' = d_msg_id d \<Longrightarrow> d' = d"
  unfolding castInv_def by (metis inj_onD)

lemma collect_propInv:
  assumes inv: "isisInv H hid s" and q: "q \<in> H" and p: "p \<in> H"
    and d: "d \<in> sent s p" and owed: "(d, q) \<in> owedData s p" and v: "holds s q d v"
  shows "propInv H hid (collected p q d (insert (hid q, v) (props s p (d_msg_id d))) new s)"
  unfolding propInv_def collected_fin
proof (intro ballI allI impI)
  let ?t = "collected p q d (insert (hid q, v) (props s p (d_msg_id d))) new s"
  fix p' i r w
  assume p': "p' \<in> H" and rw: "(r, w) \<in> props ?t p' i"
  show "(\<exists>q \<in> H. \<exists>d \<in> sent ?t p'. r = hid q \<and> d_msg_id d = i \<and> w \<le> latest ?t q \<and> holds s q d w) \<and>
      (\<forall>v'. (r, v') \<in> props ?t p' i \<longrightarrow> v' = w)"
  proof (cases "p' = p \<and> i = d_msg_id d \<and> r = hid q")
    case True
    obtain x where "x \<in> held s q" "finalSeqId x = v" using collect_entry [OF inv p q d owed v] by blast
    then have "v \<le> latest s q" using inv q unfolding isisInv_def heldInv_def by blast
    then show ?thesis using True rw q d v collect_first [OF inv p q d owed] by force
  next
    case False
    then have same: "(r, v') \<in> props ?t p' i \<longleftrightarrow> (r, v') \<in> props s p' i" for v'
      by auto
    show ?thesis using rw inv p' unfolding same isisInv_def propInv_def by simp
  qed
qed

lemma collect_owedInv:
  assumes inv: "isisInv H hid s" and inj: "inj_on hid H" and q: "q \<in> H" and p: "p \<in> H" and d: "d \<in> sent s p"
  shows "owedInv H hid (collected p q d (insert (hid q, v) (props s p (d_msg_id d))) new s)"
  unfolding owedInv_def
proof (intro ballI conjI)
  let ?t = "collected p q d (insert (hid q, v) (props s p (d_msg_id d))) new s"
  have owed: "owedInv H hid s" and cast: "castInv H hid s" using inv by (simp_all add: isisInv_def)
  fix p' assume p': "p' \<in> H"
  then show "owedData ?t p' \<subseteq> sent ?t p' \<times> H"
    using owed unfolding owedInv_def by auto
  fix d' q' assume d': "d' \<in> sent ?t p'" and q': "q' \<in> H"
  have old: "(d', q') \<in> owedData s p' \<longleftrightarrow> hid q' \<notin> fst ` props s p' (d_msg_id d')"
    using owed p' d' q' unfolding owedInv_def by simp
  show "(d', q') \<in> owedData ?t p' \<longleftrightarrow> hid q' \<notin> fst ` props ?t p' (d_msg_id d')"
  proof (cases "p' = p \<and> d_msg_id d' = d_msg_id d")
    case True
    with d' have "p' = p" "d' = d" using cast_unique [OF cast p d, of d'] by auto
    with old show ?thesis using inj_onD [OF inj _ q' q] by auto
  next
    case False
    with old show ?thesis by auto
  qed
qed

text \<open>Numbers identify messages: those that are proposed, and those of the entries.\<close>

lemma collect_uniqInv:
  assumes inv: "isisInv H hid s" and inj: "inj_on hid H" and q: "q \<in> H" and p: "p \<in> H"
    and d: "d \<in> sent s p" and owed: "(d, q) \<in> owedData s p" and v: "holds s q d v"
  shows "uniqInv H hid (collected p q d (insert (hid q, v) (props s p (d_msg_id d))) new s)"
proof -
  let ?t = "collected p q d (insert (hid q, v) (props s p (d_msg_id d))) new s"
  have inv': "castInv H hid s" "uniqInv H hid s" "freshInv H hid s" using inv by (simp_all add: isisInv_def)
  obtain x where x: "x \<in> held s q" "dataMsg x = d" "\<not> deliverable x" "finalSeqId x = v"
    using collect_entry [OF inv p q d owed v] .
  have other: "p' = p \<and> i = d_msg_id d" if "p' \<in> H" "(hid q, v) \<in> props s p' i" for p' i
  proof -
    have "pm_id x = MsgIdentifier i (hid p')"
      using inv'(3) that q x unfolding freshInv_def by blast
    moreover have "pm_id x = MsgIdentifier (d_msg_id d) (hid p)"
      using inv'(1) p d x(2) by (simp add: castInv_def pm_id_def data_id_def)
    ultimately show ?thesis using inj p that(1) by (auto dest: inj_onD)
  qed
  have pick: "(r, w) \<in> props ?t p' i \<longleftrightarrow>
      (r, w) \<in> props s p' i \<or> p' = p \<and> i = d_msg_id d \<and> r = hid q \<and> w = v" for r w p' i
    by auto
  show ?thesis
    using inv'(2) other unfolding uniqInv_def pick by blast
qed

lemma collect_freshInv:
  assumes inv: "isisInv H hid s" and inj: "inj_on hid H" and q: "q \<in> H" and p: "p \<in> H"
    and d: "d \<in> sent s p" and owed: "(d, q) \<in> owedData s p" and v: "holds s q d v"
  shows "freshInv H hid (collected p q d (insert (hid q, v) (props s p (d_msg_id d))) new s)"
  unfolding freshInv_def
proof (intro ballI allI impI)
  let ?t = "collected p q d (insert (hid q, v) (props s p (d_msg_id d))) new s"
  have inv': "castInv H hid s" "freshInv H hid s" "ownInv H s" using inv by (simp_all add: isisInv_def)
  obtain x where x: "x \<in> held s q" "dataMsg x = d" "\<not> deliverable x" "finalSeqId x = v"
    using collect_entry [OF inv p q d owed v] .
  fix p' q' i w y
  assume pq: "p' \<in> H" "q' \<in> H" and y: "y \<in> held ?t q'" "\<not> deliverable y" "finalSeqId y = w"
    and w: "(hid q', w) \<in> props ?t p' i"
  show "pm_id y = MsgIdentifier i (hid p')"
  proof (cases "(hid q', w) \<in> props s p' i")
    case True
    then show ?thesis using inv'(2) pq y unfolding freshInv_def by simp
  next
    case False
    with w have eq: "p' = p" "i = d_msg_id d" "hid q' = hid q" "w = v"
      by (auto split: if_splits)
    then have "q' = q" using inj pq q by (auto dest: inj_onD)
    then have "y = x" using inv'(3) q x y eq(4) unfolding ownInv_def by simp
    then show ?thesis using inv'(1) p d x(2) eq by (simp add: castInv_def pm_id_def data_id_def)
  qed
qed

text \<open>With the last proposal the final number is known, and owed to everybody.\<close>

lemma collect_stable:
  assumes "\<not> complete H hid (props s p (d_msg_id d))" "complete H hid (props s p' i)"
  shows "props (collected p q d S new s) p' i = props s p' i"
  using assms by auto

lemma collect_seqInv:
  assumes inv: "seqInv H hid s" "castInv H hid s" and p: "p \<in> H" and d: "d \<in> sent s p"
    and open_: "\<not> complete H hid (props s p (d_msg_id d))"
    and new: "if complete H hid S then announces S d m \<and> new = {m} \<times> H else new = {}"
  shows "seqInv H hid (collected p q d S new s)"
proof (rule seqInvI)
  let ?t = "collected p q d S new s"
  note stable = collect_stable [OF open_, where q = q and S = S and new = new]
  show "q' \<in> H \<and> (\<exists>d' \<in> sent ?t p'. complete H hid (props ?t p' (d_msg_id d')) \<and>
        announces (props ?t p' (d_msg_id d')) d' m')"
    if "p' \<in> H" "(m', q') \<in> owedSeq ?t p'" for p' m' q'
  proof (cases "(m', q') \<in> owedSeq s p'")
    case True
    then show ?thesis using seqInvD(1) [OF inv(1) that(1) True] stable unfolding collected_simps(1) by metis
  next
    case False
    with that have "p' = p" "(m', q') \<in> new" by (auto split: if_splits)
    with new d show ?thesis by (auto split: if_splits)
  qed
  show "complete H hid (props ?t p' (d_msg_id (dataMsg y))) \<and>
      winner (props ?t p' (d_msg_id (dataMsg y))) (finalSeqProposer y, finalSeqId y)"
    if "p' \<in> H" "q' \<in> H" "y \<in> held ?t q'" "deliverable y" "dataMsg y \<in> sent ?t p'" for p' q' y
    using seqInvD(2) [OF inv(1) that(1,2) _ that(4)] that(3,5) stable unfolding collected_simps(1,2) by metis
  show "isFinal ?t q' d'" if "p' \<in> H" "q' \<in> H" "d' \<in> sent ?t p'"
    "complete H hid (props ?t p' (d_msg_id d'))" "announces (props ?t p' (d_msg_id d')) d' m'"
    "(m', q') \<notin> owedSeq ?t p'" for p' q' d' m'
  proof (cases "p' = p \<and> d_msg_id d' = d_msg_id d")
    case True
    with that(3) have [simp]: "p' = p" "d' = d" using cast_unique [OF inv(2) p d, of d'] by auto
    from that(4,5) have "complete H hid S" "announces S d m'" by simp_all
    with new have "m' = m" "new = {m} \<times> H" by (auto dest: announces_unique)
    with that(2,6) show ?thesis by auto
  next
    case False
    then have "props ?t p' (d_msg_id d') = props s p' (d_msg_id d')" by auto
    then show ?thesis
      using seqInvD(3) [OF inv(1) that(1,2)] that(3-6) by (auto split: if_splits)
  qed
qed

lemma isis_collect_inv:
  assumes inv: "isisInv H hid s" and inj: "inj_on hid H" and q: "q \<in> H" and p: "p \<in> H"
    and d: "d \<in> sent s p" and owed: "(d, q) \<in> owedData s p" and v: "holds s q d v"
    and S: "S = insert (hid q, v) (props s p (d_msg_id d))"
    and new: "if complete H hid S then announces S d m \<and> new = {m} \<times> H else new = {}"
  shows "isisInv H hid (collected p q d S new s)"
proof -
  let ?t = "collected p q d S new s"
  have inv': "castInv H hid s" "heldInv H s" "ownInv H s" "seqInv H hid s"
    using inv by (simp_all add: isisInv_def)
  note open_ = owed_not_complete [OF inv p q d owed]
  have "packetOk H hid ?t p' q' k" if "packetOk H hid s p' q' k" for p' q' k
    by (rule packetOk_mono [OF that]) (use that collect_stable [OF open_] in auto)
  then have "netInv H hid ?t"
    using chanInv_mono [OF isisInv_chan [OF inv]] by (simp add: netInv_def)
  then show ?thesis
    using inv' collect_propInv [OF inv q p d owed v] collect_owedInv [OF inv inj q p d]
      collect_uniqInv [OF inv inj q p d owed v] collect_freshInv [OF inv inj q p d owed v]
      collect_seqInv [OF inv'(4,1) p d open_ new]
    by (simp add: isisInv_def castInv_def heldInv_def ownInv_def S)
qed

section \<open>Learning the final number\<close>

lemma announced_entry:
  assumes inv: "isisInv H hid s" and inj: "inj_on hid H" and p: "p \<in> H" and q: "q \<in> H"
    and m: "packetOk H hid s p q (PSeq m)" and x: "x \<in> held s q" "pm_id x = seq_id m"
  shows "dataMsg x \<in> sent s p \<and> complete H hid (props s p (d_msg_id (dataMsg x))) \<and>
    announces (props s p (d_msg_id (dataMsg x))) (dataMsg x) m"
proof -
  have cast: "castInv H hid s" using inv by (simp add: isisInv_def)
  obtain d where d: "d \<in> sent s p" "complete H hid (props s p (d_msg_id d))"
    "announces (props s p (d_msg_id d)) d m"
    using m by auto
  obtain p' where p': "p' \<in> H" "dataMsg x \<in> sent s p'"
    using inv q x(1) unfolding isisInv_def heldInv_def by blast
  moreover have "data_id (dataMsg x) = data_id d"
    using x(2) d(3) by (simp add: announces_def pm_id_def seq_id_def data_id_def)
  ultimately have "dataMsg x = d" using sent_unique [OF cast inj p'(1) p p'(2) d(1)] by simp
  with d show ?thesis by simp
qed

text \<open>\<open>q\<close> learns the final number \<open>m\<close> of the message that its entry \<open>x\<close> holds.\<close>

definition concluded :: "hostname \<Rightarrow> SeqMessage \<Rightarrow> PendingMsg \<Rightarrow> isis \<Rightarrow> isis" where
  "concluded q m x s = s\<lparr>held := (held s)(q := insert (marked_entry m x) (held s q - {x})),
     latest := (latest s)(q := max (latest s q) (s_final_seq m))\<rparr>"

lemma concluded_simps [simp]:
  "sent (concluded q m x s) = sent s" "props (concluded q m x s) = props s"
  "owedSeq (concluded q m x s) = owedSeq s" "owedData (concluded q m x s) = owedData s"
  "net (concluded q m x s) = net s"
  "held (concluded q m x s) q' = (if q' = q then insert (marked_entry m x) (held s q - {x}) else held s q')"
  "latest (concluded q m x s) q' = (if q' = q then max (latest s q) (s_final_seq m) else latest s q')"
  by (simp_all add: concluded_def)

lemma concluded_final:
  "\<not> deliverable x \<Longrightarrow> isFinal (concluded q m x s) q' d \<longleftrightarrow> isFinal s q' d \<or> q' = q \<and> d = dataMsg x"
  by (auto simp: isFinal_def)

lemma concluded_holds: "holds s q' d v \<Longrightarrow> holds (concluded q m x s) q' d v"
  by (auto simp: holds_def)

lemma finish_heldInv:
  assumes inv: "heldInv H s" and p: "p \<in> H" and x: "x \<in> held s q" "dataMsg x \<in> sent s p"
  shows "heldInv H (concluded q m x s)"
proof (rule heldInv_change [OF inv])
  let ?t = "concluded q m x s"
  show "inj_on dataMsg (held ?t q')" if "inj_on dataMsg (held s q')" for q'
    using that x(1) by (auto simp: inj_on_def)
  show "(\<exists>p \<in> H. dataMsg y \<in> sent s p) \<and> finalSeqId y \<le> latest ?t q'"
    if "y \<in> held ?t q'" "y \<notin> held s q'" for q' y
    using that p x(2) by (auto split: if_splits)
qed simp_all

lemma finish_seqInv:
  assumes inv: "seqInv H hid s" "castInv H hid s" and inj: "inj_on hid H" and p: "p \<in> H"
    and x: "\<not> deliverable x" "dataMsg x \<in> sent s p" "complete H hid (props s p (d_msg_id (dataMsg x)))"
    and m: "announces (props s p (d_msg_id (dataMsg x))) (dataMsg x) m"
  shows "seqInv H hid (concluded q m x s)"
proof (rule seqInvI)
  let ?t = "concluded q m x s"
  show "q' \<in> H \<and> (\<exists>d \<in> sent ?t p'. complete H hid (props ?t p' (d_msg_id d)) \<and>
        announces (props ?t p' (d_msg_id d)) d m')" if "p' \<in> H" "(m', q') \<in> owedSeq ?t p'" for p' m' q'
    using seqInvD(1) [OF inv(1) that(1)] that(2) by simp
  show "complete H hid (props ?t p' (d_msg_id (dataMsg y))) \<and>
      winner (props ?t p' (d_msg_id (dataMsg y))) (finalSeqProposer y, finalSeqId y)"
    if pq: "p' \<in> H" "q' \<in> H" and y: "y \<in> held ?t q'" "deliverable y" "dataMsg y \<in> sent ?t p'" for p' q' y
  proof (cases "y \<in> held s q'")
    case True
    then show ?thesis using seqInvD(2) [OF inv(1) pq _ y(2)] y(3) by simp
  next
    case False
    with y have eq: "q' = q" "y = marked_entry m x" by (auto split: if_splits)
    with y(3) have "p' = p" using sent_sender [OF inv(2) inj pq(1) p _ x(2)] by simp
    with x m eq show ?thesis by (simp add: announces_def)
  qed
  show "isFinal ?t q' d'" if "p' \<in> H" "q' \<in> H" "d' \<in> sent ?t p'"
    "complete H hid (props ?t p' (d_msg_id d'))" "announces (props ?t p' (d_msg_id d')) d' m'"
    "(m', q') \<notin> owedSeq ?t p'" for p' q' d' m'
    using seqInvD(3) [OF inv(1) that(1,2)] that(3-6) by (simp add: concluded_final [OF x(1)])
qed

text \<open>Nobody sends the message any more when its final number is announced: channels are FIFO.\<close>

lemma finish_netInv:
  assumes chan: "chanInv H (packetOk H hid s) (net s)" and cast: "castInv H hid s" and inj: "inj_on hid H"
    and pq: "p \<in> H" "q \<in> H" and m: "net s p q = PSeq m # rest"
    and x: "\<not> deliverable x" "dataMsg x \<in> sent s p"
    and ann: "announces (props s p (d_msg_id (dataMsg x))) (dataMsg x) m"
  shows "netInv H hid (concluded q m x s)"
  unfolding netInv_def concluded_simps(5)
proof (rule chanInv_mono [OF chan])
  let ?t = "concluded q m x s" and ?d = "dataMsg x"
  fix p' q' k
  assume pq': "p' \<in> H" "q' \<in> H" and k: "k \<in> set (net s p' q')" and ok: "packetOk H hid s p' q' k"
  show "packetOk H hid ?t p' q' k"
  proof (rule packetOk_mono [OF ok])
    show "\<not> isFinal ?t q' d'" if d': "k = PData d'" for d'
    proof
      assume "isFinal ?t q' d'"
      with ok d' have eq: "q' = q" "d' = ?d" by (auto simp: concluded_final [OF x(1)])
      with ok d' have "?d \<in> sent s p'" by simp
      then have "p' = p" using sent_sender [OF cast inj pq'(1) pq(1) _ x(2)] by blast
      with k eq d' m have "PData ?d \<in> set rest" by simp
      with chanInv_head(2) [OF chan pq m] have "fifo (PSeq m) (PData ?d)" by blast
      with ann show False by (simp add: fifo_def announces_def seq_id_def data_id_def)
    qed
  qed (use concluded_holds in \<open>auto simp: concluded_final [OF x(1)]\<close>)
qed

lemma isis_finish_inv:
  assumes inv: "isisInv H hid s" and inj: "inj_on hid H" and q: "q \<in> H" and p: "p \<in> H"
    and m: "net s p q = PSeq m # rest" and x: "x \<in> held s q" "pm_id x = seq_id m" "\<not> deliverable x"
  shows "isisInv H hid (concluded q m x s)"
proof -
  let ?t = "concluded q m x s"
  have inv': "castInv H hid s" "heldInv H s" "propInv H hid s" "owedInv H hid s" "uniqInv H hid s"
    "freshInv H hid s" "ownInv H s" "seqInv H hid s" "chanInv H (packetOk H hid s) (net s)"
    using inv by (simp_all add: isisInv_def netInv_def)
  have d: "dataMsg x \<in> sent s p" "complete H hid (props s p (d_msg_id (dataMsg x)))"
    "announces (props s p (d_msg_id (dataMsg x))) (dataMsg x) m"
    using announced_entry [OF inv inj p q chanInv_head(1) [OF inv'(9) p q m] x(1,2)] by blast+
  have pending: "y \<in> held s q'" if "y \<in> held ?t q'" "\<not> deliverable y" for y q'
    using that by (auto split: if_splits)
  have "castInv H hid ?t" "owedInv H hid ?t" "uniqInv H hid ?t"
    using inv'(1,4,5) by (simp_all add: castInv_def owedInv_def uniqInv_def)
  moreover have le: "latest s q' \<le> latest ?t q'" and keep: "holds s q' d v \<Longrightarrow> holds ?t q' d v" for q' d v
    by (simp_all add: concluded_holds)
  have "propInv H hid ?t"
    using inv'(3) le keep unfolding propInv_def concluded_simps(1,2) by (blast intro: order_trans)
  moreover have "freshInv H hid ?t" "ownInv H ?t"
    using inv'(6,7) pending unfolding freshInv_def ownInv_def concluded_simps(2) by blast+
  ultimately show ?thesis
    using finish_heldInv [OF inv'(2) p x(1) d(1)] finish_seqInv [OF inv'(8,1) inj p x(3) d]
      finish_netInv [OF inv'(9,1) inj p q m x(3) d(1,3)]
    by (simp add: isisInv_def)
qed

section \<open>Confirming the final number\<close>

lemma isis_confirm_inv:
  assumes inv: "isisInv H hid s" and inj: "inj_on hid H" and q: "q \<in> H" and p: "p \<in> H"
    and k: "packetOk H hid s q p (PSeqAck k)"
    and t: "t = s\<lparr>owedSeq := (owedSeq s)(p :=
      {(m, r) \<in> owedSeq s p. \<not> (s_msg_id m = sa_msg_id k \<and> r = q)})\<rparr>"
  shows "isisInv H hid t"
proof -
  have inv': "seqInv H hid s" "castInv H hid s" using inv by (simp_all add: isisInv_def)
  have same: "sent t = sent s" "props t = props s" "held t = held s" "latest t = latest s"
    "owedData t = owedData s" "net t = net s"
    by (simp_all add: t)
  have fin: "isFinal t = isFinal s" "holds t = holds s"
    by (intro ext; simp add: isFinal_def holds_def same)+
  have owedSeq: "(m, r) \<in> owedSeq t p' \<longleftrightarrow>
      (m, r) \<in> owedSeq s p' \<and> \<not> (p' = p \<and> s_msg_id m = sa_msg_id k \<and> r = q)" for m r p'
    by (simp add: t)
  obtain d where d: "d \<in> sent s p" "sa_msg_id k = d_msg_id d" "isFinal s q d"
    using k by auto
  have "seqInv H hid t"
  proof (rule seqInvI)
    show "q' \<in> H \<and> (\<exists>d \<in> sent t p'. complete H hid (props t p' (d_msg_id d)) \<and>
          announces (props t p' (d_msg_id d)) d m')" if "p' \<in> H" "(m', q') \<in> owedSeq t p'" for p' m' q'
      using seqInvD(1) [OF inv'(1) that(1)] that(2) unfolding same owedSeq by blast
    show "complete H hid (props t p' (d_msg_id (dataMsg y))) \<and>
        winner (props t p' (d_msg_id (dataMsg y))) (finalSeqProposer y, finalSeqId y)"
      if "p' \<in> H" "q' \<in> H" "y \<in> held t q'" "deliverable y" "dataMsg y \<in> sent t p'" for p' q' y
      using seqInvD(2) [OF inv'(1) that(1,2)] that(3-5) unfolding same by blast
    show "isFinal t q' d'" if pq: "p' \<in> H" "q' \<in> H" and d': "d' \<in> sent t p'"
      "complete H hid (props t p' (d_msg_id d'))" "announces (props t p' (d_msg_id d')) d' m'"
      "(m', q') \<notin> owedSeq t p'" for p' q' d' m'
    proof (cases "(m', q') \<in> owedSeq s p'")
      case True
      with d'(4) have eq: "p' = p" "q' = q" "s_msg_id m' = d_msg_id d"
        by (simp_all add: owedSeq d(2))
      with d'(3) have "d_msg_id d' = d_msg_id d" by (simp add: announces_def)
      with inv'(2) eq d'(1) d(1) p have "d' = d" by (auto simp: castInv_def same dest: inj_onD)
      with eq d(3) show ?thesis by (simp add: fin)
    next
      case False
      then show ?thesis using seqInvD(3) [OF inv'(1) pq] d' unfolding same fin by blast
    qed
  qed
  moreover have "packetOk H hid t p' q' k'" if "packetOk H hid s p' q' k'" for p' q' k'
    by (rule packetOk_mono [OF that]) (use that in \<open>auto simp: fin same\<close>)
  then have "netInv H hid t"
    using chanInv_mono [OF isisInv_chan [OF inv]] by (simp add: netInv_def same)
  ultimately show ?thesis
    using inv by (simp add: isisInv_def castInv_def heldInv_def propInv_def owedInv_def uniqInv_def
        freshInv_def ownInv_def same fin)
qed

section \<open>The invariant\<close>

lemma isisInv_reply:
  assumes inv: "isisInv H hid s" and m: "net s p q = k # rest"
    and a: "packetOk H hid s q p a" "\<forall>d. a \<noteq> PData d"
  shows "isisInv H hid (s\<lparr>net := reply p q rest [a] (net s)\<rparr>)"
  by (rule isisInv_net [OF inv chanInv_reply [OF isisInv_chan [OF inv] m]]) (use a in auto)

lemma isisInv_tail:
  "isisInv H hid s \<Longrightarrow> net s p q = k # rest \<Longrightarrow>
   isisInv H hid (s\<lparr>net := (net s)(p := (net s p)(q := rest))\<rparr>)"
  by (rule isisInv_net [OF _ chanInv_tail [OF isisInv_chan]])

lemma isis_step_inv:
  assumes step: "isis_step H hid s t" and inj: "inj_on hid H" and inv: "isisInv H hid s"
  shows "isisInv H hid t"
  using step
proof cases
  case (is_cast p d)
  then show ?thesis using isis_cast_inv [OF inv inj] by blast
next
  case (is_send p out)
  then show ?thesis using isis_send_inv [OF inv inj] by blast
next
  case (is_lose p q bs b cs)
  then show ?thesis using isis_lose_inv [OF inv] by blast
next
  case (is_duplicate p q bs b cs)
  then show ?thesis using isis_lose_inv [OF inv] by blast
next
  case (is_overtake p q bs b c cs)
  then show ?thesis using isis_overtake_inv [OF inv] by blast
next
  case (is_propose p q d rest)
  let ?v = "latest s q + 1"
  let ?t = "s\<lparr>held := (held s)(q := insert (newPendingMsg d ?v (hid q)) (held s q)),
     latest := (latest s)(q := ?v)\<rparr>"
  have "isisInv H hid ?t"
    by (rule isis_propose_inv [OF inv inj is_propose(3,2,5,6,7) refl])
  moreover have "holds ?t q d ?v"
    by (simp add: holds_def newPendingMsg_def)
  then have "packetOk H hid ?t q p (PAck (ackFor d ?v (hid q)))"
    using is_propose(5) by auto
  ultimately show ?thesis
    using isisInv_reply [of H hid ?t p q] is_propose(1,4) by simp
next
  case (is_repeat p q d rest x)
  then have "holds s q d (finalSeqId x)" by (auto simp: holds_def)
  then have "packetOk H hid s q p (PAck (ackFor d (finalSeqId x) (hid q)))"
    using is_repeat by auto
  then show ?thesis using isisInv_reply [OF inv] is_repeat by simp
next
  case (is_collect p q d v rest S m new)
  have "packetOk H hid s q p (PAck (ackFor d v (hid q)))"
    using chanInv_head(1) [OF isisInv_chan [OF inv] is_collect(3,2,4)] .
  then obtain d' v' where d': "d' \<in> sent s p" "ackFor d v (hid q) = ackFor d' v' (hid q)" "holds s q d' v'"
    by auto
  have "d' = d" "v' = v"
    using inv is_collect(2,5) d'(1,2) by (auto simp: isisInv_def castInv_def ackFor_def dest: inj_onD)
  with d'(3) have "holds s q d v" by simp
  let ?t = "collected p q d S new s"
  have "isisInv H hid ?t"
    by (rule isis_collect_inv [OF inv inj is_collect(3,2,5,6) \<open>holds s q d v\<close> is_collect(7,8)])
  then show ?thesis
    using isisInv_tail [of H hid ?t q p] is_collect(1,4) by (simp add: collected_def)
next
  case (is_finish p q m rest x)
  let ?t = "concluded q m x s"
  have t: "isisInv H hid ?t"
    by (rule isis_finish_inv [OF inv inj is_finish(3,2,4-7)])
  have "isFinal ?t q (dataMsg x)" using is_finish(7) by (simp add: concluded_final)
  moreover have "packetOk H hid s p q (PSeq m)"
    using chanInv_head(1) [OF isisInv_chan [OF inv] is_finish(2,3,4)] .
  then have "dataMsg x \<in> sent s p \<and> announces (props s p (d_msg_id (dataMsg x))) (dataMsg x) m"
    using announced_entry [OF inv inj is_finish(2,3) _ is_finish(5,6)] by blast
  ultimately have "packetOk H hid ?t q p (PSeqAck (seqAckFor m (hid q)))"
    using inv is_finish(2)
    by (auto simp: seqAckFor_def announces_def isisInv_def castInv_def)
  then show ?thesis
    using isisInv_reply [OF t, of p q] is_finish(1,4) by (simp add: concluded_def)
next
  case (is_finished p q m rest x)
  have "isFinal s q (dataMsg x)" using is_finished by (auto simp: isFinal_def)
  moreover have "packetOk H hid s p q (PSeq m)"
    using chanInv_head(1) [OF isisInv_chan [OF inv] is_finished(2,3,4)] .
  then have "dataMsg x \<in> sent s p \<and> announces (props s p (d_msg_id (dataMsg x))) (dataMsg x) m"
    using announced_entry [OF inv inj is_finished(2,3) _ is_finished(5,6)] by blast
  ultimately have "packetOk H hid s q p (PSeqAck (seqAckFor m (hid q)))"
    using inv is_finished(2)
    by (auto simp: seqAckFor_def announces_def isisInv_def castInv_def)
  then show ?thesis
    using isisInv_reply [OF inv, of p q] is_finished(1,4) by simp
next
  case (is_confirm p q k rest)
  let ?t = "s\<lparr>owedSeq := (owedSeq s)(p :=
      {(m, r) \<in> owedSeq s p. \<not> (s_msg_id m = sa_msg_id k \<and> r = q)})\<rparr>"
  have "packetOk H hid s q p (PSeqAck k)"
    using chanInv_head(1) [OF isisInv_chan [OF inv] is_confirm(3,2,4)] .
  then have "isisInv H hid ?t"
    by (rule isis_confirm_inv [OF inv inj is_confirm(3,2) _ refl])
  then show ?thesis
    using isisInv_tail [of H hid ?t q p] is_confirm(1,4) by simp
qed

text \<open>The machine starts with nothing sent, held or in flight.\<close>

definition isis_init :: "isis \<Rightarrow> bool" where
  "isis_init s \<longleftrightarrow> held s = (\<lambda>_. {}) \<and> props s = (\<lambda>_ _. {}) \<and> owedData s = (\<lambda>_. {}) \<and>
     owedSeq s = (\<lambda>_. {}) \<and> sent s = (\<lambda>_. {}) \<and> net s = (\<lambda>_ _. [])"

lemma isis_init_inv: "isis_init s \<Longrightarrow> isisInv H hid s"
  by (simp add: isis_init_def isisInv_def castInv_def heldInv_def propInv_def owedInv_def
      uniqInv_def freshInv_def ownInv_def seqInv_def announceInv_def finalInv_def doneInv_def
      netInv_def chanInv_def)

section \<open>What the invariant gives\<close>

text \<open>A host that has proposed a number for a message holds the message.\<close>

lemma proposed_held:
  assumes inv: "isisInv H hid s" and inj: "inj_on hid H" and p: "p \<in> H" and q: "q \<in> H"
    and d: "d \<in> sent s p" and v: "(hid q, v) \<in> props s p (d_msg_id d)"
  obtains x where "x \<in> held s q" and "dataMsg x = d" and "\<not> deliverable x \<longrightarrow> finalSeqId x = v"
proof -
  have cast: "castInv H hid s" and pr: "propInv H hid s" using inv by (simp_all add: isisInv_def)
  obtain q' d' where q': "q' \<in> H" "d' \<in> sent s p" "hid q = hid q'" "d_msg_id d' = d_msg_id d" "holds s q' d' v"
    using propInvD [OF pr p v] by metis
  have "q' = q" using inj q q'(1,3) by (auto dest: inj_onD)
  moreover have "d' = d" using cast p d q'(2,4) by (auto simp: castInv_def dest: inj_onD)
  ultimately show thesis using q'(5) that by (auto simp: holds_def)
qed

lemma complete_proposed:
  assumes "complete H hid S" and "q \<in> H"
  obtains v where "(hid q, v) \<in> S"
  using assms by (force simp: complete_def)

lemma complete_held:
  assumes inv: "isisInv H hid s" and inj: "inj_on hid H" and p: "p \<in> H" and q: "q \<in> H"
    and d: "d \<in> sent s p" and c: "complete H hid (props s p (d_msg_id d))"
    and w: "winner (props s p (d_msg_id d)) (r, n)"
  obtains x where "x \<in> held s q" and "dataMsg x = d" and "\<not> deliverable x \<longrightarrow> finalSeqId x \<le> n"
proof -
  obtain v where v: "(hid q, v) \<in> props s p (d_msg_id d)"
    using complete_proposed [OF c q] .
  then have "v \<le> n" using w by (auto simp: winner_def)
  with proposed_held [OF inv inj p q d v] that show thesis by metis
qed

text \<open>The final number of a message is the same at all hosts, and no two messages share it.\<close>

lemma held_sent:
  assumes "isisInv H hid s" "q \<in> H" "x \<in> held s q"
  obtains p where "p \<in> H" "dataMsg x \<in> sent s p"
  using assms unfolding isisInv_def heldInv_def by blast

lemma final_winner:
  assumes "isisInv H hid s" "p \<in> H" "q \<in> H" "x \<in> held s q" "deliverable x" "dataMsg x \<in> sent s p"
  shows "complete H hid (props s p (d_msg_id (dataMsg x)))"
    and "winner (props s p (d_msg_id (dataMsg x))) (finalSeqProposer x, finalSeqId x)"
  using seqInvD(2) [of H hid s p q x] assms by (simp_all add: isisInv_def)

lemma final_key_unique:
  assumes inv: "isisInv H hid s" and q: "q \<in> H" "q' \<in> H"
    and x: "x \<in> held s q" "deliverable x" and y: "y \<in> held s q'" "deliverable y"
  shows "seqKey x = seqKey y \<longleftrightarrow> dataMsg x = dataMsg y"
proof -
  obtain p where p: "p \<in> H" "dataMsg x \<in> sent s p" using held_sent [OF inv q(1) x(1)] .
  obtain p' where p': "p' \<in> H" "dataMsg y \<in> sent s p'" using held_sent [OF inv q(2) y(1)] .
  note wx = final_winner(2) [OF inv p(1) q(1) x p(2)]
  note wy = final_winner(2) [OF inv p'(1) q(2) y p'(2)]
  show ?thesis
  proof
    assume "seqKey x = seqKey y"
    then have "(finalSeqProposer x, finalSeqId x) = (finalSeqProposer y, finalSeqId y)"
      by (simp add: seqKey_def)
    moreover have "uniqInv H hid s" using inv by (simp add: isisInv_def)
    ultimately have "p = p' \<and> d_msg_id (dataMsg x) = d_msg_id (dataMsg y)"
      using wx wy p(1) p'(1) unfolding winner_def uniqInv_def by (metis (no_types))
    with inv p p' show "dataMsg x = dataMsg y"
      by (auto simp: isisInv_def castInv_def dest: inj_onD)
  next
    assume eq: "dataMsg x = dataMsg y"
    then have "winner (props s p (d_msg_id (dataMsg x))) (finalSeqProposer y, finalSeqId y)"
      using final_winner(2) [OF inv p(1) q(2) y] p(2) by simp
    with wx show "seqKey x = seqKey y"
      using winner_unique [of _ "(finalSeqProposer x, finalSeqId x)" "(finalSeqProposer y, finalSeqId y)"]
      by (auto simp: seqKey_def)
  qed
qed

lemma final_entry_unique:
  assumes "isisInv H hid s" "q \<in> H" "q' \<in> H" "x \<in> held s q" "deliverable x"
    "y \<in> held s q'" "deliverable y" "dataMsg x = dataMsg y"
  shows "x = y"
  using final_key_unique [OF assms(1-7)] assms(5,7,8)
  by (cases x; cases y) (simp add: seqKey_def)

text \<open>A message that is final somewhere is held everywhere, by a proposal not above the final number.\<close>

lemma final_elsewhere:
  assumes inv: "isisInv H hid s" and inj: "inj_on hid H" and q: "q \<in> H" "q' \<in> H"
    and x: "x \<in> held s q" "deliverable x"
  obtains y where "y \<in> held s q'" and "deliverable y \<longrightarrow> y = x"
    and "\<not> deliverable y \<longrightarrow> finalSeqId y \<le> finalSeqId x"
proof -
  obtain p where p: "p \<in> H" "dataMsg x \<in> sent s p" using held_sent [OF inv q(1) x(1)] .
  obtain y where y: "y \<in> held s q'" "dataMsg y = dataMsg x" "\<not> deliverable y \<longrightarrow> finalSeqId y \<le> finalSeqId x"
    using complete_held [OF inv inj p(1) q(2) p(2) final_winner [OF inv p(1) q(1) x p(2)]] .
  with final_entry_unique [OF inv q(2,1) y(1) _ x] that show thesis by blast
qed

section \<open>The numbers stay small\<close>

text \<open>Every number is bounded by the number of entries that have been made anywhere.\<close>

definition entryCount :: "hostname set \<Rightarrow> isis \<Rightarrow> nat" where
  "entryCount H s = (\<Sum>r \<in> H. card (dataMsg ` held s r))"

definition boundInv :: "hostname set \<Rightarrow> isis \<Rightarrow> bool" where
  "boundInv H s \<longleftrightarrow> (\<forall>q \<in> H. finite (held s q) \<and> unat (latest s q) \<le> entryCount H s)"

lemma boundInv_mono:
  assumes "boundInv H s" and "held t = held s" and "latest t = latest s"
  shows "boundInv H t"
  using assms by (simp add: boundInv_def entryCount_def)

lemma isis_step_bound:
  assumes step: "isis_step H hid s t" and inj: "inj_on hid H" and fin: "finite H"
    and inv: "isisInv H hid s" and bound: "boundInv H s"
  shows "boundInv H t"
  using step
proof cases
  case (is_propose p q d rest)
  let ?x = "newPendingMsg d (latest s q + 1) (hid q)"
  have x: "dataMsg ?x = d" by (simp add: newPendingMsg_def)
  have held: "held t = (held s)(q := insert ?x (held s q))"
    and latest: "latest t = (latest s)(q := latest s q + 1)" using is_propose(1) by simp_all
  have q: "q \<in> H" and new: "d \<notin> dataMsg ` held s q" using is_propose by auto
  have f: "finite (held s r)" if "r \<in> H" for r using bound that by (simp add: boundInv_def)
  have "entryCount H t = (\<Sum>r \<in> H. card (dataMsg ` held s r) + (if r = q then 1 else 0))"
    unfolding entryCount_def by (rule sum.cong) (use new f x held in auto)
  also have "\<dots> = Suc (entryCount H s)"
    using fin q by (simp add: sum.distrib entryCount_def)
  finally have count: "entryCount H t = Suc (entryCount H s)" .
  have "unat (latest s q + 1) \<le> Suc (unat (latest s q))"
    by (simp add: unat_word_ariths)
  also have "\<dots> \<le> Suc (entryCount H s)" using bound q by (simp add: boundInv_def)
  finally show ?thesis
    using bound by (auto simp: boundInv_def count held latest le_SucI)
next
  case (is_finish p q m rest x)
  have held: "held t = (held s)(q := insert (marked_entry m x) (held s q - {x}))"
    and latest: "latest t = (latest s)(q := max (latest s q) (s_final_seq m))"
    using is_finish(1) by simp_all
  have same: "dataMsg ` held t r = dataMsg ` held s r" for r
    using is_finish(5) by (auto simp: held)
  then have count: "entryCount H t = entryCount H s" by (simp add: entryCount_def)
  have "packetOk H hid s p q (PSeq m)"
    using chanInv_head(1) [OF isisInv_chan [OF inv] is_finish(2,3,4)] .
  then obtain d where d: "d \<in> sent s p" "(s_final_seq_proposer m, s_final_seq m) \<in> props s p (d_msg_id d)"
    by (auto simp: announces_def winner_def)
  have "propInv H hid s" using inv by (simp add: isisInv_def)
  then obtain r where r: "r \<in> H" "s_final_seq m \<le> latest s r"
    using propInvD [OF _ is_finish(2) d(2)] by metis
  then have "unat (s_final_seq m) \<le> entryCount H s"
    using bound by (meson boundInv_def le_trans word_le_nat_alt)
  with bound show ?thesis
    by (auto simp: boundInv_def count held latest max_def)
qed (auto intro: boundInv_mono [OF bound])

end
