(* ===== verification/MulticastRefine.thy ===== *)
theory MulticastRefine
  imports IsisInvariant
begin

text \<open>
  The services of lab1 implement the abstract machine. First the invariant of a single service
  (\<open>node_ok\<close>) and what each handler does to a service that satisfies it, then the abstraction of a
  system state and the simulation: every step of the system is a step of the abstract machine or
  leaves the abstract state alone.
\<close>

section \<open>The invariant of a service\<close>

definition hidOf :: "hostname list \<Rightarrow> hostname \<Rightarrow> u32" where
  "hidOf hosts h = projr (getProcessIdentifier hosts h)"

definition node_wired :: "hostname list \<Rightarrow> hostname \<Rightarrow> MulticastService \<Rightarrow> bool" where
  "node_wired hosts q svc \<longleftrightarrow> senderId svc = hidOf hosts q \<and> recipients svc = hosts \<and>
     (\<forall>h \<in> set hosts. recipientIdMap svc (hidOf hosts h) = Some h) \<and> udpSenderMap svc = set hosts"

definition dataSenderOk :: "hostname list \<Rightarrow> MulticastService \<Rightarrow> bool" where
  "dataSenderOk hosts svc \<longleftrightarrow>
     sender_ok d_msg_id (\<lambda>d. wire (PData d)) (dataMsgSender svc) \<and>
     cms_recipients (dataMsgSender svc) = hosts"

definition seqSenderOk :: "hostname list \<Rightarrow> MulticastService \<Rightarrow> bool" where
  "seqSenderOk hosts svc \<longleftrightarrow>
     sender_ok s_msg_id (\<lambda>m. wire (PSeq m)) (seqMsgSender svc) \<and>
     cms_recipients (seqMsgSender svc) = hosts"

definition queue :: "MulticastService \<Rightarrow> PendingMsg list" where
  "queue svc = deque (holdBackQueue svc)"

definition entries :: "MulticastService \<Rightarrow> PendingMsg list" where
  "entries svc = deliveredLog svc @ queue svc"

definition pendingIds :: "MulticastService \<Rightarrow> MsgIdentifier set" where
  "pendingIds svc = pendingMsgSet (holdBackQueue svc)"

text \<open>
  The queue: the log is final; an entry that waits for its final number carries this process's
  proposal, its id is in the set of pending ids and its acknowledgement is in the cache; nothing
  else is in the cache, and the set has no ids of messages never seen.
\<close>

definition node_queue :: "MulticastService \<Rightarrow> bool" where
  "node_queue svc \<longleftrightarrow>
     order_ok (latestSeqId svc) (deliveredLog svc) (queue svc) \<and>
     distinct (map pm_id (entries svc)) \<and>
     (\<forall>x \<in> set (deliveredLog svc). deliverable x) \<and>
     (\<forall>x \<in> set (queue svc). \<not> deliverable x \<longrightarrow> pm_id x \<in> pendingIds svc \<and>
        ackMessageCache svc (pm_id x) = Some (ackFor (dataMsg x) (finalSeqId x) (senderId svc))) \<and>
     (\<forall>i a. ackMessageCache svc i = Some a \<longrightarrow> (\<exists>x \<in> set (queue svc). \<not> deliverable x \<and> pm_id x = i)) \<and>
     pendingIds svc \<subseteq> pm_id ` set (entries svc)"

definition node_casts :: "DataMessage list \<Rightarrow> MulticastService \<Rightarrow> bool" where
  "node_casts cs svc \<longleftrightarrow> msgId svc = of_nat (length cs) \<and>
     map d_msg_id cs = map of_nat [1..<Suc (length cs)]"

definition proposalsOf :: "MulticastService \<Rightarrow> u32 \<Rightarrow> (u32 \<times> u32) list" where
  "proposalsOf svc i = (case proposedSeqIdMap svc i of None \<Rightarrow> [] | Some l \<Rightarrow> l)"

definition node_ok :: "hostname list \<Rightarrow> DataMessage list \<Rightarrow> hostname \<Rightarrow> MulticastService \<Rightarrow> bool" where
  "node_ok hosts cs q svc \<longleftrightarrow> node_wired hosts q svc \<and> dataSenderOk hosts svc \<and>
     seqSenderOk hosts svc \<and> node_queue svc \<and> node_casts cs svc \<and>
     (\<forall>i. distinct (map fst (proposalsOf svc i)))"

lemmas node_defs = queue_def entries_def pendingIds_def

lemma node_okD:
  assumes "node_ok hosts cs q svc"
  shows "node_wired hosts q svc" "dataSenderOk hosts svc" "seqSenderOk hosts svc"
    "node_queue svc" "node_casts cs svc" "distinct (map fst (proposalsOf svc i))"
  using assms by (simp_all add: node_ok_def)

text \<open>Answers reach the host they are addressed to.\<close>

lemma node_reply:
  assumes "node_wired hosts q svc" and "p \<in> set hosts"
  shows "map_at (recipientIdMap svc) (hidOf hosts p) = Inr p" and "udpSend svc p b = Inr [(p, b)]"
  using assms by (simp_all add: node_wired_def udpSend_def)

section \<open>The handlers on a well-formed service\<close>

lemma processDataMsg_new:
  assumes ok: "node_ok hosts cs q svc" and p: "p \<in> set hosts" "d_sender d = hidOf hosts p"
    and new: "data_id d \<notin> pm_id ` set (entries svc)" and less: "latestSeqId svc < latestSeqId svc + 1"
  shows "\<exists>svc'. processDataMsg en d svc =
      Inr (svc', [(p, wire (PAck (ackFor d (latestSeqId svc + 1) (hidOf hosts q))))]) \<and>
    node_ok hosts cs q svc' \<and> latestSeqId svc' = latestSeqId svc + 1 \<and>
    deliveredLog svc' = deliveredLog svc \<and>
    queue svc' = queue svc @ [newPendingMsg d (latestSeqId svc + 1) (hidOf hosts q)] \<and>
    dataMsgSender svc' = dataMsgSender svc \<and> seqMsgSender svc' = seqMsgSender svc \<and>
    proposedSeqIdMap svc' = proposedSeqIdMap svc"
proof -
  let ?v = "latestSeqId svc + 1"
  let ?x = "newPendingMsg d ?v (hidOf hosts q)"
  let ?ack = "ackFor d ?v (hidOf hosts q)"
  let ?svc = "svc\<lparr>holdBackQueue :=
      (holdBackQueue svc)\<lparr>pendingMsgSet := insert (data_id d) (pendingIds svc), deque := queue svc @ [?x]\<rparr>,
    ackMessageCache := (ackMessageCache svc)(data_id d \<mapsto> ?ack), latestSeqId := ?v\<rparr>"
  have sid: "senderId svc = hidOf hosts q" and wired: "node_wired hosts q svc" and nq: "node_queue svc"
    using node_okD [OF ok] by (simp_all add: node_wired_def)
  have absent: "data_id d \<notin> pendingIds svc"
    using nq new by (auto simp: node_queue_def)
  have x: "pm_id ?x = data_id d" "\<not> deliverable ?x" "finalSeqId ?x = ?v" "dataMsg ?x = d"
    by (simp_all add: newPendingMsg_def pm_id_def)
  have "processDataMsg en d svc = Inr (?svc, [(p, wire (PAck ?ack))])"
    using absent sid node_reply [OF wired p(1)]
    by (simp add: processDataMsg_def addToQueue_def createOrGetAckMessage_def ackFor_def Let_def
        udpSend_def p(2) bytes_wire node_defs split: if_splits)
  moreover have "node_queue ?svc"
  proof -
    have "order_ok ?v (deliveredLog svc) (queue svc @ [?x])"
      using nq less by (intro order_ok_append) (auto simp: node_queue_def)
    moreover have "pm_id y \<noteq> data_id d" if "y \<in> set (queue svc)" for y
    proof
      assume "pm_id y = data_id d"
      with that have "data_id d \<in> pm_id ` set (entries svc)"
        by (intro image_eqI [of _ _ y]) (simp_all add: entries_def)
      with new show False ..
    qed
    ultimately show ?thesis
      using nq new x sid unfolding node_queue_def node_defs by auto
  qed
  ultimately show ?thesis
    using node_okD [OF ok]
    by (intro exI [of _ ?svc]) (auto simp: node_ok_def node_wired_def dataSenderOk_def seqSenderOk_def
        node_casts_def proposalsOf_def node_defs)
qed

lemma processDataMsg_repeat:
  assumes ok: "node_ok hosts cs q svc" and p: "p \<in> set hosts" "d_sender d = hidOf hosts p"
    and x: "x \<in> set (entries svc)" "dataMsg x = d" "\<not> deliverable x"
  shows "processDataMsg en d svc =
      Inr (svc, [(p, wire (PAck (ackFor d (finalSeqId x) (hidOf hosts q))))])"
proof -
  have sid: "senderId svc = hidOf hosts q" and wired: "node_wired hosts q svc" and nq: "node_queue svc"
    using node_okD [OF ok] by (simp_all add: node_wired_def)
  have "x \<in> set (queue svc)" using x nq by (auto simp: node_queue_def entries_def)
  then have "data_id d \<in> pendingIds svc"
    "ackMessageCache svc (data_id d) = Some (ackFor d (finalSeqId x) (hidOf hosts q))"
    using nq x sid by (auto simp: node_queue_def pm_id_def)
  then show ?thesis
    using node_reply [OF wired p(1)]
    by (simp add: processDataMsg_def addToQueue_def createOrGetAckMessage_def
        p(2) bytes_wire node_defs split: if_splits)
qed

text \<open>An acknowledgement: the first one from a host records its proposal, the last one announces.\<close>

lemma AList_update_absent:
  "k \<notin> fst ` set al \<Longrightarrow> AList.update k v al = al @ [(k, v)]"
  by (induction al) auto

lemma processAckMsg_duplicate:
  assumes ok: "node_ok hosts cs p svc" and q: "q \<in> set hosts" "a_proposer a = hidOf hosts q"
    and none: "\<And>d. d_msg_id d = a_msg_id a \<Longrightarrow> \<not> owed (dataMsgSender svc) d q"
  shows "\<exists>ds. processAckMsg en a svc = Inr (svc\<lparr>dataMsgSender := ds\<rparr>, []) \<and>
    owed ds = owed (dataMsgSender svc) \<and> node_ok hosts cs p (svc\<lparr>dataMsgSender := ds\<rparr>)"
proof -
  let ?r = "removeRecipient d_msg_id (a_msg_id a) q (dataMsgSender svc)"
  have wired: "node_wired hosts p svc" and ds: "dataSenderOk hosts svc"
    using node_okD [OF ok] by auto
  have sok: "sender_ok d_msg_id (\<lambda>d. wire (PData d)) (dataMsgSender svc)"
    using ds by (simp add: dataSenderOk_def)
  have "\<not> fst ?r" using cms.remove_iff [OF sok] none by blast
  then have "processAckMsg en a svc = Inr (svc\<lparr>dataMsgSender := snd ?r\<rparr>, [])"
    using node_reply(1) [OF wired q(1)] by (simp add: processAckMsg_def q(2) split_beta Let_def)
  moreover have "owed (snd ?r) = owed (dataMsgSender svc)"
    using none by (intro ext) (auto simp: cms.owed_remove [OF sok])
  moreover have "node_ok hosts cs p (svc\<lparr>dataMsgSender := snd ?r\<rparr>)"
    using ok cms.ok_remove [OF sok] ds
    by (auto simp: node_ok_def node_wired_def dataSenderOk_def seqSenderOk_def node_queue_def
        node_casts_def proposalsOf_def node_defs removeRecipient_msgList)
  ultimately show ?thesis by blast
qed

lemma processAckMsg_first:
  assumes ok: "node_ok hosts cs p svc" and q: "q \<in> set hosts" "a_proposer a = hidOf hosts q"
    and owed: "owed (dataMsgSender svc) d q" "d_msg_id d = a_msg_id a"
    and absent: "hidOf hosts q \<notin> fst ` set (proposalsOf svc (a_msg_id a))"
    and fresh: "\<And>m' r. owed (seqMsgSender svc) m' r \<Longrightarrow> s_msg_id m' \<noteq> a_msg_id a"
    and ps: "ps = proposalsOf svc (a_msg_id a) @ [(hidOf hosts q, a_proposed_seq a)]"
  shows "\<exists>svc'. processAckMsg en a svc = Inr (svc', []) \<and> node_ok hosts cs p svc' \<and>
    deliveredLog svc' = deliveredLog svc \<and> queue svc' = queue svc \<and> latestSeqId svc' = latestSeqId svc \<and>
    (\<forall>m r. owed (dataMsgSender svc') m r \<longleftrightarrow>
       owed (dataMsgSender svc) m r \<and> \<not> (d_msg_id m = a_msg_id a \<and> r = q)) \<and>
    proposalsOf svc' = (proposalsOf svc)(a_msg_id a := ps) \<and>
    (if length ps = length hosts
     then \<exists>m. createSeqMessage a ps = Inr m \<and>
       (\<forall>m' r. owed (seqMsgSender svc') m' r \<longleftrightarrow> owed (seqMsgSender svc) m' r \<or> m' = m \<and> r \<in> set hosts)
     else seqMsgSender svc' = seqMsgSender svc)"
proof -
  let ?i = "a_msg_id a"
  let ?r = "removeRecipient d_msg_id ?i q (dataMsgSender svc)"
  have wired: "node_wired hosts p svc" and ds: "dataSenderOk hosts svc" and ss: "seqSenderOk hosts svc"
    and rs: "recipients svc = hosts"
    using node_okD [OF ok] by (auto simp: node_wired_def)
  have sok: "sender_ok d_msg_id (\<lambda>d. wire (PData d)) (dataMsgSender svc)"
    and qok: "sender_ok s_msg_id (\<lambda>m. wire (PSeq m)) (seqMsgSender svc)"
    and peers: "cms_recipients (seqMsgSender svc) = hosts"
    using ds ss by (simp_all add: dataSenderOk_def seqSenderOk_def)
  have removed: "fst ?r" using cms.remove_iff [OF sok] owed by blast
  let ?svc1 = "svc\<lparr>dataMsgSender := snd ?r, proposedSeqIdMap := (proposedSeqIdMap svc)(?i \<mapsto> ps)\<rparr>"
  have upd: "AList.update (hidOf hosts q) (a_proposed_seq a) (proposalsOf svc ?i) = ps"
    unfolding ps by (rule AList_update_absent [OF absent])
  have run: "processAckMsg en a svc =
      (if length ps = length hosts
       then rbind (createSeqMessage a ps) (\<lambda>m.
         Inr (?svc1\<lparr>seqMsgSender := queueMsg (seqBytes en) m (seqMsgSender svc)\<rparr>, []))
       else Inr (?svc1, []))"
    using node_reply(1) [OF wired q(1)] removed upd rs
    by (simp add: processAckMsg_def q(2) split_beta Let_def proposalsOf_def)
  have dist: "distinct (map fst ps)"
    using node_okD(6) [OF ok, of ?i] absent unfolding ps by (auto simp: )
  have props: "proposalsOf ?svc1 = (proposalsOf svc)(?i := ps)"
    by (intro ext) (simp add: proposalsOf_def)
  have ok1: "node_ok hosts cs p ?svc1"
    using ok cms.ok_remove [OF sok] ds dist node_okD(6) [OF ok]
    by (auto simp: node_ok_def node_wired_def dataSenderOk_def seqSenderOk_def node_queue_def
        node_casts_def node_defs removeRecipient_msgList props)
  show ?thesis
  proof (cases "length ps = length hosts")
    case True
    have "ps \<noteq> []" by (simp add: ps)
    then obtain m where m: "createSeqMessage a ps = Inr m"
      using createSeqMessage_ex by blast
    let ?svc2 = "?svc1\<lparr>seqMsgSender := queueMsg (seqBytes en) m (seqMsgSender svc)\<rparr>"
    have "s_msg_id m = ?i" using createSeqMessage_max [OF m] by (simp add: seq_id_def)
    then have "sender_ok s_msg_id (\<lambda>m. wire (PSeq m)) (queueMsg (\<lambda>m. wire (PSeq m)) m (seqMsgSender svc))"
      using fresh by (intro cms.ok_queue [OF qok]) auto
    moreover have "seqBytes en = (\<lambda>m. wire (PSeq m))" by (intro ext) (simp add: bytes_wire)
    ultimately have ok2: "node_ok hosts cs p ?svc2"
      using ok1 peers
      by (auto simp: node_ok_def node_wired_def dataSenderOk_def seqSenderOk_def node_queue_def
        node_casts_def node_defs removeRecipient_msgList proposalsOf_def)
    show ?thesis
      using run True m ok2 props peers cms.owed_remove [OF sok] 
      by (intro exI [of _ ?svc2]) (auto simp: owed_queueMsg node_defs proposalsOf_def fun_eq_iff)
  next
    case False
    then show ?thesis
      using run ok1 props cms.owed_remove [OF sok]
      by (intro exI [of _ ?svc1]) (auto simp: node_defs)
  qed
qed

text \<open>An acknowledgement of a sequence message.\<close>

lemma processSeqAckMsg_effect:
  assumes ok: "node_ok hosts cs p svc" and q: "q \<in> set hosts" "sa_ack_sender k = hidOf hosts q"
  shows "\<exists>ss. processSeqAckMsg en k svc = Inr (svc\<lparr>seqMsgSender := ss\<rparr>, []) \<and>
    node_ok hosts cs p (svc\<lparr>seqMsgSender := ss\<rparr>) \<and>
    (\<forall>m r. owed ss m r \<longleftrightarrow> owed (seqMsgSender svc) m r \<and> \<not> (s_msg_id m = sa_msg_id k \<and> r = q))"
proof -
  let ?r = "removeRecipient s_msg_id (sa_msg_id k) q (seqMsgSender svc)"
  have wired: "node_wired hosts p svc" and ss: "seqSenderOk hosts svc"
    using node_okD [OF ok] by auto
  have sok: "sender_ok s_msg_id (\<lambda>m. wire (PSeq m)) (seqMsgSender svc)"
    using ss by (simp add: seqSenderOk_def)
  have "processSeqAckMsg en k svc = Inr (svc\<lparr>seqMsgSender := snd ?r\<rparr>, [])"
    using node_reply(1) [OF wired q(1)] by (simp add: processSeqAckMsg_def q(2) split_beta)
  moreover have "node_ok hosts cs p (svc\<lparr>seqMsgSender := snd ?r\<rparr>)"
    using ok cms.ok_remove [OF sok] ss
    by (auto simp: node_ok_def node_wired_def dataSenderOk_def seqSenderOk_def node_queue_def
        node_casts_def proposalsOf_def node_defs removeRecipient_msgList)
  ultimately show ?thesis using cms.owed_remove [OF sok] by blast
qed

text \<open>A sequence message for an entry that waits for its number.\<close>

lemma distinct_ids_split:
  assumes "distinct (map pm_id (log @ before @ x # after))"
  shows "pm_id x \<notin> pm_id ` set (log @ before @ after)"
  using assms by (auto simp: image_iff)

text \<open>The state after \<open>m\<close> has made the entry \<open>x\<close> deliverable.\<close>

definition markedQueue :: "SeqMessage \<Rightarrow> PendingMsg list \<Rightarrow> PendingMsg \<Rightarrow> PendingMsg list \<Rightarrow> PendingMsg list" where
  "markedQueue m before x after = sort_key pm_key (before @ marked_entry m x # after)"

definition seqMarked ::
  "SeqMessage \<Rightarrow> PendingMsg list \<Rightarrow> PendingMsg \<Rightarrow> PendingMsg list \<Rightarrow> MulticastService \<Rightarrow> MulticastService" where
  "seqMarked m before x after svc =
     (let tw = takeWhile deliverable (markedQueue m before x after);
          ids = if tw = [] then pendingIds svc else pendingIds svc - {seq_id m} in
      svc\<lparr>holdBackQueue := (holdBackQueue svc)\<lparr>pendingMsgSet := ids,
            deque := dropWhile deliverable (markedQueue m before x after)\<rparr>,
          deliveredLog := deliveredLog svc @ tw, latestSeqId := max (latestSeqId svc) (s_final_seq m),
          ackMessageCache := (ackMessageCache svc)(seq_id m := None)\<rparr>)"

lemma seqMarked_simps [simp]:
  "deliveredLog (seqMarked m before x after svc) =
     deliveredLog svc @ takeWhile deliverable (markedQueue m before x after)"
  "queue (seqMarked m before x after svc) = dropWhile deliverable (markedQueue m before x after)"
  "latestSeqId (seqMarked m before x after svc) = max (latestSeqId svc) (s_final_seq m)"
  "ackMessageCache (seqMarked m before x after svc) = (ackMessageCache svc)(seq_id m := None)"
  "senderId (seqMarked m before x after svc) = senderId svc"
  "dataMsgSender (seqMarked m before x after svc) = dataMsgSender svc"
  "seqMsgSender (seqMarked m before x after svc) = seqMsgSender svc"
  "proposedSeqIdMap (seqMarked m before x after svc) = proposedSeqIdMap svc"
  by (simp_all add: seqMarked_def node_defs Let_def)

lemma seqMarked_pending: "pendingIds svc - {seq_id m} \<subseteq> pendingIds (seqMarked m before x after svc)"
  "pendingIds (seqMarked m before x after svc) \<subseteq> pendingIds svc"
  by (simp_all add: seqMarked_def node_defs Let_def)

lemma seqMarked_all:
  "entries (seqMarked m before x after svc) = deliveredLog svc @ markedQueue m before x after"
  by (simp add: entries_def)

lemma markedQueue_set: "set (markedQueue m before x after) = insert (marked_entry m x) (set before \<union> set after)"
  by (simp add: markedQueue_def)

lemma seqMarked_queue:
  "y \<in> set (queue (seqMarked m before x after svc)) \<and> \<not> deliverable y \<longleftrightarrow>
   y \<in> set before \<union> set after \<and> \<not> deliverable y"
  (is "?l \<longleftrightarrow> ?r")
proof
  assume ?l
  then have "y \<in> set (markedQueue m before x after)" "\<not> deliverable y"
    by (auto dest: set_dropWhileD)
  then show ?r by (auto simp: markedQueue_set)
next
  assume r: ?r
  then have "y \<in> set (takeWhile deliverable (markedQueue m before x after)) \<union>
      set (dropWhile deliverable (markedQueue m before x after))"
    unfolding set_append [symmetric] takeWhile_dropWhile_id markedQueue_set by blast
  then show ?l using r by (auto dest: set_takeWhileD)
qed

lemma seqMarked_entries:
  assumes split: "queue svc = before @ x # after" and others: "x \<notin> set (deliveredLog svc @ before @ after)"
  shows "set (entries (seqMarked m before x after svc)) = insert (marked_entry m x) (set (entries svc) - {x})"
  using others unfolding seqMarked_all by (auto simp: entries_def split markedQueue_set)

lemma seqMarked_distinct:
  assumes "queue svc = before @ x # after" and "distinct (map pm_id (entries svc))"
  shows "distinct (map pm_id (entries (seqMarked m before x after svc)))"
proof -
  have "mset (map pm_id (entries (seqMarked m before x after svc))) = mset (map pm_id (entries svc))"
    by (simp add: seqMarked_all markedQueue_def entries_def assms(1))
  then show ?thesis using assms(2) mset_eq_imp_distinct_iff by blast
qed

lemma node_queue_marked:
  assumes nq: "node_queue svc" and split: "queue svc = before @ x # after"
    and x: "pm_id x = seq_id m" "\<not> deliverable x" and final: "finalSeqId x \<le> s_final_seq m"
    and fresh: "\<forall>y \<in> set (queue svc). deliverable y \<longrightarrow>
        seqKey y \<noteq> (s_final_seq m, s_final_seq_proposer m)"
    and others: "seq_id m \<notin> pm_id ` set (deliveredLog svc @ before @ after)"
  shows "node_queue (seqMarked m before x after svc)"
  unfolding node_queue_def
proof (intro conjI)
  let ?svc = "seqMarked m before x after svc"
  have order: "order_ok (latestSeqId svc) (deliveredLog svc) (before @ x # after)"
    using nq unfolding split [symmetric] by (simp add: node_queue_def)
  have "\<forall>y \<in> set before \<union> set after. deliverable y \<longrightarrow>
      seqKey y \<noteq> (s_final_seq m, s_final_seq_proposer m)"
    using fresh by (simp add: split)
  from order_ok_mark [OF order x(2) final this refl]
  show "order_ok (latestSeqId ?svc) (deliveredLog ?svc) (queue ?svc)" by (simp add: markedQueue_def)
  show "distinct (map pm_id (entries ?svc))"
    using seqMarked_distinct [OF split] nq by (simp add: node_queue_def)
  show "\<forall>y \<in> set (deliveredLog ?svc). deliverable y"
    using nq by (auto simp: node_queue_def dest: set_takeWhileD)
  show "\<forall>y \<in> set (queue ?svc). \<not> deliverable y \<longrightarrow> pm_id y \<in> pendingIds ?svc \<and>
      ackMessageCache ?svc (pm_id y) = Some (ackFor (dataMsg y) (finalSeqId y) (senderId ?svc))"
  proof (intro ballI impI)
    fix y assume "y \<in> set (queue ?svc)" "\<not> deliverable y"
    then have y: "y \<in> set before \<union> set after" "\<not> deliverable y"
      using seqMarked_queue [of y m before x after svc] by blast+
    then have "pm_id y \<in> pm_id ` set (deliveredLog svc @ before @ after)" by simp
    with others have "pm_id y \<noteq> seq_id m" by metis
    moreover have "y \<in> set (queue svc)" using y(1) by (auto simp: split)
    then have "pm_id y \<in> pendingIds svc"
      "ackMessageCache svc (pm_id y) = Some (ackFor (dataMsg y) (finalSeqId y) (senderId svc))"
      using nq y(2) by (simp_all add: node_queue_def)
    ultimately show "pm_id y \<in> pendingIds ?svc \<and>
      ackMessageCache ?svc (pm_id y) = Some (ackFor (dataMsg y) (finalSeqId y) (senderId ?svc))"
      using seqMarked_pending(1) by fastforce
  qed
  show "\<forall>i a. ackMessageCache ?svc i = Some a \<longrightarrow>
      (\<exists>y \<in> set (queue ?svc). \<not> deliverable y \<and> pm_id y = i)"
  proof (intro allI impI)
    fix i a assume "ackMessageCache ?svc i = Some a"
    then have i: "i \<noteq> seq_id m" "ackMessageCache svc i = Some a" by (auto split: if_splits)
    then obtain y where "y \<in> set (queue svc)" "\<not> deliverable y" "pm_id y = i"
      using nq unfolding node_queue_def by blast
    moreover from this i(1) x(1) split have "y \<in> set before \<union> set after" by auto
    ultimately show "\<exists>y \<in> set (queue ?svc). \<not> deliverable y \<and> pm_id y = i"
      using seqMarked_queue [of y m before x after svc] by blast
  qed
  have "pm_id ` set (entries ?svc) = pm_id ` set (entries svc)"
    unfolding seqMarked_all by (auto simp: entries_def split markedQueue_set)
  then show "pendingIds ?svc \<subseteq> pm_id ` set (entries ?svc)"
    using nq seqMarked_pending(2) by (fastforce simp: node_queue_def)
qed

lemma processSeqMsg_marks:
  assumes ok: "node_ok hosts cs q svc" and p: "p \<in> set hosts" "s_sender m = hidOf hosts p"
    and x: "x \<in> set (entries svc)" "pm_id x = seq_id m" "\<not> deliverable x"
    and final: "finalSeqId x \<le> s_final_seq m"
    and fresh: "\<forall>y \<in> set (queue svc). deliverable y \<longrightarrow>
        seqKey y \<noteq> (s_final_seq m, s_final_seq_proposer m)"
  shows "\<exists>svc' delivered. processSeqMsg en m svc =
      Inr (svc', [(p, wire (PSeqAck (seqAckFor m (hidOf hosts q))))]) \<and> node_ok hosts cs q svc' \<and>
    latestSeqId svc' = max (latestSeqId svc) (s_final_seq m) \<and>
    set (entries svc') = insert (marked_entry m x) (set (entries svc) - {x}) \<and>
    deliveredLog svc' = deliveredLog svc @ delivered \<and>
    dataMsgSender svc' = dataMsgSender svc \<and> seqMsgSender svc' = seqMsgSender svc \<and>
    proposalsOf svc' = proposalsOf svc"
proof -
  have sid: "senderId svc = hidOf hosts q" and wired: "node_wired hosts q svc" and nq: "node_queue svc"
    using node_okD [OF ok] by (simp_all add: node_wired_def)
  have xq: "x \<in> set (queue svc)" using x nq by (auto simp: node_queue_def entries_def)
  then obtain before after where split: "queue svc = before @ x # after"
    by (auto simp: in_set_conv_decomp)
  have pend: "seq_id m \<in> pendingIds svc" using nq xq x by (auto simp: node_queue_def)
  have "distinct (map pm_id (deliveredLog svc @ before @ x # after))"
    using nq split by (simp add: node_queue_def entries_def)
  from distinct_ids_split [OF this] x(2)
  have others: "seq_id m \<notin> pm_id ` set (deliveredLog svc @ before @ after)" by simp
  then have absent: "x \<notin> set (deliveredLog svc @ before @ after)" using x(2) by (metis imageI)
  have mark: "markFirst m (queue svc) = (True, before @ marked_entry m x # after)"
    unfolding split using others by (intro markFirst_split x(2)) auto
  let ?svc = "seqMarked m before x after svc"
  have run: "processSeqMsg en m svc = Inr (?svc, [(p, wire (PSeqAck (seqAckFor m (hidOf hosts q))))])"
    using pend mark sid node_reply [OF wired p(1)]
    by (simp add: processSeqMsg_def markDeliverable_def deliverLoop_eq createSeqAckMessage_def seqMarked_def
        markedQueue_def Let_def seqAckFor_def udpSend_def p(2) bytes_wire node_defs split: if_splits)
  have "node_queue ?svc"
    by (rule node_queue_marked [OF nq split x(2,3) final fresh others])
  then have "node_ok hosts cs q ?svc"
    using node_okD [OF ok] by (auto simp: node_ok_def node_wired_def dataSenderOk_def seqSenderOk_def
        node_casts_def proposalsOf_def seqMarked_def Let_def)
  with run seqMarked_entries [OF split absent] show ?thesis
    by (intro exI [of _ ?svc]) (simp add: proposalsOf_def fun_eq_iff)
qed

text \<open>A repeated sequence message changes nothing.\<close>

lemma markFirst_noop:
  assumes "x \<in> set ps" and "distinct (map pm_id ps)" and "pm_id x = seq_id m"
    and "marked_entry m x = x"
  shows "markFirst m ps = (True, ps)"
proof -
  obtain before after where split: "ps = before @ x # after"
    using assms(1) by (auto simp: in_set_conv_decomp)
  with assms(2,3) have "seq_id m \<notin> pm_id ` set before" by auto
  then show ?thesis
    unfolding split using markFirst_split [OF assms(3)] assms(4) by simp
qed

lemma processSeqMsg_repeat:
  assumes ok: "node_ok hosts cs q svc" and p: "p \<in> set hosts" "s_sender m = hidOf hosts p"
    and x: "x \<in> set (entries svc)" "pm_id x = seq_id m" "deliverable x"
    and final: "seqKey x = (s_final_seq m, s_final_seq_proposer m)"
  shows "processSeqMsg en m svc =
      Inr (svc, [(p, wire (PSeqAck (seqAckFor m (hidOf hosts q))))])"
proof -
  have sid: "senderId svc = hidOf hosts q" and wired: "node_wired hosts q svc" and nq: "node_queue svc"
    using node_okD [OF ok] by (simp_all add: node_wired_def)
  have ids: "distinct (map pm_id (entries svc))" and order: "order_ok (latestSeqId svc) (deliveredLog svc) (queue svc)"
    using nq by (simp_all add: node_queue_def)
  have noop: "marked_entry m x = x"
    using x(3) final by (cases x) (simp add: marked_entry_def seqKey_def)
  have only: "y = x" if "y \<in> set (entries svc)" "pm_id y = seq_id m" for y
    using ids x that unfolding distinct_map by (metis inj_onD)
  have cache: "ackMessageCache svc (seq_id m) = None"
    using nq x(3) only by (force simp: node_queue_def entries_def)
  have idle: "sort_key pm_key (queue svc) = queue svc" "takeWhile deliverable (queue svc) = []"
    "dropWhile deliverable (queue svc) = queue svc"
    using order_ok_idle [OF order] by simp_all
  have le: "max (latestSeqId svc) (s_final_seq m) = latestSeqId svc"
  proof -
    have "finalSeqId x \<le> latestSeqId svc" using order x(1) by (auto simp: order_ok_def entries_def)
    with final show ?thesis by (simp add: seqKey_def max_absorb1)
  qed
  have "snd (markFirst m (queue svc)) = queue svc"
  proof (cases "x \<in> set (queue svc)")
    case True
    then show ?thesis using markFirst_noop [OF True _ x(2) noop] ids by (simp add: entries_def)
  next
    case False
    have "seq_id m \<notin> pm_id ` set (queue svc)"
    proof
      assume "seq_id m \<in> pm_id ` set (queue svc)"
      then obtain y where "y \<in> set (queue svc)" "pm_id y = seq_id m" by auto
      with only [of y] False show False by (simp add: entries_def)
    qed
    then show ?thesis by (simp add: markFirst_absent)
  qed
  then obtain marked where "markFirst m (queue svc) = (marked, queue svc)"
    by (cases "markFirst m (queue svc)") simp
  then have mark: "markDeliverable m (holdBackQueue svc) =
      (if seq_id m \<in> pendingIds svc then marked else False, holdBackQueue svc, [])"
    using idle by (simp add: markDeliverable_def deliverLoop_eq node_defs)
  have "svc\<lparr>ackMessageCache := (ackMessageCache svc)(seq_id m := None)\<rparr> = svc"
    using cache by (simp add: fun_upd_idem)
  then show ?thesis
    using mark sid le node_reply [OF wired p(1)]
    by (simp add: processSeqMsg_def createSeqAckMessage_def seqAckFor_def p(2) bytes_wire)
qed

end
