(* ===== verification/MulticastSim.thy ===== *)
theory MulticastSim
  imports MulticastRefine
begin

text \<open>
  The abstraction of a system state and the simulation. The channels of the system carry bytes,
  those of the abstract machine packets; \<open>refines\<close> relates the two and demands the invariant of
  every service. Each turn of a receiving loop is shown to be a step of the abstract machine, and
  not to fail.
\<close>

section \<open>The abstraction\<close>

definition absSys :: "sys \<Rightarrow> (hostname \<Rightarrow> hostname \<Rightarrow> packet list) \<Rightarrow> isis" where
  "absSys s pc =
     \<lparr>held = (\<lambda>q. set (entries (nodes s q))), latest = (\<lambda>q. latestSeqId (nodes s q)),
      props = (\<lambda>p i. set (proposalsOf (nodes s p) i)),
      owedData = (\<lambda>p. {(d, q). owed (dataMsgSender (nodes s p)) d q}),
      owedSeq = (\<lambda>p. {(m, q). owed (seqMsgSender (nodes s p)) m q}),
      sent = (\<lambda>p. set (casts s p)), net = pc\<rparr>"

lemma absSys_simps [simp]:
  "held (absSys s pc) q = set (entries (nodes s q))"
  "latest (absSys s pc) q = latestSeqId (nodes s q)"
  "props (absSys s pc) p i = set (proposalsOf (nodes s p) i)"
  "(d, q) \<in> owedData (absSys s pc) p \<longleftrightarrow> owed (dataMsgSender (nodes s p)) d q"
  "(m, q) \<in> owedSeq (absSys s pc) p \<longleftrightarrow> owed (seqMsgSender (nodes s p)) m q"
  "sent (absSys s pc) p = set (casts s p)" "net (absSys s pc) = pc"
  by (simp_all add: absSys_def)

definition refines :: "hostname list \<Rightarrow> sys \<Rightarrow> (hostname \<Rightarrow> hostname \<Rightarrow> packet list) \<Rightarrow> bool" where
  "refines hosts s pc \<longleftrightarrow> chan s = (\<lambda>p q. map wire (pc p q)) \<and>
     (\<forall>q \<in> set hosts. node_ok hosts (casts s q) q (nodes s q))"

text \<open>The invariants that hold at every state of a run, on the abstract side.\<close>

definition absInv :: "hostname list \<Rightarrow> isis \<Rightarrow> bool" where
  "absInv hosts a \<longleftrightarrow> isisInv (set hosts) (hidOf hosts) a \<and> boundInv (set hosts) a"

lemma hidOf_inj: "valid_hosts hosts \<Longrightarrow> inj_on (hidOf hosts) (set hosts)"
proof (rule inj_onI)
  fix p q assume v: "valid_hosts hosts" and pq: "p \<in> set hosts" "q \<in> set hosts" "hidOf hosts p = hidOf hosts q"
  have d: "distinct hosts" using v by (simp add: valid_hosts_def)
  obtain i j where "getProcessIdentifier hosts p = Inr i" "getProcessIdentifier hosts q = Inr j"
    using getProcessIdentifier_ex [OF d] pq by blast
  with pq(3) show "p = q" using getProcessIdentifier_inject [OF v] by (simp add: hidOf_def)
qed

text \<open>What a turn of the receiving loop of \<open>q\<close> does to the system and to its abstraction.\<close>

definition afterReceive ::
  "hostname \<Rightarrow> hostname \<Rightarrow> byte list list \<Rightarrow> MulticastService \<Rightarrow> sends \<Rightarrow> sys \<Rightarrow> sys" where
  "afterReceive p q rest svc out s =
     (setNode q svc (setChan p q rest s))
       \<lparr>chan := transmit q (outTo out) (chan (setChan p q rest s))\<rparr>"

lemma afterReceive_nodes:
  "nodes (afterReceive p q rest svc out s) = (nodes s)(q := svc)"
  "casts (afterReceive p q rest svc out s) = casts s"
  by (simp_all add: afterReceive_def setNode_def setChan_def)

lemma afterReceive_chan:
  assumes "chan s = (\<lambda>p q. map wire (pc p q))" and "out = map (\<lambda>a. (p, wire a)) answer"
  shows "chan (afterReceive p q (map wire rest) svc out s) =
    (\<lambda>p' q'. map wire (reply p q rest answer pc p' q'))"
  using assms
  by (auto simp: fun_eq_iff afterReceive_def setNode_def setChan_def reply_def transmit_def outTo_def
      filter_map o_def)

lemma afterReceive_refines:
  assumes "refines hosts s pc" and "node_ok hosts (casts s q) q svc"
    and "out = map (\<lambda>a. (p, wire a)) answer"
  shows "refines hosts (afterReceive p q (map wire rest) svc out s) (reply p q rest answer pc)"
  using assms afterReceive_chan [of s pc out p answer q rest svc]
  by (auto simp: refines_def afterReceive_nodes)

lemma absSys_afterReceive:
  "absSys (afterReceive p q rest svc out s) pc' = (absSys s pc)
     \<lparr>held := (held (absSys s pc))(q := set (entries svc)),
      latest := (latest (absSys s pc))(q := latestSeqId svc),
      props := (props (absSys s pc))(q := (\<lambda>i. set (proposalsOf svc i))),
      owedData := (owedData (absSys s pc))(q := {(d, r). owed (dataMsgSender svc) d r}),
      owedSeq := (owedSeq (absSys s pc))(q := {(m, r). owed (seqMsgSender svc) m r}),
      net := pc'\<rparr>"
  by (auto simp: absSys_def afterReceive_nodes fun_eq_iff)

lemma reply_none: "reply p q rest [] ch = ch(p := (ch p)(q := rest))"
  by (simp add: reply_def transmit_def fun_eq_iff)

text \<open>The state in which a packet arrives.\<close>

definition arrives ::
  "hostname list \<Rightarrow> sys \<Rightarrow> (hostname \<Rightarrow> hostname \<Rightarrow> packet list) \<Rightarrow> hostname \<Rightarrow> hostname \<Rightarrow>
     packet \<Rightarrow> packet list \<Rightarrow> bool" where
  "arrives hosts s pc p q k rest \<longleftrightarrow> valid_hosts hosts \<and> refines hosts s pc \<and>
     absInv hosts (absSys s pc) \<and> smallRun hosts s \<and> p \<in> set hosts \<and> q \<in> set hosts \<and>
     pc p q = k # rest"

definition handled ::
  "hostname list \<Rightarrow> endian \<Rightarrow> sys \<Rightarrow> (hostname \<Rightarrow> hostname \<Rightarrow> packet list) \<Rightarrow> hostname \<Rightarrow>
     hostname \<Rightarrow> packet \<Rightarrow> packet list \<Rightarrow> bool" where
  "handled hosts en s pc p q k rest \<longleftrightarrow> (\<exists>svc out pc'.
     processPacket en k (nodes s q) = Inr (svc, out) \<and>
     refines hosts (afterReceive p q (map wire rest) svc out s) pc' \<and>
     isis_step (set hosts) (hidOf hosts) (absSys s pc)
       (absSys (afterReceive p q (map wire rest) svc out s) pc'))"

lemma handledI:
  assumes "processPacket en k (nodes s q) = Inr (svc, map (\<lambda>a. (p, wire a)) answer)"
    and "refines hosts s pc" and "node_ok hosts (casts s q) q svc"
    and "isis_step (set hosts) (hidOf hosts) (absSys s pc) b"
    and "absSys (afterReceive p q (map wire rest) svc (map (\<lambda>a. (p, wire a)) answer) s)
         (reply p q rest answer pc) = b"
  shows "handled hosts en s pc p q k rest"
  using assms(1,4) afterReceive_refines [OF assms(2,3) refl]
  unfolding handled_def assms(5) [symmetric] by blast

text \<open>The number of entries leaves room below \<open>2 ^ 32\<close>.\<close>

lemma held_bound:
  assumes inv: "isisInv (set hosts) hid (absSys s pc)" and q: "q \<in> set hosts"
  shows "card (dataMsg ` set (entries (nodes s q))) \<le> totalCasts hosts s"
proof -
  have "dataMsg ` set (entries (nodes s q)) \<subseteq> (\<Union>p \<in> set hosts. set (casts s p))"
    using inv q by (auto simp: isisInv_def heldInv_def)
  then have "card (dataMsg ` set (entries (nodes s q))) \<le> card (\<Union>p \<in> set hosts. set (casts s p))"
    by (intro card_mono) auto
  also have "\<dots> = card (set (concat (map (casts s) hosts)))" by simp
  also have "\<dots> \<le> length (concat (map (casts s) hosts))" by (rule card_length)
  also have "\<dots> = totalCasts hosts s" by (simp add: length_concat totalCasts_def o_def)
  finally show ?thesis .
qed

lemma room_for_proposal:
  assumes v: "valid_hosts hosts" and inv: "absInv hosts (absSys s pc)" and small: "smallRun hosts s"
    and q: "q \<in> set hosts"
  shows "latestSeqId (nodes s q) < latestSeqId (nodes s q) + 1"
proof -
  let ?a = "absSys s pc"
  have iinv: "isisInv (set hosts) (hidOf hosts) ?a" and bound: "boundInv (set hosts) ?a"
    using inv by (simp_all add: absInv_def)
  have "unat (latestSeqId (nodes s q)) \<le> entryCount (set hosts) ?a"
    using bound q by (simp add: boundInv_def)
  also have "\<dots> \<le> of_nat (card (set hosts)) * totalCasts hosts s"
    unfolding entryCount_def
    by (rule sum_bounded_above) (use held_bound [OF iinv] in auto)
  also have "\<dots> = length hosts * totalCasts hosts s"
    using v by (simp add: valid_hosts_def distinct_card)
  also have "\<dots> < 2 ^ 32 - 1" using small by (simp add: smallRun_def)
  finally have "unat (latestSeqId (nodes s q)) + 1 < 2 ^ 32" by simp
  then show ?thesis
    by (simp add: word_less_nat_alt unat_word_ariths)
qed

section \<open>Receiving\<close>

lemma arrivesD:
  assumes "arrives hosts s pc p q k rest"
  shows "valid_hosts hosts" "refines hosts s pc" "absInv hosts (absSys s pc)" "smallRun hosts s"
    "p \<in> set hosts" "q \<in> set hosts" "pc p q = k # rest" "inj_on (hidOf hosts) (set hosts)"
    "isisInv (set hosts) (hidOf hosts) (absSys s pc)"
    "packetOk (set hosts) (hidOf hosts) (absSys s pc) p q k"
    "castInv (set hosts) (hidOf hosts) (absSys s pc)"
    "node_ok hosts (casts s q) q (nodes s q)"
proof -
  show *: "valid_hosts hosts" "refines hosts s pc" "absInv hosts (absSys s pc)" "smallRun hosts s"
    "p \<in> set hosts" "q \<in> set hosts" "pc p q = k # rest"
    using assms by (simp_all add: arrives_def)
  then show "inj_on (hidOf hosts) (set hosts)" by (simp add: hidOf_inj)
  show inv: "isisInv (set hosts) (hidOf hosts) (absSys s pc)" using * by (simp add: absInv_def)
  show "packetOk (set hosts) (hidOf hosts) (absSys s pc) p q k"
    using chanInv_head(1) [OF isisInv_chan [OF inv] *(5,6)] *(7) by simp
  show "castInv (set hosts) (hidOf hosts) (absSys s pc)" using inv by (simp add: isisInv_def)
  show "node_ok hosts (casts s q) q (nodes s q)" using * by (simp add: refines_def)
qed

lemma receive_data_again:
  assumes arr: "arrives hosts s pc p q (PData d) rest"
    and x: "x \<in> set (entries (nodes s q))" "dataMsg x = d"
  shows "handled hosts en s pc p q (PData d) rest"
proof -
  note a = arrivesD [OF arr]
  let ?a = "absSys s pc" and ?hid = "hidOf hosts"
  have d: "d \<in> set (casts s p)" "\<not> isFinal ?a q d" using a(10) by auto
  have sender: "d_sender d = ?hid p" using a(11) a(5) d(1) by (auto simp: castInv_def)
  have nd: "\<not> deliverable x" using d(2) x by (auto simp: isFinal_def)
  let ?ans = "[PAck (ackFor d (finalSeqId x) (?hid q))]"
  have "isis_step (set hosts) ?hid ?a (?a\<lparr>net := reply p q rest ?ans pc\<rparr>)"
    using is_repeat [of p "set hosts" q ?a d rest x ?hid] a(5-7) d(1) x nd by simp
  moreover have "absSys (afterReceive p q (map wire rest) (nodes s q) (map (\<lambda>a. (p, wire a)) ?ans) s)
      (reply p q rest ?ans pc) = ?a\<lparr>net := reply p q rest ?ans pc\<rparr>"
    unfolding absSys_afterReceive [where pc = pc] by (auto simp: absSys_def fun_eq_iff)
  ultimately show ?thesis
    using processDataMsg_repeat [OF a(12) a(5) sender x nd, of en] a(2,12)
    by (intro handledI [where answer = ?ans]) (assumption | simp)+
qed

text \<open>A message that is not held has a new identifier, too.\<close>

lemma new_identifier:
  assumes arr: "arrives hosts s pc p q (PData d) rest" and new: "\<forall>x \<in> set (entries (nodes s q)). dataMsg x \<noteq> d"
  shows "data_id d \<notin> pm_id ` set (entries (nodes s q))"
proof
  note a = arrivesD [OF arr]
  assume "data_id d \<in> pm_id ` set (entries (nodes s q))"
  then obtain x where x: "x \<in> set (entries (nodes s q))" "data_id d = data_id (dataMsg x)"
    by (auto simp: pm_id_def)
  obtain p' where p': "p' \<in> set hosts" "dataMsg x \<in> sent (absSys s pc) p'"
    using held_sent [OF a(9) a(6), of x] x(1) by auto
  have "d = dataMsg x"
    using sent_unique [OF a(11,8) a(5) p'(1) _ p'(2) x(2)] a(10) by simp
  with new x(1) show False by blast
qed

lemma receive_data_first:
  assumes arr: "arrives hosts s pc p q (PData d) rest" and new: "\<forall>x \<in> set (entries (nodes s q)). dataMsg x \<noteq> d"
  shows "handled hosts en s pc p q (PData d) rest"
proof -
  note a = arrivesD [OF arr]
  let ?a = "absSys s pc" and ?hid = "hidOf hosts" and ?v = "latestSeqId (nodes s q) + 1"
  let ?ans = "[PAck (ackFor d ?v (?hid q))]"
  have d: "d \<in> set (casts s p)" using a(10) by simp
  have sender: "d_sender d = ?hid p" using a(11) a(5) d by (auto simp: castInv_def)
  have less: "latestSeqId (nodes s q) < ?v" using room_for_proposal [OF a(1,3,4,6)] .
  obtain svc where svc: "processDataMsg en d (nodes s q) = Inr (svc, [(p, wire (PAck (ackFor d ?v (?hid q))))])"
    "node_ok hosts (casts s q) q svc" "latestSeqId svc = ?v"
    "deliveredLog svc = deliveredLog (nodes s q)"
    "queue svc = queue (nodes s q) @ [newPendingMsg d ?v (?hid q)]"
    "dataMsgSender svc = dataMsgSender (nodes s q)" "seqMsgSender svc = seqMsgSender (nodes s q)"
    "proposedSeqIdMap svc = proposedSeqIdMap (nodes s q)"
    using processDataMsg_new [OF a(12) a(5) sender new_identifier [OF arr new] less, of en] by blast
  let ?b = "?a\<lparr>held := (held ?a)(q := insert (newPendingMsg d ?v (?hid q)) (held ?a q)),
    latest := (latest ?a)(q := ?v), net := reply p q rest ?ans pc\<rparr>"
  have "isis_step (set hosts) ?hid ?a ?b"
    using is_propose [of p "set hosts" q ?a d rest ?hid] a(5-7) d new less by auto
  moreover have "absSys (afterReceive p q (map wire rest) svc (map (\<lambda>a. (p, wire a)) ?ans) s)
      (reply p q rest ?ans pc) = ?b"
    unfolding absSys_afterReceive [where pc = pc] using svc
    by (auto simp: absSys_def fun_eq_iff entries_def proposalsOf_def)
  ultimately show ?thesis
    using svc(1,2) a(2) by (intro handledI [where answer = ?ans]) (assumption | simp)+
qed

lemma receive_data:
  "arrives hosts s pc p q (PData d) rest \<Longrightarrow> handled hosts en s pc p q (PData d) rest"
  by (cases "\<exists>x \<in> set (entries (nodes s q)). dataMsg x = d") (blast intro: receive_data_again receive_data_first)+

text \<open>The message that a final number is about, and its entry at the receiver.\<close>

lemma announced_held:
  assumes arr: "arrives hosts s pc p q (PSeq m) rest"
  obtains d x where "d \<in> set (casts s p)"
    "winner (props (absSys s pc) p (d_msg_id d)) (s_final_seq_proposer m, s_final_seq m)"
    "s_sender m = hidOf hosts p" "x \<in> set (entries (nodes s q))" "dataMsg x = d" "pm_id x = seq_id m"
    "\<not> deliverable x \<longrightarrow> finalSeqId x \<le> s_final_seq m"
proof -
  note a = arrivesD [OF arr]
  let ?a = "absSys s pc" and ?hid = "hidOf hosts"
  obtain d where d: "d \<in> sent ?a p" "complete (set hosts) ?hid (props ?a p (d_msg_id d))"
    "announces (props ?a p (d_msg_id d)) d m"
    using a(10) by (auto simp del: absSys_simps)
  have w: "winner (props ?a p (d_msg_id d)) (s_final_seq_proposer m, s_final_seq m)"
    using d(3) by (simp add: announces_def)
  have sender: "s_sender m = ?hid p"
    using d a(11) a(5) by (auto simp: announces_def castInv_def)
  obtain x where x: "x \<in> held ?a q" "dataMsg x = d" "\<not> deliverable x \<longrightarrow> finalSeqId x \<le> s_final_seq m"
    using complete_held [OF a(9,8) a(5,6) d(1,2) w] .
  have "pm_id x = seq_id m"
    using x(2) d(3) by (simp add: announces_def pm_id_def seq_id_def data_id_def)
  then show thesis using that [of d x] d(1) w sender x by simp
qed

text \<open>Only the entry of that message has the announced number.\<close>

lemma announced_key:
  assumes inv: "isisInv H hid s" and inj: "inj_on hid H" and p: "p \<in> H" and q: "q \<in> H"
    and d: "d \<in> sent s p" and w: "winner (props s p (d_msg_id d)) (s_final_seq_proposer m, s_final_seq m)"
    and y: "y \<in> held s q" "deliverable y"
  shows "seqKey y = (s_final_seq m, s_final_seq_proposer m) \<longleftrightarrow> dataMsg y = d"
proof -
  have cast: "castInv H hid s" and uniq: "uniqInv H hid s" using inv by (simp_all add: isisInv_def)
  obtain p' where p': "p' \<in> H" "dataMsg y \<in> sent s p'" using held_sent [OF inv q y(1)] .
  note wy = final_winner(2) [OF inv p'(1) q y p'(2)]
  show ?thesis
  proof
    assume "seqKey y = (s_final_seq m, s_final_seq_proposer m)"
    then have "(finalSeqProposer y, finalSeqId y) = (s_final_seq_proposer m, s_final_seq m)"
      by (simp add: seqKey_def)
    then have "p' = p \<and> d_msg_id (dataMsg y) = d_msg_id d"
      using w wy p'(1) p uniq unfolding winner_def uniqInv_def by (metis (no_types))
    with cast_unique [OF cast p d] p'(2) show "dataMsg y = d" by blast
  next
    assume y': "dataMsg y = d"
    have "p' = p" using sent_sender [OF cast inj p'(1) p p'(2)] y' d by simp
    with wy w y' show "seqKey y = (s_final_seq m, s_final_seq_proposer m)"
      using winner_unique by (fastforce simp: seqKey_def)
  qed
qed

lemma receive_seq_again:
  assumes arr: "arrives hosts s pc p q (PSeq m) rest" and sender: "s_sender m = hidOf hosts p"
    and x: "x \<in> set (entries (nodes s q))" "pm_id x = seq_id m" "deliverable x"
    and key: "seqKey x = (s_final_seq m, s_final_seq_proposer m)"
  shows "handled hosts en s pc p q (PSeq m) rest"
proof -
  note a = arrivesD [OF arr]
  let ?a = "absSys s pc" and ?hid = "hidOf hosts"
  let ?ans = "[PSeqAck (seqAckFor m (?hid q))]"
  have "isis_step (set hosts) ?hid ?a (?a\<lparr>net := reply p q rest ?ans pc\<rparr>)"
    using is_finished [of p "set hosts" q ?a m rest x ?hid] a(5-7) x by simp
  moreover have "absSys (afterReceive p q (map wire rest) (nodes s q) (map (\<lambda>a. (p, wire a)) ?ans) s)
      (reply p q rest ?ans pc) = ?a\<lparr>net := reply p q rest ?ans pc\<rparr>"
    unfolding absSys_afterReceive [where pc = pc] by (auto simp: absSys_def fun_eq_iff)
  ultimately show ?thesis
    using processSeqMsg_repeat [OF a(12) a(5) sender x key, of en] a(2,12)
    by (intro handledI [where answer = ?ans]) (assumption | simp)+
qed

lemma receive_seq_first:
  assumes arr: "arrives hosts s pc p q (PSeq m) rest" and sender: "s_sender m = hidOf hosts p"
    and x: "x \<in> set (entries (nodes s q))" "pm_id x = seq_id m" "\<not> deliverable x"
    and le: "finalSeqId x \<le> s_final_seq m"
    and final: "\<And>y. y \<in> set (entries (nodes s q)) \<Longrightarrow> deliverable y \<Longrightarrow>
      seqKey y = (s_final_seq m, s_final_seq_proposer m) \<Longrightarrow> dataMsg y = dataMsg x"
  shows "handled hosts en s pc p q (PSeq m) rest"
proof -
  note a = arrivesD [OF arr]
  let ?a = "absSys s pc" and ?hid = "hidOf hosts"
  let ?ans = "[PSeqAck (seqAckFor m (?hid q))]"
  have "inj_on dataMsg (set (entries (nodes s q)))"
    using a(9,6) by (auto simp: isisInv_def heldInv_def)
  then have other: "\<forall>y \<in> set (queue (nodes s q)). deliverable y \<longrightarrow>
      seqKey y \<noteq> (s_final_seq m, s_final_seq_proposer m)"
    using final x(1,3) by (metis Un_iff entries_def inj_onD set_append)
  obtain svc where svc: "processSeqMsg en m (nodes s q) =
      Inr (svc, [(p, wire (PSeqAck (seqAckFor m (?hid q))))])"
    "node_ok hosts (casts s q) q svc"
    "latestSeqId svc = max (latestSeqId (nodes s q)) (s_final_seq m)"
    "set (entries svc) = insert (marked_entry m x) (set (entries (nodes s q)) - {x})"
    "dataMsgSender svc = dataMsgSender (nodes s q)" "seqMsgSender svc = seqMsgSender (nodes s q)"
    "proposalsOf svc = proposalsOf (nodes s q)"
    using processSeqMsg_marks [OF a(12) a(5) sender x le other, of en] by blast
  let ?b = "?a\<lparr>held := (held ?a)(q := insert (marked_entry m x) (held ?a q - {x})),
    latest := (latest ?a)(q := max (latest ?a q) (s_final_seq m)), net := reply p q rest ?ans pc\<rparr>"
  have "isis_step (set hosts) ?hid ?a ?b"
    using is_finish [of p "set hosts" q ?a m rest x ?hid] a(5-7) x by simp
  moreover have "absSys (afterReceive p q (map wire rest) svc (map (\<lambda>a. (p, wire a)) ?ans) s)
      (reply p q rest ?ans pc) = ?b"
    unfolding absSys_afterReceive [where pc = pc] using svc by (auto simp: absSys_def fun_eq_iff)
  ultimately show ?thesis
    using svc(1,2) a(2) by (intro handledI [where answer = ?ans]) (assumption | simp)+
qed

lemma receive_seq:
  assumes arr: "arrives hosts s pc p q (PSeq m) rest"
  shows "handled hosts en s pc p q (PSeq m) rest"
proof -
  note a = arrivesD [OF arr]
  obtain d x where d: "d \<in> set (casts s p)"
    "winner (props (absSys s pc) p (d_msg_id d)) (s_final_seq_proposer m, s_final_seq m)"
    "s_sender m = hidOf hosts p" and
    x: "x \<in> set (entries (nodes s q))" "dataMsg x = d" "pm_id x = seq_id m"
    "\<not> deliverable x \<longrightarrow> finalSeqId x \<le> s_final_seq m"
    using announced_held [OF arr] .
  have final: "seqKey y = (s_final_seq m, s_final_seq_proposer m) \<longleftrightarrow> dataMsg y = d"
    if "y \<in> set (entries (nodes s q))" "deliverable y" for y
    using announced_key [OF a(9,8,5,6) _ d(2)] d(1) that by simp
  show ?thesis
  proof (cases "deliverable x")
    case True
    show ?thesis
      by (rule receive_seq_again [OF arr d(3) x(1,3) True]) (simp add: final x True)
  next
    case False
    show ?thesis
      by (rule receive_seq_first [OF arr d(3) x(1,3) False]) (use x final False in simp_all)
  qed
qed

lemma receive_seqAck:
  assumes arr: "arrives hosts s pc q p (PSeqAck k) rest"
  shows "handled hosts en s pc q p (PSeqAck k) rest"
proof -
  note a = arrivesD [OF arr]
  let ?a = "absSys s pc" and ?hid = "hidOf hosts"
  have sender: "sa_ack_sender k = ?hid q" using a(10) by auto
  obtain ss where ss: "processSeqAckMsg en k (nodes s p) = Inr ((nodes s p)\<lparr>seqMsgSender := ss\<rparr>, [])"
    "node_ok hosts (casts s p) p ((nodes s p)\<lparr>seqMsgSender := ss\<rparr>)"
    "\<forall>m r. owed ss m r \<longleftrightarrow> owed (seqMsgSender (nodes s p)) m r \<and> \<not> (s_msg_id m = sa_msg_id k \<and> r = q)"
    using processSeqAckMsg_effect [OF a(12) a(5) sender, of en] by blast
  let ?b = "?a\<lparr>owedSeq := (owedSeq ?a)(p := {(m, r) \<in> owedSeq ?a p. \<not> (s_msg_id m = sa_msg_id k \<and> r = q)}),
      net := pc(q := (pc q)(p := rest))\<rparr>"
  have "isis_step (set hosts) ?hid ?a ?b"
    using is_confirm [of p "set hosts" q ?a k rest ?hid] a(5-7) by simp
  moreover have "absSys (afterReceive q p (map wire rest) ((nodes s p)\<lparr>seqMsgSender := ss\<rparr>)
      (map (\<lambda>a. (q, wire a)) []) s) (reply q p rest [] pc) = ?b"
    unfolding absSys_afterReceive [where pc = pc] reply_none using ss(3)
    by (auto simp: absSys_def fun_eq_iff entries_def queue_def proposalsOf_def)
  ultimately show ?thesis
    using ss(1,2) a(2) by (intro handledI [where answer = "[]"]) (assumption | simp)+
qed

text \<open>All hosts have answered when there are as many answers as hosts.\<close>

lemma complete_length:
  assumes dist: "distinct hosts" and inj: "inj_on hid (set hosts)"
    and keys: "distinct (map fst ps)" and sub: "fst ` set ps \<subseteq> hid ` set hosts"
  shows "complete (set hosts) hid (set ps) \<longleftrightarrow> length ps = length hosts"
proof -
  have "card (fst ` set ps) = length ps" using keys distinct_card by fastforce
  moreover have "card (hid ` set hosts) = length hosts"
    using dist inj by (simp add: card_image distinct_card)
  ultimately show ?thesis
    using card_subset_eq [OF _ sub] by (auto simp: complete_def)
qed

lemma owedInvD:
  assumes "owedInv H hid a" and "p \<in> H" and "(d, q) \<in> owedData a p"
  shows "d \<in> sent a p" and "q \<in> H" and "hid q \<notin> fst ` props a p (d_msg_id d)"
proof -
  show "d \<in> sent a p" "q \<in> H" using assms unfolding owedInv_def by blast+
  then show "hid q \<notin> fst ` props a p (d_msg_id d)" using assms unfolding owedInv_def by blast
qed

text \<open>An acknowledgement that is not awaited any more is taken out of the channel, nothing else.\<close>

lemma receive_ack_again:
  assumes arr: "arrives hosts s pc q p (PAck k) rest" and k: "k = ackFor d v (hidOf hosts q)"
    and done_: "\<And>d'. d_msg_id d' = d_msg_id d \<Longrightarrow> \<not> owed (dataMsgSender (nodes s p)) d' q"
  shows "handled hosts en s pc q p (PAck k) rest"
proof -
  note a = arrivesD [OF arr]
  let ?a = "absSys s pc" and ?hid = "hidOf hosts" and ?svc = "nodes s p"
  have fields: "a_proposer k = ?hid q" "a_msg_id k = d_msg_id d" by (simp_all add: k ackFor_def)
  obtain ds where ds: "processAckMsg en k ?svc = Inr (?svc\<lparr>dataMsgSender := ds\<rparr>, [])"
    "owed ds = owed (dataMsgSender ?svc)" "node_ok hosts (casts s p) p (?svc\<lparr>dataMsgSender := ds\<rparr>)"
    using processAckMsg_duplicate [OF a(12) a(5) fields(1), of en] done_ fields(2) by metis
  let ?b = "?a\<lparr>net := pc(q := (pc q)(p := rest))\<rparr>"
  have "isis_step (set hosts) ?hid ?a ?b"
    using is_lose [of q "set hosts" p ?a "[]" "PAck k" rest ?hid] a(5-7) by simp
  moreover have "absSys (afterReceive q p (map wire rest) (?svc\<lparr>dataMsgSender := ds\<rparr>)
      (map (\<lambda>a. (q, wire a)) []) s) (reply q p rest [] pc) = ?b"
    unfolding absSys_afterReceive [where pc = pc] reply_none using ds(2)
    by (auto simp: absSys_def fun_eq_iff entries_def queue_def proposalsOf_def)
  ultimately show ?thesis
    using ds(1,3) a(2) by (intro handledI [where answer = "[]"]) (assumption | simp)+
qed

text \<open>A sender collects as many proposals as there are hosts, one from each.\<close>

lemma proposals_complete:
  assumes hosts: "valid_hosts hosts" and inv: "isisInv (set hosts) (hidOf hosts) (absSys s pc)"
    and pq: "p \<in> set hosts" "q \<in> set hosts" and keys: "distinct (map fst (proposalsOf (nodes s p) i @ [(hidOf hosts q, v)]))"
  shows "complete (set hosts) (hidOf hosts) (set (proposalsOf (nodes s p) i @ [(hidOf hosts q, v)])) \<longleftrightarrow>
    length (proposalsOf (nodes s p) i @ [(hidOf hosts q, v)]) = length hosts"
proof (rule complete_length [OF _ hidOf_inj [OF hosts] keys])
  show "distinct hosts" using hosts by (simp add: valid_hosts_def)
  have "propInv (set hosts) (hidOf hosts) (absSys s pc)" using inv by (simp add: isisInv_def)
  note from_host = propInvD [OF this pq(1)]
  have "r \<in> hidOf hosts ` set hosts" if "(r, w) \<in> set (proposalsOf (nodes s p) i)" for r w
    using from_host [of r w i] that by auto
  then show "fst ` set (proposalsOf (nodes s p) i @ [(hidOf hosts q, v)]) \<subseteq> hidOf hosts ` set hosts"
    using pq(2) by auto
qed

text \<open>No final number is owed for a message that lacks a proposal.\<close>

lemma open_owes_none:
  assumes inv: "seqInv H hid s" and p: "p \<in> H" and open_: "\<not> complete H hid (props s p i)"
    and m: "(m, r) \<in> owedSeq s p"
  shows "s_msg_id m \<noteq> i"
  using seqInvD(1) [OF inv p m] open_ by (auto simp: announces_def)

lemma receive_ack_first:
  assumes arr: "arrives hosts s pc q p (PAck k) rest" and k: "k = ackFor d v (hidOf hosts q)"
    and d: "d \<in> set (casts s p)" "owed (dataMsgSender (nodes s p)) d q"
    and same: "\<And>d'. owed (dataMsgSender (nodes s p)) d' q \<Longrightarrow> d_msg_id d' = d_msg_id d \<Longrightarrow> d' = d"
  shows "handled hosts en s pc q p (PAck k) rest"
proof -
  note a = arrivesD [OF arr]
  let ?a = "absSys s pc" and ?hid = "hidOf hosts" and ?svc = "nodes s p" and ?i = "d_msg_id d"
  let ?ps = "proposalsOf ?svc ?i @ [(?hid q, v)]"
  have fields: "a_proposer k = ?hid q" "a_msg_id k = ?i" "a_proposed_seq k = v" "a_sender k = d_sender d"
    by (simp_all add: k ackFor_def)
  have inv: "owedInv (set hosts) ?hid ?a" "seqInv (set hosts) ?hid ?a" using a(9) by (simp_all add: isisInv_def)
  have absent: "?hid q \<notin> fst ` set (proposalsOf ?svc ?i)"
    using owedInvD(3) [OF inv(1) a(6), of d q] d(2) by simp
  have "\<not> complete (set hosts) ?hid (props ?a p ?i)"
    using owed_not_complete [OF a(9) a(6) a(5), of d] d by simp
  then have fresh: "s_msg_id m' \<noteq> ?i" if "owed (seqMsgSender ?svc) m' r" for m' r
    using open_owes_none [OF inv(2) a(6), of ?i m' r] that by simp
  obtain svc where svc: "processAckMsg en k ?svc = Inr (svc, [])" "node_ok hosts (casts s p) p svc"
    "deliveredLog svc = deliveredLog ?svc" "queue svc = queue ?svc" "latestSeqId svc = latestSeqId ?svc"
    "\<forall>m r. owed (dataMsgSender svc) m r \<longleftrightarrow>
       owed (dataMsgSender ?svc) m r \<and> \<not> (d_msg_id m = ?i \<and> r = q)"
    "proposalsOf svc = (proposalsOf ?svc)(?i := ?ps)"
    "if length ?ps = length hosts
     then \<exists>m. createSeqMessage k ?ps = Inr m \<and>
       (\<forall>m' r. owed (seqMsgSender svc) m' r \<longleftrightarrow> owed (seqMsgSender ?svc) m' r \<or> m' = m \<and> r \<in> set hosts)
     else seqMsgSender svc = seqMsgSender ?svc"
    using processAckMsg_first [OF a(12) a(5) fields(1) d(2) _ _ _ refl, of en] absent fresh
    unfolding fields(2,3) by auto
  have complete: "complete (set hosts) ?hid (set ?ps) \<longleftrightarrow> length ?ps = length hosts"
    by (rule proposals_complete [OF a(1,9,6,5)]) (use node_okD(6) [OF svc(2), of ?i] svc(7) in simp)
  have "announces (set ?ps) d m" if "createSeqMessage k ?ps = Inr m" for m
    using createSeqMessage_max [OF that] createSeqMessage_type [OF that] fields
    by (auto simp: announces_def winner_def seq_id_def)
  then obtain m new where new: "if complete (set hosts) ?hid (set ?ps)
      then announces (set ?ps) d m \<and> new = {m} \<times> set hosts else new = {}"
    and seqs: "\<forall>m' r. owed (seqMsgSender svc) m' r \<longleftrightarrow> owed (seqMsgSender ?svc) m' r \<or> (m', r) \<in> new"
    using svc(8) unfolding complete by (cases "length ?ps = length hosts") auto
  let ?b = "?a\<lparr>props := (props ?a)(p := (props ?a p)(?i := set ?ps)),
       owedData := (owedData ?a)(p := owedData ?a p - {(d, q)}),
       owedSeq := (owedSeq ?a)(p := owedSeq ?a p \<union> new), net := pc(q := (pc q)(p := rest))\<rparr>"
  have "isis_step (set hosts) ?hid ?a ?b"
    using is_collect [of p "set hosts" q ?a d v ?hid rest "set ?ps" m new] a(5-7) d k new by simp
  moreover have "absSys (afterReceive q p (map wire rest) svc
      (map (\<lambda>a. (q, wire a)) []) s) (reply q p rest [] pc) = ?b"
    unfolding absSys_afterReceive [where pc = pc] reply_none using svc(3-7) seqs same
    by (auto simp: absSys_def fun_eq_iff entries_def)
  ultimately show ?thesis
    using svc(1,2) a(2) by (intro handledI [where answer = "[]"]) (assumption | simp)+
qed

lemma receive_ack:
  assumes arr: "arrives hosts s pc q p (PAck k) rest"
  shows "handled hosts en s pc q p (PAck k) rest"
proof -
  note a = arrivesD [OF arr]
  obtain d v where d: "d \<in> set (casts s p)" and k: "k = ackFor d v (hidOf hosts q)"
    using a(10) by auto
  have owedInv: "owedInv (set hosts) (hidOf hosts) (absSys s pc)" using a(9) by (simp add: isisInv_def)
  have same: "d' = d" if "owed (dataMsgSender (nodes s p)) d' q" "d_msg_id d' = d_msg_id d" for d'
    using cast_unique [OF a(11,6) _ _ that(2)] owedInvD(1) [OF owedInv a(6), of d' q] that(1) d by simp
  show ?thesis
    using receive_ack_again [OF arr k] receive_ack_first [OF arr k d _ same] same by blast
qed

lemma receive_packet:
  assumes "arrives hosts s pc p q k rest"
  shows "handled hosts en s pc p q k rest"
  using assms receive_data receive_ack receive_seq receive_seqAck by (cases k) auto

end
