(* ===== verification/MulticastOrder.thy ===== *)
theory MulticastOrder
  imports MulticastSim
begin

text \<open>
  The runs of lab1's multicast service: every step of the system is a step of the abstract machine,
  so the invariants hold in every reachable state, and with them the promises of a total order
  multicast: the processes deliver the same messages in the same order, each at most once and only
  messages that were multicast; no process dies in a handler; and when nobody has anything left to
  send, everybody has delivered everything.
\<close>

section \<open>The simulation\<close>

lemma absInv_step:
  assumes "isis_step (set hosts) (hidOf hosts) a b" and "valid_hosts hosts" and "absInv hosts a"
  shows "absInv hosts b"
  using assms isis_step_inv [OF assms(1) hidOf_inj [OF assms(2)]]
    isis_step_bound [OF assms(1) hidOf_inj [OF assms(2)]]
  by (simp add: absInv_def)

lemma of_nat_ids:
  assumes "map d_msg_id cs = map of_nat [1..<Suc (length cs)]" and "Suc (length cs) < 2 ^ 32" and "d \<in> set cs"
  shows "d_msg_id d \<noteq> (of_nat (Suc (length cs)) :: u32)"
proof
  assume eq: "d_msg_id d = of_nat (Suc (length cs))"
  have "d_msg_id d \<in> set (map of_nat [1..<Suc (length cs)])"
    using assms(3) unfolding assms(1) [symmetric] by simp
  then obtain n where "n \<in> set [1..<Suc (length cs)]" and id: "d_msg_id d = of_nat n"
    unfolding set_map by (elim imageE)
  then have n: "n \<le> length cs" by auto
  then have "(of_nat n :: u32) = of_nat (Suc (length cs))" using eq id by simp
  then have "n = Suc (length cs)" using n assms(2) by (subst (asm) of_nat_u32_inject) auto
  with n show False by simp
qed

lemma totalCasts_member:
  assumes "p \<in> set hosts"
  shows "length (casts s p) \<le> totalCasts hosts s" and "1 \<le> length hosts"
  using assms by (auto simp: totalCasts_def intro!: member_le_sum_list Suc_leI length_pos_if_in_set)

lemma smallRun_cast:
  assumes "smallRun hosts s" and "p \<in> set hosts"
  shows "length (casts s p) < 2 ^ 32 - 1"
proof -
  have "length (casts s p) \<le> 1 * totalCasts hosts s" using totalCasts_member(1) [OF assms(2)] by simp
  also have "\<dots> \<le> length hosts * totalCasts hosts s"
    using totalCasts_member(2) [OF assms(2)] by (intro mult_le_mono) auto
  also have "\<dots> < 2 ^ 32 - 1" using assms(1) by (simp add: smallRun_def)
  finally show ?thesis .
qed

definition simulated :: "hostname list \<Rightarrow> sys \<Rightarrow> (hostname \<Rightarrow> hostname \<Rightarrow> packet list) \<Rightarrow> sys \<Rightarrow> bool" where
  "simulated hosts s pc t \<longleftrightarrow> (\<exists>pc'. refines hosts t pc' \<and>
     isis_step (set hosts) (hidOf hosts) (absSys s pc) (absSys t pc'))"

lemma multicast_sim:
  assumes ref: "refines hosts s pc" and inv: "absInv hosts (absSys s pc)" and p: "p \<in> set hosts"
    and t: "t = (setNode p (multicast (en p) data (nodes s p)) s)
        \<lparr>casts := (casts s)(p := casts s p @ [fst (createDataMessage data (nodes s p))])\<rparr>"
    and small: "smallRun hosts t"
  shows "simulated hosts s pc t"
proof -
  let ?svc = "nodes s p" and ?a = "absSys s pc"
  let ?d = "fst (createDataMessage data ?svc)"
  let ?new = "multicast (en p) data ?svc"
  have ok: "node_ok hosts (casts s p) p ?svc" using ref p by (simp add: refines_def)
  note ok' = node_okD [OF ok]
  have "length (casts t p) < 2 ^ 32 - 1" by (rule smallRun_cast [OF small p])
  then have len: "Suc (length (casts s p)) < 2 ^ 32" by (simp add: t)
  have d: "d_sender ?d = hidOf hosts p" "d_type ?d = 1" "d_msg_id ?d = of_nat (Suc (length (casts s p)))"
    using ok'(1,5) by (simp_all add: createDataMessage_def Let_def node_wired_def node_casts_def)
  have fresh: "d_msg_id d' \<noteq> d_msg_id ?d" if "d' \<in> set (casts s p)" for d'
    using of_nat_ids [OF _ len that] ok'(5) d(3) by (simp add: node_casts_def)
  have oinv: "owedInv (set hosts) (hidOf hosts) ?a" using inv by (simp add: absInv_def isisInv_def)
  have owed: "d' \<in> set (casts s p)" if "owed (dataMsgSender ?svc) d' r" for d' r
    using owedInvD(1) [OF oinv p, of d' r] that by simp
  have sok: "sender_ok d_msg_id (\<lambda>d. wire (PData d)) (dataMsgSender ?svc)"
    "cms_recipients (dataMsgSender ?svc) = hosts"
    using ok'(2) by (simp_all add: dataSenderOk_def)
  have ser: "dataBytes (en p) = (\<lambda>d. wire (PData d))" by (intro ext) (simp add: bytes_wire)
  have new: "?new = ?svc\<lparr>msgId := msgId ?svc + 1,
      dataMsgSender := queueMsg (\<lambda>d. wire (PData d)) ?d (dataMsgSender ?svc)\<rparr>"
    by (simp add: multicast_def createDataMessage_def Let_def ser)
  have "sender_ok d_msg_id (\<lambda>d. wire (PData d)) (queueMsg (\<lambda>d. wire (PData d)) ?d (dataMsgSender ?svc))"
    by (rule cms.ok_queue [OF sok(1)]) (use fresh owed in blast)
  then have "node_ok hosts (casts s p @ [?d]) p ?new"
    using ok' sok(2) d(3) unfolding new
    by (auto simp: node_ok_def node_wired_def dataSenderOk_def seqSenderOk_def node_queue_def
        node_casts_def node_defs proposalsOf_def)
  then have "refines hosts t pc"
    using ref by (simp add: refines_def t setNode_def)
  moreover have "isis_step (set hosts) (hidOf hosts) ?a (?a\<lparr>sent := (sent ?a)(p := insert ?d (sent ?a p)),
         owedData := (owedData ?a)(p := owedData ?a p \<union> {?d} \<times> set hosts)\<rparr>)"
    by (rule is_cast) (use p d fresh in auto)
  moreover have "absSys t pc = ?a\<lparr>sent := (sent ?a)(p := insert ?d (sent ?a p)),
         owedData := (owedData ?a)(p := owedData ?a p \<union> {?d} \<times> set hosts)\<rparr>"
    unfolding absSys_def t setNode_def new
    by (auto simp: fun_eq_iff node_defs proposalsOf_def owed_queueMsg sok(2))
  ultimately show ?thesis unfolding simulated_def by metis
qed

text \<open>A round of a sending thread, as packets.\<close>

definition packetsOut :: "('m \<Rightarrow> packet) \<Rightarrow> 'm ContinuousMsgSender \<Rightarrow> hostname \<Rightarrow> packet list" where
  "packetsOut pk s q = map (\<lambda>h. pk (orgMsg h)) (filter (\<lambda>h. q \<in> holder_recipients h) (msgList s))"

lemma packetsOut_wire:
  "sender_ok mid (\<lambda>m. wire (pk m)) s \<Longrightarrow> roundSends s q = map wire (packetsOut pk s q)"
  by (auto simp: roundSends_def packetsOut_def sender_ok_def)

lemma packetsOut_owed: "k \<in> set (packetsOut pk s q) \<Longrightarrow> \<exists>m. k = pk m \<and> owed s m q"
  by (auto simp: packetsOut_def owed_def)

lemma senderStep_packets:
  assumes "sender_ok mid (\<lambda>m. wire (pk m)) s" and "senderStep s = Some (Inr (s', out, n))"
  obtains po where "out = (\<lambda>q. map wire (po q))" and "\<And>q k. k \<in> set (po q) \<Longrightarrow> \<exists>m. k = pk m \<and> owed s m q"
proof (cases "out = (\<lambda>_. [])")
  case True
  then show ?thesis using that [of "\<lambda>_. []"] by simp
next
  case False
  then have "out = roundSends s" using senderStep_frame [OF assms] by blast
  then have "out = (\<lambda>q. map wire (packetsOut pk s q))"
    using packetsOut_wire [OF assms(1)] by (simp add: fun_eq_iff)
  then show ?thesis using that packetsOut_owed by blast
qed

lemma transmit_wire:
  "transmit p (\<lambda>q. map wire (po q)) (\<lambda>p q. map wire (pc p q)) =
     (\<lambda>p' q. map wire (transmit p po pc p' q))"
  by (auto simp: transmit_def fun_eq_iff)

lemma dataThread_sim:
  assumes ref: "refines hosts s pc" and p: "p \<in> set hosts"
    and step: "senderStep (dataMsgSender (nodes s p)) = Some (Inr (ds, out, interval))"
    and t: "t = (setNode p ((nodes s p)\<lparr>dataMsgSender := ds\<rparr>) s)\<lparr>chan := transmit p out (chan s)\<rparr>"
  shows "simulated hosts s pc t"
proof -
  let ?svc = "nodes s p" and ?a = "absSys s pc"
  have ok: "node_ok hosts (casts s p) p ?svc" and ch: "chan s = (\<lambda>p q. map wire (pc p q))"
    using ref p by (simp_all add: refines_def)
  have sok: "sender_ok d_msg_id (\<lambda>d. wire (PData d)) (dataMsgSender ?svc)"
    using node_okD(2) [OF ok] by (simp add: dataSenderOk_def)
  obtain po where po: "out = (\<lambda>q. map wire (po q))"
    "\<And>q k. k \<in> set (po q) \<Longrightarrow> \<exists>d. k = PData d \<and> owed (dataMsgSender ?svc) d q"
    using senderStep_packets [OF sok step] by blast
  have "owed ds = owed (dataMsgSender ?svc)"
    using senderStep_owed [OF sok step] by (simp add: fun_eq_iff)
  then have "absSys t (transmit p po pc) = ?a\<lparr>net := transmit p po pc\<rparr>"
    by (auto simp: absSys_def t setNode_def fun_eq_iff node_defs proposalsOf_def)
  moreover have "isis_step (set hosts) (hidOf hosts) ?a (?a\<lparr>net := transmit p po (net ?a)\<rparr>)"
    by (rule is_send) (use p po(2) in auto)
  moreover have "node_ok hosts (casts s p) p (?svc\<lparr>dataMsgSender := ds\<rparr>)"
    using ok senderStep_ok [OF sok step] senderStep_frame [OF sok step]
    by (auto simp: node_ok_def node_wired_def dataSenderOk_def seqSenderOk_def node_queue_def
        node_casts_def node_defs proposalsOf_def)
  then have "refines hosts t (transmit p po pc)"
    using ref ch po(1) transmit_wire [of p po pc] by (simp add: refines_def t setNode_def)
  ultimately show ?thesis unfolding simulated_def by (metis absSys_simps(7))
qed

lemma seqThread_sim:
  assumes ref: "refines hosts s pc" and p: "p \<in> set hosts"
    and step: "senderStep (seqMsgSender (nodes s p)) = Some (Inr (ss, out, interval))"
    and t: "t = (setNode p ((nodes s p)\<lparr>seqMsgSender := ss\<rparr>) s)\<lparr>chan := transmit p out (chan s)\<rparr>"
  shows "simulated hosts s pc t"
proof -
  let ?svc = "nodes s p" and ?a = "absSys s pc"
  have ok: "node_ok hosts (casts s p) p ?svc" and ch: "chan s = (\<lambda>p q. map wire (pc p q))"
    using ref p by (simp_all add: refines_def)
  have sok: "sender_ok s_msg_id (\<lambda>d. wire (PSeq d)) (seqMsgSender ?svc)"
    using node_okD(3) [OF ok] by (simp add: seqSenderOk_def)
  obtain po where po: "out = (\<lambda>q. map wire (po q))"
    "\<And>q k. k \<in> set (po q) \<Longrightarrow> \<exists>d. k = PSeq d \<and> owed (seqMsgSender ?svc) d q"
    using senderStep_packets [OF sok step] by blast
  have "owed ss = owed (seqMsgSender ?svc)"
    using senderStep_owed [OF sok step] by (simp add: fun_eq_iff)
  then have "absSys t (transmit p po pc) = ?a\<lparr>net := transmit p po pc\<rparr>"
    by (auto simp: absSys_def t setNode_def fun_eq_iff node_defs proposalsOf_def)
  moreover have "isis_step (set hosts) (hidOf hosts) ?a (?a\<lparr>net := transmit p po (net ?a)\<rparr>)"
    by (rule is_send) (use p po(2) in auto)
  moreover have "node_ok hosts (casts s p) p (?svc\<lparr>seqMsgSender := ss\<rparr>)"
    using ok senderStep_ok [OF sok step] senderStep_frame [OF sok step]
    by (auto simp: node_ok_def node_wired_def dataSenderOk_def seqSenderOk_def node_queue_def
        node_casts_def node_defs proposalsOf_def)
  then have "refines hosts t (transmit p po pc)"
    using ref ch po(1) transmit_wire [of p po pc] by (simp add: refines_def t setNode_def)
  ultimately show ?thesis unfolding simulated_def by (metis absSys_simps(7))
qed

lemma packetOk_typed:
  assumes "castInv H hid a" and "p \<in> H" and "q \<in> H" and "packetOk H hid a p q k"
  shows "typed k"
  using assms by (cases k) (auto simp: castInv_def ackFor_def announces_def)

text \<open>A turn of the receiving loop: the packet at the head of the channel is dropped or handled.\<close>

lemma receive_turn:
  assumes v: "valid_hosts hosts" and ref: "refines hosts s pc" and inv: "absInv hosts (absSys s pc)"
    and small: "smallRun hosts s" and p: "p \<in> set hosts" and q: "q \<in> set hosts"
    and b: "chan s p q = b # rest"
  shows "\<exists>svc out. listenStep (en q) acceptAll dropIt (received b junk from) (nodes s q, ()) =
      Inr ((svc, ()), out) \<and> simulated hosts s pc (afterReceive p q rest svc out s)"
proof -
  obtain k krest where pcq: "pc p q = k # krest" and bk: "b = wire k" and rest: "rest = map wire krest"
    using ref b by (auto simp: refines_def)
  have arr: "arrives hosts s pc p q k krest"
    using assms pcq by (simp add: arrives_def)
  note a = arrivesD [OF arr]
  have "typed k" using packetOk_typed [OF a(11) p q a(10)] .
  then have run: "listenStep (en q) acceptAll dropIt (received b junk from) (nodes s q, ()) =
    (if dropIt then Inr ((nodes s q, ()), [])
     else rbind (processPacket (en q) k (nodes s q)) (\<lambda>(svc', out). Inr ((svc', ()), out)))"
    unfolding bk by (rule listenStep_wire)
  show ?thesis
  proof (cases dropIt)
    case True
    let ?t = "afterReceive p q rest (nodes s q) [] s"
    let ?pc = "pc(p := (pc p)(q := krest))"
    have "refines hosts ?t ?pc"
      using afterReceive_refines [OF ref a(12), of "[]" p "[]" krest] by (simp add: rest reply_none)
    moreover have "absSys ?t ?pc = (absSys s pc)\<lparr>net := ?pc\<rparr>"
      unfolding absSys_afterReceive [where pc = pc] by (auto simp: absSys_def fun_eq_iff)
    moreover have "isis_step (set hosts) (hidOf hosts) (absSys s pc) ((absSys s pc)\<lparr>net := ?pc\<rparr>)"
      using is_lose [of p "set hosts" q "absSys s pc" "[]" k krest "hidOf hosts"] p q pcq by simp
    ultimately have "simulated hosts s pc ?t" unfolding simulated_def by metis
    then show ?thesis using run True by auto
  next
    case False
    obtain svc out pc' where h: "processPacket (en q) k (nodes s q) = Inr (svc, out)"
      "refines hosts (afterReceive p q (map wire krest) svc out s) pc'"
      "isis_step (set hosts) (hidOf hosts) (absSys s pc)
         (absSys (afterReceive p q (map wire krest) svc out s) pc')"
      using receive_packet [OF arr, of "en q"] unfolding handled_def by blast
    then have "simulated hosts s pc (afterReceive p q rest svc out s)"
      unfolding simulated_def rest by blast
    then show ?thesis using run False h(1) by auto
  qed
qed

lemma chan_change_sim:
  assumes ref: "refines hosts s pc" and p: "p \<in> set hosts" and q: "q \<in> set hosts"
    and c: "chan s p q = bs @ b # cs" and n: "n = bs @ cs \<or> n = bs @ b # b # cs"
  shows "simulated hosts s pc (setChan p q n s)"
proof -
  have "map wire (pc p q) = bs @ b # cs" using ref c by (simp add: refines_def)
  then obtain ks k ls where k: "pc p q = ks @ k # ls" "bs = map wire ks" "b = wire k" "cs = map wire ls"
    by (auto simp: map_eq_append_conv)
  define kn where "kn = (if n = bs @ cs then ks @ ls else ks @ k # k # ls)"
  let ?pc = "pc(p := (pc p)(q := kn))"
  have n': "n = map wire kn" using n k by (auto simp: kn_def)
  have "refines hosts (setChan p q n s) ?pc"
    using ref by (auto simp: refines_def setChan_def n' fun_eq_iff)
  moreover have "absSys (setChan p q n s) ?pc = (absSys s pc)\<lparr>net := ?pc\<rparr>"
    by (simp add: absSys_def setChan_def)
  moreover have "isis_step (set hosts) (hidOf hosts) (absSys s pc) ((absSys s pc)\<lparr>net := ?pc\<rparr>)"
    using is_lose [of p "set hosts" q "absSys s pc" ks k ls "hidOf hosts"]
      is_duplicate [of p "set hosts" q "absSys s pc" ks k ls "hidOf hosts"] p q k(1)
    by (simp add: kn_def)
  ultimately show ?thesis unfolding simulated_def by metis
qed

lemma overtake_sim:
  assumes ref: "refines hosts s pc" and p: "p \<in> set hosts" and q: "q \<in> set hosts"
    and inv: "absInv hosts (absSys s pc)"
    and c: "chan s p q = bs @ b # c # cs" and ov: "ov c b" and d: "dataFirst ov"
  shows "simulated hosts s pc (setChan p q (bs @ c # b # cs) s)"
proof -
  have "map wire (pc p q) = bs @ b # c # cs" using ref c by (simp add: refines_def)
  then obtain ks j k ls where k: "pc p q = ks @ j # k # ls" "bs = map wire ks" "b = wire j" "c = wire k" "cs = map wire ls"
    by (auto simp: map_eq_append_conv map_eq_Cons_conv)
  have inv': "isisInv (set hosts) (hidOf hosts) (absSys s pc)" using inv by (simp add: absInv_def)
  then have cast: "castInv (set hosts) (hidOf hosts) (absSys s pc)" by (simp add: isisInv_def)
  have ok: "packetOk (set hosts) (hidOf hosts) (absSys s pc) p q x" if "x \<in> set (pc p q)" for x
    using isisInv_chan [OF inv'] p q that by (simp add: chanInv_def)
  have "typed j" "typed k"
    using packetOk_typed [OF cast p q ok] k(1) by simp_all
  with d ov have ff: "fifo k j" unfolding fifo_def dataFirst_def k(3,4) by (metis typed.simps(1,3))
  let ?pc = "pc(p := (pc p)(q := ks @ k # j # ls))"
  have "refines hosts (setChan p q (bs @ c # b # cs) s) ?pc"
    using ref by (auto simp: refines_def setChan_def fun_eq_iff k)
  moreover have "absSys (setChan p q (bs @ c # b # cs) s) ?pc = (absSys s pc)\<lparr>net := ?pc\<rparr>"
    by (simp add: absSys_def setChan_def)
  moreover have "isis_step (set hosts) (hidOf hosts) (absSys s pc) ((absSys s pc)\<lparr>net := ?pc\<rparr>)"
    using is_overtake [of p "set hosts" q "absSys s pc" ks j k ls "hidOf hosts"] p q k(1) ff by simp
  ultimately show ?thesis unfolding simulated_def by metis
qed

lemma mstep_sim:
  assumes step: "mstep hosts en ov s t" and v: "valid_hosts hosts" and ref: "refines hosts s pc"
    and inv: "absInv hosts (absSys s pc)" and small: "smallRun hosts s" "smallRun hosts t"
    and first: "dataFirst ov"
  shows "simulated hosts s pc t"
  using step
proof cases
  case (ms_multicast p data)
  then show ?thesis using multicast_sim [OF ref inv _ _ small(2)] by blast
next
  case (ms_dataThread p ds out interval)
  then show ?thesis using dataThread_sim [OF ref] by blast
next
  case (ms_seqThread p ss out interval)
  then show ?thesis using seqThread_sim [OF ref] by blast
next
  case (ms_receive p q b rest dropIt junk fr svc out)
  then show ?thesis
    using receive_turn [OF v ref inv small(1) ms_receive(2,3,4), of en dropIt junk fr]
    by (auto simp: afterReceive_def)
next
  case (ms_lose p q bs b cs)
  then show ?thesis using chan_change_sim [OF ref] by blast
next
  case (ms_duplicate p q bs b cs)
  then show ?thesis using chan_change_sim [OF ref] by blast
next
  case (ms_overtake p q bs b c cs)
  then show ?thesis using overtake_sim [OF ref _ _ inv _ _ first] by blast
qed

section \<open>Reachable states\<close>

lemma startNode_ok:
  assumes v: "valid_hosts hosts" and q: "q \<in> set hosts"
  shows "\<exists>svc. startNode hosts q = Inr svc \<and> node_ok hosts [] q svc \<and> entries svc = [] \<and>
    (\<forall>i. proposalsOf svc i = []) \<and> msgList (dataMsgSender svc) = [] \<and> msgList (seqMsgSender svc) = []"
proof -
  have d: "distinct hosts" using v by (simp add: valid_hosts_def)
  obtain i where i: "getProcessIdentifier hosts q = Inr i" using getProcessIdentifier_ex [OF d q] by blast
  obtain m where m: "recipientIdMapOf hosts = Inr m"
    "\<And>i h. m i = Some h \<longleftrightarrow> getProcessIdentifier hosts h = Inr i"
    using recipientIdMapOf_lookup [OF v] by blast
  have hid: "getProcessIdentifier hosts h = Inr (hidOf hosts h)" if "h \<in> set hosts" for h
    using getProcessIdentifier_ex [OF d that] by (auto simp: hidOf_def)
  let ?svc = "newMulticastService i hosts m"
  have "hosts \<noteq> []" using q by auto
  then have "node_ok hosts [] q ?svc"
    using m(2) hid i
    by (auto simp: node_ok_def node_wired_def dataSenderOk_def seqSenderOk_def node_queue_def
        node_casts_def node_defs proposalsOf_def newMulticastService_def newHoldBackQueue_def
        newContinuousMsgSender_def sender_ok_def order_ok_init hidOf_def)
  then show ?thesis
    using i m(1) by (intro exI [of _ ?svc])
      (simp add: startNode_def newMulticastService_def node_defs newHoldBackQueue_def
        newContinuousMsgSender_def proposalsOf_def)
qed

text \<open>
  The abstraction also looks at hosts that are not in the file; the invariants only speak about the
  hosts in it, so the initial state satisfies them.
\<close>

lemma init_inv:
  assumes v: "valid_hosts hosts"
  shows "refines hosts (initSys hosts) (\<lambda>_ _. []) \<and> absInv hosts (absSys (initSys hosts) (\<lambda>_ _. []))"
proof -
  let ?a = "absSys (initSys hosts) (\<lambda>_ _. [])"
  have node: "node_ok hosts [] q (nodes (initSys hosts) q)" "entries (nodes (initSys hosts) q) = []"
    "proposalsOf (nodes (initSys hosts) q) i = []"
    "msgList (dataMsgSender (nodes (initSys hosts) q)) = []"
    "msgList (seqMsgSender (nodes (initSys hosts) q)) = []"
    if "q \<in> set hosts" for q i
    using startNode_ok [OF v that] by (auto simp: initSys_def)
  have latest: "latestSeqId (nodes (initSys hosts) q) = 0" if "q \<in> set hosts" for q
    using startNode_ok [OF v that]
    by (auto simp: initSys_def startNode_def newMulticastService_def rbind_eq_Inr)
  have "refines hosts (initSys hosts) (\<lambda>_ _. [])"
    using node(1) by (simp add: refines_def initSys_def)
  moreover have none: "sent ?a q = {}" for q by (simp add: initSys_def)
  have "isisInv (set hosts) (hidOf hosts) ?a"
    using node(2-5) none
    by (auto simp: isisInv_def castInv_def heldInv_def propInv_def owedInv_def uniqInv_def freshInv_def
        ownInv_def seqInv_def announceInv_def finalInv_def doneInv_def netInv_def chanInv_def owed_def)
  moreover have "boundInv (set hosts) ?a"
    using node(2) latest by (auto simp: boundInv_def)
  ultimately show ?thesis by (simp add: absInv_def)
qed

lemma totalCasts_mono:
  assumes "mstep hosts en ov s t"
  shows "totalCasts hosts s \<le> totalCasts hosts t"
proof -
  have "length (casts s p) \<le> length (casts t p)" for p
    using assms by cases (auto simp: setNode_def setChan_def)
  then show ?thesis by (auto simp: totalCasts_def intro: sum_list_mono)
qed

lemma smallRun_mono: "mstep hosts en ov s t \<Longrightarrow> smallRun hosts t \<Longrightarrow> smallRun hosts s"
  using totalCasts_mono [of hosts en ov s t] unfolding smallRun_def
  by (meson le_less_trans mult_le_mono2)

text \<open>Every run of the system is a run of the abstract machine, packet for datagram.\<close>

lemma mreach_refines:
  assumes "mreach hosts en ov s" and v: "valid_hosts hosts" and "smallRun hosts s" and first: "dataFirst ov"
  shows "\<exists>pc. refines hosts s pc \<and> absInv hosts (absSys s pc) \<and>
    rtranclp (isis_step (set hosts) (hidOf hosts)) (absSys (initSys hosts) (\<lambda>_ _. [])) (absSys s pc)"
  using assms(1,3)
proof induction
  case mr_init
  then show ?case using init_inv [OF v] by blast
next
  case (mr_step s t)
  then have small: "smallRun hosts s" using smallRun_mono by blast
  with mr_step obtain pc where pc: "refines hosts s pc" "absInv hosts (absSys s pc)"
    "rtranclp (isis_step (set hosts) (hidOf hosts)) (absSys (initSys hosts) (\<lambda>_ _. [])) (absSys s pc)" by blast
  then obtain pc' where step: "refines hosts t pc'"
    "isis_step (set hosts) (hidOf hosts) (absSys s pc) (absSys t pc')"
    using mstep_sim [OF mr_step(2) v pc(1,2) small mr_step(4) first] unfolding simulated_def by blast
  have "absInv hosts (absSys t pc')" by (rule absInv_step [OF step(2) v pc(2)])
  with step(1) rtranclp.rtrancl_into_rtrancl [OF pc(3) step(2)] show ?case by blast
qed

lemma mreach_inv:
  assumes "mreach hosts en ov s" and "valid_hosts hosts" and "smallRun hosts s" and "dataFirst ov"
  shows "\<exists>pc. refines hosts s pc \<and> absInv hosts (absSys s pc)"
  using mreach_refines [OF assms] by blast

end
