(* ===== verification/MulticastRun.thy ===== *)
theory MulticastRun
  imports MulticastSystem
begin

text \<open>
  A scheduler for the system of \<open>MulticastSystem\<close>: events name the step to take, \<open>runEvents\<close>
  computes the state after a list of them. It runs concrete executions of the service.
\<close>

datatype event =
    EvMulticast hostname u32
  | EvDataThread hostname
  | EvSeqThread hostname
  | EvReceive hostname hostname bool
  | EvLose hostname hostname nat
  | EvDuplicate hostname hostname nat
  | EvOvertake hostname hostname nat

text \<open>
  \<open>EvReceive p q dropIt\<close>: \<open>q\<close> receives the next datagram from \<open>p\<close>; \<open>EvOvertake p q n\<close>: the datagrams at
  the positions \<open>n\<close> and \<open>n + 1\<close> change places.
\<close>

fun applyEvent :: "hostname list \<Rightarrow> (hostname \<Rightarrow> endian) \<Rightarrow> overtaking \<Rightarrow> event \<Rightarrow> sys \<Rightarrow> sys option" where
  "applyEvent hosts en ov (EvMulticast p data) s =
     (if p \<in> set hosts
      then Some ((setNode p (multicast (en p) data (nodes s p)) s)
        \<lparr>casts := (casts s)(p := casts s p @ [fst (createDataMessage data (nodes s p))])\<rparr>)
      else None)"
| "applyEvent hosts en ov (EvDataThread p) s =
     (case senderStep (dataMsgSender (nodes s p)) of
        Some (Inr (ds, out, interval)) \<Rightarrow>
          (if p \<in> set hosts
           then Some ((setNode p ((nodes s p)\<lparr>dataMsgSender := ds\<rparr>) s)\<lparr>chan := transmit p out (chan s)\<rparr>)
           else None)
      | _ \<Rightarrow> None)"
| "applyEvent hosts en ov (EvSeqThread p) s =
     (case senderStep (seqMsgSender (nodes s p)) of
        Some (Inr (ss, out, interval)) \<Rightarrow>
          (if p \<in> set hosts
           then Some ((setNode p ((nodes s p)\<lparr>seqMsgSender := ss\<rparr>) s)\<lparr>chan := transmit p out (chan s)\<rparr>)
           else None)
      | _ \<Rightarrow> None)"
| "applyEvent hosts en ov (EvReceive p q dropIt) s =
     (case chan s p q of
        [] \<Rightarrow> None
      | b # rest \<Rightarrow>
          (case listenStep (en q) acceptAll dropIt (received b [] p) (nodes s q, ()) of
             Inr ((svc, u), out) \<Rightarrow>
               (if p \<in> set hosts \<and> q \<in> set hosts
                then Some ((setNode q svc (setChan p q rest s))
                  \<lparr>chan := transmit q (outTo out) (chan (setChan p q rest s))\<rparr>)
                else None)
           | Inl e \<Rightarrow> None))"
| "applyEvent hosts en ov (EvLose p q n) s =
     (if p \<in> set hosts \<and> q \<in> set hosts \<and> n < length (chan s p q)
      then Some (setChan p q (take n (chan s p q) @ drop (Suc n) (chan s p q)) s) else None)"
| "applyEvent hosts en ov (EvDuplicate p q n) s =
     (if p \<in> set hosts \<and> q \<in> set hosts \<and> n < length (chan s p q)
      then Some (setChan p q (take n (chan s p q) @ chan s p q ! n # drop n (chan s p q)) s) else None)"
| "applyEvent hosts en ov (EvOvertake p q n) s =
     (case drop n (chan s p q) of
        b # c # cs \<Rightarrow>
          (if p \<in> set hosts \<and> q \<in> set hosts \<and> ov c b
           then Some (setChan p q (take n (chan s p q) @ c # b # cs) s) else None)
      | _ \<Rightarrow> None)"

fun runEvents :: "hostname list \<Rightarrow> (hostname \<Rightarrow> endian) \<Rightarrow> overtaking \<Rightarrow> event list \<Rightarrow> sys \<Rightarrow> sys option" where
  "runEvents hosts en ov [] s = Some s"
| "runEvents hosts en ov (ev # evs) s =
     (case applyEvent hosts en ov ev s of None \<Rightarrow> None | Some t \<Rightarrow> runEvents hosts en ov evs t)"

lemma applyEvent_mstep: "applyEvent hosts en ov ev s = Some t \<Longrightarrow> mstep hosts en ov s t"
proof (cases ev)
  case (EvMulticast p data)
  assume "applyEvent hosts en ov ev s = Some t"
  with EvMulticast show ?thesis by (auto split: if_splits intro: ms_multicast)
next
  case (EvDataThread p)
  assume "applyEvent hosts en ov ev s = Some t"
  with EvDataThread show ?thesis
    by (auto split: if_splits option.splits sum.splits intro: ms_dataThread)
next
  case (EvSeqThread p)
  assume "applyEvent hosts en ov ev s = Some t"
  with EvSeqThread show ?thesis
    by (auto split: if_splits option.splits sum.splits intro: ms_seqThread)
next
  case (EvReceive p q dropIt)
  assume "applyEvent hosts en ov ev s = Some t"
  with EvReceive show ?thesis
    by (auto split: if_splits list.splits sum.splits intro!: ms_receive)
next
  case (EvLose p q n)
  assume "applyEvent hosts en ov ev s = Some t"
  with EvLose show ?thesis
    using ms_lose [of p hosts q s "take n (chan s p q)" "chan s p q ! n" "drop (Suc n) (chan s p q)" en]
    by (auto simp: id_take_nth_drop split: if_splits)
next
  case (EvDuplicate p q n)
  assume "applyEvent hosts en ov ev s = Some t"
  with EvDuplicate show ?thesis
    using ms_duplicate [of p hosts q s "take n (chan s p q)" "chan s p q ! n" "drop (Suc n) (chan s p q)" en]
    by (auto simp: id_take_nth_drop Cons_nth_drop_Suc split: if_splits)
next
  case (EvOvertake p q n)
  assume "applyEvent hosts en ov ev s = Some t"
  with EvOvertake obtain b c cs where d: "drop n (chan s p q) = b # c # cs" "p \<in> set hosts" "q \<in> set hosts" "ov c b"
    "t = setChan p q (take n (chan s p q) @ c # b # cs) s"
    by (auto split: list.splits if_splits)
  then show ?thesis
    using ms_overtake [of p hosts q s "take n (chan s p q)" b c cs ov en] append_take_drop_id [of n "chan s p q"]
    by simp
qed

lemma runEvents_mreach:
  "runEvents hosts en ov evs s = Some t \<Longrightarrow> mreach hosts en ov s \<Longrightarrow> mreach hosts en ov t"
proof (induction evs arbitrary: s)
  case (Cons ev evs)
  then obtain u where "applyEvent hosts en ov ev s = Some u" "runEvents hosts en ov evs u = Some t"
    by (auto split: option.splits)
  with Cons show ?case using mr_step applyEvent_mstep by blast
qed simp

text \<open>
  An execution of two hosts: \<open>a\<close> multicasts 11 and \<open>b\<close> 12, concurrently; an acknowledgement of \<open>b\<close>
  is lost, a data message is duplicated by the network and another one sent again, and an
  acknowledgement overtakes a data message. No sequence message overtakes a data message.
\<close>

definition exampleHosts :: "hostname list" where
  "exampleHosts = [''a'', ''b'']"

definition exampleEndian :: "hostname \<Rightarrow> endian" where
  "exampleEndian h = (if h = ''a'' then LittleEndian else BigEndian)"

definition exampleOrder :: overtaking where
  "exampleOrder c b \<longleftrightarrow> \<not> (take 4 c = wire32 3 \<and> take 4 b = wire32 1)"

definition exampleEvents :: "event list" where
  "exampleEvents =
    [EvMulticast ''a'' 11, EvMulticast ''b'' 12,
     EvDataThread ''a'', EvDataThread ''a'', EvDataThread ''b'', EvDataThread ''b'',
     EvDuplicate ''a'' ''b'' 0,
     EvReceive ''a'' ''b'' False, EvReceive ''a'' ''b'' False, EvOvertake ''b'' ''a'' 0,
     EvReceive ''b'' ''a'' True, EvReceive ''b'' ''a'' False, EvReceive ''b'' ''a'' False,
     EvReceive ''a'' ''a'' False, EvReceive ''a'' ''a'' False,
     EvReceive ''b'' ''b'' False, EvReceive ''b'' ''b'' False, EvReceive ''a'' ''b'' False,
     EvSeqThread ''a'', EvSeqThread ''a'', EvSeqThread ''b'', EvSeqThread ''b'',
     EvReceive ''a'' ''a'' False, EvReceive ''b'' ''a'' False,
     EvReceive ''a'' ''b'' False, EvReceive ''b'' ''b'' False,
     EvReceive ''a'' ''a'' False, EvReceive ''b'' ''a'' False,
     EvReceive ''a'' ''b'' False, EvReceive ''b'' ''b'' False]"

definition exampleState :: sys where
  "exampleState =
     (case runEvents exampleHosts exampleEndian exampleOrder exampleEvents (initSys exampleHosts) of
        Some s \<Rightarrow> s | None \<Rightarrow> initSys exampleHosts)"

text \<open>
  Symbolic execution: the rules that run events on a known state. Bytes on the wire stay in the
  form \<open>wire k\<close>, the receiving loop decodes them by \<open>listenStep_wire\<close>.
\<close>

lemma exampleOrder_wire [simp]:
  "exampleOrder (wire j) (wire k) \<longleftrightarrow> \<not> (packet_type j = 3 \<and> packet_type k = 1)"
  by (simp add: exampleOrder_def take4_wire)

lemma listenStep_typed:
  "typed k \<Longrightarrow> listenStep en acceptAll dropIt (received (wire k) [] p) (svc, ()) =
    (if dropIt then Inr ((svc, ()), [])
     else rbind (processPacket en k svc) (\<lambda>(svc', out). Inr ((svc', ()), out)))"
  by (rule listenStep_wire)

lemmas run_defs = exampleHosts_def setNode_def setChan_def listenStep_typed
  initSys_def startNode_def recipientIdMapOf_def getProcessIdentifier_def newMulticastService_def
  newHoldBackQueue_def newContinuousMsgSender_def multicast_def createDataMessage_def queueMsg_def
  newMsgHolder_def bytes_wire senderStep_def sendRound_def roundSends_def getSendingInterval_def
  transmit_def outTo_def processDataMsg_def addToQueue_def createOrGetAckMessage_def udpSend_def
  data_id_def newPendingMsg_def processAckMsg_def removeRecipient_def createSeqMessage_def
  proposalLess_def map_at_def processSeqMsg_def markDeliverable_def seq_id_def
  createSeqAckMessage_def processSeqAckMsg_def pm_key_def less_eq_PendKey_def less_PendKey_def Let_def

definition exampleData :: "DataMessage list" where
  "exampleData =
    [\<lparr>d_type = 1, d_sender = 1, d_msg_id = 1, d_data = 11\<rparr>,
     \<lparr>d_type = 1, d_sender = 2, d_msg_id = 1, d_data = 12\<rparr>]"

lemma example_run:
  "\<exists>s. runEvents exampleHosts exampleEndian exampleOrder exampleEvents (initSys exampleHosts) = Some s \<and>
    map dataMsg (deliveredLog (nodes s ''a'')) = exampleData \<and>
    map dataMsg (deliveredLog (nodes s ''b'')) = exampleData \<and>
    msgList (dataMsgSender (nodes s ''a'')) = [] \<and> msgList (seqMsgSender (nodes s ''a'')) = [] \<and>
    msgList (dataMsgSender (nodes s ''b'')) = [] \<and> msgList (seqMsgSender (nodes s ''b'')) = [] \<and>
    casts s ''a'' = [exampleData ! 0] \<and> casts s ''b'' = [exampleData ! 1] \<and>
    pendingMsgSet (holdBackQueue (nodes s ''a'')) = {MsgIdentifier 1 1} \<and>
    deque (holdBackQueue (nodes s ''a'')) = [] \<and>
    ackMessageCache (nodes s ''a'') (MsgIdentifier 1 1) = None \<and> latestSeqId (nodes s ''a'') = 2"
  by (simp add: run_defs exampleEvents_def exampleData_def insert_Diff_if del: less_PendKey_simps)

lemma example_state:
  "mreach exampleHosts exampleEndian exampleOrder exampleState"
  "map dataMsg (deliveredLog (nodes exampleState ''a'')) = exampleData"
  "map dataMsg (deliveredLog (nodes exampleState ''b'')) = exampleData"
  "msgList (dataMsgSender (nodes exampleState ''a'')) = []"
  "msgList (seqMsgSender (nodes exampleState ''a'')) = []"
  "msgList (dataMsgSender (nodes exampleState ''b'')) = []"
  "msgList (seqMsgSender (nodes exampleState ''b'')) = []"
  "casts exampleState ''a'' = [exampleData ! 0]" "casts exampleState ''b'' = [exampleData ! 1]"
  "pendingMsgSet (holdBackQueue (nodes exampleState ''a'')) = {MsgIdentifier 1 1}"
  "deque (holdBackQueue (nodes exampleState ''a'')) = []"
  "ackMessageCache (nodes exampleState ''a'') (MsgIdentifier 1 1) = None"
  "latestSeqId (nodes exampleState ''a'') = 2"
proof -
  obtain s where s: "runEvents exampleHosts exampleEndian exampleOrder exampleEvents (initSys exampleHosts) = Some s"
    "map dataMsg (deliveredLog (nodes s ''a'')) = exampleData"
    "map dataMsg (deliveredLog (nodes s ''b'')) = exampleData"
    "msgList (dataMsgSender (nodes s ''a'')) = []" "msgList (seqMsgSender (nodes s ''a'')) = []"
    "msgList (dataMsgSender (nodes s ''b'')) = []" "msgList (seqMsgSender (nodes s ''b'')) = []"
    "casts s ''a'' = [exampleData ! 0]" "casts s ''b'' = [exampleData ! 1]"
    "pendingMsgSet (holdBackQueue (nodes s ''a'')) = {MsgIdentifier 1 1}"
    "deque (holdBackQueue (nodes s ''a'')) = []"
    "ackMessageCache (nodes s ''a'') (MsgIdentifier 1 1) = None" "latestSeqId (nodes s ''a'') = 2"
    using example_run by blast
  then have eq: "exampleState = s" by (simp add: exampleState_def)
  show "mreach exampleHosts exampleEndian exampleOrder exampleState"
    unfolding eq using s(1) mr_init by (rule runEvents_mreach)
  show "map dataMsg (deliveredLog (nodes exampleState ''a'')) = exampleData"
    "map dataMsg (deliveredLog (nodes exampleState ''b'')) = exampleData"
    "msgList (dataMsgSender (nodes exampleState ''a'')) = []"
    "msgList (seqMsgSender (nodes exampleState ''a'')) = []"
    "msgList (dataMsgSender (nodes exampleState ''b'')) = []"
    "msgList (seqMsgSender (nodes exampleState ''b'')) = []"
    "casts exampleState ''a'' = [exampleData ! 0]" "casts exampleState ''b'' = [exampleData ! 1]"
    "pendingMsgSet (holdBackQueue (nodes exampleState ''a'')) = {MsgIdentifier 1 1}"
    "deque (holdBackQueue (nodes exampleState ''a'')) = []"
    "ackMessageCache (nodes exampleState ''a'') (MsgIdentifier 1 1) = None"
    "latestSeqId (nodes exampleState ''a'') = 2"
    using s(2-13) unfolding eq by simp_all
qed

lemma exampleOrder_dataFirst: "dataFirst exampleOrder"
  by (simp add: dataFirst_def exampleOrder_def take4_wire)

lemma example_small: "valid_hosts exampleHosts" "smallRun exampleHosts exampleState"
  by (simp_all add: valid_hosts_def exampleHosts_def smallRun_def totalCasts_def example_state)

end
