(* ===== verification/MulticastProps.thy ===== *)
theory MulticastProps
  imports MulticastOrder MulticastRun "HOL-Library.Sublist"
begin

text \<open>
  The promises of the total order multicast of lab1, for every state that the system reaches over
  channels that lose, duplicate and reorder datagrams, except that no copy of a data message arrives
  behind its sequence message (\<open>dataFirst\<close>), and the example execution that shows that they are about
  something. At the end, what happens to such a copy, which UDP may deliver: without the exception the
  promises fail.
\<close>

section \<open>Logs are prefixes of each other\<close>

lemma sorted_closed_prefix:
  fixes f :: "'a \<Rightarrow> 'b :: linorder"
  assumes "sorted_wrt (<) (map f xs)" and "sorted_wrt (<) (map f ys)"
    and "\<forall>x \<in> set xs. \<forall>y \<in> set ys. f x = f y \<longrightarrow> x = y"
    and "\<forall>x \<in> set xs. \<forall>y \<in> set ys. f y < f x \<longrightarrow> y \<in> set xs"
    and "\<forall>x \<in> set xs. \<forall>y \<in> set ys. f x < f y \<longrightarrow> x \<in> set ys"
  shows "prefix xs ys \<or> prefix ys xs"
  using assms
proof (induction xs arbitrary: ys)
  case (Cons x xs)
  show ?case
  proof (cases ys)
    case (Cons y zs)
    have above: "\<forall>a \<in> set xs. f x < f a" "\<forall>b \<in> set zs. f y < f b"
      using Cons.prems(1,2) Cons by simp_all
    have "f x = f y"
    proof (rule ccontr)
      assume "f x \<noteq> f y"
      then consider "f x < f y" | "f y < f x" by fastforce
      then show False
      proof cases
        case 1
        with Cons.prems(5) Cons have "x = y \<or> x \<in> set zs" by auto
        with 1 above show False by auto
      next
        case 2
        with Cons.prems(4) Cons have "y = x \<or> y \<in> set xs" by auto
        with 2 above show False by auto
      qed
    qed
    then have eq: "x = y" using Cons.prems(3) Cons by simp
    have "prefix xs zs \<or> prefix zs xs"
    proof (rule Cons.IH)
      show "sorted_wrt (<) (map f xs)" "sorted_wrt (<) (map f zs)" using Cons.prems(1,2) Cons by simp_all
      show "\<forall>a \<in> set xs. \<forall>b \<in> set zs. f a = f b \<longrightarrow> a = b" using Cons.prems(3) Cons by simp
      show "\<forall>a \<in> set xs. \<forall>b \<in> set zs. f b < f a \<longrightarrow> b \<in> set xs"
        using Cons.prems(4) Cons eq above(2) by fastforce
      show "\<forall>a \<in> set xs. \<forall>b \<in> set zs. f a < f b \<longrightarrow> a \<in> set zs"
        using Cons.prems(5) Cons eq above(1) by fastforce
    qed
    then show ?thesis by (simp add: Cons eq)
  qed simp
qed simp

lemma reach_facts:
  assumes v: "valid_hosts hosts" and r: "mreach hosts en ov s" and first: "dataFirst ov" and small: "smallRun hosts s"
  obtains pc where "refines hosts s pc" and "absInv hosts (absSys s pc)"
    and "isisInv (set hosts) (hidOf hosts) (absSys s pc)"
    and "\<And>q. q \<in> set hosts \<Longrightarrow> node_ok hosts (casts s q) q (nodes s q)"
proof -
  obtain pc where "refines hosts s pc" "absInv hosts (absSys s pc)" using mreach_inv [OF r v small first] by blast
  then show thesis using that by (simp add: absInv_def refines_def)
qed

lemma node_order:
  assumes "node_ok hosts cs q svc"
  shows "order_ok (latestSeqId svc) (deliveredLog svc) (queue svc)"
    and "x \<in> set (deliveredLog svc) \<Longrightarrow> deliverable x"
    and "distinct (map pm_id (entries svc))"
  using node_okD(4) [OF assms] by (simp_all add: node_queue_def)

text \<open>
  What another host has delivered below something this host has delivered, this host has delivered.
\<close>

lemma delivered_below:
  assumes inv: "isisInv (set hosts) (hidOf hosts) (absSys s pc)" and v: "valid_hosts hosts"
    and ok: "\<And>q. q \<in> set hosts \<Longrightarrow> node_ok hosts (casts s q) q (nodes s q)"
    and pq: "p \<in> set hosts" "q \<in> set hosts"
    and a: "a \<in> set (deliveredLog (nodes s p))" and b: "b \<in> set (deliveredLog (nodes s q))"
    and less: "seqKey b < seqKey a"
  shows "b \<in> set (deliveredLog (nodes s p))"
proof -
  let ?a = "absSys s pc"
  note op = node_order [OF ok [OF pq(1)]] and oq = node_order [OF ok [OF pq(2)]]
  have b': "b \<in> held ?a q" "deliverable b" using b oq(2) by (auto simp: entries_def)
  obtain y where y: "y \<in> held ?a p" "deliverable y \<longrightarrow> y = b"
    "\<not> deliverable y \<longrightarrow> finalSeqId y \<le> finalSeqId b"
    using final_elsewhere [OF inv hidOf_inj [OF v] pq(2,1) b'] .
  have "y \<notin> set (queue (nodes s p))"
  proof
    assume "y \<in> set (queue (nodes s p))"
    then have "if deliverable y then seqKey a < seqKey y else finalSeqId a < finalSeqId y"
      using op(1) a unfolding order_ok_def by blast
    with y(2,3) less show False by (auto simp: seqKey_def split: if_splits)
  qed
  with y(1) have log: "y \<in> set (deliveredLog (nodes s p))" by (simp add: entries_def)
  then have "deliverable y" by (rule op(2))
  with y(2) log show ?thesis by simp
qed

lemma logs_comparable:
  assumes inv: "isisInv (set hosts) (hidOf hosts) (absSys s pc)" and v: "valid_hosts hosts"
    and ok: "\<And>q. q \<in> set hosts \<Longrightarrow> node_ok hosts (casts s q) q (nodes s q)"
    and pq: "p \<in> set hosts" "q \<in> set hosts"
  shows "prefix (deliveredLog (nodes s p)) (deliveredLog (nodes s q)) \<or>
    prefix (deliveredLog (nodes s q)) (deliveredLog (nodes s p))"
proof (rule sorted_closed_prefix [where f = seqKey])
  note op = node_order [OF ok [OF pq(1)]] and oq = node_order [OF ok [OF pq(2)]]
  show "sorted_wrt (<) (map seqKey (deliveredLog (nodes s p)))"
    "sorted_wrt (<) (map seqKey (deliveredLog (nodes s q)))"
    using op(1) oq(1) by (simp_all add: order_ok_def)
  show "\<forall>x \<in> set (deliveredLog (nodes s p)). \<forall>y \<in> set (deliveredLog (nodes s q)).
      seqKey x = seqKey y \<longrightarrow> x = y"
  proof (intro ballI impI)
    fix x y assume xy: "x \<in> set (deliveredLog (nodes s p))" "y \<in> set (deliveredLog (nodes s q))"
      "seqKey x = seqKey y"
    have x: "x \<in> held (absSys s pc) p" "deliverable x" using xy(1) op(2) by (auto simp: entries_def)
    have y: "y \<in> held (absSys s pc) q" "deliverable y" using xy(2) oq(2) by (auto simp: entries_def)
    have "dataMsg x = dataMsg y" using final_key_unique [OF inv pq x y] xy(3) by simp
    then show "x = y" by (rule final_entry_unique [OF inv pq x y])
  qed
  show "\<forall>x \<in> set (deliveredLog (nodes s p)). \<forall>y \<in> set (deliveredLog (nodes s q)).
      seqKey y < seqKey x \<longrightarrow> y \<in> set (deliveredLog (nodes s p))"
    using delivered_below [OF inv v ok pq] by blast
  show "\<forall>x \<in> set (deliveredLog (nodes s p)). \<forall>y \<in> set (deliveredLog (nodes s q)).
      seqKey x < seqKey y \<longrightarrow> x \<in> set (deliveredLog (nodes s q))"
    using delivered_below [OF inv v ok pq(2,1)] by blast
qed

section \<open>The promises of the multicast\<close>

text \<open>
  C1: total order. If no copy of a data message arrives behind its sequence message, and the number of
  hosts times the number of messages stays below \<open>2 ^ 32 - 1\<close>, then in every reachable state the logs of
  any two processes, with the final sequence numbers they were delivered under, are prefixes of one
  another: whatever the interleaving of the threads, the losses, the duplicates and all other
  reorderings, no two processes deliver in different orders.
\<close>

theorem total_order:
  assumes "valid_hosts hosts" and "mreach hosts en ov s" and "dataFirst ov" and "smallRun hosts s"
    and "p \<in> set hosts" and "q \<in> set hosts"
  shows "prefix (deliveredLog (nodes s p)) (deliveredLog (nodes s q)) \<or>
    prefix (deliveredLog (nodes s q)) (deliveredLog (nodes s p))"
proof -
  obtain pc where "isisInv (set hosts) (hidOf hosts) (absSys s pc)"
    "\<And>q. q \<in> set hosts \<Longrightarrow> node_ok hosts (casts s q) q (nodes s q)"
    using reach_facts [OF assms(1-4)] by metis
  then show ?thesis using logs_comparable assms(1,5,6) by blast
qed

theorem total_order_witness:
  "(prefix (deliveredLog (nodes exampleState ''a'')) (deliveredLog (nodes exampleState ''b'')) \<or>
    prefix (deliveredLog (nodes exampleState ''b'')) (deliveredLog (nodes exampleState ''a''))) \<and>
   map dataMsg (deliveredLog (nodes exampleState ''a'')) = exampleData"
  using total_order [OF example_small(1) example_state(1) exampleOrder_dataFirst example_small(2), of "''a''" "''b''"]
  by (simp add: exampleHosts_def example_state(2))

text \<open>
  C8: refinement. Every run of the services of lab1 in which no copy of a data message arrives behind
  its sequence message, and the sequence numbers do not overflow, is, seen through the abstraction, a
  run of the ISIS machine: the datagrams in the channels are the packets of the machine, what the
  processes hold, have proposed and still owe are its sets, and its invariant holds.
\<close>

theorem multicast_refines_isis:
  assumes "valid_hosts hosts" and "mreach hosts en ov s" and "dataFirst ov" and "smallRun hosts s"
  shows "\<exists>pc. chan s = (\<lambda>p q. map wire (pc p q)) \<and>
    rtranclp (isis_step (set hosts) (hidOf hosts)) (absSys (initSys hosts) (\<lambda>_ _. [])) (absSys s pc) \<and>
    isisInv (set hosts) (hidOf hosts) (absSys s pc)"
  using mreach_refines [OF assms(2,1,4,3)] by (auto simp: refines_def absInv_def)

theorem multicast_refines_isis_witness:
  "\<exists>pc. rtranclp (isis_step (set exampleHosts) (hidOf exampleHosts)) (absSys (initSys exampleHosts) (\<lambda>_ _. []))
     (absSys exampleState pc)"
  using multicast_refines_isis [OF example_small(1) example_state(1) exampleOrder_dataFirst example_small(2)] by blast

text \<open>
  C14: integrity. If no copy of a data message arrives behind its sequence message and the sequence
  numbers do not overflow, a process delivers a message at most once, and only messages that some
  process of the group has multicast before, under that process's identifier.
\<close>

theorem delivery_integrity:
  assumes "valid_hosts hosts" and "mreach hosts en ov s" and "dataFirst ov" and "smallRun hosts s" and "q \<in> set hosts"
  shows "distinct (map pm_id (deliveredLog (nodes s q))) \<and>
    (\<forall>x \<in> set (deliveredLog (nodes s q)). \<exists>p \<in> set hosts.
       dataMsg x \<in> set (casts s p) \<and> getProcessIdentifier hosts p = Inr (d_sender (dataMsg x)))"
proof -
  obtain pc where pc: "isisInv (set hosts) (hidOf hosts) (absSys s pc)"
    "\<And>q. q \<in> set hosts \<Longrightarrow> node_ok hosts (casts s q) q (nodes s q)"
    using reach_facts [OF assms(1-4)] by metis
  have d: "distinct hosts" using assms(1) by (simp add: valid_hosts_def)
  have "distinct (map pm_id (deliveredLog (nodes s q)))"
    using node_order(3) [OF pc(2) [OF assms(5)]] by (simp add: entries_def)
  moreover have "\<exists>p \<in> set hosts. dataMsg x \<in> set (casts s p) \<and>
      getProcessIdentifier hosts p = Inr (d_sender (dataMsg x))"
    if x: "x \<in> set (deliveredLog (nodes s q))" for x
  proof -
    obtain p where p: "p \<in> set hosts" "dataMsg x \<in> sent (absSys s pc) p"
      using held_sent [OF pc(1) assms(5), of x] x by (auto simp: entries_def)
    moreover have "d_sender (dataMsg x) = hidOf hosts p"
      using pc(1) p by (auto simp: isisInv_def castInv_def)
    ultimately show ?thesis
      using getProcessIdentifier_ex [OF d p(1)] by (auto simp: hidOf_def)
  qed
  ultimately show ?thesis by blast
qed

theorem delivery_integrity_witness:
  "distinct (map pm_id (deliveredLog (nodes exampleState ''a''))) \<and>
   length (deliveredLog (nodes exampleState ''a'')) = 2"
  using delivery_integrity [OF example_small(1) example_state(1) exampleOrder_dataFirst example_small(2), of "''a''"]
    arg_cong [OF example_state(2), of length]
  by (simp add: exampleHosts_def exampleData_def)

text \<open>The next datagram is received, and the sending threads go on.\<close>

lemma next_received:
  assumes "valid_hosts hosts" and "mreach hosts en ov s" and "dataFirst ov" and "smallRun hosts s"
    and "p \<in> set hosts" and "q \<in> set hosts" and "chan s p q = b # rest"
  shows "\<exists>svc out. listenStep (en q) acceptAll dropIt (received b junk from) (nodes s q, ()) = Inr ((svc, ()), out)"
proof -
  obtain pc where "refines hosts s pc" "absInv hosts (absSys s pc)" using reach_facts [OF assms(1-4)] by metis
  from receive_turn [OF assms(1) this assms(4-7), of en dropIt junk "from"] show ?thesis by blast
qed

lemma threads_go_on:
  assumes "valid_hosts hosts" and "mreach hosts en ov s" and "dataFirst ov" and "smallRun hosts s" and "q \<in> set hosts"
  shows "senderStep (dataMsgSender (nodes s q)) \<noteq> Some (Inl e)" "senderStep (seqMsgSender (nodes s q)) \<noteq> Some (Inl e)"
proof -
  have "node_ok hosts (casts s q) q (nodes s q)" using reach_facts [OF assms(1-4)] assms(5) by metis
  then have "sender_ok d_msg_id (\<lambda>d. wire (PData d)) (dataMsgSender (nodes s q))"
    "sender_ok s_msg_id (\<lambda>m. wire (PSeq m)) (seqMsgSender (nodes s q))"
    using node_okD(2,3) by (auto simp: dataSenderOk_def seqSenderOk_def)
  then show "senderStep (dataMsgSender (nodes s q)) \<noteq> Some (Inl e)" "senderStep (seqMsgSender (nodes s q)) \<noteq> Some (Inl e)"
    by (auto elim: senderStep_cases)
qed

text \<open>
  C23: no process dies. If no copy of a data message arrives behind its sequence message and the
  sequence numbers do not overflow, the datagram that arrives next on any channel is received without a
  fault in every reachable state, whatever the drop decision and the rest of the receive buffer, and
  neither sending thread faults.
\<close>

theorem threads_do_not_fault:
  assumes "valid_hosts hosts" and "mreach hosts en ov s" and "dataFirst ov" and "smallRun hosts s"
    and "p \<in> set hosts" and "q \<in> set hosts" and "chan s p q = b # rest"
  shows "(\<exists>svc out. listenStep (en q) acceptAll dropIt (received b junk from) (nodes s q, ()) =
      Inr ((svc, ()), out)) \<and>
    (\<forall>e. senderStep (dataMsgSender (nodes s q)) \<noteq> Some (Inl e)) \<and>
    (\<forall>e. senderStep (seqMsgSender (nodes s q)) \<noteq> Some (Inl e))"
  using next_received [OF assms] threads_go_on [OF assms(1-4,6)] by blast

lemma example_inFlight:
  "\<exists>s. runEvents exampleHosts exampleEndian exampleOrder (take 3 exampleEvents) (initSys exampleHosts) = Some s \<and>
    casts s ''a'' = [exampleData ! 0] \<and> casts s ''b'' = [exampleData ! 1]"
  "\<exists>s. runEvents exampleHosts exampleEndian exampleOrder (take 4 exampleEvents) (initSys exampleHosts) = Some s \<and>
    casts s ''a'' = [exampleData ! 0] \<and> casts s ''b'' = [exampleData ! 1] \<and>
    chan s ''a'' ''b'' = [wire (PData (exampleData ! 0))]"
  by (simp_all add: run_defs exampleEvents_def exampleData_def del: less_PendKey_simps)

theorem threads_do_not_fault_witness:
  "\<exists>s svc out. mreach exampleHosts exampleEndian exampleOrder s \<and>
    chan s ''a'' ''b'' = [wire (PData (exampleData ! 0))] \<and>
    listenStep BigEndian acceptAll False (received (wire (PData (exampleData ! 0))) [] ''a'')
      (nodes s ''b'', ()) = Inr ((svc, ()), out)"
proof -
  obtain s where s: "runEvents exampleHosts exampleEndian exampleOrder (take 4 exampleEvents) (initSys exampleHosts) = Some s"
    "casts s ''a'' = [exampleData ! 0]" "casts s ''b'' = [exampleData ! 1]"
    "chan s ''a'' ''b'' = [wire (PData (exampleData ! 0))]"
    using example_inFlight(2) by blast
  have r: "mreach exampleHosts exampleEndian exampleOrder s" using s(1) mr_init by (rule runEvents_mreach)
  have small: "smallRun exampleHosts s"
    using s(2,3) by (simp add: smallRun_def totalCasts_def exampleHosts_def)
  have "\<exists>svc out. listenStep (exampleEndian ''b'') acceptAll False
      (received (wire (PData (exampleData ! 0))) [] ''a'') (nodes s ''b'', ()) = Inr ((svc, ()), out)"
    using threads_do_not_fault [OF example_small(1) r exampleOrder_dataFirst small _ _ s(4)] by (simp add: exampleHosts_def)
  with r s(4) show ?thesis by (auto simp: exampleEndian_def)
qed

text \<open>A sender without messages has had all its messages confirmed by everybody.\<close>

lemma quiet_final:
  assumes inv: "isisInv (set hosts) (hidOf hosts) (absSys s pc)" and p: "p \<in> set hosts" and q: "q \<in> set hosts"
    and quiet: "msgList (dataMsgSender (nodes s p)) = []" "msgList (seqMsgSender (nodes s p)) = []"
    and d: "d \<in> set (casts s p)"
  shows "isFinal (absSys s pc) q d"
proof -
  let ?a = "absSys s pc" and ?hid = "hidOf hosts"
  let ?ps = "proposalsOf (nodes s p) (d_msg_id d)"
  have parts: "owedInv (set hosts) ?hid ?a" "propInv (set hosts) ?hid ?a" "seqInv (set hosts) ?hid ?a"
    using inv by (simp_all add: isisInv_def)
  have "?hid r \<in> fst ` props ?a p (d_msg_id d)" if r: "r \<in> set hosts" for r
  proof -
    have "(d, r) \<notin> owedData ?a p" using quiet(1) by (simp add: owed_def)
    moreover have "d \<in> sent ?a p" using d by simp
    ultimately show ?thesis using parts(1) p r unfolding owedInv_def by blast
  qed
  moreover have "fst ` props ?a p (d_msg_id d) \<subseteq> ?hid ` set hosts"
  proof clarify
    fix r v assume "(r, v) \<in> props ?a p (d_msg_id d)"
    from propInvD [OF parts(2) p this] show "fst (r, v) \<in> ?hid ` set hosts" by (metis fst_conv imageI)
  qed
  ultimately have complete: "complete (set hosts) ?hid (props ?a p (d_msg_id d))"
    by (auto simp: complete_def)
  then have "?ps \<noteq> []" using complete_nonempty [of "set hosts"] p by fastforce
  then obtain m where m: "createSeqMessage (ackFor d 0 0) ?ps = Inr m" using createSeqMessage_ex by blast
  have "announces (props ?a p (d_msg_id d)) d m"
    using createSeqMessage_max [OF m] createSeqMessage_type [OF m]
    by (auto simp: announces_def winner_def seq_id_def ackFor_def)
  moreover have "(m, q) \<notin> owedSeq ?a p" using quiet(2) by (simp add: owed_def)
  ultimately show ?thesis using seqInvD(3) [OF parts(3) p q _ complete] d by simp
qed

text \<open>
  C5: nothing is forgotten. If no copy of a data message arrives behind its sequence message and the
  sequence numbers do not overflow, then, once no process has anything left to send, every process has delivered
  exactly the messages that were multicast, all processes in the same order, and the hold-back
  queues are empty. With \<open>owed_message_is_sent\<close>, which says that the senders keep trying, this is
  the liveness of the protocol.
\<close>

theorem quiescent_delivers_all:
  assumes "valid_hosts hosts" and "mreach hosts en ov s" and "dataFirst ov" and "smallRun hosts s"
    and quiet: "\<forall>p \<in> set hosts. msgList (dataMsgSender (nodes s p)) = [] \<and> msgList (seqMsgSender (nodes s p)) = []"
    and "p \<in> set hosts" and "q \<in> set hosts"
  shows "deliveredLog (nodes s p) = deliveredLog (nodes s q) \<and>
    dataMsg ` set (deliveredLog (nodes s q)) = (\<Union>r \<in> set hosts. set (casts s r)) \<and>
    deque (holdBackQueue (nodes s q)) = []"
proof -
  obtain pc where pc: "isisInv (set hosts) (hidOf hosts) (absSys s pc)"
    "\<And>q. q \<in> set hosts \<Longrightarrow> node_ok hosts (casts s q) q (nodes s q)"
    using reach_facts [OF assms(1-4)] by metis
  let ?a = "absSys s pc"
  have empty: "queue (nodes s h) = []" if h: "h \<in> set hosts" for h
  proof (rule ccontr)
    assume ne: "queue (nodes s h) \<noteq> []"
    let ?x = "hd (queue (nodes s h))"
    have x: "?x \<in> held ?a h" "\<not> deliverable ?x"
      using node_order(1) [OF pc(2) [OF h]] ne by (simp_all add: entries_def order_ok_def)
    obtain r where r: "r \<in> set hosts" "dataMsg ?x \<in> sent ?a r" using held_sent [OF pc(1) h x(1)] .
    then have "isFinal ?a h (dataMsg ?x)" using quiet_final [OF pc(1) r(1) h] quiet by simp
    then obtain y where y: "y \<in> held ?a h" "dataMsg y = dataMsg ?x" "deliverable y" by (auto simp: isFinal_def)
    have "inj_on dataMsg (held ?a h)" using pc(1) h by (auto simp: isisInv_def heldInv_def)
    then have "y = ?x" using x(1) y(1,2) by (auto dest: inj_onD)
    with x(2) y(3) show False by simp
  qed
  have all: "dataMsg ` set (deliveredLog (nodes s h)) = (\<Union>r \<in> set hosts. set (casts s r))"
    if h: "h \<in> set hosts" for h
  proof
    show "dataMsg ` set (deliveredLog (nodes s h)) \<subseteq> (\<Union>r \<in> set hosts. set (casts s r))"
      using pc(1) h by (auto simp: isisInv_def heldInv_def entries_def)
    show "(\<Union>r \<in> set hosts. set (casts s r)) \<subseteq> dataMsg ` set (deliveredLog (nodes s h))"
      using quiet_final [OF pc(1) _ h] quiet empty [OF h] by (fastforce simp: isFinal_def entries_def)
  qed
  have sub: "set (deliveredLog (nodes s h)) \<subseteq> set (deliveredLog (nodes s h'))"
    if h: "h \<in> set hosts" "h' \<in> set hosts" for h h'
  proof
    fix x assume x: "x \<in> set (deliveredLog (nodes s h))"
    then have "dataMsg x \<in> dataMsg ` set (deliveredLog (nodes s h'))"
      unfolding all [OF h(2)] using all [OF h(1)] by blast
    then obtain y where y: "y \<in> set (deliveredLog (nodes s h'))" "dataMsg x = dataMsg y" by blast
    have "x = y"
      by (rule final_entry_unique [OF pc(1) h])
        (use x y node_order(2) [OF pc(2) [OF h(1)]] node_order(2) [OF pc(2) [OF h(2)]] in
          \<open>auto simp: entries_def\<close>)
    with y(1) show "x \<in> set (deliveredLog (nodes s h'))" by simp
  qed
  have len: "length (deliveredLog (nodes s h)) = card (set (deliveredLog (nodes s h)))"
    if "h \<in> set hosts" for h
    using node_order(3) [OF pc(2) [OF that]]
    by (simp add: entries_def distinct_map distinct_card)
  have "length (deliveredLog (nodes s p)) = length (deliveredLog (nodes s q))"
    using len assms(6,7) sub [OF assms(6,7)] sub [OF assms(7,6)] by (simp add: subset_antisym)
  moreover have "prefix (deliveredLog (nodes s p)) (deliveredLog (nodes s q)) \<or>
      prefix (deliveredLog (nodes s q)) (deliveredLog (nodes s p))"
    using logs_comparable [OF pc(1) assms(1) pc(2) assms(6,7)] by blast
  ultimately have "deliveredLog (nodes s p) = deliveredLog (nodes s q)"
    by (auto simp: prefix_def)
  with all [OF assms(7)] empty [OF assms(7)] show ?thesis by (simp add: queue_def)
qed

theorem quiescent_delivers_all_witness:
  "deliveredLog (nodes exampleState ''a'') = deliveredLog (nodes exampleState ''b'') \<and>
   dataMsg ` set (deliveredLog (nodes exampleState ''b'')) = set exampleData"
proof -
  have q: "\<forall>p \<in> set exampleHosts. msgList (dataMsgSender (nodes exampleState p)) = [] \<and>
      msgList (seqMsgSender (nodes exampleState p)) = []"
    by (simp add: exampleHosts_def example_state)
  show ?thesis
    using quiescent_delivers_all [OF example_small(1) example_state(1) exampleOrder_dataFirst example_small(2) q, of "''a''" "''b''"]
    by (simp add: exampleHosts_def example_state exampleData_def insert_commute)
qed

section \<open>A data message behind its sequence message\<close>

text \<open>
  The delivery loop erases the id of the sequence message it is handling instead of that of the
  message it delivers. So the id of a delivered message may still be pending, or not.
\<close>

lemma delivered_cache:
  assumes nq: "node_queue svc" and x: "x \<in> set (deliveredLog svc)"
  shows "ackMessageCache svc (pm_id x) = None"
proof (rule ccontr)
  assume "ackMessageCache svc (pm_id x) \<noteq> None"
  with nq obtain y where y: "y \<in> set (queue svc)" "pm_id y = pm_id x"
    unfolding node_queue_def by blast
  have "distinct (map pm_id (deliveredLog svc @ queue svc))" using nq by (simp add: node_queue_def entries_def)
  then have "pm_id ` set (deliveredLog svc) \<inter> pm_id ` set (queue svc) = {}" by simp
  with x y show False by (metis disjoint_iff imageI)
qed

text \<open>The entry of a late copy is the only one in the queue; its sequence message delivers it.\<close>

lemma processSeqMsg_alone:
  assumes wired: "node_wired hosts q svc" and p: "p \<in> set hosts" "s_sender m = hidOf hosts p"
    and x: "queue svc = [x]" "pm_id x = seq_id m" "seq_id m \<in> pendingIds svc"
  shows "\<exists>svc' out. processSeqMsg en m svc = Inr (svc', out) \<and>
    deliveredLog svc' = deliveredLog svc @ [marked_entry m x]"
proof -
  have "markFirst m (queue svc) = (True, [marked_entry m x])"
    using x(1,2) markFirst_split [of x m "[]" "[]"] by simp
  then show ?thesis
    using x(3) node_reply [OF wired p(1)] p(2)
    by (simp add: processSeqMsg_def markDeliverable_def deliverLoop_eq createSeqAckMessage_def Let_def
        udpSend_def node_defs split: if_splits)
qed

text \<open>
  C40: late copies are not ignored. In every state that the service reaches without late copies, a
  late copy of a data message that has been delivered kills the process, by \<open>at\<close> on the emptied cache,
  if the id of the message has not been erased; if it has, the copy is queued again under a new
  number, and, if no other message is waiting, a late copy of the sequence message delivers the
  message a second time.
\<close>

theorem late_data_message:
  assumes "valid_hosts hosts" and "mreach hosts en ov s" and "dataFirst ov" and "smallRun hosts s"
    and "q \<in> set hosts" and x: "x \<in> set (deliveredLog (nodes s q))"
  shows "if pm_id x \<in> pendingIds (nodes s q)
    then processDataMsg (en q) (dataMsg x) (nodes s q) = Inl OutOfRange
    else \<exists>svc out. processDataMsg (en q) (dataMsg x) (nodes s q) = Inr (svc, out) \<and>
      deliveredLog svc = deliveredLog (nodes s q) \<and>
      queue svc = queue (nodes s q) @ [newPendingMsg (dataMsg x) (latestSeqId (nodes s q) + 1) (hidOf hosts q)] \<and>
      (queue (nodes s q) = [] \<longrightarrow> (\<forall>m. seq_id m = pm_id x \<longrightarrow> (\<exists>svc' out'.
         processSeqMsg (en q) m svc = Inr (svc', out') \<and>
         map dataMsg (deliveredLog svc') = map dataMsg (deliveredLog (nodes s q)) @ [dataMsg x])))"
proof -
  obtain pc where inv: "isisInv (set hosts) (hidOf hosts) (absSys s pc)"
    and ok: "\<And>q. q \<in> set hosts \<Longrightarrow> node_ok hosts (casts s q) q (nodes s q)"
    using reach_facts [OF assms(1-4)] by metis
  let ?svc = "nodes s q" and ?d = "dataMsg x"
  have wired: "node_wired hosts q ?svc" and nq: "node_queue ?svc" using node_okD [OF ok [OF assms(5)]] by simp_all
  then have sid: "senderId ?svc = hidOf hosts q" by (simp add: node_wired_def)
  have cache: "ackMessageCache ?svc (data_id ?d) = None"
    using delivered_cache [OF nq x] by (simp add: pm_id_def)
  obtain p where p: "p \<in> set hosts" "?d \<in> sent (absSys s pc) p"
    using held_sent [OF inv assms(5), of x] x by (auto simp: entries_def)
  then have sender: "d_sender ?d = hidOf hosts p" using inv by (auto simp: isisInv_def castInv_def)
  note reply = node_reply [OF wired p(1)]
  show ?thesis
  proof (cases "pm_id x \<in> pendingIds ?svc")
    case True
    then show ?thesis using cache
      by (simp add: pm_id_def processDataMsg_def addToQueue_def createOrGetAckMessage_def node_defs map_at_def)
  next
    case False
    let ?n = "newPendingMsg ?d (latestSeqId ?svc + 1) (hidOf hosts q)"
    obtain svc out where svc: "processDataMsg (en q) ?d ?svc = Inr (svc, out)"
      "deliveredLog svc = deliveredLog ?svc" "queue svc = queue ?svc @ [?n]"
      "pendingIds svc = insert (pm_id x) (pendingIds ?svc)" "node_wired hosts q svc"
      using False reply sid wired
      by (simp add: pm_id_def processDataMsg_def addToQueue_def createOrGetAckMessage_def Let_def sender
          node_defs udpSend_def node_wired_def split: if_splits)
    have n: "pm_id ?n = pm_id x" "dataMsg ?n = ?d" by (simp_all add: newPendingMsg_def pm_id_def)
    have "\<exists>svc' out'. processSeqMsg (en q) m svc = Inr (svc', out') \<and>
        map dataMsg (deliveredLog svc') = map dataMsg (deliveredLog ?svc) @ [?d]"
      if "queue ?svc = []" "seq_id m = pm_id x" for m
    proof -
      have "s_sender m = hidOf hosts p" using that(2) sender by (simp add: seq_id_def pm_id_def data_id_def)
      from processSeqMsg_alone [OF svc(5) p(1) this, of ?n "en q"] that svc(2-4) n
      show ?thesis by auto
    qed
    with False svc(1-3) show ?thesis by auto
  qed
qed

lemma example_pending:
  "pendingIds (nodes exampleState ''a'') = {MsgIdentifier 1 1}" "queue (nodes exampleState ''a'') = []"
  using example_state(10,11) by (simp_all add: node_defs)

theorem late_data_message_witness:
  "processDataMsg LittleEndian (exampleData ! 0) (nodes exampleState ''a'') = Inl OutOfRange \<and>
   (\<exists>svc out. processDataMsg LittleEndian (exampleData ! 1) (nodes exampleState ''a'') = Inr (svc, out) \<and>
     (\<forall>m. seq_id m = MsgIdentifier 1 2 \<longrightarrow> (\<exists>svc' out'. processSeqMsg LittleEndian m svc = Inr (svc', out') \<and>
        map dataMsg (deliveredLog svc') = [exampleData ! 0, exampleData ! 1, exampleData ! 1])))"
proof -
  let ?svc = "nodes exampleState ''a''"
  obtain x y where xy: "deliveredLog ?svc = [x, y]" "dataMsg x = exampleData ! 0" "dataMsg y = exampleData ! 1"
    using example_state(2) by (auto simp: exampleData_def)
  have ids: "pm_id x = MsgIdentifier 1 1" "pm_id y = MsgIdentifier 1 2"
    using xy(2,3) by (simp_all add: pm_id_def data_id_def exampleData_def)
  note late = late_data_message [OF example_small(1) example_state(1) exampleOrder_dataFirst example_small(2), of "''a''"]
  show ?thesis
    using late [of x] late [of y] xy ids example_pending example_state(2)
    by (auto simp: exampleHosts_def exampleEndian_def)
qed

text \<open>
  The example with a copy of the data message of \<open>b\<close> to \<open>a\<close> that is overtaken by everything else, and
  with a copy of the sequence message.
\<close>

definition lateEvents :: "event list" where
  "lateEvents =
    [EvMulticast ''a'' 11, EvMulticast ''b'' 12,
     EvDataThread ''a'', EvDataThread ''a'', EvDataThread ''b'', EvDataThread ''b'',
     EvDuplicate ''b'' ''a'' 0,
     EvReceive ''a'' ''b'' False, EvReceive ''b'' ''a'' False,
     EvOvertake ''b'' ''a'' 0, EvReceive ''b'' ''a'' False,
     EvReceive ''a'' ''a'' False, EvReceive ''a'' ''a'' False,
     EvReceive ''b'' ''b'' False, EvReceive ''b'' ''b'' False, EvReceive ''a'' ''b'' False,
     EvSeqThread ''a'', EvSeqThread ''a'', EvSeqThread ''b'', EvSeqThread ''b'',
     EvDuplicate ''b'' ''a'' 1, EvOvertake ''b'' ''a'' 0,
     EvReceive ''a'' ''a'' False, EvReceive ''b'' ''a'' False,
     EvReceive ''b'' ''a'' False, EvReceive ''b'' ''a'' False]"

lemma late_run:
  "\<exists>s. runEvents exampleHosts exampleEndian anyOrder lateEvents (initSys exampleHosts) = Some s \<and>
    map dataMsg (deliveredLog (nodes s ''a'')) = exampleData @ [exampleData ! 1]"
  by (simp add: run_defs lateEvents_def anyOrder_def exampleData_def insert_Diff_if del: less_PendKey_simps)

text \<open>
  C9: the exception is needed. Over channels that reorder datagrams in any way, as UDP may, the system
  reaches a state in which a process has delivered a message twice.
\<close>

theorem late_copies_deliver_twice:
  "\<exists>s. mreach exampleHosts exampleEndian anyOrder s \<and> \<not> distinct (map dataMsg (deliveredLog (nodes s ''a'')))"
proof -
  obtain s where s: "runEvents exampleHosts exampleEndian anyOrder lateEvents (initSys exampleHosts) = Some s"
    "map dataMsg (deliveredLog (nodes s ''a'')) = exampleData @ [exampleData ! 1]"
    using late_run by blast
  have "mreach exampleHosts exampleEndian anyOrder s" using s(1) mr_init by (rule runEvents_mreach)
  with s(2) show ?thesis by (intro exI [of _ s]) (simp add: exampleData_def)
qed

end
