(* ===== verification/Snapshot.thy ===== *)
theory Snapshot
  imports MulticastSystem
begin

text \<open>
  The snapshot service of lab1 (\<open>part2/snapshot.h\<close>, \<open>part2/snapshot.cpp\<close>): Chandy and Lamport's
  algorithm on one process. The local state getter is given by the string it returns at the time of
  the call, the connections to the peers by the markers sent over them. The critical sections of the
  marker threads are separate operations, so that every interleaving with the receiving loop of the
  multicast service is a list of events.
\<close>

section \<open>Incoming channels\<close>

record IncomingChannelState =
  messages :: "string list"

definition newIncomingChannelState :: IncomingChannelState where
  "newIncomingChannelState = \<lparr>messages = []\<rparr>"

text \<open>
  The text that is recorded for a message. \<open>std::to_string\<close> of the type appears for the types that
  cannot be channel contents.
\<close>

definition messageText :: "endian \<Rightarrow> Message \<Rightarrow> MessageType \<Rightarrow> string res" where
  "messageText en message msgType =
     (case msgType of
        Data \<Rightarrow> rbind (deserializeDataMsg en message) (\<lambda>m. Inr (showDataMessage m))
      | Ack \<Rightarrow> rbind (deserializeAckMessage en message) (\<lambda>m. Inr (showAckMessage m))
      | Seq \<Rightarrow> rbind (deserializeSeqMessage en message) (\<lambda>m. Inr (showSeqMessage m))
      | SeqAck \<Rightarrow> rbind (deserializeSeqAckMessage en message) (\<lambda>m. Inr (showSeqAckMessage m))
      | _ \<Rightarrow> Inr (''unknown message type: '' @ show_u32 (messageTypeCode msgType) @
                   '', from:'' @ m_sender message))"

text \<open>The log line at the end prints the type, which throws for a type without a name.\<close>

definition recordMessage ::
  "endian \<Rightarrow> Message \<Rightarrow> IncomingChannelState \<Rightarrow> IncomingChannelState res" where
  "recordMessage en message st =
     rbind (getMessageType en message) (\<lambda>msgType.
     rbind (messageText en message msgType) (\<lambda>msgStr.
     rbind (showMessageType msgType) (\<lambda>_.
       Inr (st\<lparr>messages := messages st @ [msgStr]\<rparr>))))"

definition showIncomingChannelState :: "IncomingChannelState \<Rightarrow> string" where
  "showIncomingChannelState st = concat (map (\<lambda>msg. msg @ [CHR 0x0A]) (messages st))"

section \<open>The service\<close>

record SnapshotService =
  ss_senderId :: u32
  allPeers :: "hostname list"
  incomingChannels :: "hostname \<rightharpoonup> IncomingChannelState"
  localState :: string
  channelsToBeRecorded :: "hostname set"
  snapshotInitiated :: bool

definition newSnapshotService :: "u32 \<Rightarrow> hostname list \<Rightarrow> SnapshotService" where
  "newSnapshotService sid peers =
     \<lparr>ss_senderId = sid, allPeers = peers, incomingChannels = Map.empty, localState = [],
      channelsToBeRecorded = {}, snapshotInitiated = False\<rparr>"

definition createMarkerMessage :: "SnapshotService \<Rightarrow> MarkerMessage" where
  "createMarkerMessage svc = \<lparr>mk_type = messageTypeCode Marker, mk_sender = ss_senderId svc\<rparr>"

type_synonym markers = "(hostname \<times> byte list) list"

definition sendMarkerMessageToPeers :: "endian \<Rightarrow> SnapshotService \<Rightarrow> markers" where
  "sendMarkerMessageToPeers en svc =
     (let buffer = serializeMarkerMessage en (createMarkerMessage svc) (replicate sizeof_MarkerMessage 0)
      in map (\<lambda>peer. (peer, buffer)) (allPeers svc))"

text \<open>\<open>takeSnapshot(channelsToRecord)\<close>, under the lock of the channels.\<close>

definition takeLocalSnapshot ::
  "endian \<Rightarrow> string \<Rightarrow> hostname list \<Rightarrow> SnapshotService \<Rightarrow> SnapshotService \<times> markers" where
  "takeLocalSnapshot en stateNow channelsToRecord svc =
     (let svc = svc\<lparr>localState := stateNow,
                    channelsToBeRecorded := channelsToBeRecorded svc \<union> set channelsToRecord,
                    incomingChannels := (\<lambda>channel. if channel \<in> set channelsToRecord
                       then Some newIncomingChannelState else incomingChannels svc channel)\<rparr>
      in (svc, sendMarkerMessageToPeers en svc))"

text \<open>The two parts of \<open>takeSnapshot()\<close> of the initiator: the flag, and the local snapshot.\<close>

definition markInitiated :: "SnapshotService \<Rightarrow> SnapshotService" where
  "markInitiated svc = svc\<lparr>snapshotInitiated := True\<rparr>"

definition takeSnapshot :: "endian \<Rightarrow> string \<Rightarrow> SnapshotService \<Rightarrow> SnapshotService \<times> markers" where
  "takeSnapshot en stateNow svc = takeLocalSnapshot en stateNow (allPeers svc) svc"

text \<open>
  The vector of the remaining peers has one element less than the peers, initially empty strings;
  copying more elements than that writes behind its end. Without peers the length of the vector
  wraps around and its constructor throws.
\<close>

definition remainingPeers :: "hostname list \<Rightarrow> hostname \<Rightarrow> hostname list res" where
  "remainingPeers peers sender =
     (let kept = filter (\<lambda>peer. peer \<noteq> sender) peers; n = length peers - 1
      in if peers = [] then Inl LengthError
         else if length kept \<le> n then Inr (kept @ replicate (n - length kept) [])
         else Inl UndefinedBehaviour)"

text \<open>The body of a marker thread up to the end of its first critical section, and the rest.\<close>

definition markerReceived ::
  "endian \<Rightarrow> Message \<Rightarrow> string \<Rightarrow> SnapshotService \<Rightarrow> (SnapshotService \<times> markers) res" where
  "markerReceived en msg stateNow svc =
     rbind (getMessageType en msg) (\<lambda>msgType.
     rbind (check (msgType = Marker)) (\<lambda>_.
     rbind (deserializeMarkerMessage en msg) (\<lambda>markerMsg.
       if \<not> snapshotInitiated svc
       then rbind (remainingPeers (allPeers svc) (getParsedSender msg)) (\<lambda>remaining.
              let (svc, sent) = takeLocalSnapshot en stateNow remaining svc
              in Inr (svc\<lparr>snapshotInitiated := True\<rparr>, sent))
       else Inr (svc, []))))"

definition stopRecording :: "hostname \<Rightarrow> SnapshotService \<Rightarrow> SnapshotService" where
  "stopRecording sender svc = svc\<lparr>channelsToBeRecorded := channelsToBeRecorded svc - {sender}\<rparr>"

definition recordIncomingMessages ::
  "endian \<Rightarrow> Message \<Rightarrow> SnapshotService \<Rightarrow> SnapshotService res" where
  "recordIncomingMessages en message svc =
     (let sender = getParsedSender message
      in if sender \<in> channelsToBeRecorded svc
         then rbind (map_at (incomingChannels svc) sender) (\<lambda>st.
              rbind (recordMessage en message st) (\<lambda>st'.
                Inr (svc\<lparr>incomingChannels := (incomingChannels svc)(sender \<mapsto> st')\<rparr>)))
         else Inr svc)"

text \<open>The printed snapshot; \<open>order\<close> is the order in which the hash map is iterated.\<close>

definition endl :: string where
  "endl = [CHR 0x0A]"

definition bar :: "nat \<Rightarrow> string" where
  "bar k = replicate k (CHR ''='')"

definition printSnapshot :: "hostname list \<Rightarrow> SnapshotService \<Rightarrow> string res" where
  "printSnapshot order svc =
     rbind (foldr (\<lambda>c rest. rbind (map_at (incomingChannels svc) c) (\<lambda>st. rbind rest (\<lambda>text. Inr (
         endl @ bar 23 @ '' start of state for '' @ c @ '' channel '' @ bar 23 @ endl @
         endl @ showIncomingChannelState st @ endl @
         endl @ bar 24 @ '' end of state for '' @ c @ '' channel '' @ bar 24 @ endl @ text))))
       order (Inr [])) (\<lambda>channels. Inr (
     endl @ bar 35 @ '' start of snapshot '' @ bar 35 @ endl @
     endl @ bar 35 @ '' start of localState '' @ bar 35 @ endl @
     endl @ localState svc @ endl @
     endl @ bar 35 @ '' end of localState '' @ bar 35 @ endl @
     channels @
     endl @ bar 35 @ '' end of snapshot '' @ bar 35 @ endl))"

lemma printSnapshot_total:
  "set order \<subseteq> dom (incomingChannels svc) \<Longrightarrow> \<exists>text. printSnapshot order svc = Inr text"
proof (induction order)
  case (Cons c order)
  then obtain st where "incomingChannels svc c = Some st" by auto
  with Cons show ?case by (force simp: printSnapshot_def rbind_eq_Inr)
qed (simp add: printSnapshot_def)

section \<open>Interleavings\<close>

datatype snapEvent =
    Initiate
  | InitiatorSnapshot string
  | MarkerArrives Message string
  | MarkerDone hostname
  | Incoming Message

fun applySnap :: "endian \<Rightarrow> snapEvent \<Rightarrow> SnapshotService \<Rightarrow> (SnapshotService \<times> markers) res" where
  "applySnap en Initiate svc = Inr (markInitiated svc, [])"
| "applySnap en (InitiatorSnapshot stateNow) svc = Inr (takeSnapshot en stateNow svc)"
| "applySnap en (MarkerArrives msg stateNow) svc = markerReceived en msg stateNow svc"
| "applySnap en (MarkerDone sender) svc = Inr (stopRecording sender svc, [])"
| "applySnap en (Incoming message) svc =
     rbind (recordIncomingMessages en message svc) (\<lambda>svc'. Inr (svc', []))"

fun runSnap :: "endian \<Rightarrow> snapEvent list \<Rightarrow> SnapshotService \<Rightarrow> (SnapshotService \<times> markers) res" where
  "runSnap en [] svc = Inr (svc, [])"
| "runSnap en (ev # evs) svc =
     rbind (applySnap en ev svc) (\<lambda>(svc', sent).
     rbind (runSnap en evs svc') (\<lambda>(svc'', sent'). Inr (svc'', sent @ sent')))"

text \<open>The texts of the messages that arrive from a peer in a list of events.\<close>

fun textOf :: "endian \<Rightarrow> hostname \<Rightarrow> snapEvent \<Rightarrow> string list" where
  "textOf en c (Incoming message) =
     (if getParsedSender message = c
      then (case rbind (getMessageType en message) (messageText en message) of
              Inr t \<Rightarrow> [t] | Inl e \<Rightarrow> [])
      else [])"
| "textOf en c _ = []"

definition textsFrom :: "endian \<Rightarrow> hostname \<Rightarrow> snapEvent list \<Rightarrow> string list" where
  "textsFrom en c evs = concat (map (textOf en c) evs)"

fun isInitiatorSnapshot :: "snapEvent \<Rightarrow> bool" where
  "isInitiatorSnapshot (InitiatorSnapshot stateNow) = True"
| "isInitiatorSnapshot _ = False"

section \<open>What is recorded\<close>

lemma runSnap_append:
  "runSnap en (evs @ evs') svc =
     rbind (runSnap en evs svc) (\<lambda>(svc', sent).
     rbind (runSnap en evs' svc') (\<lambda>(svc'', sent'). Inr (svc'', sent @ sent')))"
proof (induction evs arbitrary: svc)
  case (Cons ev evs)
  show ?case
  proof (cases "applySnap en ev svc")
    case (Inr r)
    obtain svc1 out1 where r: "r = (svc1, out1)" by (cases r)
    show ?thesis
      using Cons.IH [of svc1] Inr r
      by (cases "runSnap en evs svc1") (auto simp: rbind_def split: sum.splits)
  qed simp
qed (auto simp: rbind_def split: sum.splits)

lemma recordMessage_text:
  "recordMessage en message st = Inr st' \<Longrightarrow>
   \<exists>t. rbind (getMessageType en message) (messageText en message) = Inr t \<and> messages st' = messages st @ [t]"
  by (auto simp: recordMessage_def rbind_eq_Inr)

lemma markerReceived_later:
  "snapshotInitiated svc \<Longrightarrow> markerReceived en msg stateNow svc = Inr (svc', sent) \<Longrightarrow> svc' = svc \<and> sent = []"
  by (auto simp: markerReceived_def rbind_eq_Inr)

text \<open>After the local snapshot: a channel that is recorded collects what arrives, in order.\<close>

definition recording :: "hostname \<Rightarrow> string list \<Rightarrow> SnapshotService \<Rightarrow> bool" where
  "recording c texts svc \<longleftrightarrow> snapshotInitiated svc \<and> c \<in> channelsToBeRecorded svc \<and>
     incomingChannels svc c = Some \<lparr>messages = texts\<rparr>"

definition recorded :: "hostname \<Rightarrow> string list \<Rightarrow> SnapshotService \<Rightarrow> bool" where
  "recorded c texts svc \<longleftrightarrow> snapshotInitiated svc \<and> c \<notin> channelsToBeRecorded svc \<and>
     incomingChannels svc c = Some \<lparr>messages = texts\<rparr>"

lemma applySnap_recording:
  assumes "recording c texts svc" and "applySnap en ev svc = Inr (svc', sent)"
    and "\<not> isInitiatorSnapshot ev" and "ev \<noteq> MarkerDone c"
  shows "recording c (texts @ textOf en c ev) svc'"
proof (cases ev)
  case (MarkerArrives msg stateNow)
  with assms markerReceived_later [of svc en msg stateNow svc' sent] show ?thesis
    by (simp add: recording_def)
next
  case (Incoming message)
  show ?thesis
  proof (cases "getParsedSender message = c")
    case True
    with assms Incoming obtain st' where st': "recordMessage en message \<lparr>messages = texts\<rparr> = Inr st'"
      "svc' = svc\<lparr>incomingChannels := (incomingChannels svc)(c \<mapsto> st')\<rparr>"
      by (auto simp: recording_def recordIncomingMessages_def rbind_eq_Inr)
    from recordMessage_text [OF st'(1)] obtain t
      where t: "rbind (getMessageType en message) (messageText en message) = Inr t" "messages st' = texts @ [t]"
      by auto
    then show ?thesis
      using assms(1) st'(2) True Incoming by (cases st') (simp add: recording_def)
  next
    case False
    with assms Incoming show ?thesis
      by (auto simp: recording_def recordIncomingMessages_def rbind_eq_Inr Let_def split: if_splits)
  qed
qed (use assms in \<open>auto simp: recording_def markInitiated_def stopRecording_def\<close>)

lemma runSnap_recording:
  assumes "recording c texts svc" and "runSnap en evs svc = Inr (svc', sent)"
    and "\<forall>ev \<in> set evs. \<not> isInitiatorSnapshot ev \<and> ev \<noteq> MarkerDone c"
  shows "recording c (texts @ textsFrom en c evs) svc'"
  using assms
proof (induction evs arbitrary: texts svc sent)
  case (Cons ev evs)
  from Cons.prems(2) obtain svc1 out1 out2
    where s: "applySnap en ev svc = Inr (svc1, out1)" "runSnap en evs svc1 = Inr (svc', out2)"
    by (auto simp: rbind_eq_Inr)
  have "recording c (texts @ textOf en c ev) svc1"
    using applySnap_recording [OF Cons.prems(1) s(1)] Cons.prems(3) by simp
  from Cons.IH [OF this s(2)] Cons.prems(3)
  show ?case by (simp add: textsFrom_def)
qed (simp add: textsFrom_def)

lemma applySnap_recorded:
  assumes "recorded c texts svc" and "applySnap en ev svc = Inr (svc', sent)" and "\<not> isInitiatorSnapshot ev"
  shows "recorded c texts svc'"
proof (cases ev)
  case (MarkerArrives msg stateNow)
  with assms markerReceived_later [of svc en msg stateNow svc' sent] show ?thesis
    by (simp add: recorded_def)
next
  case (Incoming message)
  with assms show ?thesis
    by (auto simp: recorded_def recordIncomingMessages_def rbind_eq_Inr Let_def split: if_splits)
qed (use assms in \<open>auto simp: recorded_def markInitiated_def stopRecording_def\<close>)

lemma runSnap_recorded:
  assumes "recorded c texts svc" and "runSnap en evs svc = Inr (svc', sent)"
    and "\<forall>ev \<in> set evs. \<not> isInitiatorSnapshot ev"
  shows "recorded c texts svc'"
  using assms
proof (induction evs arbitrary: svc sent)
  case (Cons ev evs)
  from Cons.prems(2) obtain svc1 out1 out2
    where s: "applySnap en ev svc = Inr (svc1, out1)" "runSnap en evs svc1 = Inr (svc', out2)"
    by (auto simp: rbind_eq_Inr)
  have "recorded c texts svc1"
    using applySnap_recorded [OF Cons.prems(1) s(1)] Cons.prems(3) by simp
  from Cons.IH [OF this s(2)] Cons.prems(3) show ?case by simp
qed simp

text \<open>Before the local snapshot nothing is recorded and no marker is sent.\<close>

definition idle :: "hostname list \<Rightarrow> SnapshotService \<Rightarrow> bool" where
  "idle peers svc \<longleftrightarrow> allPeers svc = peers \<and> channelsToBeRecorded svc = {} \<and> \<not> snapshotInitiated svc"

fun isIncoming :: "snapEvent \<Rightarrow> bool" where
  "isIncoming (Incoming message) = True"
| "isIncoming _ = False"

lemma runSnap_idle:
  assumes "idle peers svc" and "\<forall>ev \<in> set evs. isIncoming ev"
  shows "runSnap en evs svc = Inr (svc, [])"
  using assms(2)
proof (induction evs)
  case (Cons ev evs)
  then obtain message where "ev = Incoming message" by (cases ev) auto
  with Cons assms(1) show ?case by (simp add: recordIncomingMessages_def idle_def)
qed simp

text \<open>The event that takes the local snapshot, and the channels it starts to record.\<close>

definition snapshotAt :: "endian \<Rightarrow> snapEvent list \<Rightarrow> hostname list \<Rightarrow> hostname list \<Rightarrow> bool" where
  "snapshotAt en evs peers channels \<longleftrightarrow>
     (\<exists>stateNow. evs = [Initiate, InitiatorSnapshot stateNow] \<and> channels = peers) \<or>
     (\<exists>msg stateNow. evs = [MarkerArrives msg stateNow] \<and>
        remainingPeers peers (getParsedSender msg) = Inr channels)"

lemma snapshotAt_effect:
  assumes "idle peers svc" and "snapshotAt en evs peers channels" and "runSnap en evs svc = Inr (svc', sent)"
  shows "snapshotInitiated svc' \<and> allPeers svc' = peers \<and> channelsToBeRecorded svc' = set channels \<and>
    (\<forall>c \<in> set channels. recording c [] svc') \<and> map fst sent = peers"
  using assms
  by (auto simp: snapshotAt_def idle_def takeSnapshot_def takeLocalSnapshot_def markInitiated_def
      markerReceived_def recording_def newIncomingChannelState_def sendMarkerMessageToPeers_def
      rbind_eq_Inr Let_def o_def)

text \<open>
  The state of an incoming channel. Whatever arrives before, in between and after, the snapshot
  contains for a channel that is recorded exactly the messages that arrived on it after the local
  snapshot and before the marker of that channel was done, in their order; and the local snapshot
  sends one marker to every peer.
\<close>

theorem recorded_between_markers:
  assumes before: "\<forall>ev \<in> set pre. isIncoming ev" and snap: "snapshotAt en snap peers channels"
    and c: "c \<in> set channels"
    and mid: "\<forall>ev \<in> set mid. \<not> isInitiatorSnapshot ev \<and> ev \<noteq> MarkerDone c"
    and post: "\<forall>ev \<in> set post. \<not> isInitiatorSnapshot ev"
    and run: "runSnap en (pre @ snap @ mid @ MarkerDone c # post) (newSnapshotService sid peers) = Inr (svc, sent)"
  shows "incomingChannels svc c = Some \<lparr>messages = textsFrom en c mid\<rparr> \<and> c \<notin> channelsToBeRecorded svc"
proof -
  have idle: "idle peers (newSnapshotService sid peers)" by (simp add: idle_def newSnapshotService_def)
  have "runSnap en (snap @ mid @ MarkerDone c # post) (newSnapshotService sid peers) = Inr (svc, sent)"
    using run runSnap_idle [OF idle before] by (simp add: runSnap_append [of en pre])
  then obtain svc1 out1 svc2 out2 out3
    where s: "runSnap en snap (newSnapshotService sid peers) = Inr (svc1, out1)"
      "runSnap en mid svc1 = Inr (svc2, out2)" "runSnap en post (stopRecording c svc2) = Inr (svc, out3)"
    by (auto simp: runSnap_append [of en snap] runSnap_append [of en mid] rbind_eq_Inr)
  have "recording c [] svc1" using snapshotAt_effect [OF idle snap s(1)] c by blast
  from runSnap_recording [OF this s(2) mid] have "recorded c (textsFrom en c mid) (stopRecording c svc2)"
    by (simp add: recording_def recorded_def stopRecording_def)
  from runSnap_recorded [OF this s(3) post] show ?thesis by (simp add: recorded_def)
qed

text \<open>Reading back the messages of the multicast and the markers.\<close>

lemma getMessageType_wire:
  "getMessageType en (received (wire k) junk from) = Inr (messageTypeOf (packet_type k))"
  using getTypeWord_received [OF take4_wire, of k] length_wire [of k]
  by (simp add: getMessageType_def MAX_BUFFER_SIZE_def)

lemma messageText_data:
  "messageText en (received (wire (PData d)) junk from) Data = Inr (showDataMessage d)"
proof -
  have "deserializeDataMsg en (received (wire (PData d)) junk from) = Inr d"
    by (rule data_codec.deser_image)
      (simp_all add: wire_def take_received MAX_BUFFER_SIZE_def lab1_codec_defs)
  then show ?thesis by (simp add: messageText_def)
qed

definition markerBytes :: "u32 \<Rightarrow> byte list" where
  "markerBytes i = wire_words [5, i]"

lemma marker_wire:
  "getMessageType en (received (markerBytes i) junk from) = Inr Marker"
  "deserializeMarkerMessage en (received (markerBytes i) junk from) = Inr \<lparr>mk_type = 5, mk_sender = i\<rparr>"
proof -
  have "getTypeWord en (received (markerBytes i) junk from) = Inr 5"
    by (rule getTypeWord_received) (simp_all add: markerBytes_def wire_words_simps MAX_BUFFER_SIZE_def)
  then show "getMessageType en (received (markerBytes i) junk from) = Inr Marker"
    by (simp add: getMessageType_def)
  show "deserializeMarkerMessage en (received (markerBytes i) junk from) = Inr \<lparr>mk_type = 5, mk_sender = i\<rparr>"
    by (rule marker_codec.deser_image)
      (simp_all add: take_received MAX_BUFFER_SIZE_def lab1_codec_defs markerBytes_def)
qed

lemma markers_on_the_wire:
  "snd (takeSnapshot en stateNow svc) = map (\<lambda>peer. (peer, markerBytes (ss_senderId svc))) (allPeers svc)"
  by (simp add: takeSnapshot_def takeLocalSnapshot_def sendMarkerMessageToPeers_def Let_def
      createMarkerMessage_def marker_codec.ser_image markerBytes_def fieldsMarkerMessage_def)

definition sampleData :: "u32 \<Rightarrow> string \<Rightarrow> snapEvent" where
  "sampleData data from =
     Incoming (received (wire (PData \<lparr>d_type = 1, d_sender = 2, d_msg_id = 1, d_data = data\<rparr>)) [] from)"

lemma sampleData_simps:
  "isIncoming (sampleData data from)" "\<not> isInitiatorSnapshot (sampleData data from)"
  "sampleData data from \<noteq> MarkerDone c"
  by (simp_all add: sampleData_def)

theorem recorded_between_markers_witness:
  "\<exists>svc sent. runSnap LittleEndian
      ([sampleData 7 ''b.net''] @ [MarkerArrives (received (markerBytes 3) [] ''c.net'') ''now''] @
       [sampleData 8 ''b.net'', sampleData 9 ''c.net''] @ MarkerDone ''b'' # [sampleData 10 ''b.net''])
      (newSnapshotService 1 [''b'', ''c'']) = Inr (svc, sent) \<and>
    incomingChannels svc ''b'' = Some \<lparr>messages =
      [showDataMessage \<lparr>d_type = 1, d_sender = 2, d_msg_id = 1, d_data = 8\<rparr>]\<rparr>"
proof -
  let ?pre = "[sampleData 7 ''b.net'']"
  let ?snap = "[MarkerArrives (received (markerBytes 3) [] ''c.net'') ''now'']"
  let ?mid = "[sampleData 8 ''b.net'', sampleData 9 ''c.net'']"
  let ?post = "[sampleData 10 ''b.net'']"
  let ?run = "runSnap LittleEndian (?pre @ ?snap @ ?mid @ MarkerDone ''b'' # ?post)
    (newSnapshotService 1 [''b'', ''c''])"
  have names: "parseHostnameFromSender ''b.net'' = ''b''" "parseHostnameFromSender ''c.net'' = ''c''"
    by (simp_all add: parseHostnameFromSender_def)
  have "\<exists>svc sent. ?run = Inr (svc, sent)"
    by (simp add: sampleData_def recordIncomingMessages_def markerReceived_def marker_wire names
        getParsedSender_def newSnapshotService_def remainingPeers_def takeLocalSnapshot_def
        sendMarkerMessageToPeers_def recordMessage_def getMessageType_wire messageText_data
        stopRecording_def newIncomingChannelState_def Let_def)
  then obtain svc sent where r: "?run = Inr (svc, sent)" by blast
  have snap: "snapshotAt LittleEndian ?snap [''b'', ''c''] [''b'']"
    by (simp add: snapshotAt_def getParsedSender_def names remainingPeers_def Let_def)
  have "incomingChannels svc ''b'' = Some \<lparr>messages = textsFrom LittleEndian ''b'' ?mid\<rparr>"
    using recorded_between_markers [OF _ snap _ _ _ r] by (simp add: sampleData_simps)
  moreover have "textsFrom LittleEndian ''b'' ?mid =
      [showDataMessage \<lparr>d_type = 1, d_sender = 2, d_msg_id = 1, d_data = 8\<rparr>]"
    by (simp add: textsFrom_def sampleData_def getParsedSender_def names getMessageType_wire messageText_data)
  ultimately have "incomingChannels svc ''b'' = Some \<lparr>messages =
      [showDataMessage \<lparr>d_type = 1, d_sender = 2, d_msg_id = 1, d_data = 8\<rparr>]\<rparr>" by (simp only:)
  with r show ?thesis by (intro exI conjI)
qed

text \<open>A process that does not initiate sends its markers once, when the first marker arrives.\<close>

definition isMarkerArrival :: "snapEvent \<Rightarrow> bool" where
  "isMarkerArrival ev \<longleftrightarrow> (\<exists>msg stateNow. ev = MarkerArrives msg stateNow)"

lemma applySnap_quiet:
  assumes "applySnap en ev svc = Inr (svc', sent)" and "\<not> isInitiatorSnapshot ev"
    and "isMarkerArrival ev \<longrightarrow> snapshotInitiated svc"
  shows "sent = [] \<and> allPeers svc' = allPeers svc \<and> (snapshotInitiated svc \<longrightarrow> snapshotInitiated svc')"
  using assms
  by (cases ev) (auto simp: isMarkerArrival_def markInitiated_def stopRecording_def markerReceived_def
      recordIncomingMessages_def rbind_eq_Inr Let_def split: if_splits)

lemma runSnap_after_snapshot:
  assumes "snapshotInitiated svc" and "runSnap en evs svc = Inr (svc', sent)"
    and "\<forall>ev \<in> set evs. \<not> isInitiatorSnapshot ev"
  shows "sent = []"
  using assms
proof (induction evs arbitrary: svc sent)
  case (Cons ev evs)
  from Cons.prems(2) obtain svc1 out1 out2
    where s: "applySnap en ev svc = Inr (svc1, out1)" "runSnap en evs svc1 = Inr (svc', out2)"
      "sent = out1 @ out2"
    by (auto simp: rbind_eq_Inr)
  have "out1 = [] \<and> snapshotInitiated svc1" using applySnap_quiet [OF s(1)] Cons.prems by simp
  with Cons.IH [of svc1 out2] s Cons.prems(3) show ?case by simp
qed simp

lemma runSnap_follower:
  assumes "\<not> snapshotInitiated svc" and "runSnap en evs svc = Inr (svc', sent)"
    and "\<forall>ev \<in> set evs. ev \<noteq> Initiate \<and> \<not> isInitiatorSnapshot ev"
  shows "map fst sent = (if \<exists>ev \<in> set evs. isMarkerArrival ev then allPeers svc else [])"
  using assms
proof (induction evs arbitrary: svc sent)
  case (Cons ev evs)
  from Cons.prems(2) obtain svc1 out1 out2
    where s: "applySnap en ev svc = Inr (svc1, out1)" "runSnap en evs svc1 = Inr (svc', out2)"
      "sent = out1 @ out2"
    by (auto simp: rbind_eq_Inr)
  show ?case
  proof (cases "isMarkerArrival ev")
    case True
    with s(1) Cons.prems(1) have "snapshotInitiated svc1" "map fst out1 = allPeers svc"
      by (auto simp: isMarkerArrival_def markerReceived_def takeLocalSnapshot_def
          sendMarkerMessageToPeers_def rbind_eq_Inr Let_def o_def)
    moreover from this(1) have "out2 = []" using runSnap_after_snapshot s(2) Cons.prems(3) by simp
    ultimately show ?thesis using True s(3) by simp
  next
    case False
    have "out1 = [] \<and> allPeers svc1 = allPeers svc" using applySnap_quiet [OF s(1)] False Cons.prems(3) by simp
    moreover have "\<not> snapshotInitiated svc1"
      using s(1) False Cons.prems(1,3)
      by (cases ev) (auto simp: isMarkerArrival_def stopRecording_def recordIncomingMessages_def
          rbind_eq_Inr Let_def split: if_splits)
    ultimately show ?thesis using Cons.IH [of svc1 out2] s False Cons.prems(3) by simp
  qed
qed simp

text \<open>
  A process that does not initiate the snapshot sends no marker before one arrives, and one
  marker to every peer in all, however many markers arrive and whatever else happens.
\<close>

theorem follower_sends_markers_once:
  assumes "runSnap en evs (newSnapshotService sid peers) = Inr (svc, sent)"
    and "\<forall>ev \<in> set evs. ev \<noteq> Initiate \<and> \<not> isInitiatorSnapshot ev"
  shows "map fst sent = (if \<exists>ev \<in> set evs. isMarkerArrival ev then peers else [])"
  using runSnap_follower [OF _ assms] by (simp add: newSnapshotService_def)

theorem follower_sends_markers_once_witness:
  "\<exists>svc sent. runSnap BigEndian
      [MarkerArrives (received (markerBytes 2) [] ''b.net'') ''now'', MarkerDone ''b'',
       MarkerArrives (received (markerBytes 3) [] ''c.net'') ''later'', MarkerDone ''c'']
      (newSnapshotService 1 [''b'', ''c'']) = Inr (svc, sent) \<and> map fst sent = [''b'', ''c'']"
proof -
  let ?evs = "[MarkerArrives (received (markerBytes 2) [] ''b.net'') ''now'', MarkerDone ''b'',
       MarkerArrives (received (markerBytes 3) [] ''c.net'') ''later'', MarkerDone ''c'']"
  have "\<exists>svc sent. runSnap BigEndian ?evs (newSnapshotService 1 [''b'', ''c'']) = Inr (svc, sent)"
    by (simp add: markerReceived_def marker_wire getParsedSender_def parseHostnameFromSender_def
        newSnapshotService_def remainingPeers_def takeLocalSnapshot_def stopRecording_def Let_def)
  then obtain svc sent where r: "runSnap BigEndian ?evs (newSnapshotService 1 [''b'', ''c'']) = Inr (svc, sent)"
    by blast
  with follower_sends_markers_once [OF r] show ?thesis by (auto simp: isMarkerArrival_def)
qed

section \<open>Two initiators, and dropped messages\<close>

text \<open>
  The marker of another initiator that arrives between the two critical sections of
  \<open>takeSnapshot\<close> finds the flag set and no channel to stop; the snapshot then starts to record that
  channel, and no marker will ever stop it.
\<close>

theorem second_initiator_recorded_forever:
  "\<exists>svc sent. runSnap en [Initiate, MarkerArrives (received (markerBytes 2) [] ''b'') ''x'', MarkerDone ''b'',
      InitiatorSnapshot ''y'', MarkerArrives (received (markerBytes 3) [] ''c'') ''z'', MarkerDone ''c'']
      (newSnapshotService 1 [''b'', ''c'']) = Inr (svc, sent) \<and>
    channelsToBeRecorded svc = {''b''}"
  by (simp add: markerReceived_def marker_wire markInitiated_def takeSnapshot_def takeLocalSnapshot_def
      newSnapshotService_def stopRecording_def Let_def insert_Diff_if)

text \<open>
  The callback for incoming messages runs before the decision to drop a message. A message that
  is dropped leaves the multicast service unchanged and is recorded in the snapshot as if it were in
  flight.
\<close>

theorem dropped_message_recorded:
  assumes "''b'' \<in> channelsToBeRecorded snap" and "incomingChannels snap ''b'' = Some st"
  shows "\<exists>snap'. listenStep en (recordIncomingMessages en) True
      (received (wire (PData \<lparr>d_type = 1, d_sender = i, d_msg_id = n, d_data = x\<rparr>)) junk ''b'') (svc, snap) =
      Inr ((svc, snap'), []) \<and>
    incomingChannels snap' ''b'' = Some \<lparr>messages = messages st @
      [showDataMessage \<lparr>d_type = 1, d_sender = i, d_msg_id = n, d_data = x\<rparr>]\<rparr>"
  using assms
  by (cases st) (simp add: listenStep_def getMessageType_wire recordIncomingMessages_def getParsedSender_def
      parseHostnameFromSender_def recordMessage_def messageText_data)

theorem dropped_message_recorded_witness:
  "\<exists>snap'. listenStep BigEndian (recordIncomingMessages BigEndian) True
      (received (wire (PData \<lparr>d_type = 1, d_sender = 2, d_msg_id = 1, d_data = 5\<rparr>)) [] ''b'')
      (newMulticastService 1 [''a'', ''b''] Map.empty,
       fst (takeSnapshot BigEndian [] (newSnapshotService 1 [''b'']))) =
      Inr ((newMulticastService 1 [''a'', ''b''] Map.empty, snap'), []) \<and>
    incomingChannels snap' ''b'' = Some \<lparr>messages =
      [showDataMessage \<lparr>d_type = 1, d_sender = 2, d_msg_id = 1, d_data = 5\<rparr>]\<rparr>"
  using dropped_message_recorded [of "fst (takeSnapshot BigEndian [] (newSnapshotService 1 [''b'']))"
      newIncomingChannelState BigEndian 2 1 5 "[]" "newMulticastService 1 [''a'', ''b''] Map.empty"]
  by (simp add: takeSnapshot_def takeLocalSnapshot_def newSnapshotService_def newIncomingChannelState_def Let_def)

end
