(* ===== verification/MulticastState.thy ===== *)
theory MulticastState
  imports Snapshot
begin

text \<open>
  The printed state of the multicast service (\<open>getCurrentState\<close> and the output operators of
  \<open>part1/multicast.cpp\<close>), which is the local state that the snapshot records, and the loop of lab1's
  \<open>main\<close> that sends the messages and takes the snapshot. The orders in which hash tables are iterated,
  the names of the template instances and the text of the drop rate are arguments.
\<close>

section \<open>Output operators\<close>

definition showMsgIdentifier :: "MsgIdentifier \<Rightarrow> string" where
  "showMsgIdentifier i = ''msgId: '' @ show_u32 (mi_msgId i) @ '', sender: '' @ show_u32 (mi_sender i)"

definition showPendingMsg :: "PendingMsg \<Rightarrow> string" where
  "showPendingMsg p =
     ''msgId: '' @ show_u32 (d_msg_id (dataMsg p)) @
     '', sender: '' @ show_u32 (d_sender (dataMsg p)) @
     '', seqId: '' @ show_u32 (finalSeqId p) @
     '', seqIdProposer: '' @ show_u32 (finalSeqProposer p) @
     '', deliverable: '' @ (if deliverable p then ''1'' else ''0'')"

definition showDeque :: "PendingMsg list \<Rightarrow> string" where
  "showDeque ps =
     endl @ bar 29 @ '' start of HoldBackQueue '' @ bar 29 @ endl @
     concat (map (\<lambda>p. showPendingMsg p @ endl) ps) @
     endl @ bar 30 @ '' end of HoldBackQueue '' @ bar 30 @ endl"

definition queueState :: "HoldBackQueue \<Rightarrow> string" where
  "queueState q = showDeque (deque q)"

text \<open>\<open>ContinuousMsgSender::getCurrentState\<close>; \<open>order\<close> lists a set of recipients.\<close>

definition senderState ::
  "string \<Rightarrow> ('m \<Rightarrow> string) \<Rightarrow> (hostname set \<Rightarrow> hostname list) \<Rightarrow> 'm ContinuousMsgSender \<Rightarrow> string" where
  "senderState name showMsg order s =
     endl @ bar 19 @ '' start of the '' @ name @ '' ContinuousMsgSender '' @ bar 19 @ endl @
     endl @ bar 23 @ '' start of the sending queue '' @ bar 23 @ endl @
     concat (map (\<lambda>h. ''Data: '' @ showMsg (orgMsg h) @ endl @
       bar 23 @ '' start of the recipients '' @ bar 23 @ endl @
       concat (map (\<lambda>recipient. recipient @ endl) (order (holder_recipients h))) @
       bar 23 @ '' end of the recipients '' @ bar 23 @ endl) (msgList s)) @
     endl @ bar 23 @ '' end of the sending queue '' @ bar 23 @ endl @
     endl @ bar 20 @ '' end of the '' @ name @ '' ContinuousMsgSender '' @ bar 20 @ endl"

record printing =
  pr_dataName :: string
  pr_seqName :: string
  pr_dropRate :: string
  pr_messageDelay :: nat
  pr_recipients :: "hostname set \<Rightarrow> hostname list"
  pr_msgIds :: "u32 list"
  pr_proposals :: "(u32 \<times> u32) list \<Rightarrow> (u32 \<times> u32) list"
  pr_acks :: "MsgIdentifier list"

definition proposalsState :: "printing \<Rightarrow> MulticastService \<Rightarrow> u32 \<Rightarrow> string res" where
  "proposalsState pr svc i =
     rbind (map_at (proposedSeqIdMap svc) i) (\<lambda>proposals. Inr (
       endl @ bar 18 @ '' start of proposed Seq Id for MsdId: '' @ show_u32 i @ '' '' @ bar 18 @ endl @
       concat (map (\<lambda>(proposer, v). show_u32 proposer @ '' proposes: '' @ show_u32 v @ endl)
         (pr_proposals pr proposals)) @
       endl @ bar 19 @ '' End of proposed Seq Id for MsdId: '' @ show_u32 i @ '' '' @ bar 19 @ endl))"

text \<open>The texts of a list of entries, one after the other.\<close>

fun texts :: "('a \<Rightarrow> string res) \<Rightarrow> 'a list \<Rightarrow> string res" where
  "texts f [] = Inr []"
| "texts f (x # xs) = rbind (f x) (\<lambda>t. rbind (texts f xs) (\<lambda>ts. Inr (t @ ts)))"

definition getCurrentState :: "printing \<Rightarrow> MulticastService \<Rightarrow> string res" where
  "getCurrentState pr svc =
     rbind (texts (proposalsState pr svc) (pr_msgIds pr)) (\<lambda>proposals.
     rbind (texts (\<lambda>i. rbind (map_at (ackMessageCache svc) i) (\<lambda>a. Inr (showAckMessage a @ endl))) (pr_acks pr)) (\<lambda>acks.
     Inr (
       endl @ bar 33 @ '' start of MutlicastService state '' @ bar 33 @ endl @
       ''senderId: '' @ show_u32 (senderId svc) @ endl @
       ''messageDelay: '' @ show_nat (pr_messageDelay pr) @ ''ms'' @ endl @
       ''dropRate: '' @ pr_dropRate pr @ endl @
       ''currentMsgId: '' @ show_u32 (msgId svc) @ endl @
       ''currSeqId: '' @ show_u32 (latestSeqId svc) @ endl @
       proposals @
       senderState (pr_dataName pr) showDataMessage (pr_recipients pr) (dataMsgSender svc) @ endl @
       senderState (pr_seqName pr) showSeqMessage (pr_recipients pr) (seqMsgSender svc) @ endl @
       queueState (holdBackQueue svc) @ endl @
       endl @ bar 30 @ '' start of ack message cache '' @ bar 30 @ endl @
       acks @
       endl @ bar 30 @ '' end of ack message cache '' @ bar 30 @ endl @
       endl @ bar 33 @ '' end of MutlicastService state '' @ bar 33 @ endl)))"

text \<open>The arguments are enumerations of the tables that are iterated.\<close>

definition enumerates :: "printing \<Rightarrow> MulticastService \<Rightarrow> bool" where
  "enumerates pr svc \<longleftrightarrow> distinct (pr_msgIds pr) \<and> set (pr_msgIds pr) = dom (proposedSeqIdMap svc) \<and>
     distinct (pr_acks pr) \<and> set (pr_acks pr) = dom (ackMessageCache svc)"

lemma texts_total: "(\<And>x. x \<in> set xs \<Longrightarrow> \<exists>t. f x = Inr t) \<Longrightarrow> \<exists>t. texts f xs = Inr t"
proof (induction xs)
  case (Cons x xs)
  obtain t where "f x = Inr t" using Cons.prems [of x] by auto
  moreover obtain ts where "texts f xs = Inr ts" using Cons.IH Cons.prems by fastforce
  ultimately show ?case by simp
qed simp

lemma getCurrentState_total:
  assumes "enumerates pr svc"
  shows "\<exists>t. getCurrentState pr svc = Inr t"
proof -
  have "\<exists>t. texts (proposalsState pr svc) (pr_msgIds pr) = Inr t"
    using assms by (intro texts_total) (auto simp: enumerates_def proposalsState_def)
  moreover have "\<exists>t. texts (\<lambda>i. rbind (map_at (ackMessageCache svc) i) (\<lambda>a. Inr (showAckMessage a @ endl)))
      (pr_acks pr) = Inr t"
    using assms by (intro texts_total) (auto simp: enumerates_def)
  ultimately show ?thesis by (auto simp: getCurrentState_def)
qed

text \<open>The text of an entry of the queue determines everything about it but its data.\<close>

lemma showPendingMsg_inject:
  "showPendingMsg p = showPendingMsg q \<longleftrightarrow>
     pm_id p = pm_id q \<and> finalSeqId p = finalSeqId q \<and> finalSeqProposer p = finalSeqProposer q \<and>
     deliverable p = deliverable q"
proof -
  have comma: "\<not> is_digit (CHR '','')" by (simp add: is_digit_def)
  show ?thesis
    by (auto simp: showPendingMsg_def pm_id_def data_id_def show_u32_append_inject [OF comma] split: if_splits)
qed

section \<open>The sending loop of main\<close>

datatype mainCall = CallMulticast u32 | CallTakeSnapshot

text \<open>
  The iterations from \<open>i\<close> to \<open>msgCount\<close>; \<open>after\<close> is \<open>initiateSnapshotCount\<close>. The flags are 32 bits wide
  and the loop variable an \<open>int\<close>, so that the model is for \<open>msgCount + 10 < 2 ^ 31\<close>.
\<close>

function mainLoop :: "nat \<Rightarrow> nat \<Rightarrow> nat \<Rightarrow> bool \<Rightarrow> mainCall list" where
  "mainLoop i msgCount after snapshotTaken =
     (if i \<le> msgCount
      then CallMulticast (of_nat (i + 10)) #
        (if \<not> snapshotTaken \<and> after \<noteq> 0 \<and> i > after
         then CallTakeSnapshot # mainLoop (Suc i) msgCount after True
         else mainLoop (Suc i) msgCount after snapshotTaken)
      else [])"
  by pat_completeness auto
termination by (relation "measure (\<lambda>(i, msgCount, _, _). Suc msgCount - i)") auto

declare mainLoop.simps [simp del]

definition mainCalls :: "bool \<Rightarrow> nat \<Rightarrow> nat \<Rightarrow> mainCall list" where
  "mainCalls sendMulticastMsg msgCount after = (if sendMulticastMsg then mainLoop 1 msgCount after False else [])"

lemma mainLoop_quiet:
  assumes "taken \<or> after = 0 \<or> msgCount \<le> after"
  shows "mainLoop i msgCount after taken = map (\<lambda>k. CallMulticast (of_nat (k + 10))) [i..<Suc msgCount]"
proof (induction "Suc msgCount - i" arbitrary: i)
  case 0
  then show ?case by (subst mainLoop.simps) simp
next
  case (Suc n)
  then have i: "i \<le> msgCount" "n = Suc msgCount - Suc i" by simp_all
  then have "\<not> (\<not> taken \<and> after \<noteq> 0 \<and> after < i)" using assms by auto
  with i Suc.hyps(1) [OF i(2)] show ?case
    by (subst mainLoop.simps) (simp only: upt_conv_Cons if_True if_False list.map le_imp_less_Suc simp_thms)
qed

lemma mainLoop_snapshot:
  assumes "0 < after" and "after < msgCount" and "i \<le> Suc after"
  shows "mainLoop i msgCount after False =
     map (\<lambda>k. CallMulticast (of_nat (k + 10))) [i..<after + 2] @ CallTakeSnapshot #
     map (\<lambda>k. CallMulticast (of_nat (k + 10))) [after + 2..<Suc msgCount]"
  using assms(3)
proof (induction "Suc after - i" arbitrary: i)
  case 0
  then have i: "i = Suc after" by simp
  have "mainLoop i msgCount after False =
      CallMulticast (of_nat (i + 10)) # CallTakeSnapshot # mainLoop (Suc i) msgCount after True"
    using assms(1,2) i by (subst mainLoop.simps) simp
  also have "mainLoop (Suc i) msgCount after True =
      map (\<lambda>k. CallMulticast (of_nat (k + 10))) [Suc i..<Suc msgCount]"
    by (rule mainLoop_quiet) simp
  finally show ?case using i by simp
next
  case (Suc n)
  then have i: "i \<le> after" "n = Suc after - Suc i" by simp_all
  have "mainLoop i msgCount after False = CallMulticast (of_nat (i + 10)) # mainLoop (Suc i) msgCount after False"
    using i(1) assms(2) by (subst mainLoop.simps) simp
  also have "mainLoop (Suc i) msgCount after False =
      map (\<lambda>k. CallMulticast (of_nat (k + 10))) [Suc i..<after + 2] @ CallTakeSnapshot #
      map (\<lambda>k. CallMulticast (of_nat (k + 10))) [after + 2..<Suc msgCount]"
    using Suc.hyps(1) [OF i(2)] i(1) by simp
  finally show ?case using i(1) by (simp add: upt_conv_Cons del: upt_Suc)
qed

text \<open>
  A sender multicasts the numbers from 11 on; it takes one snapshot, after one message more than
  \<open>initiateSnapshotCount\<close>, if that is positive and less than the number of messages.
\<close>

lemma mainCalls_multicasts:
  "[c \<leftarrow> mainCalls True n after. c \<noteq> CallTakeSnapshot] = map (\<lambda>k. CallMulticast (of_nat (k + 10))) [1..<Suc n] \<and>
   length [c \<leftarrow> mainCalls True n after. c = CallTakeSnapshot] = (if 0 < after \<and> after < n then 1 else 0)"
proof -
  have m: "[c \<leftarrow> map (\<lambda>k. CallMulticast (f k)) ks. c \<noteq> CallTakeSnapshot] = map (\<lambda>k. CallMulticast (f k)) ks"
    "[c \<leftarrow> map (\<lambda>k. CallMulticast (f k)) ks. c = CallTakeSnapshot] = []" for f :: "nat \<Rightarrow> u32" and ks
    by (induction ks) simp_all
  show ?thesis
  proof (cases "0 < after \<and> after < n")
    case True
    then have split: "[1..<Suc n] = [1..<after + 2] @ [after + 2..<Suc n]"
      using upt_add_eq_append [of 1 "after + 2" "n - Suc after"] by simp
    have "mainCalls True n after = map (\<lambda>k. CallMulticast (of_nat (k + 10))) [1..<after + 2] @ CallTakeSnapshot #
        map (\<lambda>k. CallMulticast (of_nat (k + 10))) [after + 2..<Suc n]"
      unfolding mainCalls_def using mainLoop_snapshot [of "after" n 1] True by simp
    with True show ?thesis unfolding split by (simp add: m del: upt_Suc)
  next
    case False
    then have "mainCalls True n after = map (\<lambda>k. CallMulticast (of_nat (k + 10))) [1..<Suc n]"
      unfolding mainCalls_def using mainLoop_quiet [of False "after" n 1] by (auto simp del: upt_Suc)
    with False show ?thesis by (auto simp: m simp del: upt_Suc)
  qed
qed

end
