(* ===== verification/SnapshotSystem.thy ===== *)
theory SnapshotSystem
  imports MulticastProps MulticastState
begin

text \<open>
  The multicast service and the snapshot service of lab1 together, as \<open>main.cpp\<close> connects them: every
  host runs both, the receiving loop calls \<open>recordIncomingMessages\<close> for every datagram before it
  handles it, the local state of a snapshot is the printed state of the multicast service. Datagrams
  travel as in \<open>MulticastSystem\<close>; markers travel over connections of their own. The steps interleave
  the critical sections of all threads of all processes, with the locks that the code takes.
\<close>

section \<open>The callback and the handling of a datagram\<close>

text \<open>
  A turn of the receiving loop consists of the callback and of the handling of the message, which
  do not depend on one another and between which other threads of the process run.
\<close>

lemma listenStep_split:
  "listenStep en cb dropIt message (svc, c) = Inr ((svc', c'), out) \<longleftrightarrow>
     cb message c = Inr c' \<and> listenStep en acceptAll dropIt message (svc, ()) = Inr ((svc', ()), out)"
  by (auto simp: listenStep_def acceptAll_def rbind_eq_Inr)

text \<open>The text that is recorded for a datagram, and the recording of a datagram of the multicast.\<close>

definition wireText :: "endian \<Rightarrow> byte list \<Rightarrow> string" where
  "wireText en b =
     (let message = received b [] []
      in case rbind (getMessageType en message) (messageText en message) of Inr t \<Rightarrow> t | Inl e \<Rightarrow> [])"

fun packetText :: "packet \<Rightarrow> string" where
  "packetText (PData m) = showDataMessage m"
| "packetText (PAck m) = showAckMessage m"
| "packetText (PSeq m) = showSeqMessage m"
| "packetText (PSeqAck m) = showSeqAckMessage m"

lemma messageText_wire:
  assumes "typed k"
  shows "messageText en (received (wire k) junk from) (messageTypeOf (packet_type k)) = Inr (packetText k)"
proof (cases k)
  case (PData d)
  with assms show ?thesis using messageText_data by simp
next
  case (PAck a)
  have "deserializeAckMessage en (received (wire k) junk from) = Inr a"
    by (rule ack_codec.deser_image)
      (simp_all add: wire_def take_received MAX_BUFFER_SIZE_def PAck lab1_codec_defs)
  with PAck assms show ?thesis by (simp add: messageText_def)
next
  case (PSeq m)
  have "deserializeSeqMessage en (received (wire k) junk from) = Inr m"
    by (rule seq_codec.deser_image)
      (simp_all add: wire_def take_received MAX_BUFFER_SIZE_def PSeq lab1_codec_defs)
  with PSeq assms show ?thesis by (simp add: messageText_def)
next
  case (PSeqAck m)
  have "deserializeSeqAckMessage en (received (wire k) junk from) = Inr m"
    by (rule seqAck_codec.deser_image)
      (simp_all add: wire_def take_received MAX_BUFFER_SIZE_def PSeqAck lab1_codec_defs)
  with PSeqAck assms show ?thesis by (simp add: messageText_def)
qed

lemma wireText_packet: "typed k \<Longrightarrow> wireText en (wire k) = packetText k"
  by (simp add: wireText_def getMessageType_wire messageText_wire)

lemma showMessageType_wire: "typed k \<Longrightarrow> \<exists>t. showMessageType (messageTypeOf (packet_type k)) = Inr t"
  by (cases k) simp_all

lemma recordIncoming_wire:
  assumes "typed k" and "parseHostnameFromSender from = p"
    and "channelsToBeRecorded svc \<subseteq> dom (incomingChannels svc)"
  shows "recordIncomingMessages en (received (wire k) junk from) svc = Inr
    (if p \<in> channelsToBeRecorded svc
     then svc\<lparr>incomingChannels := (incomingChannels svc)
       (p \<mapsto> \<lparr>messages = messages (the (incomingChannels svc p)) @ [wireText en (wire k)]\<rparr>)\<rparr>
     else svc)"
proof -
  have p: "getParsedSender (received (wire k) junk from) = p"
    using assms(2) by (simp add: getParsedSender_def)
  show ?thesis
  proof (cases "p \<in> channelsToBeRecorded svc")
    case True
    then obtain st where st: "incomingChannels svc p = Some st" using assms(3) by auto
    obtain t where "showMessageType (messageTypeOf (packet_type k)) = Inr t"
      using showMessageType_wire [OF assms(1)] by blast
    with True st p show ?thesis
      by (cases st) (simp add: recordIncomingMessages_def recordMessage_def getMessageType_wire
          messageText_wire [OF assms(1)] wireText_packet [OF assms(1)])
  next
    case False
    with p show ?thesis by (simp add: recordIncomingMessages_def)
  qed
qed

section \<open>The system\<close>

text \<open>
  What main sets up: the snapshot service records the channels from all other hosts.
\<close>

definition startSnapshotService :: "hostname list \<Rightarrow> hostname \<Rightarrow> SnapshotService res" where
  "startSnapshotService hostnames currentHostname =
     rbind (getProcessIdentifier hostnames currentHostname) (\<lambda>currentProcessIdentifier.
       Inr (newSnapshotService currentProcessIdentifier
         (getPeerContainerHostnames hostnames currentHostname)))"

text \<open>
  What a local snapshot cuts through: the state of the multicast service that is printed and, as
  history, the datagrams sent, read and handled so far and the sender of the datagram that the receiving
  loop has passed to the callback but not handled yet. The state of the service has the effects of the
  datagrams handled, not of the one between callback and handling.
\<close>

record localCut =
  c_node :: MulticastService
  c_sent :: "hostname \<Rightarrow> byte list list"
  c_read :: "hostname \<Rightarrow> byte list list"
  c_handled :: "hostname \<Rightarrow> byte list list"
  c_hand :: "hostname option"

datatype mainPoint = SendingMessages | FlagSet | SnapshotTaken

text \<open>
  \<open>hand q\<close> is the message between the callback and its handling (it still heads its channel in
  \<open>base\<close>); \<open>outbox q\<close> the markers that \<open>takeSnapshot\<close> of \<open>q\<close> still has to send, which it does under
  the lock of the channels; \<open>flagLock q\<close> tells that a marker thread holds the lock of
  \<open>snapshotInitiated\<close> meanwhile. \<open>flight p q\<close> are the markers on the way, with the number of datagrams
  that \<open>q\<close> has not read yet and that \<open>p\<close> sent before the marker. \<open>accepted q\<close> are the senders of the
  markers read so far, \<open>handling q\<close> those whose threads have not erased the channel yet. \<open>sentTo\<close>,
  \<open>readFrom\<close>, \<open>handledFrom\<close> and \<open>cutAt\<close> are history.
\<close>

record snapSys =
  base :: sys
  snaps :: "hostname \<Rightarrow> SnapshotService"
  hand :: "hostname \<Rightarrow> (hostname \<times> Message) option"
  mainAt :: "hostname \<Rightarrow> mainPoint"
  outbox :: "hostname \<Rightarrow> markers"
  flagLock :: "hostname \<Rightarrow> bool"
  flight :: "hostname \<Rightarrow> hostname \<Rightarrow> (nat \<times> byte list) list"
  accepted :: "hostname \<Rightarrow> hostname list"
  handling :: "hostname \<Rightarrow> hostname list"
  sentTo :: "hostname \<Rightarrow> hostname \<Rightarrow> byte list list"
  readFrom :: "hostname \<Rightarrow> hostname \<Rightarrow> byte list list"
  handledFrom :: "hostname \<Rightarrow> hostname \<Rightarrow> byte list list"
  cutAt :: "hostname \<Rightarrow> localCut option"

definition initSnapSys :: "hostname list \<Rightarrow> snapSys" where
  "initSnapSys hosts =
     \<lparr>base = initSys hosts, snaps = (\<lambda>h. projr (startSnapshotService hosts h)), hand = (\<lambda>_. None),
      mainAt = (\<lambda>_. SendingMessages), outbox = (\<lambda>_. []), flagLock = (\<lambda>_. False),
      flight = (\<lambda>_ _. []), accepted = (\<lambda>_. []), handling = (\<lambda>_. []), sentTo = (\<lambda>_ _. []),
      readFrom = (\<lambda>_ _. []), handledFrom = (\<lambda>_ _. []), cutAt = (\<lambda>_. None)\<rparr>"

definition inHand :: "snapSys \<Rightarrow> hostname \<Rightarrow> hostname \<Rightarrow> bool" where
  "inHand s p q \<longleftrightarrow> map_option fst (hand s q) = Some p"

definition unread :: "snapSys \<Rightarrow> hostname \<Rightarrow> hostname \<Rightarrow> byte list list" where
  "unread s p q = (if inHand s p q then tl (chan (base s) p q) else chan (base s) p q)"

definition recordCut :: "hostname \<Rightarrow> snapSys \<Rightarrow> snapSys" where
  "recordCut q s = s\<lparr>cutAt := (cutAt s)(q \<mapsto>
     \<lparr>c_node = nodes (base s) q, c_sent = sentTo s q, c_read = readFrom s q,
      c_handled = handledFrom s q, c_hand = map_option fst (hand s q)\<rparr>)\<rparr>"

definition setFlight ::
  "hostname \<Rightarrow> hostname \<Rightarrow> (nat \<times> byte list) list \<Rightarrow> snapSys \<Rightarrow> snapSys" where
  "setFlight p q ms s = s\<lparr>flight := (flight s)(p := (flight s p)(q := ms))\<rparr>"

definition afterSend :: "hostname \<Rightarrow> MulticastService \<Rightarrow> (hostname \<Rightarrow> byte list list) \<Rightarrow> sys \<Rightarrow> sys" where
  "afterSend p svc out s = (setNode p svc s)\<lparr>chan := transmit p out (chan s)\<rparr>"

text \<open>
  What the environment guarantees beyond the program. \<open>inOrder\<close>: a marker and the datagrams of one
  process arrive, and their threads finish, in the order in which they were sent; \<open>quiet\<close>: no
  datagram is sent while markers are being sent; \<open>reliable\<close>: no datagram is lost or duplicated on the
  way. The code ensures none of the three. If datagrams need not arrive in order, \<open>overtakes\<close> tells
  which may overtake which; with \<open>anyOrder\<close> and without the guarantees every behaviour is allowed.
\<close>

record discipline =
  inOrder :: bool
  quiet :: bool
  reliable :: bool
  overtakes :: overtaking

definition mayOvertake :: "discipline \<Rightarrow> overtaking" where
  "mayOvertake D c b \<longleftrightarrow> \<not> inOrder D \<and> overtakes D c b"

inductive sstep ::
  "hostname list \<Rightarrow> (hostname \<Rightarrow> endian) \<Rightarrow> hostname set \<Rightarrow> discipline \<Rightarrow> snapSys \<Rightarrow> snapSys \<Rightarrow> bool"
  for hosts en initiators D where
  ss_multicast: "p \<in> set hosts \<Longrightarrow>
    sstep hosts en initiators D s (s\<lparr>base :=
      (setNode p (multicast (en p) data (nodes (base s) p)) (base s))\<lparr>casts := (casts (base s))
        (p := casts (base s) p @ [fst (createDataMessage data (nodes (base s) p))])\<rparr>\<rparr>)"
| ss_dataThread: "p \<in> set hosts \<Longrightarrow> quiet D \<longrightarrow> outbox s p = [] \<Longrightarrow>
    senderStep (dataMsgSender (nodes (base s) p)) = Some (Inr (ds, out, interval)) \<Longrightarrow>
    sstep hosts en initiators D s
      (s\<lparr>base := afterSend p ((nodes (base s) p)\<lparr>dataMsgSender := ds\<rparr>) out (base s),
         sentTo := transmit p out (sentTo s)\<rparr>)"
| ss_seqThread: "p \<in> set hosts \<Longrightarrow> quiet D \<longrightarrow> outbox s p = [] \<Longrightarrow>
    senderStep (seqMsgSender (nodes (base s) p)) = Some (Inr (qs, out, interval)) \<Longrightarrow>
    sstep hosts en initiators D s
      (s\<lparr>base := afterSend p ((nodes (base s) p)\<lparr>seqMsgSender := qs\<rparr>) out (base s),
         sentTo := transmit p out (sentTo s)\<rparr>)"
| ss_read: "p \<in> set hosts \<Longrightarrow> q \<in> set hosts \<Longrightarrow> hand s q = None \<Longrightarrow> outbox s q = [] \<Longrightarrow>
    unread s p q = b # rest \<Longrightarrow> parseHostnameFromSender from = p \<Longrightarrow>
    inOrder D \<longrightarrow> p \<notin> set (handling s q) \<and> (\<forall>m \<in> set (flight s p q). 0 < fst m) \<Longrightarrow>
    recordIncomingMessages (en q) (received b junk from) (snaps s q) = Inr svc \<Longrightarrow>
    sstep hosts en initiators D s
      (setFlight p q (map (\<lambda>(k, m). (k - 1, m)) (flight s p q))
        (s\<lparr>snaps := (snaps s)(q := svc), hand := (hand s)(q \<mapsto> (p, received b junk from)),
           readFrom := (readFrom s)(q := (readFrom s q)(p := readFrom s q p @ [b]))\<rparr>))"
| ss_handle: "q \<in> set hosts \<Longrightarrow> hand s q = Some (p, message) \<Longrightarrow> chan (base s) p q = b # rest \<Longrightarrow>
    quiet D \<longrightarrow> outbox s q = [] \<Longrightarrow>
    listenStep (en q) acceptAll dropIt message (nodes (base s) q, ()) = Inr ((svc, ()), out) \<Longrightarrow>
    sstep hosts en initiators D s
      (s\<lparr>base := afterReceive p q rest svc out (base s), hand := (hand s)(q := None),
         sentTo := transmit q (outTo out) (sentTo s),
         handledFrom := (handledFrom s)(q := (handledFrom s q)(p := handledFrom s q p @ [b]))\<rparr>)"
| ss_lose: "\<not> reliable D \<Longrightarrow> p \<in> set hosts \<Longrightarrow> q \<in> set hosts \<Longrightarrow>
    chan (base s) p q = hs @ bs @ b # cs \<Longrightarrow> length hs = (if inHand s p q then 1 else 0) \<Longrightarrow>
    sstep hosts en initiators D s
      (setFlight p q (map (\<lambda>(k, m). (if length bs < k then k - 1 else k, m)) (flight s p q))
        (s\<lparr>base := setChan p q (hs @ bs @ cs) (base s)\<rparr>))"
| ss_duplicate: "\<not> reliable D \<Longrightarrow> p \<in> set hosts \<Longrightarrow> q \<in> set hosts \<Longrightarrow>
    chan (base s) p q = hs @ bs @ b # cs \<Longrightarrow> length hs = (if inHand s p q then 1 else 0) \<Longrightarrow>
    sstep hosts en initiators D s
      (setFlight p q (map (\<lambda>(k, m). (if length bs < k then k + 1 else k, m)) (flight s p q))
        (s\<lparr>base := setChan p q (hs @ bs @ b # b # cs) (base s)\<rparr>))"
| ss_overtake: "mayOvertake D c b \<Longrightarrow> p \<in> set hosts \<Longrightarrow> q \<in> set hosts \<Longrightarrow>
    chan (base s) p q = hs @ bs @ b # c # cs \<Longrightarrow> length hs = (if inHand s p q then 1 else 0) \<Longrightarrow>
    sstep hosts en initiators D s (s\<lparr>base := setChan p q (hs @ bs @ c # b # cs) (base s)\<rparr>)"
| ss_initiate: "q \<in> set hosts \<Longrightarrow> q \<in> initiators \<Longrightarrow> mainAt s q = SendingMessages \<Longrightarrow> \<not> flagLock s q \<Longrightarrow>
    sstep hosts en initiators D s
      (s\<lparr>snaps := (snaps s)(q := markInitiated (snaps s q)), mainAt := (mainAt s)(q := FlagSet)\<rparr>)"
| ss_takeSnapshot: "q \<in> set hosts \<Longrightarrow> mainAt s q = FlagSet \<Longrightarrow> outbox s q = [] \<Longrightarrow>
    enumerates pr (nodes (base s) q) \<Longrightarrow> getCurrentState pr (nodes (base s) q) = Inr stateNow \<Longrightarrow>
    takeSnapshot (en q) stateNow (snaps s q) = (svc, ms) \<Longrightarrow>
    sstep hosts en initiators D s
      ((recordCut q s)\<lparr>snaps := (snaps s)(q := svc), mainAt := (mainAt s)(q := SnapshotTaken),
         outbox := (outbox s)(q := ms)\<rparr>)"
| ss_sendMarker: "p \<in> set hosts \<Longrightarrow> outbox s p = (q, m) # ms \<Longrightarrow>
    sstep hosts en initiators D s
      (setFlight p q (flight s p q @ [(length (unread s p q), m)])
        (s\<lparr>outbox := (outbox s)(p := ms), flagLock := (flagLock s)(p := flagLock s p \<and> ms \<noteq> [])\<rparr>))"
| ss_marker: "p \<in> set hosts \<Longrightarrow> q \<in> set hosts \<Longrightarrow> flight s p q = ms @ (k, m) # ms' \<Longrightarrow>
    inOrder D \<longrightarrow> k = 0 \<Longrightarrow> length (accepted s q) < length (allPeers (snaps s q)) \<Longrightarrow>
    \<not> flagLock s q \<Longrightarrow> snapshotInitiated (snaps s q) \<or> outbox s q = [] \<Longrightarrow>
    parseHostnameFromSender from = p \<Longrightarrow> enumerates pr (nodes (base s) q) \<Longrightarrow>
    getCurrentState pr (nodes (base s) q) = Inr stateNow \<Longrightarrow>
    markerReceived (en q) (received m junk from) stateNow (snaps s q) = Inr (svc, out) \<Longrightarrow>
    sstep hosts en initiators D s
      (setFlight p q (ms @ ms')
        ((if snapshotInitiated (snaps s q) then s else recordCut q s)
          \<lparr>snaps := (snaps s)(q := svc), outbox := (outbox s)(q := outbox s q @ out),
           flagLock := (flagLock s)(q := \<not> snapshotInitiated (snaps s q) \<and> out \<noteq> []),
           accepted := (accepted s)(q := accepted s q @ [p]),
           handling := (handling s)(q := handling s q @ [p])\<rparr>))"
| ss_markerDone: "q \<in> set hosts \<Longrightarrow> p \<in> set (handling s q) \<Longrightarrow> outbox s q = [] \<Longrightarrow>
    sstep hosts en initiators D s
      (s\<lparr>snaps := (snaps s)(q := stopRecording p (snaps s q)),
         handling := (handling s)(q := remove1 p (handling s q))\<rparr>)"

inductive sreach ::
  "hostname list \<Rightarrow> (hostname \<Rightarrow> endian) \<Rightarrow> hostname set \<Rightarrow> discipline \<Rightarrow> snapSys \<Rightarrow> bool"
  for hosts en initiators D where
  sr_init: "sreach hosts en initiators D (initSnapSys hosts)"
| sr_step: "sreach hosts en initiators D s \<Longrightarrow> sstep hosts en initiators D s t \<Longrightarrow>
    sreach hosts en initiators D t"

section \<open>The multicast is not disturbed\<close>

lemma transmit_apply: "transmit p out ch a b = ch a b @ (if a = p then out b else [])"
  by (simp add: transmit_def)

lemma afterSend_simps [simp]:
  "nodes (afterSend p svc out s) = (nodes s)(p := svc)"
  "casts (afterSend p svc out s) = casts s"
  "chan (afterSend p svc out s) a b = chan s a b @ (if a = p then out b else [])"
  by (simp_all add: afterSend_def setNode_def transmit_def)

lemma afterReceive_simps [simp]:
  "nodes (afterReceive p q rest svc out s) = (nodes s)(q := svc)"
  "casts (afterReceive p q rest svc out s) = casts s"
  "chan (afterReceive p q rest svc out s) a b =
     (if a = p \<and> b = q then rest else chan s a b) @ (if a = q then outTo out b else [])"
  by (auto simp: afterReceive_def setNode_def setChan_def transmit_def)

lemma setChan_simps [simp]:
  "nodes (setChan p q c s) = nodes s" "casts (setChan p q c s) = casts s"
  "chan (setChan p q c s) a b = (if a = p \<and> b = q then c else chan s a b)"
  by (simp_all add: setChan_def)

lemma setNode_simps [simp]:
  "nodes (setNode p svc s) = (nodes s)(p := svc)" "casts (setNode p svc s) = casts s"
  "chan (setNode p svc s) = chan s"
  by (simp_all add: setNode_def)

lemma setFlight_simps [simp]:
  "base (setFlight p q ms s) = base s" "snaps (setFlight p q ms s) = snaps s"
  "hand (setFlight p q ms s) = hand s" "mainAt (setFlight p q ms s) = mainAt s"
  "outbox (setFlight p q ms s) = outbox s" "flagLock (setFlight p q ms s) = flagLock s"
  "accepted (setFlight p q ms s) = accepted s" "handling (setFlight p q ms s) = handling s"
  "sentTo (setFlight p q ms s) = sentTo s" "readFrom (setFlight p q ms s) = readFrom s"
  "handledFrom (setFlight p q ms s) = handledFrom s"
  "cutAt (setFlight p q ms s) = cutAt s"
  "flight (setFlight p q ms s) a b = (if a = p \<and> b = q then ms else flight s a b)"
  by (simp_all add: setFlight_def)

lemma recordCut_simps [simp]:
  "base (recordCut q s) = base s" "snaps (recordCut q s) = snaps s"
  "hand (recordCut q s) = hand s" "mainAt (recordCut q s) = mainAt s"
  "outbox (recordCut q s) = outbox s" "flagLock (recordCut q s) = flagLock s"
  "accepted (recordCut q s) = accepted s" "handling (recordCut q s) = handling s"
  "sentTo (recordCut q s) = sentTo s" "readFrom (recordCut q s) = readFrom s"
  "handledFrom (recordCut q s) = handledFrom s"
  "flight (recordCut q s) = flight s"
  "cutAt (recordCut q s) = (cutAt s)(q \<mapsto> \<lparr>c_node = nodes (base s) q, c_sent = sentTo s q,
     c_read = readFrom s q, c_handled = handledFrom s q, c_hand = map_option fst (hand s q)\<rparr>)"
  by (simp_all add: recordCut_def)

text \<open>The message between callback and handling is the one at the head of its channel.\<close>

definition receiptOf :: "byte list \<Rightarrow> Message \<Rightarrow> bool" where
  "receiptOf b message \<longleftrightarrow> (\<exists>junk from. message = received b junk from)"

lemma receiptOf_received [simp]: "receiptOf b (received b junk from)"
  by (auto simp: receiptOf_def)

definition handInv :: "hostname list \<Rightarrow> snapSys \<Rightarrow> bool" where
  "handInv hosts s \<longleftrightarrow> (\<forall>q p message. hand s q = Some (p, message) \<longrightarrow> p \<in> set hosts \<and>
     (\<exists>b rest. chan (base s) p q = b # rest \<and> receiptOf b message))"

lemma handInvD:
  assumes "handInv hosts s" and "hand s q = Some (p, message)"
  shows "p \<in> set hosts" and "\<exists>b rest. chan (base s) p q = b # rest \<and> receiptOf b message"
  using assms by (auto simp: handInv_def)

lemma sstep_hand:
  assumes "sstep hosts en initiators D s t" and "handInv hosts s"
  shows "handInv hosts t"
  using assms
proof cases
  case (ss_read p q b rest "from" junk svc)
  have c: "chan (base s) p q = b # rest" using ss_read(4,6) by (simp add: unread_def inHand_def)
  show ?thesis
    unfolding handInv_def
  proof (intro allI impI)
    fix q' p' message assume h: "hand t q' = Some (p', message)"
    show "p' \<in> set hosts \<and> (\<exists>b rest. chan (base t) p' q' = b # rest \<and> receiptOf b message)"
    proof (cases "q' = q")
      case True
      with h ss_read(1,2) c show ?thesis by auto
    next
      case False
      with h ss_read(1) assms(2) show ?thesis by (simp add: handInv_def)
    qed
  qed
next
  case (ss_handle q p message b rest dropIt svc out)
  show ?thesis
    unfolding handInv_def
  proof (intro allI impI)
    fix q' p' message' assume h: "hand t q' = Some (p', message')"
    then have "q' \<noteq> q" "hand s q' = Some (p', message')" using ss_handle(1) by (auto split: if_splits)
    then show "p' \<in> set hosts \<and> (\<exists>b rest. chan (base t) p' q' = b # rest \<and> receiptOf b message')"
      using handInvD [OF assms(2), of q' p' message'] ss_handle(1) by auto
  qed
next
  case (ss_lose p q hs bs b cs)
  show ?thesis
    unfolding handInv_def
  proof (intro allI impI)
    fix q' p' message assume h: "hand t q' = Some (p', message)"
    then obtain b' rest where o: "p' \<in> set hosts" "chan (base s) p' q' = b' # rest"
      "receiptOf b' message" using handInvD [OF assms(2), of q' p' message] ss_lose(1) by auto
    show "p' \<in> set hosts \<and> (\<exists>b rest. chan (base t) p' q' = b # rest \<and> receiptOf b message)"
      using o h ss_lose(1,5,6) by (cases hs) (auto simp: inHand_def)
  qed
next
  case (ss_duplicate p q hs bs b cs)
  show ?thesis
    unfolding handInv_def
  proof (intro allI impI)
    fix q' p' message assume h: "hand t q' = Some (p', message)"
    then obtain b' rest where o: "p' \<in> set hosts" "chan (base s) p' q' = b' # rest"
      "receiptOf b' message" using handInvD [OF assms(2), of q' p' message] ss_duplicate(1) by auto
    show "p' \<in> set hosts \<and> (\<exists>b rest. chan (base t) p' q' = b # rest \<and> receiptOf b message)"
      using o h ss_duplicate(1,5,6) by (cases hs) (auto simp: inHand_def)
  qed
next
  case (ss_overtake c b p q hs bs cs)
  show ?thesis
    unfolding handInv_def
  proof (intro allI impI)
    fix q' p' message assume h: "hand t q' = Some (p', message)"
    then obtain b' rest where o: "p' \<in> set hosts" "chan (base s) p' q' = b' # rest"
      "receiptOf b' message" using handInvD [OF assms(2), of q' p' message] ss_overtake(1) by auto
    show "p' \<in> set hosts \<and> (\<exists>b rest. chan (base t) p' q' = b # rest \<and> receiptOf b message)"
      using o h ss_overtake(1,5,6) by (cases hs) (auto simp: inHand_def)
  qed
qed (fastforce simp: handInv_def)+

text \<open>Every step is a step of the multicast or leaves it alone.\<close>

lemma sstep_mstep:
  assumes "sstep hosts en initiators D s t" and "handInv hosts s"
  shows "base t = base s \<or> mstep hosts en (mayOvertake D) (base s) (base t)"
  using assms(1)
proof cases
  case (ss_multicast p data)
  then show ?thesis using ms_multicast [of p hosts en "mayOvertake D" "base s" data] by simp
next
  case (ss_dataThread p ds out interval)
  then show ?thesis using ms_dataThread [of p hosts "base s" ds out interval en] by (simp add: afterSend_def)
next
  case (ss_seqThread p qs out interval)
  then show ?thesis using ms_seqThread [of p hosts "base s" qs out interval en] by (simp add: afterSend_def)
next
  case (ss_handle q p message b rest dropIt svc out)
  obtain junk "from" where "p \<in> set hosts" "message = received b junk from"
    using handInvD [OF assms(2) ss_handle(3)] ss_handle(4) by (auto simp: receiptOf_def)
  with ss_handle show ?thesis
    using ms_receive [of p hosts q "base s" b rest en dropIt junk "from" svc out] by (simp add: afterReceive_def)
next
  case (ss_lose p q hs bs b cs)
  then show ?thesis using ms_lose [of p hosts q "base s" "hs @ bs" b cs en] by simp
next
  case (ss_duplicate p q hs bs b cs)
  then show ?thesis using ms_duplicate [of p hosts q "base s" "hs @ bs" b cs en] by simp
next
  case (ss_overtake c b p q hs bs cs)
  then show ?thesis using ms_overtake [of p hosts q "base s" "hs @ bs" b c cs "mayOvertake D" en] by simp
qed simp_all

lemma sreach_mreach:
  "sreach hosts en initiators D s \<Longrightarrow> mreach hosts en (mayOvertake D) (base s) \<and> handInv hosts s"
proof (induction rule: sreach.induct)
  case sr_init
  show ?case using mr_init [of hosts en "mayOvertake D"] by (simp add: initSnapSys_def handInv_def)
next
  case (sr_step s t)
  then show ?case using sstep_mstep [OF sr_step(2)] sstep_hand [OF sr_step(2)] mr_step by metis
qed

text \<open>The receiving loop does not look at the name of the sender.\<close>

lemma listenStep_sender:
  "listenStep en acceptAll dropIt (received b junk from) (svc, ()) =
   listenStep en acceptAll dropIt (received b junk from') (svc, ())"
proof -
  have "dispatch en ty (received b junk from) svc = dispatch en ty (received b junk from') svc" for ty
    by (cases ty) (simp_all add: dispatch_def deserializeDataMsg_def deserializeAckMessage_def
        deserializeSeqMessage_def deserializeSeqAckMessage_def received_def)
  then show ?thesis
    by (simp add: listenStep_def acceptAll_def getMessageType_def getTypeWord_def received_def cong: if_cong)
qed

text \<open>States of the system in which no snapshot has been started and no message is in hand.\<close>

definition noSnapshot :: "snapSys \<Rightarrow> bool" where
  "noSnapshot s \<longleftrightarrow> (\<forall>q. hand s q = None \<and> outbox s q = [] \<and> handling s q = [] \<and> (\<forall>p. flight s p q = []))"

definition noRecording :: "hostname list \<Rightarrow> snapSys \<Rightarrow> bool" where
  "noRecording hosts s \<longleftrightarrow> (\<forall>q \<in> set hosts. channelsToBeRecorded (snaps s q) = {})"

lemma startSnapshotService_eq:
  assumes "distinct hosts" and "q \<in> set hosts"
  shows "startSnapshotService hosts q = Inr (newSnapshotService (hidOf hosts q) (getPeerContainerHostnames hosts q))"
proof -
  obtain i where i: "getProcessIdentifier hosts q = Inr i" using getProcessIdentifier_ex [OF assms] by blast
  then show ?thesis by (simp add: startSnapshotService_def hidOf_def)
qed

lemma mreach_sreach:
  assumes "mreach hosts en (mayOvertake D) u" and "distinct hosts" and "\<not> reliable D"
    and dots: "\<forall>h \<in> set hosts. CHR ''.'' \<notin> set h"
  shows "\<exists>s. sreach hosts en initiators D s \<and> base s = u \<and> noSnapshot s \<and> noRecording hosts s"
  using assms(1)
proof (induction rule: mreach.induct)
  case mr_init
  have "noSnapshot (initSnapSys hosts)" "noRecording hosts (initSnapSys hosts)"
    "base (initSnapSys hosts) = initSys hosts"
    by (simp_all add: noSnapshot_def noRecording_def initSnapSys_def startSnapshotService_eq [OF assms(2)]
        newSnapshotService_def)
  then show ?case using sr_init [of hosts en initiators D] by blast
next
  case (mr_step u v)
  then obtain s where s: "sreach hosts en initiators D s" "base s = u" "noSnapshot s" "noRecording hosts s" by blast
  have goal: "?case" if "sstep hosts en initiators D s t" "base t = v" "noSnapshot t" "noRecording hosts t" for t
    using that sr_step [OF s(1) that(1)] by blast
  have none: "hand s q = None" "outbox s q = []" "handling s q = []" "flight s p q = []" for p q
    using s(3) by (simp_all add: noSnapshot_def)
  note still = s noSnapshot_def noRecording_def none
  from mr_step(2) show ?case
  proof cases
    case (ms_multicast p data)
    then show ?thesis using goal [OF ss_multicast [OF ms_multicast(2), where data = data]] s(2-4)
      by (simp add: still)
  next
    case (ms_dataThread p ds out interval)
    then show ?thesis using goal [OF ss_dataThread [OF ms_dataThread(2), where ds = ds and out = out]] s(2-4)
      by (simp add: still afterSend_def)
  next
    case (ms_seqThread p qs out interval)
    then show ?thesis using goal [OF ss_seqThread [OF ms_seqThread(2), where qs = qs and out = out]] s(2-4)
      by (simp add: still afterSend_def)
  next
    case (ms_receive p q b rest dropIt junk "from" svc out)
    have p: "parseHostnameFromSender p = p"
      using dots ms_receive(2) by (auto simp: parseHostnameFromSender_def)
    have rec: "recordIncomingMessages (en q) (received b junk p) (snaps s q) = Inr (snaps s q)"
      using s(4) ms_receive(3) by (simp add: recordIncomingMessages_def noRecording_def)
    let ?s1 = "setFlight p q (map (\<lambda>(k, m). (k - 1, m)) (flight s p q))
        (s\<lparr>snaps := (snaps s)(q := snaps s q), hand := (hand s)(q \<mapsto> (p, received b junk p)),
           readFrom := (readFrom s)(q := (readFrom s q)(p := readFrom s q p @ [b]))\<rparr>)"
    have s1: "sstep hosts en initiators D s ?s1"
      by (rule ss_read [where b = b and rest = rest and junk = junk])
        (use ms_receive(2-4) s(2) none p rec in \<open>simp_all add: unread_def inHand_def\<close>)
    let ?t = "?s1\<lparr>base := afterReceive p q rest svc out (base ?s1), hand := (hand ?s1)(q := None),
         sentTo := transmit q (outTo out) (sentTo ?s1),
         handledFrom := (handledFrom ?s1)(q := (handledFrom ?s1 q)(p := handledFrom ?s1 q p @ [b]))\<rparr>"
    have l: "listenStep (en q) acceptAll dropIt (received b junk p) (nodes (base s) q, ()) = Inr ((svc, ()), out)"
      using ms_receive(5) s(2) listenStep_sender [of "en q" dropIt b junk p "nodes u q" "from"] by simp
    have t: "sstep hosts en initiators D ?s1 ?t"
      by (rule ss_handle [where message = "received b junk p" and b = b and dropIt = dropIt])
        (use ms_receive(2-4) s(2) none l in simp_all)
    have "base ?t = v" using ms_receive(1) s(2) by (simp add: afterReceive_def)
    moreover have "noSnapshot ?t" using none by (simp add: noSnapshot_def)
    moreover have "noRecording hosts ?t" using s(4) by (simp add: noRecording_def)
    ultimately show ?thesis using sr_step [OF sr_step [OF s(1) s1] t] by blast
  next
    case (ms_lose p q bs b cs)
    then show ?thesis
      using goal [OF ss_lose [OF assms(3) ms_lose(2,3), where hs = "[]" and bs = bs and b = b and cs = cs]] s(2-4)
      by (simp add: still inHand_def)
  next
    case (ms_duplicate p q bs b cs)
    then show ?thesis
      using goal [OF ss_duplicate [OF assms(3) ms_duplicate(2,3), where hs = "[]" and bs = bs and b = b and cs = cs]] s(2-4)
      by (simp add: still inHand_def)
  next
    case (ms_overtake p q bs b c cs)
    then show ?thesis
      using goal [OF ss_overtake [OF ms_overtake(5,2,3), where hs = "[]" and bs = bs and cs = cs]] s(2-4)
      by (simp add: still inHand_def)
  qed
qed

section \<open>The callback does not fault\<close>

lemma recordIncoming_frame:
  assumes "recordIncomingMessages en message svc = Inr svc'"
  shows "channelsToBeRecorded svc' = channelsToBeRecorded svc" and "allPeers svc' = allPeers svc"
    and "snapshotInitiated svc' = snapshotInitiated svc" and "localState svc' = localState svc"
    and "ss_senderId svc' = ss_senderId svc" and "dom (incomingChannels svc) \<subseteq> dom (incomingChannels svc')"
    and "c \<noteq> getParsedSender message \<or> c \<notin> channelsToBeRecorded svc \<Longrightarrow>
      incomingChannels svc' c = incomingChannels svc c"
  using assms by (auto simp: recordIncomingMessages_def Let_def rbind_eq_Inr split: if_splits)

lemma takeLocalSnapshot_effect:
  assumes "takeLocalSnapshot en stateNow channels svc = (svc', ms)"
  shows "localState svc' = stateNow" and "allPeers svc' = allPeers svc"
    and "channelsToBeRecorded svc' = channelsToBeRecorded svc \<union> set channels"
    and "incomingChannels svc' = (\<lambda>c. if c \<in> set channels then Some newIncomingChannelState else incomingChannels svc c)"
    and "ss_senderId svc' = ss_senderId svc" and "snapshotInitiated svc' = snapshotInitiated svc"
    and "ms = map (\<lambda>peer. (peer, markerBytes (ss_senderId svc))) (allPeers svc)"
  using assms
  by (auto simp: takeLocalSnapshot_def sendMarkerMessageToPeers_def Let_def createMarkerMessage_def
      marker_codec.ser_image markerBytes_def fieldsMarkerMessage_def)

lemma markerReceived_cases:
  assumes "markerReceived en msg stateNow svc = Inr (svc', out)"
  obtains (later) "snapshotInitiated svc" "svc' = svc" "out = []"
  | (first) channels svc1 where "\<not> snapshotInitiated svc"
      "remainingPeers (allPeers svc) (getParsedSender msg) = Inr channels"
      "takeLocalSnapshot en stateNow channels svc = (svc1, out)" "svc' = svc1\<lparr>snapshotInitiated := True\<rparr>"
proof (cases "snapshotInitiated svc")
  case True
  with assms show thesis by (intro later) (auto simp: markerReceived_def rbind_eq_Inr)
next
  case False
  with assms obtain channels where "remainingPeers (allPeers svc) (getParsedSender msg) = Inr channels"
    "Inr (case takeLocalSnapshot en stateNow channels svc of (svc1, ms) \<Rightarrow>
       (svc1\<lparr>snapshotInitiated := True\<rparr>, ms)) = Inr (svc', out)"
    by (auto simp: markerReceived_def rbind_eq_Inr Let_def split_beta)
  with False show thesis
    by (cases "takeLocalSnapshot en stateNow channels svc") (auto intro: first)
qed

definition recordingInv :: "hostname list \<Rightarrow> snapSys \<Rightarrow> bool" where
  "recordingInv hosts s \<longleftrightarrow>
     (\<forall>q \<in> set hosts. channelsToBeRecorded (snaps s q) \<subseteq> dom (incomingChannels (snaps s q)))"

lemma recordingInv_upd:
  assumes "recordingInv hosts s" and "snaps t = (snaps s)(q := svc)"
    and "channelsToBeRecorded svc \<subseteq> dom (incomingChannels svc)"
  shows "recordingInv hosts t"
  using assms by (simp add: recordingInv_def)

lemma sstep_recordingInv:
  assumes "sstep hosts en initiators D s t" and inv: "recordingInv hosts s"
  shows "recordingInv hosts t"
  using assms(1)
proof cases
  case (ss_read p q b rest "from" junk svc)
  then have "channelsToBeRecorded (snaps s q) \<subseteq> dom (incomingChannels (snaps s q))"
    using inv by (simp add: recordingInv_def)
  then have "channelsToBeRecorded svc \<subseteq> dom (incomingChannels svc)"
    using recordIncoming_frame(1,6) [OF ss_read(9)] by blast
  then show ?thesis by (intro recordingInv_upd [OF inv, of t q svc]) (simp_all add: ss_read(1))
next
  case (ss_initiate q)
  with inv have "channelsToBeRecorded (markInitiated (snaps s q)) \<subseteq> dom (incomingChannels (markInitiated (snaps s q)))"
    by (auto simp: recordingInv_def markInitiated_def)
  then show ?thesis by (rule recordingInv_upd [OF inv, rotated]) (simp add: ss_initiate(1))
next
  case (ss_takeSnapshot q pr stateNow svc ms)
  with inv have "channelsToBeRecorded svc \<subseteq> dom (incomingChannels svc)"
    using takeLocalSnapshot_effect(3,4) [of "en q" stateNow "allPeers (snaps s q)" "snaps s q" svc ms]
    by (fastforce simp: recordingInv_def takeSnapshot_def)
  then show ?thesis by (rule recordingInv_upd [OF inv, rotated]) (simp add: ss_takeSnapshot(1))
next
  case (ss_marker p q ms k m ms' "from" pr stateNow junk svc out)
  have old: "channelsToBeRecorded (snaps s q) \<subseteq> dom (incomingChannels (snaps s q))"
    using inv ss_marker(3) by (simp add: recordingInv_def)
  from ss_marker(12) have "channelsToBeRecorded svc \<subseteq> dom (incomingChannels svc)"
  proof (cases rule: markerReceived_cases)
    case (first channels svc1)
    then show ?thesis using old takeLocalSnapshot_effect(3,4) [OF first(3)] by fastforce
  qed (use old in simp)
  then show ?thesis by (rule recordingInv_upd [OF inv, rotated]) (simp add: ss_marker(1))
next
  case (ss_markerDone q p)
  with inv have "channelsToBeRecorded (stopRecording p (snaps s q)) \<subseteq> dom (incomingChannels (stopRecording p (snaps s q)))"
    by (auto simp: recordingInv_def stopRecording_def)
  then show ?thesis by (rule recordingInv_upd [OF inv, rotated]) (simp add: ss_markerDone(1))
qed (use inv in \<open>auto simp: recordingInv_def\<close>)

lemma sreach_recordingInv:
  "sreach hosts en initiators D s \<Longrightarrow> distinct hosts \<Longrightarrow> recordingInv hosts s"
proof (induction rule: sreach.induct)
  case sr_init
  then show ?case
    by (simp add: recordingInv_def initSnapSys_def startSnapshotService_eq newSnapshotService_def)
qed (rule sstep_recordingInv)

lemma chan_typed:
  assumes "valid_hosts hosts" and "mreach hosts en ov u" and "dataFirst ov" and "smallRun hosts u"
    and "p \<in> set hosts" and "q \<in> set hosts" and "b \<in> set (chan u p q)"
  obtains k where "b = wire k" and "typed k"
proof -
  obtain pc where pc: "refines hosts u pc" "isisInv (set hosts) (hidOf hosts) (absSys u pc)"
    using reach_facts [OF assms(1-4)] by metis
  from pc(1) assms(7) obtain k where k: "k \<in> set (pc p q)" "b = wire k" by (auto simp: refines_def)
  have "packetOk (set hosts) (hidOf hosts) (absSys u pc) p q k"
    using isisInv_chan [OF pc(2)] k(1) assms(5,6) by (auto simp: chanInv_def)
  then have "typed k" using packetOk_typed [of "set hosts" "hidOf hosts"] pc(2) assms(5,6)
    by (auto simp: isisInv_def)
  with k(2) show thesis by (rule that)
qed

text \<open>
  C20: the receiving loop with the callback of main. If no copy of a data message arrives behind its
  sequence message and the sequence numbers do not overflow, then in a reachable state of both services
  the next datagram of any channel is recorded, if its channel is, and handled without a fault, whatever
  the drop decision and the rest of the buffer.
\<close>

theorem callback_does_not_fault:
  assumes "valid_hosts hosts" and "sreach hosts en initiators D s" and "dataFirst (mayOvertake D)"
    and "smallRun hosts (base s)" and "p \<in> set hosts" and "q \<in> set hosts" and "chan (base s) p q = b # rest"
    and "parseHostnameFromSender from = p"
  shows "\<exists>svc snap out. listenStep (en q) (recordIncomingMessages (en q)) dropIt (received b junk from)
    (nodes (base s) q, snaps s q) = Inr ((svc, snap), out)"
proof -
  have r: "mreach hosts en (mayOvertake D) (base s)" using sreach_mreach [OF assms(2)] by simp
  obtain k where k: "b = wire k" "typed k"
    using chan_typed [OF assms(1) r assms(3-6)] assms(7) by auto
  have "recordingInv hosts s"
    using sreach_recordingInv [OF assms(2)] assms(1) by (simp add: valid_hosts_def)
  then obtain snap where "recordIncomingMessages (en q) (received b junk from) (snaps s q) = Inr snap"
    using recordIncoming_wire [OF k(2) assms(8)] assms(6) by (auto simp: k(1) recordingInv_def)
  moreover obtain svc out where "listenStep (en q) acceptAll dropIt (received b junk from)
      (nodes (base s) q, ()) = Inr ((svc, ()), out)"
    using next_received [OF assms(1) r assms(3-7)] by blast
  ultimately show ?thesis by (intro exI) (rule listenStep_split [THEN iffD2, OF conjI])
qed

end
