(* ===== verification/SnapshotCut.thy ===== *)
theory SnapshotCut
  imports SnapshotSystem
begin

text \<open>
  The course of the snapshot algorithm in the system of \<open>SnapshotSystem\<close> with one initiator: invariants
  of the flags, the markers, the marker threads, the recorded channels and the stored local states.
  They need no guarantee about the order of messages.
\<close>

section \<open>The course of the algorithm\<close>

text \<open>The initiator's main thread; no other process takes its snapshot before.\<close>

definition mainInv :: "hostname \<Rightarrow> snapSys \<Rightarrow> bool" where
  "mainInv i s \<longleftrightarrow> (\<forall>q. q \<noteq> i \<longrightarrow> mainAt s q = SendingMessages) \<and>
     (cutAt s i \<noteq> None \<longleftrightarrow> mainAt s i = SnapshotTaken) \<and> (\<forall>q. cutAt s q \<noteq> None \<longrightarrow> mainAt s i = SnapshotTaken)"

definition hostInv :: "hostname list \<Rightarrow> snapSys \<Rightarrow> hostname \<Rightarrow> bool" where
  "hostInv hosts s q \<longleftrightarrow> allPeers (snaps s q) = getPeerContainerHostnames hosts q \<and>
     ss_senderId (snaps s q) = hidOf hosts q \<and>
     (snapshotInitiated (snaps s q) \<longleftrightarrow> cutAt s q \<noteq> None \<or> mainAt s q = FlagSet) \<and>
     (cutAt s q = None \<longrightarrow> outbox s q = [] \<and> accepted s q = [] \<and> handling s q = [] \<and>
        channelsToBeRecorded (snaps s q) = {} \<and> incomingChannels (snaps s q) = Map.empty) \<and>
     set (handling s q) \<subseteq> set (accepted s q) \<and> distinct (handling s q) \<and> set (accepted s q) \<subseteq> set hosts \<and>
     (\<forall>m \<in> set (outbox s q). fst m \<in> set hosts) \<and> (flagLock s q \<longrightarrow> outbox s q \<noteq> [])"

text \<open>Every marker is waiting to be sent, on the way or accepted: exactly one for every ordered pair.\<close>

definition markersBetween :: "snapSys \<Rightarrow> hostname \<Rightarrow> hostname \<Rightarrow> nat" where
  "markersBetween s p q = count_list (map fst (outbox s p)) q + length (flight s p q) + count_list (accepted s q) p"

definition pairInv :: "hostname list \<Rightarrow> snapSys \<Rightarrow> hostname \<Rightarrow> hostname \<Rightarrow> bool" where
  "pairInv hosts s p q \<longleftrightarrow> markersBetween s p q = (if p \<noteq> q \<and> cutAt s p \<noteq> None then 1 else 0) \<and>
     (\<forall>m \<in> set (outbox s p). snd m = markerBytes (hidOf hosts p)) \<and>
     (\<forall>m \<in> set (flight s p q). snd m = markerBytes (hidOf hosts p))"

definition ctlInv :: "hostname list \<Rightarrow> hostname \<Rightarrow> snapSys \<Rightarrow> bool" where
  "ctlInv hosts i s \<longleftrightarrow> mainInv i s \<and> (\<forall>q \<in> set hosts. hostInv hosts s q) \<and>
     (\<forall>p \<in> set hosts. \<forall>q \<in> set hosts. pairInv hosts s p q)"

lemma ctlInvD:
  assumes "ctlInv hosts i s"
  shows "mainInv i s" and "q \<in> set hosts \<Longrightarrow> hostInv hosts s q"
    and "p \<in> set hosts \<Longrightarrow> q \<in> set hosts \<Longrightarrow> pairInv hosts s p q"
  using assms by (simp_all add: ctlInv_def)

text \<open>Steps of the multicast do not touch any of this.\<close>

lemma ctlInv_frame:
  assumes "ctlInv hosts i s"
    and eq: "mainAt t = mainAt s" "cutAt t = cutAt s" "outbox t = outbox s" "flagLock t = flagLock s"
      "accepted t = accepted s" "handling t = handling s"
    and fl: "\<And>p q. map snd (flight t p q) = map snd (flight s p q)"
    and sn: "\<And>q. allPeers (snaps t q) = allPeers (snaps s q)"
      "\<And>q. ss_senderId (snaps t q) = ss_senderId (snaps s q)"
      "\<And>q. snapshotInitiated (snaps t q) = snapshotInitiated (snaps s q)"
      "\<And>q. channelsToBeRecorded (snaps t q) = channelsToBeRecorded (snaps s q)"
      "\<And>q. channelsToBeRecorded (snaps s q) = {} \<Longrightarrow> incomingChannels (snaps t q) = incomingChannels (snaps s q)"
  shows "ctlInv hosts i t"
proof -
  have len: "length (flight t p q) = length (flight s p q)" for p q
    using arg_cong [OF fl [of p q], of length] by simp
  have snds: "(\<forall>m \<in> set (flight t p q). snd m = x) \<longleftrightarrow> (\<forall>m \<in> set (flight s p q). snd m = x)" for p q x
  proof -
    have "(\<forall>m \<in> set ms. snd m = x) \<longleftrightarrow> (\<forall>y \<in> set (map snd ms). y = x)" for ms :: "(nat \<times> byte list) list" by simp
    then show ?thesis by (simp only: fl)
  qed
  have "hostInv hosts t q" if "hostInv hosts s q" for q
    using that sn(5) [of q] by (simp add: hostInv_def eq sn(1-4))
  moreover have "pairInv hosts t p q" if "pairInv hosts s p q" for p q
    using that by (simp add: pairInv_def markersBetween_def eq len snds)
  ultimately show ?thesis using assms(1) by (simp add: ctlInv_def mainInv_def eq)
qed

lemma ctlInv_init:
  assumes "distinct hosts"
  shows "ctlInv hosts i (initSnapSys hosts)"
  using assms
  by (simp add: ctlInv_def mainInv_def hostInv_def pairInv_def markersBetween_def initSnapSys_def
      startSnapshotService_eq newSnapshotService_def)

lemma pairInv_upd:
  assumes "pairInv hosts s p q"
    and "cutAt t p = cutAt s p" and "outbox t p = outbox s p" and "accepted t q = accepted s q"
    and "flight t p q = flight s p q"
  shows "pairInv hosts t p q"
  using assms by (simp add: pairInv_def markersBetween_def)

lemma hostInv_upd:
  assumes "hostInv hosts s q"
    and "cutAt t q = cutAt s q" and "outbox t q = outbox s q" and "accepted t q = accepted s q"
    and "handling t q = handling s q" and "mainAt t q = mainAt s q" and "snaps t q = snaps s q"
    and "flagLock t q = flagLock s q"
  shows "hostInv hosts t q"
  using assms by (simp add: hostInv_def)

lemma peers_simps:
  "set (getPeerContainerHostnames hosts q) = set hosts - {q}"
  "distinct hosts \<Longrightarrow> distinct (getPeerContainerHostnames hosts q)"
  by (auto simp: getPeerContainerHostnames_def)

lemma count_list_distinct: "distinct xs \<Longrightarrow> count_list xs x = (if x \<in> set xs then 1 else 0)"
  by (induction xs) auto

lemma count_peers:
  "distinct hosts \<Longrightarrow> count_list (getPeerContainerHostnames hosts q) p = (if p \<in> set hosts \<and> p \<noteq> q then 1 else 0)"
  by (auto simp: getPeerContainerHostnames_def count_list_distinct)

text \<open>A process that takes its local snapshot owes a marker to every other process.\<close>

lemma pairInv_cut:
  assumes "distinct hosts" and p: "p \<in> set hosts" and q: "q \<in> set hosts" and "pairInv hosts s p q"
    and "cutAt s p = None" and "hostInv hosts s p"
    and "outbox t p = map (\<lambda>h. (h, markerBytes (hidOf hosts p))) (getPeerContainerHostnames hosts p)"
    and "cutAt t p \<noteq> None" and "accepted t q = accepted s q" and "flight t p q = flight s p q"
  shows "pairInv hosts t p q"
  using assms by (auto simp: pairInv_def markersBetween_def count_peers o_def)

lemma length_filter_neq: "distinct xs \<Longrightarrow> x \<in> set xs \<Longrightarrow> length (filter (\<lambda>y. y \<noteq> x) xs) = length xs - 1"
proof (induction xs)
  case (Cons a xs)
  show ?case
  proof (cases "a = x")
    case True
    with Cons.prems(1) have "filter (\<lambda>y. y \<noteq> x) xs = xs" by (auto simp: filter_id_conv)
    with True show ?thesis by simp
  next
    case False
    with Cons have "xs \<noteq> []" "length (filter (\<lambda>y. y \<noteq> x) xs) = length xs - 1" by auto
    with False show ?thesis by (cases xs) simp_all
  qed
qed simp

lemma remainingPeers_peers:
  assumes "distinct hosts" and "p \<in> set hosts" and "p \<noteq> q"
    and "remainingPeers (getPeerContainerHostnames hosts q) p = Inr channels"
  shows "set channels = set hosts - {q, p}"
proof -
  let ?peers = "getPeerContainerHostnames hosts q"
  have "p \<in> set ?peers" using assms(2,3) by (simp add: peers_simps)
  then have "length (filter (\<lambda>h. h \<noteq> p) ?peers) = length ?peers - 1"
    by (rule length_filter_neq [OF peers_simps(2) [OF assms(1)]])
  with assms(4) have "channels = filter (\<lambda>h. h \<noteq> p) ?peers"
    by (simp add: remainingPeers_def Let_def split: if_splits)
  then show ?thesis by (auto simp: peers_simps)
qed

lemma ctlInv_initiate:
  assumes inv: "ctlInv hosts i s" and "mainAt s i = SendingMessages"
    and t: "t = s\<lparr>snaps := (snaps s)(i := markInitiated (snaps s i)), mainAt := (mainAt s)(i := FlagSet)\<rparr>"
  shows "ctlInv hosts i t"
proof -
  have "mainInv i t" using ctlInvD(1) [OF inv] assms(2) by (auto simp: t mainInv_def)
  moreover have "hostInv hosts t q" if "q \<in> set hosts" for q
  proof (cases "q = i")
    case True
    then show ?thesis using ctlInvD(2) [OF inv that] by (auto simp: t hostInv_def markInitiated_def)
  next
    case False
    then show ?thesis by (intro hostInv_upd [OF ctlInvD(2) [OF inv that]]) (simp_all add: t)
  qed
  moreover have "pairInv hosts t p q" if "p \<in> set hosts" "q \<in> set hosts" for p q
    by (intro pairInv_upd [OF ctlInvD(3) [OF inv that]]) (simp_all add: t)
  ultimately show ?thesis by (simp add: ctlInv_def)
qed

lemma ctlInv_takeSnapshot:
  assumes inv: "ctlInv hosts i s" and "distinct hosts" and q: "q \<in> set hosts" and "mainAt s q = FlagSet"
    and snap: "takeSnapshot en stateNow (snaps s q) = (svc, ms)"
    and t: "t = (recordCut q s)\<lparr>snaps := (snaps s)(q := svc), mainAt := (mainAt s)(q := SnapshotTaken),
         outbox := (outbox s)(q := ms)\<rparr>"
  shows "ctlInv hosts i t"
proof -
  note main = ctlInvD(1) [OF inv] and host = ctlInvD(2) [OF inv] and pair = ctlInvD(3) [OF inv]
  have qi: "q = i" using main assms(4) unfolding mainInv_def by (metis mainPoint.distinct(1))
  with main assms(4) have i: "q = i" "cutAt s q = None" by (simp_all add: mainInv_def)
  note e = takeLocalSnapshot_effect [OF snap [unfolded takeSnapshot_def]]
  have ms: "ms = map (\<lambda>h. (h, markerBytes (hidOf hosts q))) (getPeerContainerHostnames hosts q)"
    using e(7) host [OF q] by (simp add: hostInv_def)
  have "mainInv i t" using main i by (auto simp: t mainInv_def)
  moreover have "hostInv hosts t h" if "h \<in> set hosts" for h
  proof (cases "h = q")
    case True
    have "\<forall>m \<in> set ms. fst m \<in> set hosts" by (auto simp: ms peers_simps)
    moreover have "\<not> flagLock s q" using host [OF q] i(2) by (auto simp: hostInv_def)
    ultimately show ?thesis using True host [OF q] e(2,5,6) i(2) assms(4) by (simp add: t hostInv_def)
  next
    case False
    then show ?thesis by (intro hostInv_upd [OF host [OF that]]) (simp_all add: t)
  qed
  moreover have "pairInv hosts t p h" if "p \<in> set hosts" "h \<in> set hosts" for p h
  proof (cases "p = q")
    case True
    show ?thesis unfolding True
      by (rule pairInv_cut [OF assms(2) q that(2) pair [OF q that(2)] i(2) host [OF q]]) (simp_all add: t ms)
  next
    case False
    then show ?thesis by (intro pairInv_upd [OF pair [OF that]]) (simp_all add: t)
  qed
  ultimately show ?thesis by (simp add: ctlInv_def)
qed

lemma ctlInv_sendMarker:
  assumes inv: "ctlInv hosts i s" and p: "p \<in> set hosts" and out: "outbox s p = (q, m) # ms"
    and t: "t = setFlight p q (flight s p q @ [(k, m)])
        (s\<lparr>outbox := (outbox s)(p := ms), flagLock := (flagLock s)(p := flagLock s p \<and> ms \<noteq> [])\<rparr>)"
  shows "ctlInv hosts i t"
proof -
  note main = ctlInvD(1) [OF inv] and host = ctlInvD(2) [OF inv] and pair = ctlInvD(3) [OF inv]
  have "mainInv i t" using main by (simp add: t mainInv_def)
  moreover have "hostInv hosts t h" if "h \<in> set hosts" for h
    using host [OF that] out by (auto simp: t hostInv_def)
  moreover have "pairInv hosts t a h" if "a \<in> set hosts" "h \<in> set hosts" for a h
    using pair [OF that] out by (auto simp: t pairInv_def markersBetween_def split: if_splits)
  ultimately show ?thesis by (simp add: ctlInv_def)
qed

lemma ctlInv_markerDone:
  assumes inv: "ctlInv hosts i s"
    and t: "t = s\<lparr>snaps := (snaps s)(q := stopRecording p (snaps s q)),
         handling := (handling s)(q := remove1 p (handling s q))\<rparr>"
  shows "ctlInv hosts i t"
proof -
  note main = ctlInvD(1) [OF inv] and host = ctlInvD(2) [OF inv] and pair = ctlInvD(3) [OF inv]
  have "mainInv i t" using main by (simp add: t mainInv_def)
  moreover have "hostInv hosts t h" if "h \<in> set hosts" for h
    using host [OF that] set_remove1_subset [of p "handling s q"] by (auto simp: t hostInv_def stopRecording_def)
  moreover have "pairInv hosts t a h" if "a \<in> set hosts" "h \<in> set hosts" for a h
    by (intro pairInv_upd [OF pair [OF that]]) (simp_all add: t)
  ultimately show ?thesis by (simp add: ctlInv_def)
qed

text \<open>A marker thread: the first marker makes a process take its snapshot, the others only end a recording.\<close>

lemma ctlInv_marker:
  assumes inv: "ctlInv hosts i s" and "distinct hosts" and p: "p \<in> set hosts" and q: "q \<in> set hosts"
    and fl: "flight s p q = ms @ (k, m) # ms'" and "parseHostnameFromSender from = p"
    and rec: "markerReceived en (received m junk from) stateNow (snaps s q) = Inr (svc, out)"
    and t: "t = setFlight p q (ms @ ms')
        ((if snapshotInitiated (snaps s q) then s else recordCut q s)
          \<lparr>snaps := (snaps s)(q := svc), outbox := (outbox s)(q := outbox s q @ out),
           flagLock := (flagLock s)(q := \<not> snapshotInitiated (snaps s q) \<and> out \<noteq> []),
           accepted := (accepted s)(q := accepted s q @ [p]),
           handling := (handling s)(q := handling s q @ [p])\<rparr>)"
  shows "ctlInv hosts i t"
proof -
  note main = ctlInvD(1) [OF inv] and host = ctlInvD(2) [OF inv] and pair = ctlInvD(3) [OF inv]
  have pq: "p \<noteq> q" "cutAt s p \<noteq> None" and count: "flight s p q = [(k, m)]" "ms = []" "ms' = []"
    "count_list (accepted s q) p = 0" "count_list (map fst (outbox s p)) q = 0"
    using pair [OF p q] by (auto simp: pairInv_def markersBetween_def fl split: if_splits)
  then have new: "p \<notin> set (accepted s q)" by (simp add: count_list_0_iff)
  have cp: "mainAt s i = SnapshotTaken" "cutAt s i \<noteq> None" using main pq(2) by (auto simp: mainInv_def)
  show ?thesis
    using rec
  proof (cases rule: markerReceived_cases)
    case later
    have "mainInv i t" using main later by (simp add: t mainInv_def)
    moreover have "hostInv hosts t h" if "h \<in> set hosts" for h
    proof (cases "h = q")
      case True
      then have "cutAt s q \<noteq> None" using host [OF q] main cp later(1) by (auto simp: hostInv_def mainInv_def)
      then show ?thesis using host [OF q] later new p True by (auto simp: t hostInv_def)
    next
      case False
      then show ?thesis using later by (intro hostInv_upd [OF host [OF that]]) (simp_all add: t)
    qed
    moreover have "pairInv hosts t a h" if "a \<in> set hosts" "h \<in> set hosts" for a h
      using pair [OF that] later count by (auto simp: t pairInv_def markersBetween_def split: if_splits)
    ultimately show ?thesis by (simp add: ctlInv_def)
  next
    case (first channels svc1)
    have none: "cutAt s q = None" "outbox s q = []" "accepted s q = []" "handling s q = []"
      using host [OF q] first(1) by (auto simp: hostInv_def)
    have qi: "q \<noteq> i" using none(1) cp(2) by auto
    note e = takeLocalSnapshot_effect [OF first(3)]
    have out: "out = map (\<lambda>h. (h, markerBytes (hidOf hosts q))) (getPeerContainerHostnames hosts q)"
      using e(7) host [OF q] by (simp add: hostInv_def)
    have "mainInv i t" using main first(1) qi cp by (simp add: t mainInv_def)
    moreover have "hostInv hosts t h" if "h \<in> set hosts" for h
    proof (cases "h = q")
      case True
      have "\<forall>m \<in> set out. fst m \<in> set hosts" by (auto simp: out peers_simps)
      then show ?thesis using True host [OF q] e(2,5) first(1,4) none p by (simp add: t hostInv_def)
    next
      case False
      then show ?thesis using first(1) by (intro hostInv_upd [OF host [OF that]]) (simp_all add: t)
    qed
    moreover have "pairInv hosts t a h" if "a \<in> set hosts" "h \<in> set hosts" for a h
    proof (cases "a = q")
      case True
      have "(a, h) \<noteq> (p, q)" using True pq by auto
      then have "flight t q h = flight s q h" "accepted t h = (if h = q then [p] else accepted s h)"
        using first(1) none pq True by (auto simp: t)
      show ?thesis unfolding True
      proof (cases "h = q")
        case True
        then show "pairInv hosts t q h"
          using pair [OF q q] pq none
          by (auto simp: t pairInv_def markersBetween_def first(1) out count_peers assms(2) o_def)
      next
        case False
        then show "pairInv hosts t q h"
          by (intro pairInv_cut [OF assms(2) q that(2) pair [OF q that(2)] none(1) host [OF q]])
            (use pq none in \<open>simp_all add: t first(1) out\<close>)
      qed
    next
      case False
      then show ?thesis
        using pair [OF that] count pq none by (auto simp: t pairInv_def markersBetween_def first(1) split: if_splits)
    qed
    ultimately show ?thesis by (simp add: ctlInv_def)
  qed
qed

lemma sstep_ctlInv:
  assumes "sstep hosts en {i} D s t" and inv: "ctlInv hosts i s" and d: "distinct hosts"
  shows "ctlInv hosts i t"
  using assms(1)
proof cases
  case (ss_read p q b rest "from" junk svc)
  note f = recordIncoming_frame [OF ss_read(9)]
  show ?thesis
  proof (rule ctlInv_frame [OF inv])
    fix h show "channelsToBeRecorded (snaps s h) = {} \<Longrightarrow> incomingChannels (snaps t h) = incomingChannels (snaps s h)"
      using f(7) by (auto simp: ss_read(1) fun_eq_iff)
  qed (simp_all add: ss_read(1) f split_beta)
next
  case (ss_initiate q)
  then show ?thesis by (intro ctlInv_initiate [OF inv]) simp_all
next
  case ss_takeSnapshot
  then show ?thesis by (intro ctlInv_takeSnapshot [OF inv d])
next
  case ss_sendMarker
  then show ?thesis by (intro ctlInv_sendMarker [OF inv])
next
  case ss_marker
  then show ?thesis by (intro ctlInv_marker [OF inv d])
next
  case ss_markerDone
  then show ?thesis by (intro ctlInv_markerDone [OF inv])
qed (intro ctlInv_frame [OF inv]; simp add: split_beta)+

lemma sreach_ctlInv:
  "sreach hosts en {i} D s \<Longrightarrow> distinct hosts \<Longrightarrow> ctlInv hosts i s"
  by (induction rule: sreach.induct) (auto intro: ctlInv_init sstep_ctlInv)

section \<open>What a local snapshot contains\<close>

text \<open>
  A process that has taken its snapshot stores the state it had then; it has recorded every incoming
  channel but that of its first marker, and records those whose marker threads have not finished.
\<close>

definition cutInv :: "hostname list \<Rightarrow> hostname \<Rightarrow> snapSys \<Rightarrow> hostname \<Rightarrow> bool" where
  "cutInv hosts i s q \<longleftrightarrow> (\<forall>cq. cutAt s q = Some cq \<longrightarrow>
     (\<exists>pr. enumerates pr (c_node cq) \<and> getCurrentState pr (c_node cq) = Inr (localState (snaps s q))) \<and>
     (q \<noteq> i \<longrightarrow> accepted s q \<noteq> []) \<and>
     dom (incomingChannels (snaps s q)) = set hosts - {q} - (if q = i then {} else {hd (accepted s q)}) \<and>
     channelsToBeRecorded (snaps s q) =
       dom (incomingChannels (snaps s q)) - (set (accepted s q) - set (handling s q)))"

lemma cutInv_frame:
  assumes "cutInv hosts i s q" and "cutAt t q = cutAt s q" and "accepted t q = accepted s q"
    and "handling t q = handling s q" and "localState (snaps t q) = localState (snaps s q)"
    and "dom (incomingChannels (snaps t q)) = dom (incomingChannels (snaps s q))"
    and "channelsToBeRecorded (snaps t q) = channelsToBeRecorded (snaps s q)"
  shows "cutInv hosts i t q"
  using assms by (simp add: cutInv_def)

lemma recordIncoming_dom:
  "recordIncomingMessages en message svc = Inr svc' \<Longrightarrow> dom (incomingChannels svc') = dom (incomingChannels svc)"
  by (auto simp: recordIncomingMessages_def Let_def rbind_eq_Inr map_at_eq_Inr split: if_splits)

lemma dom_newChannels:
  "dom (\<lambda>c. if c \<in> A then Some x else None) = A"
  by (auto split: if_splits)

lemma cutInv_frame_all:
  assumes "\<forall>h \<in> set hosts. cutInv hosts i s h" and "\<And>q. cutAt t q = cutAt s q"
    and "\<And>q. accepted t q = accepted s q" and "\<And>q. handling t q = handling s q"
    and "\<And>q. localState (snaps t q) = localState (snaps s q)"
    and "\<And>q. dom (incomingChannels (snaps t q)) = dom (incomingChannels (snaps s q))"
    and "\<And>q. channelsToBeRecorded (snaps t q) = channelsToBeRecorded (snaps s q)"
  shows "\<forall>h \<in> set hosts. cutInv hosts i t h"
  using assms(1) cutInv_frame [OF _ assms(2-7)] by blast

lemma cutInv_takeSnapshot:
  assumes ctl: "ctlInv hosts i s" and inv: "\<forall>h \<in> set hosts. cutInv hosts i s h"
    and i: "i \<in> set hosts" and "mainAt s i = FlagSet"
    and state: "enumerates pr (nodes (base s) i)" "getCurrentState pr (nodes (base s) i) = Inr stateNow"
    and snap: "takeSnapshot en stateNow (snaps s i) = (svc, ms)"
    and t: "t = (recordCut i s)\<lparr>snaps := (snaps s)(i := svc), mainAt := (mainAt s)(i := SnapshotTaken),
         outbox := (outbox s)(i := ms)\<rparr>"
  shows "\<forall>h \<in> set hosts. cutInv hosts i t h"
proof
  fix h assume h: "h \<in> set hosts"
  have host: "hostInv hosts s i" and main: "mainInv i s" using ctlInvD [OF ctl] i by simp_all
  have none: "cutAt s i = None" using main assms(4) by (simp add: mainInv_def)
  note e = takeLocalSnapshot_effect [OF snap [unfolded takeSnapshot_def]]
  show "cutInv hosts i t h"
  proof (cases "h = i")
    case True
    have peers: "set (allPeers (snaps s i)) = set hosts - {i}" using host by (simp add: hostInv_def peers_simps)
    have empty: "accepted s i = []" "channelsToBeRecorded (snaps s i) = {}" "incomingChannels (snaps s i) = Map.empty"
      using host none by (simp_all add: hostInv_def)
    have "incomingChannels svc = (\<lambda>c. if c \<in> set hosts - {i} then Some newIncomingChannelState else None)"
      unfolding e(4) empty(3) peers ..
    then have d: "dom (incomingChannels svc) = set hosts - {i}" by (simp only: dom_newChannels)
    have "\<exists>pr. enumerates pr (nodes (base s) i) \<and> getCurrentState pr (nodes (base s) i) = Inr (localState svc)" using state e(1) by auto
    moreover have "channelsToBeRecorded svc = set hosts - {i}" using e(3) by (simp add: empty peers)
    ultimately show ?thesis unfolding True by (simp add: t cutInv_def d empty)
  next
    case False
    then show ?thesis using inv h by - (rule cutInv_frame [of hosts i s h], simp_all add: t)
  qed
qed

lemma cutInv_marker:
  assumes ctl: "ctlInv hosts i s" and inv: "\<forall>h \<in> set hosts. cutInv hosts i s h" and "distinct hosts"
    and p: "p \<in> set hosts" and q: "q \<in> set hosts"
    and fl: "flight s p q = ms @ (k, m) # ms'" and "from": "parseHostnameFromSender from = p"
    and state: "enumerates pr (nodes (base s) q)" "getCurrentState pr (nodes (base s) q) = Inr stateNow"
    and rec: "markerReceived en (received m junk from) stateNow (snaps s q) = Inr (svc, out)"
    and t: "t = setFlight p q (ms @ ms')
        ((if snapshotInitiated (snaps s q) then s else recordCut q s)
          \<lparr>snaps := (snaps s)(q := svc), outbox := (outbox s)(q := outbox s q @ out),
           flagLock := (flagLock s)(q := \<not> snapshotInitiated (snaps s q) \<and> out \<noteq> []),
           accepted := (accepted s)(q := accepted s q @ [p]),
           handling := (handling s)(q := handling s q @ [p])\<rparr>)"
  shows "\<forall>h \<in> set hosts. cutInv hosts i t h"
proof
  fix h assume h: "h \<in> set hosts"
  note main = ctlInvD(1) [OF ctl] and host = ctlInvD(2) [OF ctl] and pair = ctlInvD(3) [OF ctl]
  have pq: "p \<noteq> q" "cutAt s p \<noteq> None" and "count_list (accepted s q) p = 0"
    using pair [OF p q] by (auto simp: pairInv_def markersBetween_def fl split: if_splits)
  then have new: "p \<notin> set (accepted s q)" by (simp add: count_list_0_iff)
  have cp: "mainAt s i = SnapshotTaken" "cutAt s i \<noteq> None" using main pq(2) by (auto simp: mainInv_def)
  show "cutInv hosts i t h"
  proof (cases "h = q")
    case True
    show ?thesis
      using rec
    proof (cases rule: markerReceived_cases)
      case later
      have "mainAt s q \<noteq> FlagSet" using main cp(1) unfolding mainInv_def by (metis mainPoint.distinct(1,5))
      then obtain cq where c: "cutAt s q = Some cq" using host [OF q] later(1) by (auto simp: hostInv_def)
      have "set (handling s q) \<subseteq> set (accepted s q)" using host [OF q] by (simp add: hostInv_def)
      then have "set (accepted s q) \<union> {p} - (set (handling s q) \<union> {p}) = set (accepted s q) - set (handling s q)"
        using new by auto
      then show ?thesis using inv q c True later by (auto simp: t cutInv_def hd_append)
    next
      case (first channels svc1)
      have none: "cutAt s q = None" "accepted s q = []" "handling s q = []"
        "channelsToBeRecorded (snaps s q) = {}" "incomingChannels (snaps s q) = Map.empty"
        using host [OF q] first(1) by (auto simp: hostInv_def)
      have qi: "q \<noteq> i" using none(1) cp(2) by auto
      note e = takeLocalSnapshot_effect [OF first(3)]
      have ch: "set channels = set hosts - {q, p}"
        using remainingPeers_peers [OF assms(3) p pq(1)] first(2) host [OF q] "from"
        by (simp add: hostInv_def getParsedSender_def)
      have "incomingChannels svc1 = (\<lambda>c. if c \<in> set hosts - {q, p} then Some newIncomingChannelState else None)"
        unfolding e(4) none(5) ch ..
      then have "incomingChannels svc = (\<lambda>c. if c \<in> set hosts - {q, p} then Some newIncomingChannelState else None)"
        by (simp add: first(4))
      then have d: "dom (incomingChannels svc) = set hosts - {q, p}" by (simp only: dom_newChannels)
      have "\<exists>pr. enumerates pr (nodes (base s) q) \<and> getCurrentState pr (nodes (base s) q) = Inr (localState svc)" using state e(1) first(4) by auto
      moreover have "channelsToBeRecorded svc = set hosts - {q, p}" using e(3) first(4) by (simp add: none(4) ch)
      moreover have "set hosts - {q, p} = set hosts - {q} - {p}" by auto
      ultimately show ?thesis using first(1) qi True by (simp add: t cutInv_def d none)
    qed
  next
    case False
    then show ?thesis using inv h by - (rule cutInv_frame [of hosts i s h], simp_all add: t)
  qed
qed

lemma sstep_cutInv:
  assumes "sstep hosts en {i} D s t" and ctl: "ctlInv hosts i s" and d: "distinct hosts"
    and inv: "\<forall>h \<in> set hosts. cutInv hosts i s h"
  shows "\<forall>h \<in> set hosts. cutInv hosts i t h"
  using assms(1)
proof cases
  case (ss_read p q b rest "from" junk svc)
  note f = recordIncoming_frame [OF ss_read(9)] recordIncoming_dom [OF ss_read(9)]
  show ?thesis
  proof
    fix h assume "h \<in> set hosts"
    then show "cutInv hosts i t h"
      using inv by - (rule cutInv_frame [of hosts i s h], simp_all add: ss_read(1) f)
  qed
next
  case (ss_takeSnapshot q pr stateNow svc ms)
  have "q = i" using ctlInvD(1) [OF ctl] ss_takeSnapshot(3) unfolding mainInv_def by (metis mainPoint.distinct(1))
  with ss_takeSnapshot show ?thesis by (intro cutInv_takeSnapshot [OF ctl inv, of pr stateNow "en i" svc ms]) simp_all
next
  case ss_marker
  then show ?thesis by (intro cutInv_marker [OF ctl inv d])
next
  case (ss_markerDone q p)
  show ?thesis
  proof
    fix h assume h: "h \<in> set hosts"
    show "cutInv hosts i t h"
    proof (cases "h = q")
      case True
      have "distinct (handling s q)" "set (handling s q) \<subseteq> set (accepted s q)"
        using ctlInvD(2) [OF ctl ss_markerDone(2)] by (simp_all add: hostInv_def)
      then have "A - (set (accepted s q) - set (remove1 p (handling s q))) =
          A - (set (accepted s q) - set (handling s q)) - {p}" for A
        using ss_markerDone(3) by auto
      then show ?thesis using inv h True
        by (simp add: ss_markerDone(1) cutInv_def stopRecording_def)
    next
      case False
      then show ?thesis using inv h by - (rule cutInv_frame [of hosts i s h], simp_all add: ss_markerDone(1))
    qed
  qed
qed (intro cutInv_frame_all [OF inv]; simp add: markInitiated_def)+

lemma sreach_cutInv:
  "sreach hosts en {i} D s \<Longrightarrow> distinct hosts \<Longrightarrow> q \<in> set hosts \<Longrightarrow> cutInv hosts i s q"
proof -
  assume "sreach hosts en {i} D s" and d: "distinct hosts" and q: "q \<in> set hosts"
  then have "\<forall>h \<in> set hosts. cutInv hosts i s h"
  proof (induction rule: sreach.induct)
    case sr_init
    then show ?case by (simp add: cutInv_def initSnapSys_def)
  next
    case (sr_step s t)
    then show ?case using sstep_cutInv sreach_ctlInv by blast
  qed
  with q show ?thesis by blast
qed

end
