(* ===== verification/SnapshotProgress.thy ===== *)
theory SnapshotProgress
  imports SnapshotCut
begin

text \<open>
  The snapshot algorithm completes. While a marker is under way or a marker thread has not finished,
  a step of the algorithm is possible; no step adds work to it and those steps take work off it; and
  when nothing is left to do, every process has its local state and has stopped to record.
\<close>

section \<open>The local state can be printed\<close>

definition tablesFinite :: "MulticastService \<Rightarrow> bool" where
  "tablesFinite svc \<longleftrightarrow> finite (dom (proposedSeqIdMap svc)) \<and> finite (dom (ackMessageCache svc))"

lemma tablesFinite_upd [simp]:
  "tablesFinite (svc\<lparr>dataMsgSender := a\<rparr>) = tablesFinite svc"
  "tablesFinite (svc\<lparr>seqMsgSender := b\<rparr>) = tablesFinite svc"
  "tablesFinite (svc\<lparr>latestSeqId := c\<rparr>) = tablesFinite svc"
  "tablesFinite (svc\<lparr>holdBackQueue := d\<rparr>) = tablesFinite svc"
  "tablesFinite (svc\<lparr>deliveredLog := e\<rparr>) = tablesFinite svc"
  "tablesFinite (svc\<lparr>msgId := f\<rparr>) = tablesFinite svc"
  by (simp_all add: tablesFinite_def)

lemma dispatch_tablesFinite:
  assumes "dispatch en ty message svc = Inr (svc', out)" and "tablesFinite svc"
  shows "tablesFinite svc'"
proof -
  have data: "tablesFinite svc'" if "processDataMsg en d svc = Inr (svc', out)" for d
    using that assms(2)
    by (auto simp: processDataMsg_def createOrGetAckMessage_def Let_def rbind_eq_Inr tablesFinite_def
        split: prod.splits if_splits)
  have ack: "tablesFinite svc'" if h: "processAckMsg en a svc = Inr (svc', out)" for a
  proof -
    obtain recipient where "map_at (recipientIdMap svc) (a_proposer a) = Inr recipient"
      using h unfolding processAckMsg_def by (rule rbind_eq_InrE)
    moreover obtain removed ds where
      "removeRecipient d_msg_id (a_msg_id a) recipient (dataMsgSender svc) = (removed, ds)"
      by (cases "removeRecipient d_msg_id (a_msg_id a) recipient (dataMsgSender svc)")
    ultimately show ?thesis
      using h assms(2) by (auto simp: processAckMsg_def Let_def rbind_eq_Inr tablesFinite_def split: if_splits)
  qed
  have seq: "tablesFinite svc'" if "processSeqMsg en m svc = Inr (svc', out)" for m
    using that assms(2)
    by (auto simp: processSeqMsg_def Let_def rbind_eq_Inr tablesFinite_def split: prod.splits if_splits)
  have seqAck: "tablesFinite svc'" if "processSeqAckMsg en m svc = Inr (svc', out)" for m
    using that assms(2) by (auto simp: processSeqAckMsg_def Let_def rbind_eq_Inr split_beta)
  show ?thesis
    using assms(1) by (auto simp: dispatch_def rbind_eq_Inr data ack seq seqAck split: MessageType.splits)
qed

lemma mreach_tablesFinite:
  assumes "mreach hosts en ov u" and "valid_hosts hosts"
  shows "\<forall>q \<in> set hosts. tablesFinite (nodes u q)"
  using assms(1)
proof (induction rule: mreach.induct)
  case mr_init
  show ?case
  proof
    fix q assume "q \<in> set hosts"
    then obtain i m where "startNode hosts q = Inr (newMulticastService i hosts m)"
      using getProcessIdentifier_ex [of hosts q] recipientIdMapOf_lookup [OF assms(2)] assms(2)
      by (auto simp: startNode_def valid_hosts_def)
    then show "tablesFinite (nodes (initSys hosts) q)"
      by (simp add: initSys_def newMulticastService_def tablesFinite_def)
  qed
next
  case (mr_step u v)
  from mr_step(2) show ?case
  proof cases
    case (ms_multicast p data)
    with mr_step(3) show ?thesis by (simp add: multicast_def createDataMessage_def Let_def)
  next
    case (ms_receive p q b rest dropIt junk "from" svc out)
    have "tablesFinite svc"
      using ms_receive(5) dispatch_tablesFinite mr_step(3) ms_receive(3)
      by (auto simp: listenStep_def acceptAll_def rbind_eq_Inr split: if_splits)
    with ms_receive(1) mr_step(3) show ?thesis by simp
  qed (use mr_step(3) in simp_all)
qed

lemma enumerates_ex:
  assumes "tablesFinite svc"
  shows "\<exists>pr. enumerates pr svc"
proof -
  obtain xs where "set xs = dom (proposedSeqIdMap svc)" "distinct xs"
    using assms finite_distinct_list [of "dom (proposedSeqIdMap svc)"] unfolding tablesFinite_def by blast
  moreover obtain ys where "set ys = dom (ackMessageCache svc)" "distinct ys"
    using assms finite_distinct_list [of "dom (ackMessageCache svc)"] unfolding tablesFinite_def by blast
  ultimately have "enumerates \<lparr>pr_dataName = [], pr_seqName = [], pr_dropRate = [], pr_messageDelay = 0,
      pr_recipients = (\<lambda>_. []), pr_msgIds = xs, pr_proposals = id, pr_acks = ys\<rparr> svc"
    by (simp add: enumerates_def)
  then show ?thesis ..
qed

lemma localState_ex:
  assumes "valid_hosts hosts" and "mreach hosts en ov u" and "q \<in> set hosts"
  shows "\<exists>pr stateNow. enumerates pr (nodes u q) \<and> getCurrentState pr (nodes u q) = Inr stateNow"
  using mreach_tablesFinite [OF assms(2,1)] enumerates_ex getCurrentState_total assms(3) by blast

section \<open>The work of the algorithm\<close>

text \<open>
  The work for the marker from \<open>p\<close> to \<open>q\<close>: the local snapshot of \<open>p\<close>, sending the marker, the first
  critical section of its thread and the second.
\<close>

definition pairWork :: "snapSys \<Rightarrow> hostname \<Rightarrow> hostname \<Rightarrow> nat" where
  "pairWork s p q =
     (if p = q then 0 else if cutAt s p = None then 4
      else 3 * count_list (map fst (outbox s p)) q + 2 * length (flight s p q) + count_list (handling s q) p)"

definition snapshotWork :: "hostname list \<Rightarrow> snapSys \<Rightarrow> nat" where
  "snapshotWork hosts s = (\<Sum>p \<in> set hosts. \<Sum>q \<in> set hosts. pairWork s p q)"

definition workLeft :: "hostname list \<Rightarrow> snapSys \<Rightarrow> bool" where
  "workLeft hosts s \<longleftrightarrow>
     (\<exists>p \<in> set hosts. outbox s p \<noteq> [] \<or> handling s p \<noteq> [] \<or> (\<exists>q \<in> set hosts. flight s p q \<noteq> []))"

lemma snapshotWork_less:
  assumes "\<And>p q. p \<in> set hosts \<Longrightarrow> q \<in> set hosts \<Longrightarrow> pairWork t p q \<le> pairWork s p q"
    and "p \<in> set hosts" and "q \<in> set hosts" and "pairWork t p q < pairWork s p q"
  shows "snapshotWork hosts t < snapshotWork hosts s"
  unfolding snapshotWork_def
proof (rule sum_strict_mono_ex1)
  show "\<forall>p \<in> set hosts. (\<Sum>q \<in> set hosts. pairWork t p q) \<le> (\<Sum>q \<in> set hosts. pairWork s p q)"
    using assms(1) by (auto intro: sum_mono)
  have "(\<Sum>q \<in> set hosts. pairWork t p q) < (\<Sum>q \<in> set hosts. pairWork s p q)"
    using assms by (intro sum_strict_mono_ex1) auto
  then show "\<exists>p \<in> set hosts. (\<Sum>q \<in> set hosts. pairWork t p q) < (\<Sum>q \<in> set hosts. pairWork s p q)"
    using assms(2) by blast
qed simp

lemma pairWork_flight:
  assumes "cutAt t = cutAt s" and "outbox t = outbox s" and "handling t = handling s"
    and "\<And>p q. length (flight t p q) = length (flight s p q)"
  shows "pairWork t p q = pairWork s p q"
  using assms by (simp add: pairWork_def)

lemma sstep_pairWork:
  assumes "sstep hosts en {i} D s t" and ctl: "ctlInv hosts i s" and d: "distinct hosts"
    and a: "a \<in> set hosts" and b: "b \<in> set hosts"
  shows "pairWork t a b \<le> pairWork s a b"
  using assms(1)
proof cases
  case (ss_takeSnapshot q pr stateNow svc ms)
  have host: "hostInv hosts s q" using ctlInvD(2) [OF ctl ss_takeSnapshot(2)] .
  have none: "cutAt s q = None" using ctlInvD(1) [OF ctl] ss_takeSnapshot(3) unfolding mainInv_def
    by (metis mainPoint.distinct(1,5))
  have "map fst ms = getPeerContainerHostnames hosts q"
    using takeLocalSnapshot_effect(7) [OF ss_takeSnapshot(7) [unfolded takeSnapshot_def]] host
    by (simp add: hostInv_def o_def)
  moreover have "flight s q b = []" "handling s b = handling t b" "count_list (handling s b) q = 0" if "q \<noteq> b"
    using ctlInvD(3) [OF ctl ss_takeSnapshot(2) b] ctlInvD(2) [OF ctl b] that none
    by (auto simp: ss_takeSnapshot(1) pairInv_def markersBetween_def hostInv_def count_list_0_iff)
  ultimately show ?thesis using none by (auto simp: ss_takeSnapshot(1) pairWork_def count_peers [OF d])
next
  case (ss_sendMarker p q m ms)
  then show ?thesis by (auto simp: pairWork_def)
next
  case (ss_marker p q ms k m ms' "from" pr stateNow junk svc out)
  have pq: "p \<noteq> q" "cutAt s p \<noteq> None" "flight s p q = [(k, m)]" "ms = []" "ms' = []"
    using ctlInvD(3) [OF ctl ss_marker(2,3)] by (auto simp: pairInv_def markersBetween_def ss_marker(4) split: if_splits)
  show ?thesis
    using ss_marker(12)
  proof (cases rule: markerReceived_cases)
    case later
    then show ?thesis using pq by (auto simp: ss_marker(1) pairWork_def)
  next
    case (first channels svc1)
    have host: "hostInv hosts s q" and none: "cutAt s q = None" "outbox s q = []"
      using ctlInvD(2) [OF ctl ss_marker(3)] first(1) by (auto simp: hostInv_def)
    have out: "map fst out = getPeerContainerHostnames hosts q"
      using takeLocalSnapshot_effect(7) [OF first(3)] host by (simp add: hostInv_def o_def)
    have "flight s q b = []" "count_list (handling s b) q = 0" if "q \<noteq> b"
      using ctlInvD(3) [OF ctl ss_marker(3) b] ctlInvD(2) [OF ctl b] that none
      by (auto simp: pairInv_def markersBetween_def hostInv_def count_list_0_iff)
    then show ?thesis using pq first(1) none out by (auto simp: ss_marker(1) pairWork_def count_peers [OF d])
  qed
next
  case (ss_markerDone q p)
  have "count_list (remove1 p (handling s q)) a \<le> count_list (handling s q) a"
    by (induction "handling s q" arbitrary: q) auto
  then show ?thesis by (auto simp: ss_markerDone(1) pairWork_def)
qed (intro eq_imp_le pairWork_flight; simp)+

section \<open>Progress\<close>

lemma sendMarker_less:
  assumes ctl: "ctlInv hosts i s" and "distinct hosts" and p: "p \<in> set hosts" and o: "outbox s p \<noteq> []"
  shows "\<exists>t. sstep hosts en {i} D s t \<and> snapshotWork hosts t < snapshotWork hosts s"
proof -
  obtain q m ms where out: "outbox s p = (q, m) # ms" using o by (cases "outbox s p") auto
  have q: "q \<in> set hosts" and cut: "cutAt s p \<noteq> None"
    using ctlInvD(2) [OF ctl p] out by (auto simp: hostInv_def)
  have "p \<noteq> q" using ctlInvD(3) [OF ctl p p] out by (auto simp: pairInv_def markersBetween_def)
  define t where "t = setFlight p q (flight s p q @ [(length (unread s p q), m)])
      (s\<lparr>outbox := (outbox s)(p := ms), flagLock := (flagLock s)(p := flagLock s p \<and> ms \<noteq> [])\<rparr>)"
  have step: "sstep hosts en {i} D s t" unfolding t_def by (rule ss_sendMarker [OF p out])
  moreover have "pairWork t p q < pairWork s p q" using \<open>p \<noteq> q\<close> cut out by (auto simp: t_def pairWork_def)
  ultimately show ?thesis using snapshotWork_less [OF sstep_pairWork [OF step ctl assms(2)] p q] by blast
qed

lemma markerDone_less:
  assumes ctl: "ctlInv hosts i s" and "distinct hosts" and q: "q \<in> set hosts" and h: "handling s q \<noteq> []"
    and o: "outbox s q = []"
  shows "\<exists>t. sstep hosts en {i} D s t \<and> snapshotWork hosts t < snapshotWork hosts s"
proof -
  obtain p where pq: "p \<in> set (handling s q)" using h by (cases "handling s q") auto
  then have p: "p \<in> set hosts" "count_list (accepted s q) p \<noteq> 0"
    using ctlInvD(2) [OF ctl q] by (auto simp: hostInv_def count_list_0_iff)
  then have cut: "p \<noteq> q" "cutAt s p \<noteq> None"
    using ctlInvD(3) [OF ctl p(1) q] by (auto simp: pairInv_def markersBetween_def split: if_splits)
  define t where "t = s\<lparr>snaps := (snaps s)(q := stopRecording p (snaps s q)),
      handling := (handling s)(q := remove1 p (handling s q))\<rparr>"
  have step: "sstep hosts en {i} D s t" unfolding t_def by (rule ss_markerDone [OF q pq o])
  have "distinct (handling s q)" using ctlInvD(2) [OF ctl q] by (simp add: hostInv_def)
  then have "pairWork t p q < pairWork s p q"
    using cut pq by (auto simp: t_def pairWork_def count_list_distinct)
  then show ?thesis using step snapshotWork_less [OF sstep_pairWork [OF step ctl assms(2)] p(1) q] by blast
qed

lemma marker_less:
  assumes ctl: "ctlInv hosts i s" and v: "valid_hosts hosts" and r: "mreach hosts en ov (base s)"
    and dots: "\<forall>h \<in> set hosts. CHR ''.'' \<notin> set h" and "\<not> inOrder D"
    and p: "p \<in> set hosts" and q: "q \<in> set hosts" and f: "flight s p q \<noteq> []"
    and o: "outbox s q = []"
  shows "\<exists>t. sstep hosts en {i} D s t \<and> snapshotWork hosts t < snapshotWork hosts s"
proof -
  have d: "distinct hosts" using v by (simp add: valid_hosts_def)
  note host = ctlInvD(2) [OF ctl q] and pair = ctlInvD(3) [OF ctl p q]
  obtain k m where fl: "flight s p q = [(k, m)]" and pq: "p \<noteq> q" "cutAt s p \<noteq> None"
    and new: "p \<notin> set (accepted s q)" and m: "m = markerBytes (hidOf hosts p)"
    using f pair by (cases "flight s p q") (auto simp: pairInv_def markersBetween_def count_list_0_iff split: if_splits)
  have count: "count_list (accepted s q) h = 0 \<or> count_list (accepted s q) h = 1 \<and> h \<noteq> q" if "h \<in> set hosts" for h
    using ctlInvD(3) [OF ctl that q] by (auto simp: pairInv_def markersBetween_def split: if_splits)
  have "set (accepted s q) \<subseteq> set hosts - {q, p}"
    using host new count [OF q] by (auto simp: hostInv_def count_list_0_iff)
  moreover have "length (accepted s q) = card (set (accepted s q))"
  proof -
    have "length (accepted s q) = (\<Sum>h \<in> set (accepted s q). count_list (accepted s q) h)"
      by (simp add: sum_count_set [of "accepted s q" "set (accepted s q)"])
    also have "\<dots> = (\<Sum>h \<in> set (accepted s q). 1)"
      using count host by (intro sum.cong) (auto simp: hostInv_def count_list_0_iff)
    finally show ?thesis by simp
  qed
  moreover have "length (allPeers (snaps s q)) = card (set hosts - {q})"
    using host peers_simps [of hosts q] distinct_card [OF peers_simps(2) [OF d, of q]] by (simp add: hostInv_def)
  moreover have "card (set hosts - {q, p}) < card (set hosts - {q})"
    using p pq by (intro psubset_card_mono) auto
  ultimately have room: "length (accepted s q) < length (allPeers (snaps s q))"
    using card_mono [of "set hosts - {q, p}" "set (accepted s q)"] by simp
  have lock: "\<not> flagLock s q" using host o by (auto simp: hostInv_def)
  have name: "parseHostnameFromSender p = p" using dots p by (auto simp: parseHostnameFromSender_def)
  obtain pr stateNow where st: "enumerates pr (nodes (base s) q)" "getCurrentState pr (nodes (base s) q) = Inr stateNow"
    using localState_ex [OF v r q] by blast
  have "\<exists>channels. remainingPeers (allPeers (snaps s q)) p = Inr channels"
    using host p pq length_filter_neq [OF peers_simps(2) [OF d], of p q] peers_simps(1) [of hosts q]
    by (auto simp: remainingPeers_def Let_def hostInv_def)
  then have "\<exists>svc out. markerReceived (en q) (received m [] p) stateNow (snaps s q) = Inr (svc, out)"
    by (auto simp: markerReceived_def m marker_wire getParsedSender_def name split_beta)
  then obtain svc out where rec: "markerReceived (en q) (received m [] p) stateNow (snaps s q) = Inr (svc, out)"
    by blast
  have fl': "flight s p q = [] @ (k, m) # []" and ordered: "inOrder D \<longrightarrow> k = 0"
    and free: "snapshotInitiated (snaps s q) \<or> outbox s q = []" using fl assms(5) o by simp_all
  let ?t = "setFlight p q ([] @ [])
      ((if snapshotInitiated (snaps s q) then s else recordCut q s)
        \<lparr>snaps := (snaps s)(q := svc), outbox := (outbox s)(q := outbox s q @ out),
         flagLock := (flagLock s)(q := \<not> snapshotInitiated (snaps s q) \<and> out \<noteq> []),
         accepted := (accepted s)(q := accepted s q @ [p]),
         handling := (handling s)(q := handling s q @ [p])\<rparr>)"
  have step: "sstep hosts en {i} D s ?t"
    by (rule ss_marker [of p hosts q s "[]" k m "[]" D p pr stateNow en "[]" svc out "{i}",
        OF p q fl' ordered room lock free name st rec])
  have "count_list (handling s q) p = 0" using host new by (auto simp: hostInv_def count_list_0_iff)
  then have "pairWork ?t p q < pairWork s p q" using pq fl by (auto simp: pairWork_def)
  then show ?thesis using step snapshotWork_less [OF sstep_pairWork [OF step ctl d] p q] by blast
qed

lemma snapshot_progress_aux:
  assumes "valid_hosts hosts" and "\<forall>h \<in> set hosts. CHR ''.'' \<notin> set h" and "\<not> inOrder D"
    and "sreach hosts en {i} D s" and "workLeft hosts s"
  shows "\<exists>t. sstep hosts en {i} D s t \<and> snapshotWork hosts t < snapshotWork hosts s"
proof -
  have d: "distinct hosts" using assms(1) by (simp add: valid_hosts_def)
  have ctl: "ctlInv hosts i s" using sreach_ctlInv [OF assms(4) d] .
  have r: "mreach hosts en (mayOvertake D) (base s)" using sreach_mreach [OF assms(4)] by simp
  show ?thesis
  proof (cases "\<exists>p \<in> set hosts. outbox s p \<noteq> []")
    case True
    then show ?thesis using sendMarker_less [OF ctl d] by blast
  next
    case False
    then show ?thesis
      using assms(5) markerDone_less [OF ctl d] marker_less [OF ctl assms(1) r assms(2,3)]
      unfolding workLeft_def by blast
  qed
qed

text \<open>
  C16: progress. With one initiator no step adds to the work of the snapshot, and while some is left
  a step is possible that takes some off: every marker is sent, accepted and done with, whatever the
  datagrams do.
\<close>

theorem snapshot_progress:
  assumes "valid_hosts hosts" and "\<forall>h \<in> set hosts. CHR ''.'' \<notin> set h" and "\<not> inOrder D"
    and "sreach hosts en {i} D s"
  shows "(\<forall>t. sstep hosts en {i} D s t \<longrightarrow> snapshotWork hosts t \<le> snapshotWork hosts s) \<and>
    (workLeft hosts s \<longrightarrow> (\<exists>t. sstep hosts en {i} D s t \<and> snapshotWork hosts t < snapshotWork hosts s))"
proof -
  have d: "distinct hosts" using assms(1) by (simp add: valid_hosts_def)
  have ctl: "ctlInv hosts i s" using sreach_ctlInv [OF assms(4) d] .
  have "snapshotWork hosts t \<le> snapshotWork hosts s" if "sstep hosts en {i} D s t" for t
    unfolding snapshotWork_def by (intro sum_mono sstep_pairWork [OF that ctl d])
  then show ?thesis using snapshot_progress_aux [OF assms] by blast
qed

section \<open>Completion\<close>

text \<open>
  C12: completion. When the initiator has taken its snapshot and no marker and no marker thread is
  left, every process has accepted one marker from each other process, which ends its \<open>start\<close>; it
  holds the state of its multicast service at its cut, records no channel any more, and prints.
\<close>

theorem snapshot_completes:
  assumes "distinct hosts" and "sreach hosts en {i} D s" and "i \<in> set hosts" and "mainAt s i = SnapshotTaken"
    and "\<not> workLeft hosts s" and "q \<in> set hosts"
  shows "set (accepted s q) = set hosts - {q} \<and> length (accepted s q) = length (allPeers (snaps s q)) \<and>
    channelsToBeRecorded (snaps s q) = {} \<and>
    (\<exists>cq pr. cutAt s q = Some cq \<and> enumerates pr (c_node cq) \<and> getCurrentState pr (c_node cq) = Inr (localState (snaps s q))) \<and>
    (\<forall>order. set order \<subseteq> dom (incomingChannels (snaps s q)) \<longrightarrow> (\<exists>t. printSnapshot order (snaps s q) = Inr t))"
proof -
  note ctl = sreach_ctlInv [OF assms(2,1)]
  note main = ctlInvD(1) [OF ctl] and host = ctlInvD(2) [OF ctl] and pair = ctlInvD(3) [OF ctl]
  have still: "outbox s p = []" "handling s p = []" "flight s p h = []" if "p \<in> set hosts" "h \<in> set hosts" for p h
    using assms(5) that by (auto simp: workLeft_def)
  have "cutAt s i \<noteq> None" using main assms(4) by (simp add: mainInv_def)
  have got: "count_list (accepted s h) p = 1" if "p \<in> set hosts" "h \<in> set hosts" "p \<noteq> h" "cutAt s p \<noteq> None" for p h
    using pair [OF that(1,2)] still [OF that(1,2)] that by (simp add: pairInv_def markersBetween_def)
  have cut: "cutAt s h \<noteq> None" if "h \<in> set hosts" for h
  proof (cases "h = i")
    case False
    then have "accepted s h \<noteq> []" using got [OF assms(3) that] \<open>cutAt s i \<noteq> None\<close> by auto
    then show ?thesis using host [OF that] by (auto simp: hostInv_def)
  qed (use \<open>cutAt s i \<noteq> None\<close> in simp)
  have "count_list (accepted s q) q = 0" using pair [OF assms(6,6)] by (simp add: pairInv_def markersBetween_def)
  then have acc: "set (accepted s q) = set hosts - {q}"
    using got [OF _ assms(6)] cut host [OF assms(6)] count_list_0_iff [of "accepted s q"]
    by (fastforce simp: hostInv_def)
  have "length (accepted s q) = (\<Sum>p \<in> set hosts - {q}. count_list (accepted s q) p)"
    by (simp add: sum_count_set acc)
  also have "\<dots> = (\<Sum>p \<in> set hosts - {q}. 1)"
    using got [OF _ assms(6)] cut by (intro sum.cong) auto
  also have "\<dots> = length (allPeers (snaps s q))"
    using host [OF assms(6)] peers_simps(1) [of hosts q] distinct_card [OF peers_simps(2) [OF assms(1), of q]]
    by (simp add: hostInv_def)
  finally have len: "length (accepted s q) = length (allPeers (snaps s q))" .
  obtain cq where cq: "cutAt s q = Some cq" using cut [OF assms(6)] by auto
  have "cutInv hosts i s q" using sreach_cutInv [OF assms(2,1,6)] .
  then have "channelsToBeRecorded (snaps s q) = {}" "\<exists>pr. enumerates pr (c_node cq) \<and> getCurrentState pr (c_node cq) = Inr (localState (snaps s q))"
    using cq acc still(2) [OF assms(6,6)] by (auto simp: cutInv_def)
  then show ?thesis using acc len cq printSnapshot_total by blast
qed

text \<open>The snapshot can be completed from every state in which the initiator has taken its own.\<close>

lemma sstep_taken:
  assumes "sstep hosts en initiators D s t" and "mainAt s i = SnapshotTaken"
  shows "mainAt t i = SnapshotTaken"
  using assms by cases (auto simp: setFlight_def)

lemma snapshot_can_complete:
  assumes "valid_hosts hosts" and "\<forall>h \<in> set hosts. CHR ''.'' \<notin> set h" and "\<not> inOrder D"
    and "sreach hosts en {i} D s" and "mainAt s i = SnapshotTaken"
  shows "\<exists>t. sreach hosts en {i} D t \<and> mainAt t i = SnapshotTaken \<and> \<not> workLeft hosts t"
  using assms(4,5)
proof (induction "snapshotWork hosts s" arbitrary: s rule: less_induct)
  case less
  show ?case
  proof (cases "workLeft hosts s")
    case True
    then obtain t where "sstep hosts en {i} D s t" "snapshotWork hosts t < snapshotWork hosts s"
      using snapshot_progress_aux [OF assms(1-3) less(2)] by blast
    then show ?thesis using less sr_step sstep_taken by metis
  qed (use less in blast)
qed

lemma sreach_taken:
  assumes "valid_hosts hosts" and "i \<in> set hosts"
  shows "\<exists>s. sreach hosts en {i} D s \<and> mainAt s i = SnapshotTaken \<and>
    map fst (outbox s i) = getPeerContainerHostnames hosts i"
proof -
  have d: "distinct hosts" using assms(1) by (simp add: valid_hosts_def)
  let ?s = "initSnapSys hosts"
  let ?t = "?s\<lparr>snaps := (snaps ?s)(i := markInitiated (snaps ?s i)), mainAt := (mainAt ?s)(i := FlagSet)\<rparr>"
  have "sstep hosts en {i} D ?s ?t" by (rule ss_initiate) (use assms(2) in \<open>simp_all add: initSnapSys_def\<close>)
  then have t: "sreach hosts en {i} D ?t" using sr_init sr_step by blast
  obtain pr stateNow where st: "enumerates pr (nodes (base ?t) i)" "getCurrentState pr (nodes (base ?t) i) = Inr stateNow"
    using localState_ex [OF assms(1) _ assms(2)] sreach_mreach [OF t] by blast
  obtain svc ms where snap: "takeSnapshot (en i) stateNow (snaps ?t i) = (svc, ms)"
    by (cases "takeSnapshot (en i) stateNow (snaps ?t i)")
  have "sstep hosts en {i} D ?t ((recordCut i ?t)\<lparr>snaps := (snaps ?t)(i := svc),
      mainAt := (mainAt ?t)(i := SnapshotTaken), outbox := (outbox ?t)(i := ms)\<rparr>)"
    by (rule ss_takeSnapshot [of i hosts ?t pr stateNow en svc ms, OF assms(2) _ _ st snap])
      (simp_all add: initSnapSys_def)
  moreover have "map fst ms = getPeerContainerHostnames hosts i"
    using takeLocalSnapshot_effect(7) [OF snap [unfolded takeSnapshot_def]]
    by (simp add: initSnapSys_def startSnapshotService_eq [OF d assms(2)] newSnapshotService_def
        markInitiated_def o_def)
  ultimately show ?thesis using sr_step [OF t] by (intro exI conjI) auto
qed

definition noGuarantee :: discipline where
  "noGuarantee = \<lparr>inOrder = False, quiet = False, reliable = False, overtakes = anyOrder\<rparr>"

lemma example_taken:
  "\<exists>s. sreach exampleHosts exampleEndian {''a''} noGuarantee s \<and> mainAt s ''a'' = SnapshotTaken \<and>
    workLeft exampleHosts s"
proof -
  obtain s where s: "sreach exampleHosts exampleEndian {''a''} noGuarantee s" "mainAt s ''a'' = SnapshotTaken"
    "map fst (outbox s ''a'') = getPeerContainerHostnames exampleHosts ''a''"
    using sreach_taken [OF example_small(1), of "''a''"] by (auto simp: exampleHosts_def)
  from s(3) have "outbox s ''a'' \<noteq> []" by (auto simp: getPeerContainerHostnames_def exampleHosts_def)
  then have "workLeft exampleHosts s" by (auto simp: workLeft_def exampleHosts_def)
  with s show ?thesis by blast
qed

lemma example_names: "\<forall>h \<in> set exampleHosts. CHR ''.'' \<notin> set h"
  by (simp add: exampleHosts_def)

theorem snapshot_progress_witness:
  "\<exists>s t. sreach exampleHosts exampleEndian {''a''} noGuarantee s \<and>
     sstep exampleHosts exampleEndian {''a''} noGuarantee s t \<and>
     snapshotWork exampleHosts t < snapshotWork exampleHosts s"
proof -
  obtain s where s: "sreach exampleHosts exampleEndian {''a''} noGuarantee s" "workLeft exampleHosts s"
    using example_taken by blast
  then show ?thesis
    using snapshot_progress [OF example_small(1) example_names _ s(1)] by (auto simp: noGuarantee_def)
qed

theorem snapshot_completes_witness:
  "\<exists>s. sreach exampleHosts exampleEndian {''a''} noGuarantee s \<and> set (accepted s ''b'') = {''a''} \<and>
    channelsToBeRecorded (snaps s ''b'') = {} \<and> cutAt s ''b'' \<noteq> None"
proof -
  have no: "\<not> inOrder noGuarantee" by (simp add: noGuarantee_def)
  obtain s where s: "sreach exampleHosts exampleEndian {''a''} noGuarantee s" "mainAt s ''a'' = SnapshotTaken"
    "\<not> workLeft exampleHosts s"
    using example_taken snapshot_can_complete [OF example_small(1) example_names no] by blast
  have d: "distinct exampleHosts" using example_small(1) by (simp add: valid_hosts_def)
  show ?thesis
    using snapshot_completes [OF d s(1) _ s(2,3), of "''b''"] s(1) by (auto simp: exampleHosts_def)
qed

end
