(* ===== verification/SnapshotConsistent.thy ===== *)
theory SnapshotConsistent
  imports SnapshotProgress
begin

text \<open>
  What a snapshot of lab1 is worth. If markers and datagrams keep their order and a process sends no
  datagram while it sends its markers, the local states and the recorded channels form a consistent
  global state, and without loss an exact one. At the end, runs that show what these guarantees are
  needed for, which the code does not give.
\<close>

section \<open>What two ends of a channel know\<close>

text \<open>The datagrams of a reliable channel are those that were sent, those of a lossy one are among them.\<close>

definition fits :: "bool \<Rightarrow> 'a list \<Rightarrow> 'a list \<Rightarrow> bool" where
  "fits exact xs ys \<longleftrightarrow> (if exact then xs = ys else set xs \<subseteq> set ys)"

lemma fits_append: "fits e xs ys \<Longrightarrow> fits e (xs @ zs) (ys @ zs)"
  by (auto simp: fits_def)

definition recordedTexts :: "SnapshotService \<Rightarrow> hostname \<Rightarrow> string list" where
  "recordedTexts svc c = (case incomingChannels svc c of None \<Rightarrow> [] | Some st \<Rightarrow> messages st)"

text \<open>
  From the local snapshot of the sender on, the datagrams before its marker are those that it had sent
  then: all while the marker is waiting, those in front of it when it is on the way.
\<close>

definition flowInv :: "discipline \<Rightarrow> snapSys \<Rightarrow> hostname \<Rightarrow> hostname \<Rightarrow> bool" where
  "flowInv D s p q \<longleftrightarrow> fits (reliable D) (readFrom s q p @ unread s p q) (sentTo s p q) \<and>
     (\<forall>cp. cutAt s p = Some cp \<longrightarrow> (outbox s p \<noteq> [] \<longrightarrow> sentTo s p q = c_sent cp q) \<and>
       (\<forall>x \<in> set (flight s p q). fst x \<le> length (unread s p q) \<and>
          fits (reliable D) (readFrom s q p @ take (fst x) (unread s p q)) (c_sent cp q)))"

text \<open>
  A channel that is recorded holds what was read since the local snapshot; one whose marker was
  accepted holds, with what was read before, what the sender had sent before its local snapshot.
\<close>

definition recordInv :: "(hostname \<Rightarrow> endian) \<Rightarrow> discipline \<Rightarrow> snapSys \<Rightarrow> hostname \<Rightarrow> hostname \<Rightarrow> bool" where
  "recordInv en D s p q \<longleftrightarrow>
     (\<forall>cq. cutAt s q = Some cq \<and> p \<in> channelsToBeRecorded (snaps s q) \<longrightarrow>
       (\<exists>r. readFrom s q p = c_read cq p @ r \<and> recordedTexts (snaps s q) p = map (wireText (en q)) r)) \<and>
     (p \<in> set (accepted s q) \<longrightarrow> (\<exists>cp cq r. cutAt s p = Some cp \<and> cutAt s q = Some cq \<and>
       fits (reliable D) (c_read cq p @ r) (c_sent cp q) \<and>
       recordedTexts (snaps s q) p = map (wireText (en q)) r))"

section \<open>The flow of datagrams\<close>

lemma flowInvD:
  assumes "flowInv D s p q"
  shows "fits (reliable D) (readFrom s q p @ unread s p q) (sentTo s p q)"
    and "cutAt s p = Some cp \<Longrightarrow> outbox s p \<noteq> [] \<Longrightarrow> sentTo s p q = c_sent cp q"
    and "cutAt s p = Some cp \<Longrightarrow> (k, m) \<in> set (flight s p q) \<Longrightarrow> k \<le> length (unread s p q)"
    and "cutAt s p = Some cp \<Longrightarrow> (k, m) \<in> set (flight s p q) \<Longrightarrow>
      fits (reliable D) (readFrom s q p @ take k (unread s p q)) (c_sent cp q)"
  using assms by (fastforce simp: flowInv_def)+

lemma flowInvI:
  assumes "fits (reliable D) (readFrom s q p @ unread s p q) (sentTo s p q)"
    and "\<And>cp. cutAt s p = Some cp \<Longrightarrow> outbox s p \<noteq> [] \<Longrightarrow> sentTo s p q = c_sent cp q"
    and "\<And>cp k m. cutAt s p = Some cp \<Longrightarrow> (k, m) \<in> set (flight s p q) \<Longrightarrow>
      k \<le> length (unread s p q) \<and> fits (reliable D) (readFrom s q p @ take k (unread s p q)) (c_sent cp q)"
  shows "flowInv D s p q"
  using assms by (auto simp: flowInv_def)

lemma flowInv_frame:
  assumes "flowInv D s p q" and "readFrom t q p = readFrom s q p" and "unread t p q = unread s p q"
    and "sentTo t p q = sentTo s p q" and "cutAt t p = cutAt s p" and "outbox t p = outbox s p"
    and "set (flight t p q) \<subseteq> set (flight s p q)"
  shows "flowInv D t p q"
  using assms by (auto simp: flowInv_def)

text \<open>Sending appends to the channel and to the history.\<close>

lemma flowInv_send:
  assumes "flowInv D s p q" and "readFrom t q p = readFrom s q p" and "unread t p q = unread s p q @ out"
    and "sentTo t p q = sentTo s p q @ out" and "cutAt t p = cutAt s p" and "outbox t p = []"
    and "flight t p q = flight s p q"
  shows "flowInv D t p q"
proof (rule flowInvI)
  show "fits (reliable D) (readFrom t q p @ unread t p q) (sentTo t p q)"
    using fits_append [OF flowInvD(1) [OF assms(1)], of out] by (simp add: assms(2-4))
  fix cp k m assume "cutAt t p = Some cp" "(k, m) \<in> set (flight t p q)"
  then have "cutAt s p = Some cp" "(k, m) \<in> set (flight s p q)" by (simp_all add: assms(5,7))
  note f = flowInvD(3,4) [OF assms(1) this]
  then show "k \<le> length (unread t p q) \<and> fits (reliable D) (readFrom t q p @ take k (unread t p q)) (c_sent cp q)"
    by (simp add: assms(2,3))
qed (use assms(6) in simp)

lemma unread_append:
  assumes "handInv hosts s" and "hand t q = hand s q" and "chan (base t) p q = chan (base s) p q @ out"
  shows "unread t p q = unread s p q @ out"
proof (cases "inHand s p q")
  case True
  then obtain message where "hand s q = Some (p, message)" by (auto simp: inHand_def)
  then have "chan (base s) p q \<noteq> []" using handInvD(2) [OF assms(1)] by fastforce
  then show ?thesis using assms(2,3) True by (simp add: unread_def inHand_def)
next
  case False
  then show ?thesis using assms(2,3) by (simp add: unread_def inHand_def)
qed

lemma flowInv_sender:
  assumes hand: "handInv hosts s" and inv: "flowInv D s p q" and "outbox s a = []"
    and t: "t = s\<lparr>base := afterSend a svc out (base s), sentTo := transmit a out (sentTo s)\<rparr>"
  shows "flowInv D t p q"
proof (cases "p = a")
  case True
  have "unread t p q = unread s p q @ out q"
    by (rule unread_append [OF hand]) (simp_all add: t True)
  then show ?thesis
    by (rule flowInv_send [OF inv, rotated]) (simp_all add: t True transmit_apply assms(3))
next
  case False
  then have "unread t p q = unread s p q" by (simp add: t unread_def inHand_def)
  then show ?thesis
    by (intro flowInv_frame [OF inv]) (simp_all add: t transmit_apply False)
qed

lemma take_positive: "0 < k \<Longrightarrow> take k (b # rest) = b # take (k - 1) rest"
  by (cases k) simp_all

lemma flowInv_read:
  assumes inv: "flowInv D s p q" and "hand s q = None" and u: "unread s p q = b # rest"
    and before: "\<forall>m \<in> set (flight s p q). 0 < fst m"
    and t: "t = setFlight p q (map (\<lambda>(k, m). (k - 1, m)) (flight s p q))
        (s\<lparr>snaps := (snaps s)(q := svc), hand := (hand s)(q \<mapsto> (p, message)),
           readFrom := (readFrom s)(q := (readFrom s q)(p := readFrom s q p @ [b]))\<rparr>)"
  shows "flowInv D t p q"
proof -
  have r: "unread t p q = rest" "readFrom t q p = readFrom s q p @ [b]"
    using u assms(2) by (simp_all add: t unread_def inHand_def)
  show ?thesis
  proof (rule flowInvI)
    show "fits (reliable D) (readFrom t q p @ unread t p q) (sentTo t p q)"
      using flowInvD(1) [OF inv] u by (simp add: r) (simp add: t)
    show "sentTo t p q = c_sent cp q" if "cutAt t p = Some cp" "outbox t p \<noteq> []" for cp
      using flowInvD(2) [OF inv, of cp] that by (simp add: t)
    fix cp k m assume cp: "cutAt t p = Some cp" and "(k, m) \<in> set (flight t p q)"
    then obtain j where j: "(j, m) \<in> set (flight s p q)" "k = j - 1" by (auto simp: t)
    with before have "0 < j" by auto
    note f = flowInvD(3,4) [OF inv _ j(1), of cp]
    from f cp j(2) \<open>0 < j\<close> take_positive [OF \<open>0 < j\<close>, of b rest]
    show "k \<le> length (unread t p q) \<and> fits (reliable D) (readFrom t q p @ take k (unread t p q)) (c_sent cp q)"
      unfolding r by (auto simp: t u)
  qed
qed

lemma flowInv_lossy:
  assumes inv: "flowInv D s p q" and "\<not> reliable D"
    and c: "chan (base s) p q = hs @ bs @ b # cs" and hs: "length hs = (if inHand s p q then 1 else 0)"
    and n: "new = bs @ cs \<and> f = (\<lambda>k. if length bs < k then k - 1 else k) \<or>
            new = bs @ b # b # cs \<and> f = (\<lambda>k. if length bs < k then k + 1 else k)"
    and t: "t = setFlight p q (map (\<lambda>(k, m). (f k, m)) (flight s p q))
        (s\<lparr>base := setChan p q (hs @ new) (base s)\<rparr>)"
  shows "flowInv D t p q"
proof -
  have u: "unread s p q = bs @ b # cs" "unread t p q = new"
    using c hs by (auto simp: t unread_def inHand_def length_Suc_conv split: if_splits)
  have new: "set new \<subseteq> set (bs @ b # cs)" using n by auto
  have pos: "f k \<le> length new \<and> set (take (f k) new) \<subseteq> set (take k (bs @ b # cs))"
    if "k \<le> length (bs @ b # cs)" for k
  proof (cases "length bs < k")
    case True
    then obtain j where k: "k = length bs + Suc j" using less_iff_Suc_add by auto
    show ?thesis using n that by (auto simp: k)
  next
    case False
    then show ?thesis using n that by auto
  qed
  show ?thesis
  proof (rule flowInvI)
    show "fits (reliable D) (readFrom t q p @ unread t p q) (sentTo t p q)"
      using flowInvD(1) [OF inv] assms(2) new unfolding u fits_def by (auto simp: t)
    show "sentTo t p q = c_sent cp q" if "cutAt t p = Some cp" "outbox t p \<noteq> []" for cp
      using flowInvD(2) [OF inv, of cp] that by (simp add: t)
    fix cp k m assume cp: "cutAt t p = Some cp" and "(k, m) \<in> set (flight t p q)"
    then obtain j where j: "(j, m) \<in> set (flight s p q)" "k = f j" by (auto simp: t)
    have cs: "cutAt s p = Some cp" using cp by (simp add: t)
    note o = flowInvD(3,4) [OF inv cs j(1)]
    show "k \<le> length (unread t p q) \<and> fits (reliable D) (readFrom t q p @ take k (unread t p q)) (c_sent cp q)"
      using o(2) assms(2) pos [OF o(1) [unfolded u(1)]] unfolding u fits_def j(2) by (auto simp: t)
  qed
qed

lemma flowInv_handle:
  assumes hand: "handInv hosts s" and inv: "flowInv D s p q" and h: "hand s b = Some (a, message)"
    and c: "chan (base s) a b = x # rest" and o: "outbox s b = []"
    and t: "t = s\<lparr>base := afterReceive a b rest svc out (base s), hand := (hand s)(b := None),
         sentTo := transmit b (outTo out) (sentTo s),
         handledFrom := (handledFrom s)(b := (handledFrom s b)(a := handledFrom s b a @ [x]))\<rparr>"
  shows "flowInv D t p q"
proof -
  let ?more = "if p = b then outTo out q else []"
  have u: "unread t p q = unread s p q @ ?more"
  proof (cases "q = b")
    case True
    then show ?thesis using h c by (auto simp: t unread_def inHand_def)
  next
    case False
    then show ?thesis by (intro unread_append [OF hand]) (simp_all add: t)
  qed
  show ?thesis
  proof (cases "p = b")
    case True
    then show ?thesis
      by (intro flowInv_send [OF inv _ u]) (simp_all add: t transmit_apply o)
  next
    case False
    then show ?thesis using u by (intro flowInv_frame [OF inv]) (simp_all add: t transmit_apply)
  qed
qed

text \<open>A process that takes its local snapshot has sent no marker yet.\<close>

lemma flowInv_cut:
  assumes inv: "flowInv D s p q" and "flight s p q = []"
    and "readFrom t q p = readFrom s q p" and "unread t p q = unread s p q"
    and "sentTo t p q = sentTo s p q" and "flight t p q = []" and "c_sent (the (cutAt t p)) q = sentTo s p q"
  shows "flowInv D t p q"
  using assms by (intro flowInvI) (auto simp: flowInv_def)

lemma flowInv_sendMarker:
  assumes inv: "flowInv D s p q" and o: "outbox s p = (h, m) # ms"
    and t: "t = setFlight p h (flight s p h @ [(length (unread s p h), m)])
        (s\<lparr>outbox := (outbox s)(p := ms), flagLock := (flagLock s)(p := flagLock s p \<and> ms \<noteq> [])\<rparr>)"
  shows "flowInv D t p q"
proof (rule flowInvI)
  have u: "unread t p q = unread s p q" by (simp add: t unread_def inHand_def)
  show "fits (reliable D) (readFrom t q p @ unread t p q) (sentTo t p q)"
    using flowInvD(1) [OF inv] by (simp add: u) (simp add: t)
  show "sentTo t p q = c_sent cp q" if "cutAt t p = Some cp" "outbox t p \<noteq> []" for cp
    using flowInvD(2) [OF inv, of cp] that o by (simp add: t)
  fix cp k m' assume cp: "cutAt t p = Some cp" and f: "(k, m') \<in> set (flight t p q)"
  have cs: "cutAt s p = Some cp" using cp by (simp add: t)
  consider "(k, m') \<in> set (flight s p q)" | "k = length (unread s p q)"
    using f by (auto simp: t split: if_splits)
  then show "k \<le> length (unread t p q) \<and> fits (reliable D) (readFrom t q p @ take k (unread t p q)) (c_sent cp q)"
  proof cases
    case 1
    from flowInvD(3,4) [OF inv cs this] show ?thesis by (simp add: u) (simp add: t)
  next
    case 2
    then show ?thesis using flowInvD(1) [OF inv] flowInvD(2) [OF inv cs] o by (simp add: u) (simp add: t)
  qed
qed

lemma sstep_flowInv:
  assumes "sstep hosts en {i} D s t" and D: "inOrder D" "quiet D"
    and ctl: "ctlInv hosts i s" and hand: "handInv hosts s"
    and inv: "flowInv D s p q" and p: "p \<in> set hosts" and q: "q \<in> set hosts"
  shows "flowInv D t p q"
  using assms(1)
proof cases
  case (ss_dataThread a ds out interval)
  then show ?thesis using flowInv_sender [OF hand inv _ ss_dataThread(1)] D(2) by simp
next
  case (ss_seqThread a qs out interval)
  then show ?thesis using flowInv_sender [OF hand inv _ ss_seqThread(1)] D(2) by simp
next
  case (ss_read a b x rest "from" junk svc)
  show ?thesis
  proof (cases "p = a \<and> q = b")
    case True
    then show ?thesis using ss_read D(1) by (intro flowInv_read [OF inv]) auto
  next
    case False
    then show ?thesis using ss_read(4) by (intro flowInv_frame [OF inv]) (auto simp: ss_read(1) unread_def inHand_def)
  qed
next
  case (ss_handle b a message x rest dropIt svc out)
  then show ?thesis using flowInv_handle [OF hand inv ss_handle(3,4) _ ss_handle(1)] D(2) by simp
next
  case (ss_lose a b hs bs x cs)
  show ?thesis
  proof (cases "p = a \<and> q = b")
    case True
    then show ?thesis
      using ss_lose by (intro flowInv_lossy [OF inv, where f = "\<lambda>k. if length bs < k then k - 1 else k" and
          hs = hs and bs = bs and b = x and cs = cs and new = "bs @ cs"]) auto
  next
    case False
    then show ?thesis by (intro flowInv_frame [OF inv]) (auto simp: ss_lose(1) unread_def inHand_def)
  qed
next
  case (ss_duplicate a b hs bs x cs)
  show ?thesis
  proof (cases "p = a \<and> q = b")
    case True
    then show ?thesis
      using ss_duplicate by (intro flowInv_lossy [OF inv, where f = "\<lambda>k. if length bs < k then k + 1 else k" and
          hs = hs and bs = bs and b = x and cs = cs and new = "bs @ x # x # cs"]) auto
  next
    case False
    then show ?thesis by (intro flowInv_frame [OF inv]) (auto simp: ss_duplicate(1) unread_def inHand_def)
  qed
next
  case (ss_overtake c b a' b' hs bs cs)
  then show ?thesis using D(1) by (simp add: mayOvertake_def)
next
  case (ss_takeSnapshot a pr stateNow svc ms)
  show ?thesis
  proof (cases "p = a")
    case True
    have "cutAt s a = None" using ctlInvD(1) [OF ctl] ss_takeSnapshot(3) unfolding mainInv_def
      by (metis mainPoint.distinct(1,5))
    then have "flight s p q = []" using ctlInvD(3) [OF ctl p q] True by (simp add: pairInv_def markersBetween_def)
    then show ?thesis
      by (intro flowInv_cut [OF inv]) (simp_all add: ss_takeSnapshot(1) True unread_def inHand_def)
  next
    case False
    then show ?thesis by (intro flowInv_frame [OF inv]) (simp_all add: ss_takeSnapshot(1) unread_def inHand_def)
  qed
next
  case (ss_sendMarker a h m ms)
  show ?thesis
  proof (cases "p = a")
    case True
    then show ?thesis using ss_sendMarker by (intro flowInv_sendMarker [OF inv]) simp_all
  next
    case False
    then show ?thesis by (intro flowInv_frame [OF inv]) (simp_all add: ss_sendMarker(1) unread_def inHand_def)
  qed
next
  case (ss_marker a b ms k m ms' "from" pr stateNow junk svc out)
  show ?thesis
  proof (cases "p = b \<and> \<not> snapshotInitiated (snaps s b)")
    case True
    then have "cutAt s p = None" using ctlInvD(2) [OF ctl p] by (auto simp: hostInv_def)
    then have none: "flight s p q = []" using ctlInvD(3) [OF ctl p q] by (simp add: pairInv_def markersBetween_def)
    then have "a \<noteq> p \<or> b \<noteq> q" using ss_marker(4) by auto
    with none True show ?thesis
      by (intro flowInv_cut [OF inv]) (auto simp: ss_marker(1) unread_def inHand_def)
  next
    case False
    have "p = b \<Longrightarrow> out = []" using ss_marker(12) False by (cases rule: markerReceived_cases) auto
    with False show ?thesis
      by (intro flowInv_frame [OF inv]) (auto simp: ss_marker(1,4) unread_def inHand_def)
  qed
qed (intro flowInv_frame [OF inv]; simp add: unread_def inHand_def)+

section \<open>What is recorded\<close>

lemma recordInvD:
  assumes "recordInv en D s p q" and "p \<in> set (accepted s q)"
  obtains cp cq r where "cutAt s p = Some cp" and "cutAt s q = Some cq"
    and "fits (reliable D) (c_read cq p @ r) (c_sent cp q)"
    and "recordedTexts (snaps s q) p = map (wireText (en q)) r"
  using assms by (auto simp: recordInv_def)

lemma recordInv_frame:
  assumes "recordInv en D s p q" and "readFrom t q p = readFrom s q p" and "cutAt t p = cutAt s p"
    and "cutAt t q = cutAt s q" and "p \<in> set (accepted t q) \<longleftrightarrow> p \<in> set (accepted s q)"
    and "p \<in> channelsToBeRecorded (snaps t q) \<longrightarrow> p \<in> channelsToBeRecorded (snaps s q)"
    and "incomingChannels (snaps t q) p = incomingChannels (snaps s q) p"
  shows "recordInv en D t p q"
  using assms unfolding recordInv_def recordedTexts_def by simp

lemma recordInv_fresh:
  assumes "p \<notin> set (accepted t q)"
    and "\<And>cq. cutAt t q = Some cq \<Longrightarrow> p \<in> channelsToBeRecorded (snaps t q) \<Longrightarrow>
      \<exists>r. readFrom t q p = c_read cq p @ r \<and> recordedTexts (snaps t q) p = map (wireText (en q)) r"
  shows "recordInv en D t p q"
  using assms by (auto simp: recordInv_def)

lemma inOrder_dataFirst: "inOrder D \<Longrightarrow> dataFirst (mayOvertake D)"
  by (simp add: dataFirst_def mayOvertake_def)

lemma recordInv_read:
  assumes v: "valid_hosts hosts" and rm: "mreach hosts en (mayOvertake D) (base s)" and "inOrder D"
    and small: "smallRun hosts (base s)" and p: "p \<in> set hosts" and q: "q \<in> set hosts" and cutInv: "cutInv hosts i s q" and recs: "recordingInv hosts s"
    and inv: "recordInv en D s p q" and h: "hand s q = None" and u: "unread s p q = b # rest"
    and "from": "parseHostnameFromSender from = p"
    and not: "p \<notin> set (handling s q)"
    and rec: "recordIncomingMessages (en q) (received b junk from) (snaps s q) = Inr svc"
    and t: "readFrom t q p = readFrom s q p @ [b]" "snaps t q = svc" "cutAt t = cutAt s" "accepted t = accepted s"
  shows "recordInv en D t p q"
proof -
  have "b \<in> set (chan (base s) p q)" using u h by (simp add: unread_def inHand_def)
  then obtain k where k: "b = wire k" "typed k"
    using chan_typed [OF v rm inOrder_dataFirst [OF \<open>inOrder D\<close>] small p q] by blast
  have "channelsToBeRecorded (snaps s q) \<subseteq> dom (incomingChannels (snaps s q))"
    using recs q by (simp add: recordingInv_def)
  then have svc: "svc = (if p \<in> channelsToBeRecorded (snaps s q)
      then (snaps s q)\<lparr>incomingChannels := (incomingChannels (snaps s q))
        (p \<mapsto> \<lparr>messages = messages (the (incomingChannels (snaps s q) p)) @ [wireText (en q) b]\<rparr>)\<rparr>
      else snaps s q)"
    and dom: "p \<in> channelsToBeRecorded (snaps s q) \<Longrightarrow> incomingChannels (snaps s q) p \<noteq> None"
    using recordIncoming_wire [OF k(2) "from", of "snaps s q" "en q" junk] rec by (auto simp: k(1))
  show ?thesis
  proof (cases "p \<in> channelsToBeRecorded (snaps s q)")
    case True
    then have texts: "recordedTexts svc p = recordedTexts (snaps s q) p @ [wireText (en q) b]"
      and ctr: "channelsToBeRecorded svc = channelsToBeRecorded (snaps s q)"
      using dom by (auto simp: svc recordedTexts_def)
    have acc: "p \<notin> set (accepted s q)" if "cutAt s q = Some cq" for cq
      using cutInv that True not by (auto simp: cutInv_def)
    then have "p \<notin> set (accepted s q)" using inv by (auto simp: recordInv_def)
    show ?thesis
    proof (rule recordInv_fresh)
      show "p \<notin> set (accepted t q)" using \<open>p \<notin> set (accepted s q)\<close> by (simp add: t)
      fix cq assume "cutAt t q = Some cq"
      with inv True obtain r where "readFrom s q p = c_read cq p @ r"
        "recordedTexts (snaps s q) p = map (wireText (en q)) r" by (auto simp: recordInv_def t)
      then show "\<exists>r. readFrom t q p = c_read cq p @ r \<and> recordedTexts (snaps t q) p = map (wireText (en q)) r"
        by (intro exI [of _ "r @ [b]"]) (simp add: t texts)
    qed
  next
    case False
    then have "svc = snaps s q" using svc by simp
    then show ?thesis using inv False by (simp add: recordInv_def t)
  qed
qed

text \<open>The first marker: nothing is recorded for its channel, the others start empty.\<close>

lemma recordedTexts_new:
  assumes "takeLocalSnapshot en stateNow channels svc = (svc', ms)" and "incomingChannels svc = Map.empty"
  shows "recordedTexts svc' c = []"
  using takeLocalSnapshot_effect(4) [OF assms(1)] assms(2)
  by (simp add: recordedTexts_def newIncomingChannelState_def)

lemma recordInv_cut:
  assumes ctl: "ctlInv hosts i s" and p: "p \<in> set hosts" and q: "q \<in> set hosts" and a: "a \<in> set hosts"
    and none: "cutAt s a = None" and inv: "recordInv en D s p q" and "p \<notin> set (accepted t a)"
    and t: "\<And>x. x \<noteq> a \<Longrightarrow> cutAt t x = cutAt s x" "\<And>x. x \<noteq> a \<Longrightarrow> snaps t x = snaps s x"
      "\<And>x. x \<noteq> a \<Longrightarrow> accepted t x = accepted s x" "readFrom t = readFrom s"
      "c_read (the (cutAt t a)) = readFrom s a" "\<And>c. recordedTexts (snaps t a) c = []"
  shows "recordInv en D t p q"
proof (cases "q = a")
  case True
  show ?thesis
    unfolding True by (rule recordInv_fresh) (use assms(7) t(4-6) in auto)
next
  case False
  have "p \<notin> set (accepted s q)" if "p = a"
    using ctlInvD(3) [OF ctl a q] none that by (simp add: pairInv_def markersBetween_def count_list_0_iff)
  then show ?thesis
    using inv False t(1) [of p] by (cases "p = a") (auto simp: recordInv_def t)
qed

lemma recordInv_marker:
  assumes ctl: "ctlInv hosts i s" and cut: "cutInv hosts i s b" and "distinct hosts"
    and inv: "recordInv en D s p q" and p: "p \<in> set hosts" and q: "q \<in> set hosts"
    and flow: "flowInv D s a b" and a: "a \<in> set hosts" and b: "b \<in> set hosts"
    and fl: "flight s a b = ms @ (0, m) # ms'" and "from": "parseHostnameFromSender from = a"
    and rec: "markerReceived e (received m junk from) stateNow (snaps s b) = Inr (svc, out)"
    and t: "t = setFlight a b (ms @ ms')
        ((if snapshotInitiated (snaps s b) then s else recordCut b s)
          \<lparr>snaps := (snaps s)(b := svc), outbox := (outbox s)(b := outbox s b @ out),
           flagLock := (flagLock s)(b := \<not> snapshotInitiated (snaps s b) \<and> out \<noteq> []),
           accepted := (accepted s)(b := accepted s b @ [a]),
           handling := (handling s)(b := handling s b @ [a])\<rparr>)"
  shows "recordInv en D t p q"
proof -
  note main = ctlInvD(1) [OF ctl] and host = ctlInvD(2) [OF ctl b] and pair = ctlInvD(3) [OF ctl a b]
  have ab: "a \<noteq> b" "cutAt s a \<noteq> None" and new: "a \<notin> set (accepted s b)"
    using pair by (auto simp: pairInv_def markersBetween_def fl count_list_0_iff split: if_splits)
  then obtain ca where ca: "cutAt s a = Some ca" by auto
  have before: "fits (reliable D) (readFrom s b a) (c_sent ca b)"
    using flowInvD(4) [OF flow ca, of 0 m] by (simp add: fl)
  have mainAt: "mainAt s b \<noteq> FlagSet" using main ab(2) unfolding mainInv_def by (metis mainPoint.distinct(1,5))
  show ?thesis
    using rec
  proof (cases rule: markerReceived_cases)
    case later
    show ?thesis
    proof (cases "p = a \<and> q = b")
      case False
      then show ?thesis using later by (intro recordInv_frame [OF inv]) (auto simp: t)
    next
      case True
      obtain cb where cb: "cutAt s b = Some cb" using host later(1) mainAt by (auto simp: hostInv_def)
      have "accepted s b = [] \<or> hd (accepted s b) \<noteq> a" using new by (cases "accepted s b") auto
      then have ctr: "a \<in> channelsToBeRecorded (snaps s b)"
        using cut cb new a ab(1) by (auto simp: cutInv_def)
      then obtain r where "readFrom s b a = c_read cb a @ r" "recordedTexts (snaps s b) a = map (wireText (en b)) r"
        using inv cb True by (auto simp: recordInv_def)
      then show ?thesis using True inv ca cb before later by (auto simp: recordInv_def t)
    qed
  next
    case (first channels svc1)
    have none: "cutAt s b = None" "incomingChannels (snaps s b) = Map.empty" "channelsToBeRecorded (snaps s b) = {}"
      "accepted s b = []"
      using host first(1) by (auto simp: hostInv_def)
    have empty: "recordedTexts svc c = []" for c
      using recordedTexts_new [OF first(3) none(2), of c] by (simp add: first(4) recordedTexts_def)
    show ?thesis
    proof (cases "p = a \<and> q = b")
      case False
      show ?thesis
      proof (cases "q = b")
        case True
        with False show ?thesis
          by (intro recordInv_cut [OF ctl p q b none(1) inv]) (simp_all add: t first(1) none empty)
      next
        case qb: False
        have "p \<notin> set (accepted s q)" if "p = b"
          using ctlInvD(3) [OF ctl b q] none(1) that by (simp add: pairInv_def markersBetween_def count_list_0_iff)
        then show ?thesis using inv qb by (cases "p = b") (auto simp: recordInv_def t first(1))
      qed
    next
      case True
      have "set channels = set hosts - {b, a}"
        using remainingPeers_peers [OF assms(3) a ab(1)] first(2) host "from"
        by (simp add: hostInv_def getParsedSender_def)
      then have "a \<notin> channelsToBeRecorded svc"
        using takeLocalSnapshot_effect(3) [OF first(3)] first(4) by (simp add: none(3))
      then show ?thesis using True ca before empty ab(1) by (simp add: recordInv_def t first(1))
    qed
  qed
qed

lemma sstep_recordInv:
  assumes step: "sstep hosts en {i} D s t" and "inOrder D" and v: "valid_hosts hosts"
    and r: "sreach hosts en {i} D s" and small: "smallRun hosts (base s)"
    and flow: "\<forall>p \<in> set hosts. \<forall>q \<in> set hosts. flowInv D s p q"
    and inv: "recordInv en D s p q" and p: "p \<in> set hosts" and q: "q \<in> set hosts"
  shows "recordInv en D t p q"
proof -
  have d: "distinct hosts" using v by (simp add: valid_hosts_def)
  note ctl = sreach_ctlInv [OF r d]
  have rm: "mreach hosts en (mayOvertake D) (base s)" using sreach_mreach [OF r] by simp
  from step show ?thesis
  proof cases
    case (ss_read a b x rest "from" junk svc)
    show ?thesis
    proof (cases "p = a \<and> q = b")
      case True
      then have "p \<notin> set (handling s q)" using ss_read(8) assms(2) by simp
      with True ss_read show ?thesis
        by (intro recordInv_read [OF v rm assms(2) small p q sreach_cutInv [OF r d q] sreach_recordingInv [OF r d] inv])
          simp_all
    next
      case False
      have "q = b \<Longrightarrow> incomingChannels svc p = incomingChannels (snaps s b) p"
        using recordIncoming_frame(7) [OF ss_read(9), of p] False ss_read(7) by (simp add: getParsedSender_def)
      then show ?thesis
        using False recordIncoming_frame(1) [OF ss_read(9)]
        by (intro recordInv_frame [OF inv]) (auto simp: ss_read(1))
    qed
  next
    case (ss_takeSnapshot a pr stateNow svc ms)
    have none: "cutAt s a = None" using ctlInvD(1) [OF ctl] ss_takeSnapshot(3) unfolding mainInv_def
      by (metis mainPoint.distinct(1,5))
    then have "accepted s a = []" "incomingChannels (snaps s a) = Map.empty"
      using ctlInvD(2) [OF ctl ss_takeSnapshot(2)] by (auto simp: hostInv_def)
    then show ?thesis
      using recordedTexts_new [OF ss_takeSnapshot(7) [unfolded takeSnapshot_def]]
      by (intro recordInv_cut [OF ctl p q ss_takeSnapshot(2) none inv]) (simp_all add: ss_takeSnapshot(1))
  next
    case (ss_marker a b ms k m ms' "from" pr stateNow junk svc out)
    have k: "k = 0" using ss_marker(5) assms(2) by simp
    have f: "flowInv D s a b" using flow ss_marker(2,3) by blast
    show ?thesis
      by (rule recordInv_marker [OF ctl sreach_cutInv [OF r d ss_marker(3)] d inv p q f ss_marker(2,3)
            ss_marker(4) [unfolded k] ss_marker(9,12,1)])
  next
    case (ss_markerDone a b)
    then show ?thesis by (intro recordInv_frame [OF inv]) (auto simp: stopRecording_def)
  qed (intro recordInv_frame [OF inv]; simp add: markInitiated_def)+
qed

lemma sreach_recordInv:
  assumes "sreach hosts en {i} D s" and "inOrder D" and "quiet D" and v: "valid_hosts hosts"
    and "smallRun hosts (base s)"
  shows "(\<forall>p \<in> set hosts. \<forall>q \<in> set hosts. flowInv D s p q) \<and>
    (\<forall>p \<in> set hosts. \<forall>q \<in> set hosts. recordInv en D s p q)"
  using assms(1,5)
proof (induction rule: sreach.induct)
  case sr_init
  show ?case by (simp add: flowInv_def recordInv_def initSnapSys_def unread_def inHand_def initSys_def fits_def)
next
  case (sr_step s t)
  have d: "distinct hosts" using v by (simp add: valid_hosts_def)
  have hand: "handInv hosts s" using sreach_mreach [OF sr_step(1)] by simp
  have small: "smallRun hosts (base s)"
    using sstep_mstep [OF sr_step(2) hand] sr_step.prems smallRun_mono by metis
  note inv = sr_step.IH [OF small]
  have "flowInv D t p q" if "p \<in> set hosts" "q \<in> set hosts" for p q
    using sstep_flowInv [OF sr_step(2) assms(2,3) sreach_ctlInv [OF sr_step(1) d] hand _ that] inv that by blast
  moreover have "recordInv en D t p q" if "p \<in> set hosts" "q \<in> set hosts" for p q
    using sstep_recordInv [OF sr_step(2) assms(2) v sr_step(1) small _ _ that] inv that by blast
  ultimately show ?case by blast
qed

section \<open>Reading and handling\<close>

text \<open>
  A process has handled what it has read, except for the datagram between callback and handling, and
  so it is at its cut.
\<close>

definition midway :: "snapSys \<Rightarrow> hostname \<Rightarrow> hostname \<Rightarrow> byte list list" where
  "midway s p q = (if inHand s p q then take 1 (chan (base s) p q) else [])"

definition handledInv :: "snapSys \<Rightarrow> hostname \<Rightarrow> hostname \<Rightarrow> bool" where
  "handledInv s p q \<longleftrightarrow> readFrom s q p = handledFrom s q p @ midway s p q"

definition cutHandled :: "localCut \<Rightarrow> hostname \<Rightarrow> bool" where
  "cutHandled cq p \<longleftrightarrow> (\<exists>mid. c_read cq p = c_handled cq p @ mid \<and> length mid \<le> 1 \<and>
     (mid \<noteq> [] \<longrightarrow> c_hand cq = Some p))"

lemma handledInv_frame:
  assumes "handledInv s p q" and "readFrom t q p = readFrom s q p" and "handledFrom t q p = handledFrom s q p"
    and "midway t p q = midway s p q"
  shows "handledInv t p q"
  using assms by (simp add: handledInv_def)

lemma midway_append:
  assumes "handInv hosts s" and "hand t q = hand s q" and "chan (base t) p q = chan (base s) p q @ out"
  shows "midway t p q = midway s p q"
proof (cases "inHand s p q")
  case True
  then obtain message where "hand s q = Some (p, message)" by (auto simp: inHand_def)
  then have "chan (base s) p q \<noteq> []" using handInvD(2) [OF assms(1)] by fastforce
  then show ?thesis using assms(2,3) True by (simp add: midway_def inHand_def Suc_leI)
next
  case False
  then show ?thesis using assms(2,3) by (simp add: midway_def inHand_def)
qed

text \<open>What happens behind the head of a channel does not matter.\<close>

lemma midway_behind:
  assumes "chan (base s) a b = hs @ xs" and "length hs = (if inHand s a b then 1 else 0)"
    and "hand t = hand s" and "base t = setChan a b (hs @ ys) (base s)"
  shows "midway t p q = midway s p q"
  using assms by (auto simp: midway_def inHand_def length_Suc_conv split: if_splits)

lemma sstep_handledInv:
  assumes "sstep hosts en initiators D s t" and hand: "handInv hosts s" and inv: "handledInv s p q"
  shows "handledInv t p q"
  using assms(1)
proof cases
  case (ss_dataThread a ds out interval)
  then show ?thesis
    by (intro handledInv_frame [OF inv] midway_append [OF hand, where out = "if p = a then out q else []"]) simp_all
next
  case (ss_seqThread a qs out interval)
  then show ?thesis
    by (intro handledInv_frame [OF inv] midway_append [OF hand, where out = "if p = a then out q else []"]) simp_all
next
  case (ss_read a b x rest "from" junk svc)
  have c: "chan (base s) a b = x # rest" using ss_read(4,6) by (simp add: unread_def inHand_def)
  show ?thesis
  proof (cases "q = b")
    case True
    then show ?thesis using ss_read(1,4) inv c by (cases "p = a") (simp_all add: handledInv_def midway_def inHand_def)
  next
    case False
    then show ?thesis
      using ss_read(1) by (intro handledInv_frame [OF inv]) (simp_all add: midway_def inHand_def)
  qed
next
  case (ss_handle b a message x rest dropIt svc out)
  show ?thesis
  proof (cases "q = b")
    case True
    then show ?thesis using ss_handle(1,3,4) inv by (simp add: handledInv_def midway_def inHand_def)
  next
    case False
    then show ?thesis
      using ss_handle(1) by (intro handledInv_frame [OF inv]
          midway_append [OF hand, where out = "if p = b then outTo out q else []"]) auto
  qed
next
  case (ss_lose a b hs bs x cs)
  then show ?thesis
    by (intro handledInv_frame [OF inv] midway_behind [OF ss_lose(5,6), where ys = "bs @ cs"]) simp_all
next
  case (ss_duplicate a b hs bs x cs)
  then show ?thesis
    by (intro handledInv_frame [OF inv] midway_behind [OF ss_duplicate(5,6), where ys = "bs @ x # x # cs"]) simp_all
next
  case (ss_overtake y x a b hs bs cs)
  then show ?thesis
    by (intro handledInv_frame [OF inv] midway_behind [OF ss_overtake(5,6), where ys = "bs @ y # x # cs"]) simp_all
qed (intro handledInv_frame [OF inv]; simp add: midway_def inHand_def)+

lemma midway_cut:
  assumes "handledInv s p q" and "cutAt t q = cutAt (recordCut q s) q" and "cutAt t q = Some cq"
  shows "cutHandled cq p"
proof -
  have "c_read cq p = c_handled cq p @ midway s p q" "c_hand cq = map_option fst (hand s q)"
    using assms by (auto simp: handledInv_def)
  then show ?thesis unfolding cutHandled_def
    by (intro exI [of _ "midway s p q"]) (auto simp: midway_def inHand_def)
qed

lemma sreach_handled:
  assumes "sreach hosts en initiators D s"
  shows "(\<forall>p q. handledInv s p q) \<and> (\<forall>p q cq. cutAt s q = Some cq \<longrightarrow> cutHandled cq p)"
  using assms
proof (induction rule: sreach.induct)
  case sr_init
  show ?case by (simp add: handledInv_def initSnapSys_def midway_def inHand_def)
next
  case (sr_step s t)
  have hand: "handInv hosts s" using sreach_mreach [OF sr_step(1)] by simp
  have old: "handledInv s p q" "cutAt s q = Some cq \<Longrightarrow> cutHandled cq p" for p q cq
    using sr_step.IH by blast+
  have "cutAt t q = cutAt s q \<or> cutAt t q = cutAt (recordCut q s) q" for q
    using sr_step(2) by cases auto
  then have "cutHandled cq p" if "cutAt t q = Some cq" for p q cq
    using midway_cut [OF old(1) _ that] old(2) that by metis
  moreover have "handledInv t p q" for p q by (rule sstep_handledInv [OF sr_step(2) hand old(1)])
  ultimately show ?case by blast
qed

section \<open>Consistent and exact global states\<close>


text \<open>
  C7: consistency. If there is one initiator, the sequence numbers do not overflow, datagrams and markers
  arrive in order and no datagram is sent between a local snapshot and its markers, then, with losses
  and duplicates as well, the snapshot contains no effect without its cause: whenever two processes
  have taken their snapshots, every datagram that one has read from the other before its cut, and so
  every one that its recorded state has the effect of, was sent before the cut of the other.
\<close>

theorem snapshot_consistent:
  assumes "valid_hosts hosts" and "sreach hosts en {i} D s" and "smallRun hosts (base s)"
    and "inOrder D" and "quiet D" and "p \<in> set hosts" and "q \<in> set hosts" and "p \<noteq> q"
    and cp: "cutAt s p = Some cp" and cq: "cutAt s q = Some cq"
  shows "set (c_handled cq p) \<subseteq> set (c_read cq p) \<and> set (c_read cq p) \<subseteq> set (c_sent cp q)"
proof
  show "set (c_handled cq p) \<subseteq> set (c_read cq p)"
    using sreach_handled [OF assms(2)] cq unfolding cutHandled_def by (metis Un_upper1 set_append)
  have d: "distinct hosts" using assms(1) by (simp add: valid_hosts_def)
  note ctl = sreach_ctlInv [OF assms(2) d]
  have flow: "flowInv D s p q" and held: "recordInv en D s p q"
    using sreach_recordInv [OF assms(2,4,5,1,3)] assms(6,7) by blast+
  have sub: "fits e (xs @ ys) zs \<Longrightarrow> set xs \<subseteq> set zs" for e and xs ys zs :: "byte list list"
    by (auto simp: fits_def split: if_splits)
  show "set (c_read cq p) \<subseteq> set (c_sent cp q)"
  proof (cases "p \<in> set (accepted s q)")
    case True
    with held obtain ca cb r where "cutAt s p = Some ca" "cutAt s q = Some cb"
      "fits (reliable D) (c_read cb p @ r) (c_sent ca q)" by (rule recordInvD)
    then show ?thesis using cp cq sub by (metis option.inject)
  next
    case False
    have "accepted s q = [] \<or> hd (accepted s q) \<noteq> p" using False by (cases "accepted s q") auto
    then have "p \<in> channelsToBeRecorded (snaps s q)"
      using sreach_cutInv [OF assms(2) d assms(7)] cq assms(6,8) False by (auto simp: cutInv_def)
    then obtain r where "readFrom s q p = c_read cq p @ r" using held cq by (auto simp: recordInv_def)
    then have "set (c_read cq p) \<subseteq> set (readFrom s q p)" by simp
    moreover have "outbox s p \<noteq> [] \<or> (\<exists>k m. (k, m) \<in> set (flight s p q))"
      using ctlInvD(3) [OF ctl assms(6,7)] False cp assms(8)
      by (cases "flight s p q") (auto simp: pairInv_def markersBetween_def count_list_0_iff)
    then have "set (readFrom s q p) \<subseteq> set (c_sent cp q)"
      using flowInvD(1) [OF flow] flowInvD(2) [OF flow cp] flowInvD(4) [OF flow cp] sub by metis
    ultimately show ?thesis by simp
  qed
qed

end
