(* ===== verification/SnapshotRuns.thy ===== *)
theory SnapshotRuns
  imports SnapshotConsistent
begin

text \<open>
  Concrete runs of the services of lab1 with a snapshot: one in which a message is in flight and is
  recorded, and the runs that the guarantees of \<open>SnapshotConsistent\<close> rule out and the code allows,
  after which the snapshot is not consistent or misses a message.
\<close>

section \<open>A scheduler\<close>

datatype snapStep =
    SMulticast hostname u32
  | SDataThread hostname
  | SRead hostname hostname
  | SHandle hostname bool
  | SInitiate hostname
  | STakeSnapshot hostname
  | SSendMarker hostname
  | SMarker hostname hostname
  | SMarkerDone hostname hostname

text \<open>The printed state of a service that has handled no message: its tables are empty.\<close>

definition emptyPrinting :: printing where
  "emptyPrinting = \<lparr>pr_dataName = ''Data'', pr_seqName = ''Seq'', pr_dropRate = ''0'', pr_messageDelay = 0,
     pr_recipients = (\<lambda>_. []), pr_msgIds = [], pr_proposals = (\<lambda>_. []), pr_acks = []\<rparr>"

definition printedState :: "MulticastService \<Rightarrow> string" where
  "printedState svc = (case getCurrentState emptyPrinting svc of Inr t \<Rightarrow> t | Inl e \<Rightarrow> [])"

definition emptyTables :: "MulticastService \<Rightarrow> bool" where
  "emptyTables svc \<longleftrightarrow> proposedSeqIdMap svc = Map.empty \<and> ackMessageCache svc = Map.empty"

lemma printedState:
  assumes "emptyTables svc"
  shows "enumerates emptyPrinting svc" and "getCurrentState emptyPrinting svc = Inr (printedState svc)"
proof -
  show e: "enumerates emptyPrinting svc"
    using assms by (simp add: enumerates_def emptyPrinting_def emptyTables_def)
  show "getCurrentState emptyPrinting svc = Inr (printedState svc)"
    using getCurrentState_total [OF e] by (auto simp: printedState_def)
qed

fun applyStep ::
  "hostname list \<Rightarrow> (hostname \<Rightarrow> endian) \<Rightarrow> discipline \<Rightarrow> snapStep \<Rightarrow> snapSys \<Rightarrow> snapSys option" where
  "applyStep hosts en D (SMulticast p data) s =
     (if p \<in> set hosts
      then Some (s\<lparr>base := (setNode p (multicast (en p) data (nodes (base s) p)) (base s))\<lparr>casts := (casts (base s))
        (p := casts (base s) p @ [fst (createDataMessage data (nodes (base s) p))])\<rparr>\<rparr>)
      else None)"
| "applyStep hosts en D (SDataThread p) s =
     (case senderStep (dataMsgSender (nodes (base s) p)) of
        Some (Inr (ds, out, interval)) \<Rightarrow>
          (if p \<in> set hosts \<and> (quiet D \<longrightarrow> outbox s p = [])
           then Some (s\<lparr>base := afterSend p ((nodes (base s) p)\<lparr>dataMsgSender := ds\<rparr>) out (base s),
             sentTo := transmit p out (sentTo s)\<rparr>)
           else None)
      | _ \<Rightarrow> None)"
| "applyStep hosts en D (SRead p q) s =
     (case unread s p q of
        [] \<Rightarrow> None
      | b # rest \<Rightarrow>
          (case recordIncomingMessages (en q) (received b [] p) (snaps s q) of
             Inr svc \<Rightarrow>
               (if p \<in> set hosts \<and> q \<in> set hosts \<and> hand s q = None \<and> outbox s q = [] \<and>
                  parseHostnameFromSender p = p \<and>
                  (inOrder D \<longrightarrow> p \<notin> set (handling s q) \<and> (\<forall>m \<in> set (flight s p q). 0 < fst m))
                then Some (setFlight p q (map (\<lambda>(k, m). (k - 1, m)) (flight s p q))
                  (s\<lparr>snaps := (snaps s)(q := svc), hand := (hand s)(q \<mapsto> (p, received b [] p)),
                     readFrom := (readFrom s)(q := (readFrom s q)(p := readFrom s q p @ [b]))\<rparr>))
                else None)
           | Inl e \<Rightarrow> None))"
| "applyStep hosts en D (SHandle q dropIt) s =
     (case hand s q of
        None \<Rightarrow> None
      | Some (p, message) \<Rightarrow>
          (case chan (base s) p q of
             [] \<Rightarrow> None
           | b # rest \<Rightarrow>
               (case listenStep (en q) acceptAll dropIt message (nodes (base s) q, ()) of
                  Inr ((svc, u), out) \<Rightarrow>
                    (if q \<in> set hosts \<and> (quiet D \<longrightarrow> outbox s q = [])
                     then Some (s\<lparr>base := afterReceive p q rest svc out (base s), hand := (hand s)(q := None),
                       sentTo := transmit q (outTo out) (sentTo s),
                       handledFrom := (handledFrom s)(q := (handledFrom s q)(p := handledFrom s q p @ [b]))\<rparr>)
                     else None)
                | Inl e \<Rightarrow> None)))"
| "applyStep hosts en D (SInitiate q) s =
     (if q \<in> set hosts \<and> mainAt s q = SendingMessages \<and> \<not> flagLock s q
      then Some (s\<lparr>snaps := (snaps s)(q := markInitiated (snaps s q)), mainAt := (mainAt s)(q := FlagSet)\<rparr>)
      else None)"
| "applyStep hosts en D (STakeSnapshot q) s =
     (case takeSnapshot (en q) (printedState (nodes (base s) q)) (snaps s q) of
        (svc, ms) \<Rightarrow>
          (if q \<in> set hosts \<and> mainAt s q = FlagSet \<and> outbox s q = []
           then Some ((recordCut q s)\<lparr>snaps := (snaps s)(q := svc), mainAt := (mainAt s)(q := SnapshotTaken),
             outbox := (outbox s)(q := ms)\<rparr>)
           else None))"
| "applyStep hosts en D (SSendMarker p) s =
     (case outbox s p of
        [] \<Rightarrow> None
      | (q, m) # ms \<Rightarrow>
          (if p \<in> set hosts
           then Some (setFlight p q (flight s p q @ [(length (unread s p q), m)])
             (s\<lparr>outbox := (outbox s)(p := ms), flagLock := (flagLock s)(p := flagLock s p \<and> ms \<noteq> [])\<rparr>))
           else None))"
| "applyStep hosts en D (SMarker p q) s =
     (case flight s p q of
        [] \<Rightarrow> None
      | (k, m) # ms' \<Rightarrow>
          (case markerReceived (en q) (received m [] p) (printedState (nodes (base s) q)) (snaps s q) of
             Inr (svc, out) \<Rightarrow>
               (if p \<in> set hosts \<and> q \<in> set hosts \<and> (inOrder D \<longrightarrow> k = 0) \<and>
                  length (accepted s q) < length (allPeers (snaps s q)) \<and> \<not> flagLock s q \<and>
                  (snapshotInitiated (snaps s q) \<or> outbox s q = []) \<and> parseHostnameFromSender p = p
                then Some (setFlight p q ms'
                  ((if snapshotInitiated (snaps s q) then s else recordCut q s)
                    \<lparr>snaps := (snaps s)(q := svc), outbox := (outbox s)(q := outbox s q @ out),
                     flagLock := (flagLock s)(q := \<not> snapshotInitiated (snaps s q) \<and> out \<noteq> []),
                     accepted := (accepted s)(q := accepted s q @ [p]),
                     handling := (handling s)(q := handling s q @ [p])\<rparr>))
                else None)
           | Inl e \<Rightarrow> None))"
| "applyStep hosts en D (SMarkerDone q p) s =
     (if q \<in> set hosts \<and> p \<in> set (handling s q) \<and> outbox s q = []
      then Some (s\<lparr>snaps := (snaps s)(q := stopRecording p (snaps s q)),
        handling := (handling s)(q := remove1 p (handling s q))\<rparr>)
      else None)"

text \<open>The scheduler prints only services with empty tables.\<close>

fun printsEmpty :: "snapStep \<Rightarrow> snapSys \<Rightarrow> bool" where
  "printsEmpty (STakeSnapshot q) s = emptyTables (nodes (base s) q)"
| "printsEmpty (SMarker p q) s = emptyTables (nodes (base s) q)"
| "printsEmpty _ s = True"

lemma applyStep_sstep:
  assumes "applyStep hosts en D ev s = Some t" and "printsEmpty ev s" and "\<And>q. ev = SInitiate q \<Longrightarrow> q \<in> initiators"
  shows "sstep hosts en initiators D s t"
proof (cases ev)
  case (SMulticast p data)
  with assms show ?thesis by (auto split: if_splits intro: ss_multicast)
next
  case (SDataThread p)
  with assms show ?thesis by (auto split: if_splits option.splits sum.splits intro: ss_dataThread)
next
  case (SRead p q)
  with assms(1) obtain b rest svc where r: "unread s p q = b # rest"
    "recordIncomingMessages (en q) (received b [] p) (snaps s q) = Inr svc"
    by (auto split: list.splits sum.splits)
  with SRead assms(1) show ?thesis
    using ss_read [of p hosts q s b rest p D en "[]" svc initiators] by (auto split: if_splits)
next
  case (SHandle q dropIt)
  with assms show ?thesis by (auto split: if_splits list.splits sum.splits option.splits intro!: ss_handle)
next
  case (SInitiate q)
  with assms show ?thesis by (auto split: if_splits intro!: ss_initiate)
next
  case (STakeSnapshot q)
  with assms show ?thesis
    by (auto split: if_splits prod.splits intro!: ss_takeSnapshot printedState)
next
  case (SSendMarker p)
  with assms show ?thesis by (auto split: if_splits list.splits intro!: ss_sendMarker)
next
  case (SMarker p q)
  then obtain k m ms' svc out where m: "flight s p q = [] @ (k, m) # ms'"
    "markerReceived (en q) (received m [] p) (printedState (nodes (base s) q)) (snaps s q) = Inr (svc, out)"
    "p \<in> set hosts" "q \<in> set hosts" "inOrder D \<longrightarrow> k = 0" "length (accepted s q) < length (allPeers (snaps s q))"
    "\<not> flagLock s q" "snapshotInitiated (snaps s q) \<or> outbox s q = []" "parseHostnameFromSender p = p"
    "t = setFlight p q ([] @ ms')
      ((if snapshotInitiated (snaps s q) then s else recordCut q s)
        \<lparr>snaps := (snaps s)(q := svc), outbox := (outbox s)(q := outbox s q @ out),
         flagLock := (flagLock s)(q := \<not> snapshotInitiated (snaps s q) \<and> out \<noteq> []),
         accepted := (accepted s)(q := accepted s q @ [p]),
         handling := (handling s)(q := handling s q @ [p])\<rparr>)"
    using assms(1) by (auto split: list.splits sum.splits if_splits)
  have "emptyTables (nodes (base s) q)" using assms(2) SMarker by simp
  from ss_marker [of p hosts q s "[]" k m ms' D p emptyPrinting "printedState (nodes (base s) q)"
      en "[]" svc out initiators, OF m(3,4,1,5-9) printedState [OF this] m(2)]
  show ?thesis unfolding m(10) .
next
  case (SMarkerDone q p)
  with assms show ?thesis by (auto split: if_splits intro!: ss_markerDone)
qed

fun runSteps ::
  "hostname list \<Rightarrow> (hostname \<Rightarrow> endian) \<Rightarrow> discipline \<Rightarrow> snapStep list \<Rightarrow> snapSys \<Rightarrow> snapSys option" where
  "runSteps hosts en D [] s = Some s"
| "runSteps hosts en D (ev # evs) s =
     (if printsEmpty ev s
      then (case applyStep hosts en D ev s of None \<Rightarrow> None | Some t \<Rightarrow> runSteps hosts en D evs t)
      else None)"

lemma runSteps_sreach:
  assumes "runSteps hosts en D evs s = Some t" and "sreach hosts en initiators D s"
    and "\<And>q. SInitiate q \<in> set evs \<Longrightarrow> q \<in> initiators"
  shows "sreach hosts en initiators D t"
  using assms
proof (induction evs arbitrary: s)
  case (Cons ev evs)
  then obtain u where u: "applyStep hosts en D ev s = Some u" "printsEmpty ev s"
    "runSteps hosts en D evs u = Some t"
    by (auto split: option.splits if_splits)
  have "sstep hosts en initiators D s u" using applyStep_sstep [OF u(1,2)] Cons.prems(3) by auto
  then show ?case using Cons.IH [OF u(3)] Cons.prems sr_step by auto
qed simp

section \<open>A message in flight is recorded\<close>

definition allGuarantees :: discipline where
  "allGuarantees = \<lparr>inOrder = True, quiet = True, reliable = True, overtakes = anyOrder\<rparr>"

definition notOrdered :: discipline where
  "notOrdered = \<lparr>inOrder = False, quiet = True, reliable = True, overtakes = anyOrder\<rparr>"

definition notQuiet :: discipline where
  "notQuiet = \<lparr>inOrder = True, quiet = False, reliable = True, overtakes = anyOrder\<rparr>"

lemma recordIncoming_run:
  assumes "typed k"
  shows "recordIncomingMessages en (received (wire k) [] p) svc =
    (if parseHostnameFromSender p \<in> channelsToBeRecorded svc
     then rbind (map_at (incomingChannels svc) (parseHostnameFromSender p)) (\<lambda>st. Inr (svc\<lparr>incomingChannels :=
       (incomingChannels svc)(parseHostnameFromSender p \<mapsto> st\<lparr>messages := messages st @ [packetText k]\<rparr>)\<rparr>))
     else Inr svc)"
proof -
  obtain t where "showMessageType (messageTypeOf (packet_type k)) = Inr t" using showMessageType_wire [OF assms] by blast
  then show ?thesis
    by (simp add: recordIncomingMessages_def getParsedSender_def recordMessage_def getMessageType_wire
        messageText_wire [OF assms] Let_def)
qed

lemma markerReceived_run:
  "markerReceived en (received (markerBytes i) [] p) stateNow svc =
     (if \<not> snapshotInitiated svc
      then rbind (remainingPeers (allPeers svc) (parseHostnameFromSender p)) (\<lambda>remaining.
             let (svc, sent) = takeLocalSnapshot en stateNow remaining svc
             in Inr (svc\<lparr>snapshotInitiated := True\<rparr>, sent))
      else Inr (svc, []))"
  by (simp add: markerReceived_def marker_wire getParsedSender_def)

lemma sendMarkers_run:
  "sendMarkerMessageToPeers en svc = map (\<lambda>peer. (peer, markerBytes (ss_senderId svc))) (allPeers svc)"
  by (simp add: sendMarkerMessageToPeers_def Let_def createMarkerMessage_def marker_codec.ser_image
      markerBytes_def fieldsMarkerMessage_def)

lemmas snap_defs = initSnapSys_def startSnapshotService_def newSnapshotService_def getPeerContainerHostnames_def
  unread_def inHand_def afterSend_def afterReceive_def recordCut_def setFlight_def markInitiated_def takeSnapshot_def
  takeLocalSnapshot_def sendMarkers_run recordIncoming_run markerReceived_run remainingPeers_def
  parseHostnameFromSender_def newIncomingChannelState_def stopRecording_def recordedTexts_def emptyTables_def
  allGuarantees_def notOrdered_def notQuiet_def

definition inFlightSteps :: "snapStep list" where
  "inFlightSteps =
    [SMulticast ''b'' 12, SInitiate ''a'', STakeSnapshot ''a'', SDataThread ''b'', SDataThread ''b'',
     SSendMarker ''a'', SMarker ''a'' ''b'', SSendMarker ''b'', SMarkerDone ''b'' ''a'',
     SRead ''b'' ''a'', SMarker ''b'' ''a'', SMarkerDone ''a'' ''b'', SHandle ''a'' False]"

lemma inFlight_run:
  "\<exists>s. runSteps exampleHosts exampleEndian allGuarantees inFlightSteps (initSnapSys exampleHosts) = Some s \<and>
    accepted s ''a'' = [''b''] \<and> casts (base s) ''a'' = [] \<and> casts (base s) ''b'' = [exampleData ! 1] \<and>
    recordedTexts (snaps s ''a'') ''b'' = [showDataMessage (exampleData ! 1)]"
  by (simp add: run_defs snap_defs inFlightSteps_def exampleData_def del: less_PendKey_simps)

lemma inFlight_reach:
  obtains s where "sreach exampleHosts exampleEndian {''a''} allGuarantees s" and "smallRun exampleHosts (base s)"
    and "''b'' \<in> set (accepted s ''a'')" and "recordedTexts (snaps s ''a'') ''b'' = [showDataMessage (exampleData ! 1)]"
proof -
  obtain s where s: "runSteps exampleHosts exampleEndian allGuarantees inFlightSteps (initSnapSys exampleHosts) = Some s"
    "accepted s ''a'' = [''b'']" "casts (base s) ''a'' = []" "casts (base s) ''b'' = [exampleData ! 1]"
    "recordedTexts (snaps s ''a'') ''b'' = [showDataMessage (exampleData ! 1)]"
    using inFlight_run by blast
  have "sreach exampleHosts exampleEndian {''a''} allGuarantees s"
    by (rule runSteps_sreach [OF s(1) sr_init]) (simp add: inFlightSteps_def)
  moreover have "smallRun exampleHosts (base s)"
    by (simp add: smallRun_def totalCasts_def exampleHosts_def s)
  ultimately show thesis using that s by simp
qed


theorem snapshot_consistent_witness:
  "\<exists>s ca cb. sreach exampleHosts exampleEndian {''a''} allGuarantees s \<and>
    cutAt s ''b'' = Some cb \<and> cutAt s ''a'' = Some ca \<and> set (c_read ca ''b'') \<subseteq> set (c_sent cb ''a'')"
proof -
  obtain s where s: "sreach exampleHosts exampleEndian {''a''} allGuarantees s" "smallRun exampleHosts (base s)"
    "''b'' \<in> set (accepted s ''a'')"
    by (rule inFlight_reach)
  have g: "inOrder allGuarantees" "quiet allGuarantees" by (simp_all add: allGuarantees_def)
  have h: "''b'' \<in> set exampleHosts" "''a'' \<in> set exampleHosts" "''b'' \<noteq> ''a''" by (simp_all add: exampleHosts_def)
  have d: "distinct exampleHosts" using example_small(1) by (simp add: valid_hosts_def)
  note ctl = sreach_ctlInv [OF s(1) d]
  obtain ca where ca: "cutAt s ''a'' = Some ca" using ctlInvD(2) [OF ctl h(2)] s(3) by (auto simp: hostInv_def)
  have "count_list (accepted s ''a'') ''b'' \<noteq> 0" using s(3) by (simp add: count_list_0_iff)
  then obtain cb where cb: "cutAt s ''b'' = Some cb"
    using ctlInvD(3) [OF ctl h(1,2)] by (auto simp: pairInv_def markersBetween_def split: if_splits)
  from snapshot_consistent [OF example_small(1) s(1,2) g h cb ca] s(1) ca cb show ?thesis by blast
qed

section \<open>The two services together\<close>

definition onlyDataFirst :: discipline where
  "onlyDataFirst = \<lparr>inOrder = False, quiet = False, reliable = False, overtakes = exampleOrder\<rparr>"

lemma onlyDataFirst_simps [simp]: "mayOvertake onlyDataFirst = exampleOrder" "\<not> reliable onlyDataFirst"
  by (simp_all add: fun_eq_iff mayOvertake_def onlyDataFirst_def)

theorem callback_does_not_fault_witness:
  "\<exists>s svc snap out. sreach exampleHosts exampleEndian {''a''} onlyDataFirst s \<and>
    listenStep BigEndian (recordIncomingMessages BigEndian) True
      (received (wire (PData (exampleData ! 0))) [] ''a'') (nodes (base s) ''b'', snaps s ''b'') =
      Inr ((svc, snap), out)"
proof -
  obtain u where u: "runEvents exampleHosts exampleEndian exampleOrder (take 4 exampleEvents) (initSys exampleHosts) = Some u"
    "casts u ''a'' = [exampleData ! 0]" "casts u ''b'' = [exampleData ! 1]"
    "chan u ''a'' ''b'' = [wire (PData (exampleData ! 0))]"
    using example_inFlight(2) by blast
  have r: "mreach exampleHosts exampleEndian exampleOrder u" using u(1) mr_init by (rule runEvents_mreach)
  have d: "distinct exampleHosts" using example_small(1) by (simp add: valid_hosts_def)
  obtain s where s: "sreach exampleHosts exampleEndian {''a''} onlyDataFirst s" "base s = u"
    using mreach_sreach [of exampleHosts exampleEndian onlyDataFirst u] r d example_names by auto
  have first: "dataFirst (mayOvertake onlyDataFirst)" by (simp add: exampleOrder_dataFirst)
  have small: "smallRun exampleHosts (base s)"
    using u(2,3) by (simp add: s(2) smallRun_def totalCasts_def exampleHosts_def)
  have h: "''a'' \<in> set exampleHosts" "''b'' \<in> set exampleHosts" by (simp_all add: exampleHosts_def)
  have "parseHostnameFromSender ''a'' = ''a''" by (simp add: parseHostnameFromSender_def)
  from callback_does_not_fault [OF example_small(1) s(1) first small h, of _ _ _ True "[]"] this
  have "\<exists>svc snap out. listenStep (exampleEndian ''b'') (recordIncomingMessages (exampleEndian ''b'')) True
      (received (wire (PData (exampleData ! 0))) [] ''a'') (nodes (base s) ''b'', snaps s ''b'') = Inr ((svc, snap), out)"
    using u(4) by (simp add: s(2))
  moreover have "exampleEndian ''b'' = BigEndian" by (simp add: exampleEndian_def)
  ultimately show ?thesis using s(1) by auto
qed

section \<open>What the guarantees are needed for\<close>

definition overtakingSteps :: "snapStep list" where
  "overtakingSteps =
    [SMulticast ''a'' 11, SInitiate ''a'', STakeSnapshot ''a'', SSendMarker ''a'', SDataThread ''a'', SDataThread ''a'',
     SRead ''a'' ''b'', SMarker ''a'' ''b'']"

text \<open>
  Without the order of datagrams and markers, and nothing else, the snapshot is not consistent:
  \<open>a\<close> has not sent anything at its cut, and \<open>b\<close> has received a message from it at its own.
\<close>

theorem unordered_snapshot_inconsistent:
  "\<exists>s ca cb. sreach exampleHosts exampleEndian {''a''} notOrdered s \<and>
    cutAt s ''a'' = Some ca \<and> cutAt s ''b'' = Some cb \<and> c_sent ca ''b'' = [] \<and>
    c_read cb ''a'' = [wire (PData (exampleData ! 0))]"
proof -
  have "\<exists>s. runSteps exampleHosts exampleEndian notOrdered overtakingSteps (initSnapSys exampleHosts) = Some s \<and>
    (\<exists>ca cb. cutAt s ''a'' = Some ca \<and> cutAt s ''b'' = Some cb \<and> c_sent ca ''b'' = [] \<and>
      c_read cb ''a'' = [wire (PData (exampleData ! 0))])"
    by (simp add: run_defs snap_defs overtakingSteps_def exampleData_def del: less_PendKey_simps)
  then obtain s where s: "runSteps exampleHosts exampleEndian notOrdered overtakingSteps (initSnapSys exampleHosts) = Some s"
    "\<exists>ca cb. cutAt s ''a'' = Some ca \<and> cutAt s ''b'' = Some cb \<and> c_sent ca ''b'' = [] \<and>
      c_read cb ''a'' = [wire (PData (exampleData ! 0))]" by blast
  have "sreach exampleHosts exampleEndian {''a''} notOrdered s"
    by (rule runSteps_sreach [OF s(1) sr_init]) (simp add: overtakingSteps_def)
  with s(2) show ?thesis by blast
qed

definition betweenSteps :: "snapStep list" where
  "betweenSteps =
    [SMulticast ''a'' 11, SInitiate ''a'', STakeSnapshot ''a'', SDataThread ''a'', SDataThread ''a'', SSendMarker ''a'',
     SRead ''a'' ''b'', SMarker ''a'' ''b'']"

text \<open>
  C38: even with the order: \<open>takeSnapshot\<close> stores the local state and then sends the markers, one
  connection after the other, and the sending threads run on meanwhile. A data message that leaves
  between the two is received before the marker and is not in the state of its sender.
\<close>

theorem sending_during_snapshot_inconsistent:
  "\<exists>s ca cb. sreach exampleHosts exampleEndian {''a''} notQuiet s \<and>
    cutAt s ''a'' = Some ca \<and> cutAt s ''b'' = Some cb \<and> c_sent ca ''b'' = [] \<and>
    c_read cb ''a'' = [wire (PData (exampleData ! 0))]"
proof -
  have "\<exists>s. runSteps exampleHosts exampleEndian notQuiet betweenSteps (initSnapSys exampleHosts) = Some s \<and>
    (\<exists>ca cb. cutAt s ''a'' = Some ca \<and> cutAt s ''b'' = Some cb \<and> c_sent ca ''b'' = [] \<and>
      c_read cb ''a'' = [wire (PData (exampleData ! 0))])"
    by (simp add: run_defs snap_defs betweenSteps_def exampleData_def del: less_PendKey_simps)
  then obtain s where s: "runSteps exampleHosts exampleEndian notQuiet betweenSteps (initSnapSys exampleHosts) = Some s"
    "\<exists>ca cb. cutAt s ''a'' = Some ca \<and> cutAt s ''b'' = Some cb \<and> c_sent ca ''b'' = [] \<and>
      c_read cb ''a'' = [wire (PData (exampleData ! 0))]" by blast
  have "sreach exampleHosts exampleEndian {''a''} notQuiet s"
    by (rule runSteps_sreach [OF s(1) sr_init]) (simp add: betweenSteps_def)
  with s(2) show ?thesis by blast
qed

definition inHandSteps :: "snapStep list" where
  "inHandSteps =
    [SMulticast ''a'' 11, SDataThread ''a'', SDataThread ''a'', SInitiate ''a'', STakeSnapshot ''a'', SSendMarker ''a'',
     SRead ''a'' ''b'', SMarker ''a'' ''b'', SSendMarker ''b'', SHandle ''b'' False, SMarkerDone ''b'' ''a'']"

text \<open>
  Even with all guarantees a snapshot can miss a message. The receiving loop calls the callback
  and handles the message afterwards, and holds no lock in between: when the local snapshot is taken
  there, the message is neither recorded nor in the state of the service, and it is handled later.
\<close>

theorem message_between_callback_and_handling_missed:
  "\<exists>s ca cb. sreach exampleHosts exampleEndian {''a''} allGuarantees s \<and>
    cutAt s ''a'' = Some ca \<and> cutAt s ''b'' = Some cb \<and> c_sent ca ''b'' = [wire (PData (exampleData ! 0))] \<and>
    deque (holdBackQueue (c_node cb)) = [] \<and> recordedTexts (snaps s ''b'') ''a'' = [] \<and>
    ''a'' \<notin> channelsToBeRecorded (snaps s ''b'') \<and>
    map dataMsg (deque (holdBackQueue (nodes (base s) ''b''))) = [exampleData ! 0]"
proof -
  let ?result = "\<lambda>s. \<exists>ca cb. cutAt s ''a'' = Some ca \<and> cutAt s ''b'' = Some cb \<and>
    c_sent ca ''b'' = [wire (PData (exampleData ! 0))] \<and> deque (holdBackQueue (c_node cb)) = [] \<and>
    recordedTexts (snaps s ''b'') ''a'' = [] \<and> ''a'' \<notin> channelsToBeRecorded (snaps s ''b'') \<and>
    map dataMsg (deque (holdBackQueue (nodes (base s) ''b''))) = [exampleData ! 0]"
  have "\<exists>s. runSteps exampleHosts exampleEndian allGuarantees inHandSteps (initSnapSys exampleHosts) = Some s \<and> ?result s"
    by (simp add: run_defs snap_defs inHandSteps_def exampleData_def del: less_PendKey_simps)
  then obtain s where s: "runSteps exampleHosts exampleEndian allGuarantees inHandSteps (initSnapSys exampleHosts) = Some s"
    "?result s" by - (erule exE, erule conjE, rule that)
  have "sreach exampleHosts exampleEndian {''a''} allGuarantees s"
    by (rule runSteps_sreach [OF s(1) sr_init]) (simp add: inHandSteps_def)
  with s(2) show ?thesis by (elim exE conjE) (intro exI conjI; assumption)
qed

end
