(* ===== verification/Net.thy ===== *)
theory Net
  imports Codec
begin

text \<open>
  The sockets of lab2 (\<open>network_utils.h\<close>, \<open>network_utils.cpp\<close>). The operating system is given by what
  its calls return: the record \<open>Network\<close> holds, for every file descriptor, host name and server, the
  results of the successive calls, and the log of what was sent. A script that is used up stands for
  a call that does not return (\<open>Blocked\<close>). Operations that can throw and that change the state are
  functions from a state to a result and a state; the state survives an exception.
\<close>

section \<open>Operations with state and exceptions\<close>

type_synonym ('a, 's) act = "'s \<Rightarrow> 'a res \<times> 's"

definition ret :: "'a \<Rightarrow> ('a, 's) act" where
  "ret x s = (Inr x, s)"

definition andThen :: "('a, 's) act \<Rightarrow> ('a \<Rightarrow> ('b, 's) act) \<Rightarrow> ('b, 's) act" where
  "andThen m f s = (case m s of (Inl e, s') \<Rightarrow> (Inl e, s') | (Inr x, s') \<Rightarrow> f x s')"

definition lift :: "'a res \<Rightarrow> ('a, 's) act" where
  "lift r s = (r, s)"

definition get :: "('s \<Rightarrow> 'a) \<Rightarrow> ('a, 's) act" where
  "get f s = (Inr (f s), s)"

definition modify :: "('s \<Rightarrow> 's) \<Rightarrow> (unit, 's) act" where
  "modify f s = (Inr (), f s)"

fun forEach :: "'b list \<Rightarrow> ('b \<Rightarrow> (unit, 's) act) \<Rightarrow> (unit, 's) act" where
  "forEach [] body = ret ()"
| "forEach (x # xs) body = andThen (body x) (\<lambda>_. forEach xs body)"

text \<open>\<open>catch\<close> of a class of exceptions.\<close>

definition catching :: "(fault \<Rightarrow> bool) \<Rightarrow> ('a, 's) act \<Rightarrow> ('a, 's) act \<Rightarrow> ('a, 's) act" where
  "catching cls m h s = (case m s of (Inl e, s') \<Rightarrow> (if cls e then h s' else (Inl e, s')) | r \<Rightarrow> r)"

definition isRuntimeError :: "fault \<Rightarrow> bool" where
  "isRuntimeError e \<longleftrightarrow> e = RuntimeError \<or> e = TransportException"

definition isTransportException :: "fault \<Rightarrow> bool" where
  "isTransportException e \<longleftrightarrow> e = TransportException"

named_theorems act_simps "sequencing of operations with state"

lemma act_basic [act_simps]:
  "ret x s = (Inr x, s)" "lift r s = (r, s)" "get f s = (Inr (f s), s)" "modify g s = (Inr (), g s)"
  by (simp_all add: ret_def lift_def get_def modify_def)

lemma andThen_apply [act_simps]:
  "m s = (Inr x, s') \<Longrightarrow> andThen m f s = f x s'"
  "m s = (Inl e, s') \<Longrightarrow> andThen m f s = (Inl e, s')"
  by (simp_all add: andThen_def)

lemma andThen_simps [act_simps]:
  "andThen (ret x) f s = f x s"
  "andThen (lift (Inr x)) f s = f x s"
  "andThen (lift (Inl e)) f s = (Inl e, s)"
  "andThen (get g) f s = f (g s) s"
  "andThen (modify h) k s = k () (h s)"
  by (simp_all add: andThen_def act_basic)

lemma andThen_assoc: "andThen (andThen m f) g = andThen m (\<lambda>x. andThen (f x) g)"
  by (auto simp: andThen_def fun_eq_iff split: prod.splits sum.splits)

lemma andThen_eq_Inr:
  "andThen m f s = (Inr y, s'') \<longleftrightarrow> (\<exists>x s'. m s = (Inr x, s') \<and> f x s' = (Inr y, s''))"
  by (auto simp: andThen_def split: prod.splits sum.splits)

lemma act_eq_Inr:
  "ret x s = (Inr y, s') \<longleftrightarrow> x = y \<and> s = s'"
  "lift r s = (Inr y, s') \<longleftrightarrow> r = Inr y \<and> s = s'"
  "get f s = (Inr y, s') \<longleftrightarrow> f s = y \<and> s = s'"
  "modify g s = (Inr u, s') \<longleftrightarrow> g s = s'"
  by (auto simp: act_basic)

lemma forEach_append: "forEach (xs @ ys) body = andThen (forEach xs body) (\<lambda>_. forEach ys body)"
proof (induction xs)
  case Nil
  show ?case by (simp add: fun_eq_iff andThen_simps)
next
  case (Cons x xs)
  then show ?case by (simp add: andThen_assoc)
qed

section \<open>The operating system\<close>

type_synonym fd = nat

text \<open>
  An attempt to get a socket for a host: the look-up of the name fails, or it gives addresses for
  which \<open>socket\<close> succeeds with a descriptor or fails; and whether \<open>connect\<close> then succeeds.
\<close>

datatype attempt = NoSuchHost | Addresses "fd option list" bool

record serverSetup =
  su_addresses :: attempt
  su_setsockopt :: bool
  su_bind :: bool
  su_listen :: bool

record Network =
  attempts :: "hostname \<Rightarrow> attempt list"
  servers :: "serverSetup list"
  accepts :: "(fd \<times> string \<times> nat) list"
  recvs :: "fd \<Rightarrow> byte list option list"
  sendFails :: "fd \<Rightarrow> bool"
  sent :: "(fd \<times> byte list) list"
  closed :: "fd list"
  memory :: "byte list"

record TcpClient =
  tc_hostname :: string
  tc_port :: nat
  tc_sockFd :: fd

section \<open>Connections\<close>

text \<open>The first address for which a socket can be created; \<open>-1\<close> (\<open>None\<close>) if there is none.\<close>

fun firstSocket :: "fd option list \<Rightarrow> fd option" where
  "firstSocket [] = None"
| "firstSocket (None # rs) = firstSocket rs"
| "firstSocket (Some sockFd # rs) = Some sockFd"

text \<open>
  \<open>bindSocketToFd\<close>. \<open>assigned\<close> tells whether \<open>*serverAddrInfo\<close> has been assigned (in this or an earlier
  call): if not, the \<open>CHECK\<close> at the end reads an indeterminate pointer.
\<close>

definition bindSocketToFd :: "bool \<Rightarrow> attempt \<Rightarrow> fd option res \<times> bool" where
  "bindSocketToFd assigned a =
     (case a of
        NoSuchHost \<Rightarrow> (Inl RuntimeError, assigned)
      | Addresses rs connects \<Rightarrow>
          (case firstSocket rs of
             Some sockFd \<Rightarrow> (Inr (Some sockFd), True)
           | None \<Rightarrow> (if assigned then Inr None else Inl UndefinedBehaviour, assigned)))"

fun connectOk :: "attempt \<Rightarrow> bool" where
  "connectOk NoSuchHost = False"
| "connectOk (Addresses rs connects) = connects"

text \<open>The loop of the constructor of \<open>TcpClient\<close>, from its iteration \<open>i\<close> on.\<close>

fun connectLoop :: "nat \<Rightarrow> nat \<Rightarrow> bool \<Rightarrow> attempt list \<Rightarrow> fd res \<times> attempt list" where
  "connectLoop i retryCount assigned [] = (Inl Blocked, [])"
| "connectLoop i retryCount assigned (a # as) =
     (case bindSocketToFd assigned a of
        (Inr (Some sockFd), assigned') \<Rightarrow>
          if connectOk a then (Inr sockFd, as)
          else if i \<ge> retryCount then (Inl RuntimeError, as) else connectLoop (Suc i) retryCount assigned' as
      | (Inr None, assigned') \<Rightarrow>
          if i \<ge> retryCount then (Inl RuntimeError, as) else connectLoop (Suc i) retryCount assigned' as
      | (Inl e, assigned') \<Rightarrow>
          if isRuntimeError e
          then if i \<ge> retryCount then (Inl e, as) else connectLoop (Suc i) retryCount assigned' as
          else (Inl e, as))"

definition newTcpClient :: "hostname \<Rightarrow> nat \<Rightarrow> nat \<Rightarrow> (TcpClient, 'z Network_scheme) act" where
  "newTcpClient hostname port retryCount s =
     (if hostname = [] then (Inl FatalLog, s)
      else (case connectLoop 0 retryCount False (attempts s hostname) of
              (r, as) \<Rightarrow>
                (rbind r (\<lambda>sockFd. Inr \<lparr>tc_hostname = hostname, tc_port = port, tc_sockFd = sockFd\<rparr>),
                 s\<lparr>attempts := (attempts s)(hostname := as)\<rparr>)))"

text \<open>The constructor for an accepted connection, and the accessor that cuts off the network name.\<close>

definition acceptedClient :: "fd \<Rightarrow> string \<Rightarrow> nat \<Rightarrow> TcpClient res" where
  "acceptedClient sockFd hostname port =
     (if hostname = [] then Inl FatalLog
      else Inr \<lparr>tc_hostname = hostname, tc_port = port, tc_sockFd = sockFd\<rparr>)"

definition clientHostname :: "TcpClient \<Rightarrow> string" where
  "clientHostname client = parseHostnameFromSender (tc_hostname client)"

definition tcpSend :: "TcpClient \<Rightarrow> byte list \<Rightarrow> (unit, 'z Network_scheme) act" where
  "tcpSend client buff s =
     (if sendFails s (tc_sockFd client) then (Inl TransportException, s)
      else (Inr (), s\<lparr>sent := sent s @ [(tc_sockFd client, buff)]\<rparr>))"

text \<open>
  \<open>recv\<close> yields \<open>-1\<close> (\<open>None\<close>), zero bytes when the peer has closed the connection, or a chunk of the
  stream of at most \<open>MAX_BUFFER_SIZE\<close> bytes, which need not coincide with a message.
\<close>

definition tcpReceive :: "TcpClient \<Rightarrow> (Message, 'z Network_scheme) act" where
  "tcpReceive client s =
     (case recvs s (tc_sockFd client) of
        [] \<Rightarrow> (Inl Blocked, s)
      | r # rs \<Rightarrow>
          (let s = s\<lparr>recvs := (recvs s)(tc_sockFd client := rs)\<rparr>
           in case r of
                None \<Rightarrow> (Inl TransportException, s)
              | Some bs \<Rightarrow> if bs = [] then (Inl TransportException, s)
                           else (Inr (received bs (memory s) (tc_hostname client)), s)))"

section \<open>Servers\<close>

definition serverSocket :: "serverSetup \<Rightarrow> fd res" where
  "serverSocket su =
     rbind (fst (bindSocketToFd False (su_addresses su))) (\<lambda>r.
       case r of
         None \<Rightarrow> Inl CheckFailed
       | Some sockFd \<Rightarrow>
           rbind (check (su_setsockopt su)) (\<lambda>_.
           rbind (check (su_bind su)) (\<lambda>_.
           rbind (check (su_listen su)) (\<lambda>_. Inr sockFd))))"

definition newTcpServer :: "(fd, 'z Network_scheme) act" where
  "newTcpServer s =
     (case servers s of
        [] \<Rightarrow> (Inl Blocked, s)
      | su # sus \<Rightarrow> (serverSocket su, s\<lparr>servers := sus\<rparr>))"

definition tcpAccept :: "(TcpClient, 'z Network_scheme) act" where
  "tcpAccept s =
     (case accepts s of
        [] \<Rightarrow> (Inl Blocked, s)
      | (sockFd, hostname, port) # as \<Rightarrow> (acceptedClient sockFd hostname port, s\<lparr>accepts := as\<rparr>))"

section \<open>Datagrams\<close>

text \<open>
  The constructor of \<open>UDPSender\<close>: a name that cannot be resolved is tried again, a socket that cannot
  be created is a failed \<open>CHECK\<close>.
\<close>

definition udpSenderSocket :: "attempt \<Rightarrow> fd res" where
  "udpSenderSocket a =
     (case a of
        NoSuchHost \<Rightarrow> Inl RuntimeError
      | Addresses rs connects \<Rightarrow>
          (case firstSocket rs of None \<Rightarrow> Inl CheckFailed | Some sendFD \<Rightarrow> Inr sendFD))"

fun udpSenderLoop :: "nat \<Rightarrow> nat \<Rightarrow> attempt list \<Rightarrow> fd res \<times> attempt list" where
  "udpSenderLoop i retryCount [] = (Inl Blocked, [])"
| "udpSenderLoop i retryCount (a # as) =
     (case udpSenderSocket a of
        Inr sendFD \<Rightarrow> (Inr sendFD, as)
      | Inl e \<Rightarrow> if isRuntimeError e
                 then if i \<ge> retryCount then (Inl e, as) else udpSenderLoop (Suc i) retryCount as
                 else (Inl e, as))"

definition newUDPSender :: "hostname \<Rightarrow> nat \<Rightarrow> (fd, 'z Network_scheme) act" where
  "newUDPSender hostname retryCount s =
     (case udpSenderLoop 0 retryCount (attempts s hostname) of
        (r, as) \<Rightarrow> (r, s\<lparr>attempts := (attempts s)(hostname := as)\<rparr>))"

definition udpSenderSend :: "fd \<Rightarrow> byte list \<Rightarrow> (unit, 'z Network_scheme) act" where
  "udpSenderSend sendFD buff s =
     (if sendFails s sendFD then (Inl TransportException, s)
      else (Inr (), s\<lparr>sent := sent s @ [(sendFD, buff)]\<rparr>))"

text \<open>The receiver takes the first address whose socket can be created and bound.\<close>

fun udpReceiverSocket :: "(fd option \<times> bool) list \<Rightarrow> fd res" where
  "udpReceiverSocket [] = Inl CheckFailed"
| "udpReceiverSocket ((None, bound) # rs) = udpReceiverSocket rs"
| "udpReceiverSocket ((Some recvFD, bound) # rs) = (if bound then Inr recvFD else udpReceiverSocket rs)"

text \<open>A datagram with the name of its sender, or an error.\<close>

definition udpReceive :: "byte list \<Rightarrow> (byte list \<times> string) option \<Rightarrow> Message res" where
  "udpReceive junk r =
     (case r of None \<Rightarrow> Inl TransportException | Some (bs, from) \<Rightarrow> Inr (received bs junk from))"

section \<open>Closing\<close>

text \<open>
  The \<open>close\<close> of the four classes: an error is at most logged. The log \<open>closed\<close> has the descriptors that
  these operations have released; those that a constructor releases after a failed attempt never
  become part of an object.
\<close>

definition closeSocket :: "fd \<Rightarrow> (unit, 'z Network_scheme) act" where
  "closeSocket f = modify (\<lambda>s. s\<lparr>closed := closed s @ [f]\<rparr>)"

definition udpSenderClose :: "fd \<Rightarrow> (unit, 'z Network_scheme) act" where
  "udpSenderClose sendFD = closeSocket sendFD"

definition udpReceiverClose :: "fd \<Rightarrow> (unit, 'z Network_scheme) act" where
  "udpReceiverClose recvFD = closeSocket recvFD"

definition tcpServerClose :: "fd \<Rightarrow> (unit, 'z Network_scheme) act" where
  "tcpServerClose sockFd = closeSocket sockFd"

definition tcpClientClose :: "TcpClient \<Rightarrow> (unit, 'z Network_scheme) act" where
  "tcpClientClose client = closeSocket (tc_sockFd client)"

section \<open>Retrying\<close>

lemma firstSocket_None: "firstSocket rs = None \<longleftrightarrow> set rs \<subseteq> {None}"
  by (induction rs rule: firstSocket.induct) auto

text \<open>An attempt that throws: the name is unknown, or the connection is refused.\<close>

definition refused :: "attempt \<Rightarrow> bool" where
  "refused a \<longleftrightarrow> a = NoSuchHost \<or> (\<exists>rs. a = Addresses rs False \<and> firstSocket rs \<noteq> None)"

lemma connectLoop_refused:
  assumes "\<forall>a \<in> set pre. refused a" and "i + length pre \<le> retryCount"
  shows "\<exists>assigned'. connectLoop i retryCount assigned (pre @ as) =
    connectLoop (i + length pre) retryCount assigned' as"
  using assms
proof (induction pre arbitrary: i assigned)
  case (Cons a pre)
  have "\<exists>assigned'. connectLoop i retryCount assigned (a # pre @ as) =
      connectLoop (Suc i) retryCount assigned' (pre @ as)"
    using Cons.prems by (auto simp: refused_def bindSocketToFd_def isRuntimeError_def)
  moreover have "\<exists>assigned''. connectLoop (Suc i) retryCount assigned' (pre @ as) =
      connectLoop (Suc i + length pre) retryCount assigned'' as" for assigned'
    using Cons.prems by (intro Cons.IH) simp_all
  ultimately show ?case by fastforce
qed auto

text \<open>
  C34: the constructor of \<open>TcpClient\<close> connects with the first attempt that succeeds, if there is one
  among the first \<open>retryCount + 1\<close>, and gives up with an exception after exactly so many refusals; the
  remaining attempts are left for later connections.
\<close>

theorem tcp_client_retries:
  assumes host: "hostname \<noteq> []" and pre: "\<forall>a \<in> set pre. refused a"
  shows "(length pre \<le> retryCount \<and> firstSocket rs = Some sockFd \<and>
        attempts s hostname = pre @ Addresses rs True # as \<longrightarrow>
      newTcpClient hostname port retryCount s =
        (Inr \<lparr>tc_hostname = hostname, tc_port = port, tc_sockFd = sockFd\<rparr>,
         s\<lparr>attempts := (attempts s)(hostname := as)\<rparr>)) \<and>
    (length pre = Suc retryCount \<and> attempts s hostname = pre @ as \<longrightarrow>
      newTcpClient hostname port retryCount s =
        (Inl RuntimeError, s\<lparr>attempts := (attempts s)(hostname := as)\<rparr>))"
proof (intro conjI impI; elim conjE)
  assume "length pre \<le> retryCount" "firstSocket rs = Some sockFd"
    "attempts s hostname = pre @ Addresses rs True # as"
  with host pre connectLoop_refused [of pre 0 retryCount False "Addresses rs True # as"]
  show "newTcpClient hostname port retryCount s =
        (Inr \<lparr>tc_hostname = hostname, tc_port = port, tc_sockFd = sockFd\<rparr>,
         s\<lparr>attempts := (attempts s)(hostname := as)\<rparr>)"
    by (auto simp: newTcpClient_def bindSocketToFd_def)
next
  assume len: "length pre = Suc retryCount" and eq: "attempts s hostname = pre @ as"
  obtain pre' a where p: "pre = pre' @ [a]" using len by (cases pre rule: rev_cases) auto
  with pre len obtain assigned' where "connectLoop 0 retryCount False (pre' @ a # as) =
      connectLoop retryCount retryCount assigned' (a # as)"
    using connectLoop_refused [of pre' 0 retryCount False "a # as"] by auto
  moreover have "connectLoop retryCount retryCount assigned' (a # as) = (Inl RuntimeError, as)"
    using pre by (auto simp: p refused_def bindSocketToFd_def isRuntimeError_def)
  ultimately show "newTcpClient hostname port retryCount s =
        (Inl RuntimeError, s\<lparr>attempts := (attempts s)(hostname := as)\<rparr>)"
    using host eq by (simp add: newTcpClient_def p)
qed

definition idleNetwork :: Network where
  "idleNetwork = \<lparr>attempts = (\<lambda>h. []), servers = [], accepts = [], recvs = (\<lambda>f. []),
     sendFails = (\<lambda>f. False), sent = [], closed = [], memory = []\<rparr>"

theorem tcp_client_retries_witness:
  "newTcpClient ''b'' 10000 5 (idleNetwork\<lparr>attempts := (\<lambda>h. [NoSuchHost, Addresses [None, Some 3] True])\<rparr>) =
     (Inr \<lparr>tc_hostname = ''b'', tc_port = 10000, tc_sockFd = 3\<rparr>,
      idleNetwork\<lparr>attempts := (\<lambda>h. [NoSuchHost, Addresses [None, Some 3] True])(''b'' := [])\<rparr>)"
  using tcp_client_retries [of "''b''" "[NoSuchHost]" 5 "[None, Some 3]" 3
      "idleNetwork\<lparr>attempts := (\<lambda>h. [NoSuchHost, Addresses [None, Some 3] True])\<rparr>" "[]" 10000]
  by (simp add: refused_def)

end
