(* ===== verification/Peers.thy ===== *)
theory Peers
  imports Hosts
begin

text \<open>
  \<open>PeerInfo\<close> of lab2 (\<open>utils.h\<close>, \<open>utils.cpp\<close>): the identifiers of all processes, computed once from
  the host file. The static members are the fields of a record. The locale \<open>peer_directory\<close> is what
  the membership service and the failure detector rely on: identifiers and names determine each
  other, and there are as many identifiers as hosts.
\<close>

definition getProcessIdentifier_lab2 :: "hostname \<Rightarrow> hostname list \<Rightarrow> u32 res" where
  "getProcessIdentifier_lab2 hostname allHostnames = processIdLoop 0 allHostnames hostname"

record PeerInfo =
  myPeerId :: u32
  allPeerHostnames :: "hostname list"
  hostnameToPeerIdMap :: "hostname \<rightharpoonup> u32"
  peerIdToHostnameMap :: "u32 \<rightharpoonup> hostname"

text \<open>The loop of \<open>PeerInfo::initialize\<close>, which fills both maps.\<close>

fun peerIdLoop :: "hostname list \<Rightarrow> hostname list \<Rightarrow> (hostname \<rightharpoonup> u32) \<times> (u32 \<rightharpoonup> hostname) \<Rightarrow>
    ((hostname \<rightharpoonup> u32) \<times> (u32 \<rightharpoonup> hostname)) res" where
  "peerIdLoop all [] maps = Inr maps"
| "peerIdLoop all (hostname # hs) (ids, names) =
     rbind (getProcessIdentifier_lab2 hostname all) (\<lambda>peerId.
       peerIdLoop all hs (ids(hostname \<mapsto> peerId), names(peerId \<mapsto> hostname)))"

definition initialize :: "hostname \<Rightarrow> hostname list \<Rightarrow> PeerInfo res" where
  "initialize myHostname hosts =
     rbind (peerIdLoop hosts hosts (Map.empty, Map.empty)) (\<lambda>(ids, names).
     rbind (map_at ids myHostname) (\<lambda>my.
       Inr \<lparr>myPeerId = my, allPeerHostnames = hosts, hostnameToPeerIdMap = ids, peerIdToHostnameMap = names\<rparr>))"

definition getMyPeerId :: "PeerInfo \<Rightarrow> u32" where
  "getMyPeerId info = myPeerId info"

definition getHostname :: "PeerInfo \<Rightarrow> u32 \<Rightarrow> hostname res" where
  "getHostname info peerId = map_at (peerIdToHostnameMap info) peerId"

definition getPeerId :: "PeerInfo \<Rightarrow> hostname \<Rightarrow> u32 res" where
  "getPeerId info hostname = map_at (hostnameToPeerIdMap info) hostname"

definition getAllPeerHostnames :: "PeerInfo \<Rightarrow> hostname list" where
  "getAllPeerHostnames info = allPeerHostnames info"

section \<open>The contract of a directory\<close>

locale peer_directory =
  fixes valid :: "'d \<Rightarrow> bool"
    and hosts :: "'d \<Rightarrow> hostname list"
    and ident :: "'d \<Rightarrow> hostname \<Rightarrow> u32 res"
    and name :: "'d \<Rightarrow> u32 \<Rightarrow> hostname res"
  assumes ident_name: "valid d \<Longrightarrow> ident d h = Inr i \<longleftrightarrow> name d i = Inr h"
    and ident_total: "valid d \<Longrightarrow> h \<in> set (hosts d) \<Longrightarrow> \<exists>i. ident d h = Inr i"
    and ident_absent: "valid d \<Longrightarrow> h \<notin> set (hosts d) \<Longrightarrow> ident d h = Inl OutOfRange"
begin

lemma ident_inject: "valid d \<Longrightarrow> ident d h = Inr i \<Longrightarrow> ident d h' = Inr i \<Longrightarrow> h = h'"
  by (auto simp: ident_name)

lemma ident_host: "valid d \<Longrightarrow> ident d h = Inr i \<Longrightarrow> h \<in> set (hosts d)"
  using ident_absent by fastforce

lemma name_total: "valid d \<Longrightarrow> ident d h = Inr i \<Longrightarrow> name d i = Inr h"
  by (simp add: ident_name)

lemma ids_image: "valid d \<Longrightarrow> {i. \<exists>h. ident d h = Inr i} = (\<lambda>h. projr (ident d h)) ` set (hosts d)"
proof (rule set_eqI)
  fix i
  assume v: "valid d"
  show "i \<in> {i. \<exists>h. ident d h = Inr i} \<longleftrightarrow> i \<in> (\<lambda>h. projr (ident d h)) ` set (hosts d)"
  proof
    assume "i \<in> {i. \<exists>h. ident d h = Inr i}"
    then obtain h where h: "ident d h = Inr i" by blast
    with ident_host [OF v h] show "i \<in> (\<lambda>h. projr (ident d h)) ` set (hosts d)"
      by (intro image_eqI [of _ _ h]) simp_all
  next
    assume "i \<in> (\<lambda>h. projr (ident d h)) ` set (hosts d)"
    then show "i \<in> {i. \<exists>h. ident d h = Inr i}" using ident_total [OF v] by fastforce
  qed
qed

lemma finite_ids: "valid d \<Longrightarrow> finite {i. \<exists>h. ident d h = Inr i}"
  by (simp add: ids_image)

lemma card_ids:
  assumes "valid d"
  shows "card {i. \<exists>h. ident d h = Inr i} \<le> length (hosts d)"
proof -
  have "card ((\<lambda>h. projr (ident d h)) ` set (hosts d)) \<le> card (set (hosts d))"
    by (rule card_image_le) simp
  also have "\<dots> \<le> length (hosts d)" by (rule card_length)
  finally show ?thesis by (simp add: ids_image [OF assms])
qed

lemma card_subset_ids:
  assumes "valid d" and A: "A \<subseteq> {i. \<exists>h. ident d h = Inr i}"
  shows "finite A \<and> card A \<le> length (hosts d)"
  using finite_subset [OF A finite_ids [OF assms(1)]] card_mono [OF finite_ids [OF assms(1)] A]
    card_ids [OF assms(1)] by linarith

end

section \<open>The directory of the code\<close>

lemma peerIdLoop_lookup:
  assumes v: "valid_hosts all" and "set hs \<subseteq> set all"
  shows "\<exists>ids' names'. peerIdLoop all hs (ids, names) = Inr (ids', names') \<and>
    (\<forall>h i. ids' h = Some i \<longleftrightarrow> (if h \<in> set hs then getProcessIdentifier all h = Inr i else ids h = Some i)) \<and>
    (\<forall>i h. names' i = Some h \<longleftrightarrow> h \<in> set hs \<and> getProcessIdentifier all h = Inr i \<or>
       names i = Some h \<and> (\<forall>h' \<in> set hs. getProcessIdentifier all h' \<noteq> Inr i))"
  using assms(2)
proof (induction hs arbitrary: ids names)
  case (Cons h hs)
  have "distinct all" using v by (simp add: valid_hosts_def)
  then obtain j where j: "getProcessIdentifier all h = Inr j"
    using getProcessIdentifier_ex Cons.prems by (metis list.set_intros(1) subsetD)
  from Cons.prems have "set hs \<subseteq> set all" by simp
  from Cons.IH [OF this, of "ids(h \<mapsto> j)" "names(j \<mapsto> h)"]
  obtain ids' names' where m: "peerIdLoop all hs (ids(h \<mapsto> j), names(j \<mapsto> h)) = Inr (ids', names')"
    "\<And>h' i. ids' h' = Some i \<longleftrightarrow> (if h' \<in> set hs then getProcessIdentifier all h' = Inr i
       else (ids(h \<mapsto> j)) h' = Some i)"
    "\<And>i h'. names' i = Some h' \<longleftrightarrow> h' \<in> set hs \<and> getProcessIdentifier all h' = Inr i \<or>
       (names(j \<mapsto> h)) i = Some h' \<and> (\<forall>h'' \<in> set hs. getProcessIdentifier all h'' \<noteq> Inr i)"
    by blast
  have only: "getProcessIdentifier all h' = Inr j \<longleftrightarrow> h' = h" for h'
    using getProcessIdentifier_inject [OF v _ j] j by blast
  have "ids' h' = Some i \<longleftrightarrow> (if h' \<in> set (h # hs) then getProcessIdentifier all h' = Inr i
      else ids h' = Some i)" for h' i
    using m(2) [of h' i] j by auto
  moreover have "names' i = Some h' \<longleftrightarrow> h' \<in> set (h # hs) \<and> getProcessIdentifier all h' = Inr i \<or>
       names i = Some h' \<and> (\<forall>h'' \<in> set (h # hs). getProcessIdentifier all h'' \<noteq> Inr i)" for i h'
  proof (cases "i = j")
    case True
    show ?thesis unfolding m(3) True only by auto
  next
    case False
    with j show ?thesis unfolding m(3) by (cases "h' = h") simp_all
  qed
  moreover have "peerIdLoop all (h # hs) (ids, names) = Inr (ids', names')"
    using m(1) j by (simp add: getProcessIdentifier_lab2_def getProcessIdentifier_def)
  ultimately show ?case by blast
qed simp

lemma initialize_lookup:
  assumes v: "valid_hosts hosts" and my: "my \<in> set hosts"
  shows "\<exists>info. initialize my hosts = Inr info \<and> allPeerHostnames info = hosts \<and>
    getProcessIdentifier hosts my = Inr (myPeerId info) \<and>
    (\<forall>h i. hostnameToPeerIdMap info h = Some i \<longleftrightarrow> getProcessIdentifier hosts h = Inr i) \<and>
    (\<forall>h i. peerIdToHostnameMap info i = Some h \<longleftrightarrow> getProcessIdentifier hosts h = Inr i)"
proof -
  have d: "distinct hosts" using v by (simp add: valid_hosts_def)
  have known: "h \<in> set hosts" if "getProcessIdentifier hosts h = Inr i" for h i
    using that unfolding getProcessIdentifier_iff [OF d] by auto
  obtain ids names where m: "peerIdLoop hosts hosts (Map.empty, Map.empty) = Inr (ids, names)"
    "\<And>h i. ids h = Some i \<longleftrightarrow> getProcessIdentifier hosts h = Inr i"
    "\<And>h i. names i = Some h \<longleftrightarrow> getProcessIdentifier hosts h = Inr i"
    using peerIdLoop_lookup [OF v subset_refl, of Map.empty Map.empty] known
    by (auto split: if_splits)
  moreover obtain i where "getProcessIdentifier hosts my = Inr i"
    using getProcessIdentifier_ex [OF d my] by blast
  ultimately show ?thesis
    by (intro exI [of _ "\<lparr>myPeerId = i, allPeerHostnames = hosts, hostnameToPeerIdMap = ids,
          peerIdToHostnameMap = names\<rparr>"])
      (simp add: initialize_def)
qed

definition validPeerInfo :: "PeerInfo \<Rightarrow> bool" where
  "validPeerInfo info \<longleftrightarrow> (\<exists>my hosts. valid_hosts hosts \<and> my \<in> set hosts \<and> initialize my hosts = Inr info)"

lemma validPeerInfo_initialize:
  "valid_hosts hosts \<Longrightarrow> my \<in> set hosts \<Longrightarrow> initialize my hosts = Inr info \<Longrightarrow> validPeerInfo info"
  by (auto simp: validPeerInfo_def)

lemma validPeerInfo_maps:
  assumes "validPeerInfo info"
  shows "hostnameToPeerIdMap info h = Some i \<longleftrightarrow> getProcessIdentifier (allPeerHostnames info) h = Inr i"
    and "peerIdToHostnameMap info i = Some h \<longleftrightarrow> getProcessIdentifier (allPeerHostnames info) h = Inr i"
    and "distinct (allPeerHostnames info)"
proof -
  obtain my hosts where v: "valid_hosts hosts" "my \<in> set hosts" and i: "initialize my hosts = Inr info"
    using assms by (auto simp: validPeerInfo_def)
  note l = initialize_lookup [OF v, unfolded i]
  show "hostnameToPeerIdMap info h = Some i \<longleftrightarrow> getProcessIdentifier (allPeerHostnames info) h = Inr i"
    and "peerIdToHostnameMap info i = Some h \<longleftrightarrow> getProcessIdentifier (allPeerHostnames info) h = Inr i"
    and "distinct (allPeerHostnames info)"
    using l v(1) by (auto simp: valid_hosts_def)
qed

interpretation peers: peer_directory validPeerInfo getAllPeerHostnames getPeerId getHostname
proof
  fix info :: PeerInfo and h i
  assume v: "validPeerInfo info"
  have d: "distinct (allPeerHostnames info)" by (rule validPeerInfo_maps(3) [OF v])
  show "getPeerId info h = Inr i \<longleftrightarrow> getHostname info i = Inr h"
    using validPeerInfo_maps [OF v] by (simp add: getPeerId_def getHostname_def map_at_eq_Inr)
  show "\<exists>i. getPeerId info h = Inr i" if "h \<in> set (getAllPeerHostnames info)"
    using that validPeerInfo_maps(1) [OF v] getProcessIdentifier_ex [OF d]
    by (simp add: getPeerId_def getAllPeerHostnames_def map_at_eq_Inr)
  show "getPeerId info h = Inl OutOfRange" if "h \<notin> set (getAllPeerHostnames info)"
  proof -
    have "hostnameToPeerIdMap info h \<noteq> Some j" for j
      using that unfolding validPeerInfo_maps(1) [OF v] getProcessIdentifier_iff [OF d]
      by (auto simp: getAllPeerHostnames_def)
    then have "hostnameToPeerIdMap info h = None" by (metis not_None_eq)
    then show ?thesis by (simp add: getPeerId_def)
  qed
qed

text \<open>
  On a host of an accepted lab2 host file the directory is complete: every host has an
  identifier that leads back to it, no other name has one, and there are at most ten identifiers, so
  that any set of them fits into the array of a view message.
\<close>

theorem peer_identifiers_lab2:
  assumes "readHostFile_lab2 content = Inr hosts" and "my \<in> set (fileLines content)"
  shows "\<exists>info. initialize my hosts = Inr info \<and> getPeerId info my = Inr (getMyPeerId info) \<and>
    (\<forall>h i. getPeerId info h = Inr i \<longleftrightarrow> getHostname info i = Inr h) \<and>
    (\<forall>h. (\<exists>i. getPeerId info h = Inr i) \<longleftrightarrow> h \<in> set (fileLines content)) \<and>
    (\<forall>A \<subseteq> {i. \<exists>h. getPeerId info h = Inr i}. finite A \<and> card A \<le> 10)"
proof -
  have hosts: "hosts = uniqueLines {} (fileLines content)" and ten: "length hosts \<le> 10"
    using assms(1) by (auto simp: readHostFile_lab2_def Let_def rbind_eq_Inr)
  have lines: "set hosts = set (fileLines content)" by (simp add: hosts uniqueLines_set)
  have v: "valid_hosts hosts"
    using ten uniqueLines_distinct [of "{}" "fileLines content"] by (simp add: valid_hosts_def hosts)
  have my: "my \<in> set hosts" using assms(2) lines by simp
  obtain info where info: "initialize my hosts = Inr info" "allPeerHostnames info = hosts"
    "getProcessIdentifier hosts my = Inr (myPeerId info)"
    "\<And>h i. hostnameToPeerIdMap info h = Some i \<longleftrightarrow> getProcessIdentifier hosts h = Inr i"
    using initialize_lookup [OF v my] by blast
  have vi: "validPeerInfo info" by (rule validPeerInfo_initialize [OF v my info(1)])
  have hs: "getAllPeerHostnames info = hosts" by (simp add: getAllPeerHostnames_def info(2))
  have "getPeerId info my = Inr (getMyPeerId info)"
    using info(3,4) by (simp add: getPeerId_def getMyPeerId_def map_at_eq_Inr)
  moreover have "(\<exists>i. getPeerId info h = Inr i) \<longleftrightarrow> h \<in> set (fileLines content)" for h
    using peers.ident_total [OF vi, of h] peers.ident_host [OF vi, of h] hs lines by auto
  moreover have "finite A \<and> card A \<le> 10" if "A \<subseteq> {i. \<exists>h. getPeerId info h = Inr i}" for A
    using peers.card_subset_ids [OF vi that] ten by (simp add: hs)
  ultimately show ?thesis
    using info(1) peers.ident_name [OF vi] by blast
qed

definition sampleHosts :: string where
  "sampleHosts = ''a'' @ newline # ''b'' @ newline # ''c'' @ newline # ''d'' @ newline # ''e''"

lemma sampleHosts_lines: "fileLines sampleHosts = [''a'', ''b'', ''c'', ''d'', ''e'']"
  by (simp add: sampleHosts_def fileLines.simps newline_def)

theorem peer_identifiers_lab2_witness:
  "\<exists>info. initialize ''b'' [''a'', ''b'', ''c'', ''d'', ''e''] = Inr info \<and>
     getPeerId info ''b'' = Inr (getMyPeerId info) \<and> (\<exists>i. getPeerId info ''d'' = Inr i)"
  using peer_identifiers_lab2 [of sampleHosts "[''a'', ''b'', ''c'', ''d'', ''e'']" "''b''"]
  unfolding sampleHosts_lines by (force simp: readHostFile_lab2_def sampleHosts_lines)

end
