(* ===== verification/Lab2Wire.thy ===== *)
theory Lab2Wire
  imports Codec Decimal
begin

text \<open>
  The message types of lab2 (\<open>message.h\<close>), their printing (\<open>message.cpp\<close>) and their serialization
  (\<open>serde.cpp\<close>). Four of the five messages have a fixed set of fields and are instances of the
  codec contract. The fifth, \<open>NewViewMsg\<close>, has an array of which only the first \<open>numberOfMembers\<close>
  elements are written and read; its rest is whatever the memory held before.
\<close>

section \<open>Message types\<close>

datatype MsgTypeEnum = REQUEST | OK | NEW_VIEW | NEW_LEADER | HEARTBEAT | UNKNOWN_MSG u32

datatype OperationTypeEnum = NOTHING | ADD | DEL | PENDING | UNKNOWN_OP u32

type_synonym PeerId = u32
type_synonym RequestId = u32
type_synonym ViewId = u32

fun msgTypeCode :: "MsgTypeEnum \<Rightarrow> u32" where
  "msgTypeCode REQUEST = 1"
| "msgTypeCode OK = 2"
| "msgTypeCode NEW_VIEW = 3"
| "msgTypeCode NEW_LEADER = 4"
| "msgTypeCode HEARTBEAT = 5"
| "msgTypeCode (UNKNOWN_MSG w) = w"

definition msgTypeOf :: "u32 \<Rightarrow> MsgTypeEnum" where
  "msgTypeOf w =
     (if w = 1 then REQUEST else if w = 2 then OK else if w = 3 then NEW_VIEW
      else if w = 4 then NEW_LEADER else if w = 5 then HEARTBEAT else UNKNOWN_MSG w)"

fun operationCode :: "OperationTypeEnum \<Rightarrow> u32" where
  "operationCode NOTHING = 0"
| "operationCode ADD = 1"
| "operationCode DEL = 2"
| "operationCode PENDING = 3"
| "operationCode (UNKNOWN_OP w) = w"

definition operationOf :: "u32 \<Rightarrow> OperationTypeEnum" where
  "operationOf w =
     (if w = 0 then NOTHING else if w = 1 then ADD else if w = 2 then DEL
      else if w = 3 then PENDING else UNKNOWN_OP w)"

lemma msgTypeOf_code [simp]:
  "msgTypeOf 1 = REQUEST" "msgTypeOf 2 = OK" "msgTypeOf 3 = NEW_VIEW" "msgTypeOf 4 = NEW_LEADER"
  "msgTypeOf 5 = HEARTBEAT"
  by (simp_all add: msgTypeOf_def)

lemma operationOf_code [simp]:
  "operationOf 0 = NOTHING" "operationOf 1 = ADD" "operationOf 2 = DEL" "operationOf 3 = PENDING"
  by (simp_all add: operationOf_def)

lemma operationCode_operationOf [simp]: "operationCode (operationOf w) = w"
  by (simp add: operationOf_def)

record RequestMsg =
  rq_msgType :: u32
  rq_requestId :: RequestId
  rq_currentViewId :: ViewId
  rq_operationType :: u32
  rq_peerId :: PeerId

record OkMsg =
  ok_msgType :: u32
  ok_requestId :: RequestId
  ok_currentViewId :: ViewId

text \<open>
  \<open>numberOfMembers\<close> is a signed \<open>int\<close>: the word is read with \<open>sint\<close>. \<open>members\<close> lists the elements of
  the array that have been assigned, a prefix of its \<open>MAX_PEERS\<close> elements.
\<close>

definition MAX_PEERS :: nat where
  "MAX_PEERS = 10"

record NewViewMsg =
  nv_msgType :: u32
  nv_newViewId :: ViewId
  nv_numberOfMembers :: u32
  nv_members :: "PeerId list"

record NewLeaderMsg =
  nl_msgType :: u32
  nl_requestId :: RequestId
  nl_currentViewId :: ViewId
  nl_operationType :: u32

record HeartBeatMsg =
  hb_msgType :: u32
  hb_peerId :: PeerId

definition sizeof_RequestMsg :: nat where
  "sizeof_RequestMsg = 20"

definition sizeof_OkMsg :: nat where
  "sizeof_OkMsg = 12"

definition sizeof_NewViewMsg :: nat where
  "sizeof_NewViewMsg = 52"

definition sizeof_NewLeaderMsg :: nat where
  "sizeof_NewLeaderMsg = 16"

definition sizeof_HeartBeatMsg :: nat where
  "sizeof_HeartBeatMsg = 8"

section \<open>Printing\<close>

text \<open>An unknown message or operation type makes the output operator throw.\<close>

fun showMsgType :: "MsgTypeEnum \<Rightarrow> string res" where
  "showMsgType REQUEST = Inr ''RequestMsg''"
| "showMsgType OK = Inr ''OkMsg''"
| "showMsgType NEW_VIEW = Inr ''NewViewMsg''"
| "showMsgType HEARTBEAT = Inr ''HeartBeatMsg''"
| "showMsgType NEW_LEADER = Inr ''NewLeaderMsg''"
| "showMsgType (UNKNOWN_MSG w) = Inl RuntimeError"

fun showOperationType :: "OperationTypeEnum \<Rightarrow> string res" where
  "showOperationType NOTHING = Inr ''Nothing''"
| "showOperationType ADD = Inr ''AddOperation''"
| "showOperationType DEL = Inr ''DelOperation''"
| "showOperationType PENDING = Inr ''PendingOperation''"
| "showOperationType (UNKNOWN_OP w) = Inl RuntimeError"

definition showRequestMsg :: "RequestMsg \<Rightarrow> string res" where
  "showRequestMsg m =
     rbind (showMsgType (msgTypeOf (rq_msgType m))) (\<lambda>typeStr.
     rbind (showOperationType (operationOf (rq_operationType m))) (\<lambda>operationStr.
       Inr (''msgType: '' @ typeStr @
            '', requestId: '' @ show_u32 (rq_requestId m) @
            '', currentViewId: '' @ show_u32 (rq_currentViewId m) @
            '', operationType: '' @ operationStr @
            '', peerId: '' @ show_u32 (rq_peerId m))))"

definition showOkMsg :: "OkMsg \<Rightarrow> string res" where
  "showOkMsg m =
     rbind (showMsgType (msgTypeOf (ok_msgType m))) (\<lambda>typeStr.
       Inr (''msgType: '' @ typeStr @
            '', requestId: '' @ show_u32 (ok_requestId m) @
            '', currentViewId: '' @ show_u32 (ok_currentViewId m)))"

definition show_int :: "int \<Rightarrow> string" where
  "show_int i = (if i < 0 then CHR ''-'' # show_nat (nat (- i)) else show_nat (nat i))"

text \<open>A list of numbers with commas between them, as the loops with \<open>if (i != 0)\<close> print it.\<close>

fun showMembers :: "PeerId list \<Rightarrow> string" where
  "showMembers [] = []"
| "showMembers [p] = show_u32 p"
| "showMembers (p # q # ps) = show_u32 p @ '', '' @ showMembers (q # ps)"

text \<open>
  The first \<open>numberOfMembers\<close> elements of the array: none if the number is negative, an access
  outside the array if it is larger than the array, and an indeterminate value if an element was
  never assigned.
\<close>

definition countedMembers :: "u32 \<Rightarrow> PeerId list \<Rightarrow> PeerId list res" where
  "countedMembers n ps =
     (if sint n \<le> int (length ps) then Inr (take (nat (sint n)) ps) else Inl UndefinedBehaviour)"

definition showNewViewMsg :: "NewViewMsg \<Rightarrow> string res" where
  "showNewViewMsg m =
     rbind (showMsgType (msgTypeOf (nv_msgType m))) (\<lambda>typeStr.
     rbind (countedMembers (nv_numberOfMembers m) (nv_members m)) (\<lambda>ps.
       Inr (''msgType: '' @ typeStr @
            '', newViewId: '' @ show_u32 (nv_newViewId m) @
            '', numberOfMembers: '' @ show_int (sint (nv_numberOfMembers m)) @
            '', members: {'' @ showMembers ps @ ''}'')))"

definition showHeartBeatMsg :: "HeartBeatMsg \<Rightarrow> string res" where
  "showHeartBeatMsg m =
     rbind (showMsgType (msgTypeOf (hb_msgType m))) (\<lambda>typeStr.
       Inr (''msgType: '' @ typeStr @ '', peerId: '' @ show_u32 (hb_peerId m)))"

definition showNewLeaderMsg :: "NewLeaderMsg \<Rightarrow> string res" where
  "showNewLeaderMsg m =
     rbind (showMsgType (msgTypeOf (nl_msgType m))) (\<lambda>typeStr.
     rbind (showOperationType (operationOf (nl_operationType m))) (\<lambda>operationStr.
       Inr (''msgType: '' @ typeStr @
            '', requestId: '' @ show_u32 (nl_requestId m) @
            '', currentViewId: '' @ show_u32 (nl_currentViewId m) @
            '', operationType: '' @ operationStr)))"

section \<open>Serialization\<close>

definition getMsgType :: "endian \<Rightarrow> Message \<Rightarrow> MsgTypeEnum res" where
  "getMsgType en message = rbind (getTypeWord en message) (\<lambda>w. Inr (msgTypeOf w))"

text \<open>
  \<open>CHECK_EQ\<close> on message types: on a mismatch both values are printed for the message of the abort,
  so an unknown type throws instead.
\<close>

definition checkMsgType :: "MsgTypeEnum \<Rightarrow> MsgTypeEnum \<Rightarrow> unit res" where
  "checkMsgType actual expected =
     (if actual = expected then Inr ()
      else rbind (showMsgType actual) (\<lambda>_. rbind (showMsgType expected) (\<lambda>_. Inl CheckFailed)))"

definition serializeRequestMsg :: "endian \<Rightarrow> RequestMsg \<Rightarrow> byte list \<Rightarrow> byte list" where
  "serializeRequestMsg en m buffer =
    (let buffer = put32 en 0 (htonl en (rq_msgType m)) buffer;
         buffer = put32 en 4 (htonl en (rq_requestId m)) buffer;
         buffer = put32 en 8 (htonl en (rq_currentViewId m)) buffer;
         buffer = put32 en 12 (htonl en (rq_operationType m)) buffer;
         buffer = put32 en 16 (htonl en (rq_peerId m)) buffer
     in buffer)"

definition serializeOkMsg :: "endian \<Rightarrow> OkMsg \<Rightarrow> byte list \<Rightarrow> byte list" where
  "serializeOkMsg en m buffer =
    (let buffer = put32 en 0 (htonl en (ok_msgType m)) buffer;
         buffer = put32 en 4 (htonl en (ok_requestId m)) buffer;
         buffer = put32 en 8 (htonl en (ok_currentViewId m)) buffer
     in buffer)"

fun putMembers :: "endian \<Rightarrow> nat \<Rightarrow> PeerId list \<Rightarrow> byte list \<Rightarrow> byte list" where
  "putMembers en i [] buffer = buffer"
| "putMembers en i (p # ps) buffer = putMembers en (Suc i) ps (put32 en (12 + 4 * i) (htonl en p) buffer)"

definition serializeNewViewMsg :: "endian \<Rightarrow> NewViewMsg \<Rightarrow> byte list \<Rightarrow> byte list res" where
  "serializeNewViewMsg en m buffer =
    (let buffer = put32 en 0 (htonl en (nv_msgType m)) buffer;
         buffer = put32 en 4 (htonl en (nv_newViewId m)) buffer;
         buffer = put32 en 8 (htonl en (nv_numberOfMembers m)) buffer
     in rbind (countedMembers (nv_numberOfMembers m) (nv_members m)) (\<lambda>ps.
          if length ps \<le> MAX_PEERS then Inr (putMembers en 0 ps buffer) else Inl UndefinedBehaviour))"

definition serializeHeartBeatMsg :: "endian \<Rightarrow> HeartBeatMsg \<Rightarrow> byte list \<Rightarrow> byte list" where
  "serializeHeartBeatMsg en m buffer =
    (let buffer = put32 en 0 (htonl en (hb_msgType m)) buffer;
         buffer = put32 en 4 (htonl en (hb_peerId m)) buffer
     in buffer)"

definition serializeNewLeaderMsg :: "endian \<Rightarrow> NewLeaderMsg \<Rightarrow> byte list \<Rightarrow> byte list" where
  "serializeNewLeaderMsg en m buffer =
    (let buffer = put32 en 0 (htonl en (nl_msgType m)) buffer;
         buffer = put32 en 4 (htonl en (nl_requestId m)) buffer;
         buffer = put32 en 8 (htonl en (nl_currentViewId m)) buffer;
         buffer = put32 en 12 (htonl en (nl_operationType m)) buffer
     in buffer)"

definition deserializeRequestMsg :: "endian \<Rightarrow> Message \<Rightarrow> RequestMsg res" where
  "deserializeRequestMsg en message =
     rbind (check (sizeof_RequestMsg = m_n message)) (\<lambda>_.
       Inr \<lparr>rq_msgType = ntohl en (get32 en 0 (m_buffer message)),
            rq_requestId = ntohl en (get32 en 4 (m_buffer message)),
            rq_currentViewId = ntohl en (get32 en 8 (m_buffer message)),
            rq_operationType = ntohl en (get32 en 12 (m_buffer message)),
            rq_peerId = ntohl en (get32 en 16 (m_buffer message))\<rparr>)"

definition deserializeOkMsg :: "endian \<Rightarrow> Message \<Rightarrow> OkMsg res" where
  "deserializeOkMsg en message =
     rbind (check (sizeof_OkMsg = m_n message)) (\<lambda>_.
       Inr \<lparr>ok_msgType = ntohl en (get32 en 0 (m_buffer message)),
            ok_requestId = ntohl en (get32 en 4 (m_buffer message)),
            ok_currentViewId = ntohl en (get32 en 8 (m_buffer message))\<rparr>)"

text \<open>The loop of the deserializer reads and writes behind the arrays if the number is too large.\<close>

definition deserializeNewViewMsg :: "endian \<Rightarrow> Message \<Rightarrow> NewViewMsg res" where
  "deserializeNewViewMsg en message =
     rbind (check (sizeof_NewViewMsg = m_n message)) (\<lambda>_.
       let n = ntohl en (get32 en 8 (m_buffer message))
       in if sint n \<le> int MAX_PEERS
          then Inr \<lparr>nv_msgType = ntohl en (get32 en 0 (m_buffer message)),
                    nv_newViewId = ntohl en (get32 en 4 (m_buffer message)),
                    nv_numberOfMembers = n,
                    nv_members = map (\<lambda>i. ntohl en (get32 en (12 + 4 * i) (m_buffer message)))
                                     [0..<nat (sint n)]\<rparr>
          else Inl UndefinedBehaviour)"

definition deserializeHeartBeatMsg :: "endian \<Rightarrow> Message \<Rightarrow> HeartBeatMsg res" where
  "deserializeHeartBeatMsg en message =
     rbind (check (sizeof_HeartBeatMsg = m_n message)) (\<lambda>_.
       Inr \<lparr>hb_msgType = ntohl en (get32 en 0 (m_buffer message)),
            hb_peerId = ntohl en (get32 en 4 (m_buffer message))\<rparr>)"

definition deserializeNewLeaderMsg :: "endian \<Rightarrow> Message \<Rightarrow> NewLeaderMsg res" where
  "deserializeNewLeaderMsg en message =
     rbind (check (sizeof_NewLeaderMsg = m_n message)) (\<lambda>_.
       Inr \<lparr>nl_msgType = ntohl en (get32 en 0 (m_buffer message)),
            nl_requestId = ntohl en (get32 en 4 (m_buffer message)),
            nl_currentViewId = ntohl en (get32 en 8 (m_buffer message)),
            nl_operationType = ntohl en (get32 en 12 (m_buffer message))\<rparr>)"

section \<open>The codec contract\<close>

definition fieldsRequestMsg :: "RequestMsg \<Rightarrow> u32 list" where
  "fieldsRequestMsg m =
     [rq_msgType m, rq_requestId m, rq_currentViewId m, rq_operationType m, rq_peerId m]"

definition fieldsOkMsg :: "OkMsg \<Rightarrow> u32 list" where
  "fieldsOkMsg m = [ok_msgType m, ok_requestId m, ok_currentViewId m]"

definition fieldsNewLeaderMsg :: "NewLeaderMsg \<Rightarrow> u32 list" where
  "fieldsNewLeaderMsg m = [nl_msgType m, nl_requestId m, nl_currentViewId m, nl_operationType m]"

definition fieldsHeartBeatMsg :: "HeartBeatMsg \<Rightarrow> u32 list" where
  "fieldsHeartBeatMsg m = [hb_msgType m, hb_peerId m]"

lemmas lab2_codec_defs =
  sizeof_RequestMsg_def serializeRequestMsg_def deserializeRequestMsg_def fieldsRequestMsg_def
  sizeof_OkMsg_def serializeOkMsg_def deserializeOkMsg_def fieldsOkMsg_def
  sizeof_NewLeaderMsg_def serializeNewLeaderMsg_def deserializeNewLeaderMsg_def fieldsNewLeaderMsg_def
  sizeof_HeartBeatMsg_def serializeHeartBeatMsg_def deserializeHeartBeatMsg_def fieldsHeartBeatMsg_def

interpretation request_codec:
  struct_codec sizeof_RequestMsg serializeRequestMsg deserializeRequestMsg fieldsRequestMsg
  by unfold_locales
    (auto simp: lab2_codec_defs put32_words get32_fields rbind_check_eq_Inr dest!: words_of_buffer)

interpretation ok_codec:
  struct_codec sizeof_OkMsg serializeOkMsg deserializeOkMsg fieldsOkMsg
  by unfold_locales
    (auto simp: lab2_codec_defs put32_words get32_fields rbind_check_eq_Inr dest!: words_of_buffer)

interpretation newLeader_codec:
  struct_codec sizeof_NewLeaderMsg serializeNewLeaderMsg deserializeNewLeaderMsg fieldsNewLeaderMsg
  by unfold_locales
    (auto simp: lab2_codec_defs put32_words get32_fields rbind_check_eq_Inr dest!: words_of_buffer)

interpretation heartBeat_codec:
  struct_codec sizeof_HeartBeatMsg serializeHeartBeatMsg deserializeHeartBeatMsg fieldsHeartBeatMsg
  by unfold_locales
    (auto simp: lab2_codec_defs put32_words get32_fields rbind_check_eq_Inr dest!: words_of_buffer)

section \<open>The array of members\<close>

lemma countedMembers_all:
  "length ps \<le> MAX_PEERS \<Longrightarrow> countedMembers (of_nat (length ps)) ps = Inr ps"
  "length ps \<le> MAX_PEERS \<Longrightarrow> sint (of_nat (length ps) :: u32) = int (length ps)"
proof -
  assume "length ps \<le> MAX_PEERS"
  then show n: "sint (of_nat (length ps) :: u32) = int (length ps)"
    by (simp add: MAX_PEERS_def signed_of_nat signed_take_bit_int_eq_self)
  then show "countedMembers (of_nat (length ps)) ps = Inr ps" by (simp add: countedMembers_def)
qed

lemma putMembers_words:
  assumes "length vs = 3 + i" and "length ps \<le> length ws"
  shows "putMembers en i ps (wire_words (vs @ ws)) = wire_words (vs @ ps @ drop (length ps) ws)"
  using assms
proof (induction ps arbitrary: i vs ws)
  case (Cons p ps)
  then obtain w ws' where ws: "ws = w # ws'" by (cases ws) auto
  have "put32 en (12 + 4 * i) (htonl en p) (wire_words (vs @ w # ws')) = wire_words (vs @ p # ws')"
    using put32_wire_words [of "12 + 4 * i" vs en p w ws' "[]"] Cons.prems(1) by simp
  moreover have "putMembers en (Suc i) ps (wire_words ((vs @ [p]) @ ws')) =
      wire_words ((vs @ [p]) @ ps @ drop (length ps) ws')"
    using Cons.prems ws by (intro Cons.IH) simp_all
  ultimately show ?case by (simp add: ws)
qed simp

definition newViewOf :: "ViewId \<Rightarrow> PeerId list \<Rightarrow> NewViewMsg" where
  "newViewOf v ps = \<lparr>nv_msgType = 3, nv_newViewId = v, nv_numberOfMembers = of_nat (length ps), nv_members = ps\<rparr>"

lemma serializeNewViewMsg_words:
  assumes "length ps \<le> MAX_PEERS" and "length buf = sizeof_NewViewMsg"
  shows "\<exists>ws. length ws + length ps = MAX_PEERS \<and>
    serializeNewViewMsg en (newViewOf v ps) buf = Inr (wire_words ([3, v, of_nat (length ps)] @ ps @ ws))"
proof -
  have "\<exists>ws. length ws = 13 \<and> buf = wire_words ws"
    using wire_words_exhaust [of buf 13] assms(2) by (simp add: sizeof_NewViewMsg_def)
  then obtain a b c ws where buf: "buf = wire_words (a # b # c # ws)" and len: "length ws = 10"
    by (auto simp: numeral_eq_Suc length_Suc_conv)
  have "serializeNewViewMsg en (newViewOf v ps) buf =
      Inr (putMembers en 0 ps (wire_words ([3, v, of_nat (length ps)] @ ws)))"
    using assms(1) by (simp add: serializeNewViewMsg_def newViewOf_def buf put32_words countedMembers_all)
  also have "\<dots> = Inr (wire_words ([3, v, of_nat (length ps)] @ ps @ drop (length ps) ws))"
    using assms(1) len by (subst putMembers_words) (simp_all add: MAX_PEERS_def)
  finally show ?thesis
    using assms(1) len by (intro exI [of _ "drop (length ps) ws"]) (simp add: MAX_PEERS_def)
qed

lemma get32_member:
  assumes "take n buf = wire_words (vs @ ps @ ws)" and "length vs = 3" and "i < length ps"
  shows "ntohl en (get32 en (12 + 4 * i) buf) = ps ! i"
proof (rule get32_words [of n])
  have "ps @ ws = take i ps @ ps ! i # drop (Suc i) ps @ ws"
    using id_take_nth_drop [OF assms(3)] by simp
  with assms(1) show "take n buf = wire_words ((vs @ take i ps) @ ps ! i # (drop (Suc i) ps @ ws))"
    by simp
  show "12 + 4 * i = 4 * length (vs @ take i ps)"
    using assms(2,3) by simp
qed

lemma deserializeNewViewMsg_words:
  assumes "length ps \<le> MAX_PEERS" and "length ws + length ps = MAX_PEERS"
    and "m_n message = sizeof_NewViewMsg"
    and "take sizeof_NewViewMsg (m_buffer message) = wire_words ([3, v, of_nat (length ps)] @ ps @ ws)"
  shows "deserializeNewViewMsg en message = Inr (newViewOf v ps)"
proof -
  have "map (\<lambda>i. ntohl en (get32 en (12 + 4 * i) (m_buffer message))) [0..<length ps] = ps"
    using get32_member [OF assms(4)] by (intro nth_equalityI) simp_all
  then show ?thesis
    using assms get32_fields [of sizeof_NewViewMsg "m_buffer message" 3]
    by (simp add: deserializeNewViewMsg_def newViewOf_def countedMembers_all(2))
qed

text \<open>
  C32: a new view survives the wire. Whatever the memory of the two hosts held before, whatever their
  byte orders, a view with at most ten members is read back with its identifier and its members.
\<close>

theorem newView_roundtrip:
  assumes "length ps \<le> MAX_PEERS" and "length buf = sizeof_NewViewMsg"
  shows "\<exists>bs. serializeNewViewMsg en (newViewOf v ps) buf = Inr bs \<and>
    deserializeNewViewMsg en' (received bs junk from) = Inr (newViewOf v ps)"
proof -
  obtain ws where ws: "length ws + length ps = MAX_PEERS"
    "serializeNewViewMsg en (newViewOf v ps) buf = Inr (wire_words ([3, v, of_nat (length ps)] @ ps @ ws))"
    using serializeNewViewMsg_words [OF assms] by blast
  have "deserializeNewViewMsg en' (received (wire_words ([3, v, of_nat (length ps)] @ ps @ ws)) junk from) =
      Inr (newViewOf v ps)"
    using ws(1) by (intro deserializeNewViewMsg_words [OF assms(1) ws(1)])
      (simp_all add: take_received sizeof_NewViewMsg_def MAX_BUFFER_SIZE_def MAX_PEERS_def)
  with ws(2) show ?thesis by blast
qed

theorem newView_roundtrip_witness:
  "\<exists>bs. serializeNewViewMsg LittleEndian (newViewOf 7 [1, 3, 4]) (replicate 52 9) = Inr bs \<and>
    deserializeNewViewMsg BigEndian (received bs [] ''b'') = Inr (newViewOf 7 [1, 3, 4])"
  using newView_roundtrip [of "[1, 3, 4]" "replicate 52 9" LittleEndian 7 BigEndian "[]" "''b''"]
  by (simp add: MAX_PEERS_def sizeof_NewViewMsg_def)

text \<open>
  The number of members in a received view is not checked. A message of the right size with a
  number above ten makes the deserializer write behind the array of its result.
\<close>

theorem newView_overflow:
  assumes "m_n message = sizeof_NewViewMsg"
    and "take sizeof_NewViewMsg (m_buffer message) = wire_words (3 # v # n # ws)"
    and "int MAX_PEERS < sint n"
  shows "deserializeNewViewMsg en message = Inl UndefinedBehaviour"
  using assms get32_fields(3) [OF assms(2)] by (simp add: deserializeNewViewMsg_def)

theorem newView_overflow_witness:
  "deserializeNewViewMsg LittleEndian (received (wire_words (3 # 1 # 11 # replicate 10 0)) [] ''b'') =
   Inl UndefinedBehaviour"
proof (rule newView_overflow)
  have "sint (11 :: u32) = 11" by (simp add: signed_take_bit_int_eq_self)
  then show "int MAX_PEERS < sint (11 :: u32)" by (simp add: MAX_PEERS_def)
qed (simp_all add: take_received sizeof_NewViewMsg_def MAX_BUFFER_SIZE_def)

end
