(* ===== verification/Membership.thy ===== *)
theory Membership
  imports Net Peers Lab2Wire
begin

text \<open>
  The membership service of lab2 (\<open>membership.h\<close>, \<open>membership.cpp\<close>): one function per member function,
  on a record that extends the sockets of \<open>Net\<close> by the fields of the class. What is constant during a
  run (the byte order, \<open>PeerInfo\<close>, the port and the flag \<open>leaderFailureDemo\<close>) is the record \<open>Config\<close>.
  Log lines of level \<open>INFO\<close> print messages, and printing an unknown type throws; they are modelled as
  the printing of the message. \<open>VLOG\<close> lines are not evaluated at the default level.
\<close>

section \<open>State\<close>

record Config =
  cfg_en :: endian
  cfg_info :: PeerInfo
  membershipPort :: nat
  leaderFailureDemo :: bool

record MembershipService = Network +
  leaderPeerId :: PeerId
  requestCounter :: RequestId
  viewId :: ViewId
  alivePeers :: "PeerId set"
  tcpClientMap :: "PeerId \<rightharpoonup> TcpClient"
  pendingRequest :: RequestMsg
  leaderCrashed :: bool

type_synonym 'a ms = "('a, MembershipService) act"

definition getDummyPendingRequestMsg :: RequestMsg where
  "getDummyPendingRequestMsg =
     \<lparr>rq_msgType = msgTypeCode REQUEST, rq_requestId = 0, rq_currentViewId = 0,
      rq_operationType = operationCode NOTHING, rq_peerId = 0\<rparr>"

definition newMembershipService :: "Network \<Rightarrow> MembershipService" where
  "newMembershipService net = Network.extend net
     \<lparr>leaderPeerId = 1, requestCounter = 1, viewId = 1, alivePeers = {}, tcpClientMap = Map.empty,
      pendingRequest = getDummyPendingRequestMsg, leaderCrashed = False\<rparr>"

definition getGroupMembers :: "Config \<Rightarrow> MembershipService \<Rightarrow> PeerId set" where
  "getGroupMembers cfg s = insert (getMyPeerId (cfg_info cfg)) (alivePeers s)"

text \<open>\<open>tcpClientMap.at\<close>, and \<open>tcpClientMap.insert\<close>, which keeps an entry that is there.\<close>

definition clientAt :: "PeerId \<Rightarrow> TcpClient ms" where
  "clientAt peerId s = (map_at (tcpClientMap s) peerId, s)"

definition insertClient :: "PeerId \<Rightarrow> TcpClient \<Rightarrow> unit ms" where
  "insertClient peerId client =
     modify (\<lambda>s. case tcpClientMap s peerId of
                  None \<Rightarrow> s\<lparr>tcpClientMap := (tcpClientMap s)(peerId \<mapsto> client)\<rparr>
                | Some _ \<Rightarrow> s)"

text \<open>A local \<open>char\<close> array: it holds whatever the memory held before.\<close>

definition stackBuffer :: "nat \<Rightarrow> MembershipService \<Rightarrow> byte list" where
  "stackBuffer n s = take n (memory s @ replicate n 0)"

lemma length_stackBuffer [simp]: "length (stackBuffer n s) = n"
  by (simp add: stackBuffer_def)

section \<open>Creating and sending messages\<close>

definition createRequestMsg :: "PeerId \<Rightarrow> OperationTypeEnum \<Rightarrow> RequestMsg ms" where
  "createRequestMsg newPeerId operationTypeEnum =
     andThen (modify (\<lambda>s. s\<lparr>requestCounter := requestCounter s + 1\<rparr>)) (\<lambda>_.
     get (\<lambda>s. \<lparr>rq_msgType = msgTypeCode REQUEST, rq_requestId = requestCounter s,
               rq_currentViewId = viewId s, rq_operationType = operationCode operationTypeEnum,
               rq_peerId = newPeerId\<rparr>))"

definition createOkMsg :: "MembershipService \<Rightarrow> OkMsg" where
  "createOkMsg s = \<lparr>ok_msgType = msgTypeCode OK, ok_requestId = rq_requestId (pendingRequest s),
                    ok_currentViewId = viewId s\<rparr>"

definition createNewLeaderMsg :: "NewLeaderMsg ms" where
  "createNewLeaderMsg =
     andThen (modify (\<lambda>s. s\<lparr>requestCounter := requestCounter s + 1\<rparr>)) (\<lambda>_.
     get (\<lambda>s. \<lparr>nl_msgType = msgTypeCode NEW_LEADER, nl_requestId = requestCounter s,
               nl_currentViewId = viewId s, nl_operationType = operationCode PENDING\<rparr>))"

definition sendTo :: "PeerId \<Rightarrow> byte list \<Rightarrow> unit ms" where
  "sendTo peerId buffer = andThen (clientAt peerId) (\<lambda>tcpClient. tcpSend tcpClient buffer)"

definition sendRequestMsg :: "Config \<Rightarrow> RequestMsg \<Rightarrow> unit ms" where
  "sendRequestMsg cfg requestMsg =
     andThen (lift (showRequestMsg requestMsg)) (\<lambda>_.
     andThen (get (\<lambda>s. serializeRequestMsg (cfg_en cfg) requestMsg (stackBuffer sizeof_RequestMsg s))) (\<lambda>buffer.
     let isTestCase4 = leaderFailureDemo cfg \<and> rq_operationType requestMsg = operationCode DEL
     in andThen (get alivePeers) (\<lambda>peers.
        andThen (forEach (sorted_list_of_set peers) (\<lambda>peerId.
                   if isTestCase4 \<and> peerId = 2 then ret () else sendTo peerId buffer)) (\<lambda>_.
        if isTestCase4 then lift (Inl ProcessExit) else ret ()))))"

definition sendOkMsg :: "Config \<Rightarrow> OkMsg \<Rightarrow> unit ms" where
  "sendOkMsg cfg okMsg =
     andThen (lift (showOkMsg okMsg)) (\<lambda>_.
     andThen (get (\<lambda>s. serializeOkMsg (cfg_en cfg) okMsg (stackBuffer sizeof_OkMsg s))) (\<lambda>buffer.
     andThen (get leaderPeerId) (\<lambda>leader. sendTo leader buffer)))"

text \<open>
  \<open>sendNewViewMsg\<close> reads the view identifier and then, under the lock, the members. The array of the
  message has room for \<open>MAX_PEERS\<close> members.
\<close>

definition sendViewAs :: "Config \<Rightarrow> ViewId \<Rightarrow> unit ms" where
  "sendViewAs cfg newViewId =
     andThen (get (\<lambda>s. (sorted_list_of_set (getGroupMembers cfg s), alivePeers s))) (\<lambda>(members, peers).
     if length members > MAX_PEERS then lift (Inl UndefinedBehaviour)
     else let newViewMsg = \<lparr>nv_msgType = msgTypeCode NEW_VIEW, nv_newViewId = newViewId,
                            nv_numberOfMembers = of_nat (length members), nv_members = members\<rparr>
     in andThen (lift (showNewViewMsg newViewMsg)) (\<lambda>_.
        forEach (sorted_list_of_set peers) (\<lambda>peerId.
          andThen (get (stackBuffer sizeof_NewViewMsg)) (\<lambda>buffer.
          andThen (lift (serializeNewViewMsg (cfg_en cfg) newViewMsg buffer)) (\<lambda>buffer.
          sendTo peerId buffer)))))"

definition sendNewViewMsg :: "Config \<Rightarrow> unit ms" where
  "sendNewViewMsg cfg = andThen (get viewId) (sendViewAs cfg)"

definition sendPendingRequestMsg :: "Config \<Rightarrow> unit ms" where
  "sendPendingRequestMsg cfg =
     andThen (get (\<lambda>s. (pendingRequest s)\<lparr>rq_currentViewId := viewId s\<rparr>)) (\<lambda>requestMsg.
     andThen (get pendingRequest) (\<lambda>pending.
     andThen (lift (showRequestMsg pending)) (\<lambda>_.
     andThen (get (\<lambda>s. serializeRequestMsg (cfg_en cfg) requestMsg (stackBuffer sizeof_RequestMsg s))) (\<lambda>buffer.
     andThen (get leaderPeerId) (\<lambda>leader. sendTo leader buffer)))))"

text \<open>
  \<open>sendNewLeaderMsg\<close>: the body of the \<open>try\<close> block for one peer, and the loop that collects the peers
  that could be reached.
\<close>

definition newLeaderTo :: "Config \<Rightarrow> byte list \<Rightarrow> PeerId \<Rightarrow> unit ms" where
  "newLeaderTo cfg buffer peer =
     andThen (lift (getHostname (cfg_info cfg) peer)) (\<lambda>hostname.
     andThen (newTcpClient hostname (membershipPort cfg) 5) (\<lambda>client.
     andThen (tcpSend client buffer) (\<lambda>_. insertClient peer client)))"

fun newLeaderLoop :: "Config \<Rightarrow> byte list \<Rightarrow> PeerId list \<Rightarrow> PeerId set \<Rightarrow> PeerId set ms" where
  "newLeaderLoop cfg buffer [] tempAlivePeers = ret tempAlivePeers"
| "newLeaderLoop cfg buffer (peer # peers) tempAlivePeers =
     andThen (catching isRuntimeError
                (andThen (newLeaderTo cfg buffer peer) (\<lambda>_. ret (insert peer tempAlivePeers)))
                (ret tempAlivePeers))
       (newLeaderLoop cfg buffer peers)"

definition sendNewLeaderMsg :: "Config \<Rightarrow> unit ms" where
  "sendNewLeaderMsg cfg =
     andThen createNewLeaderMsg (\<lambda>newLeaderMsg.
     andThen (lift (showNewLeaderMsg newLeaderMsg)) (\<lambda>_.
     andThen (get (\<lambda>s. serializeNewLeaderMsg (cfg_en cfg) newLeaderMsg (stackBuffer sizeof_NewLeaderMsg s))) (\<lambda>buffer.
     andThen (get alivePeers) (\<lambda>peers.
     andThen (newLeaderLoop cfg buffer (sorted_list_of_set peers) {}) (\<lambda>tempAlivePeers.
     modify (\<lambda>s. s\<lparr>alivePeers := tempAlivePeers\<rparr>))))))"

section \<open>Receiving messages\<close>

definition processRequestMsg :: "Config \<Rightarrow> Message \<Rightarrow> unit ms" where
  "processRequestMsg cfg rawReqMessage =
     andThen (lift (deserializeRequestMsg (cfg_en cfg) rawReqMessage)) (\<lambda>requestMsg.
     andThen (modify (\<lambda>s. s\<lparr>pendingRequest := requestMsg\<rparr>)) (\<lambda>_.
     andThen (lift (showRequestMsg requestMsg)) (\<lambda>_. ret ())))"

definition processNewViewMsg :: "Config \<Rightarrow> Message \<Rightarrow> unit ms" where
  "processNewViewMsg cfg rawNewViewMessage =
     andThen (lift (deserializeNewViewMsg (cfg_en cfg) rawNewViewMessage)) (\<lambda>newViewMsg.
     andThen (lift (showNewViewMsg newViewMsg)) (\<lambda>_.
     andThen (modify (\<lambda>s. s\<lparr>viewId := nv_newViewId newViewMsg\<rparr>)) (\<lambda>_.
     andThen (lift (countedMembers (nv_numberOfMembers newViewMsg) (nv_members newViewMsg))) (\<lambda>members.
     modify (\<lambda>s. s\<lparr>alivePeers := set members - {getMyPeerId (cfg_info cfg)},
                    pendingRequest := getDummyPendingRequestMsg\<rparr>)))))"

definition okFrom :: "Config \<Rightarrow> RequestId \<Rightarrow> PeerId \<Rightarrow> unit ms" where
  "okFrom cfg expectedRequestId peerId =
     andThen (clientAt peerId) (\<lambda>tcpClient.
     andThen (tcpReceive tcpClient) (\<lambda>rawOkMessage.
     andThen (lift (getMsgType (cfg_en cfg) rawOkMessage)) (\<lambda>msgTypeEnum.
     andThen (lift (checkMsgType msgTypeEnum OK)) (\<lambda>_.
     andThen (lift (deserializeOkMsg (cfg_en cfg) rawOkMessage)) (\<lambda>okMsg.
     andThen (lift (showOkMsg okMsg)) (\<lambda>_.
     lift (check (ok_requestId okMsg = expectedRequestId))))))))"

definition waitForOkMsg :: "Config \<Rightarrow> RequestId \<Rightarrow> unit ms" where
  "waitForOkMsg cfg expectedRequestId =
     andThen (get alivePeers) (\<lambda>peers.
     forEach (sorted_list_of_set peers) (okFrom cfg expectedRequestId))"

definition waitForNewLeaderMsg :: "Config \<Rightarrow> unit ms" where
  "waitForNewLeaderMsg cfg =
     andThen newTcpServer (\<lambda>tcpServer.
     andThen tcpAccept (\<lambda>leaderClient.
     andThen (tcpServerClose tcpServer) (\<lambda>_.
     andThen (lift (getPeerId (cfg_info cfg) (clientHostname leaderClient))) (\<lambda>peerId.
     andThen (modify (\<lambda>s. s\<lparr>leaderPeerId := peerId\<rparr>)) (\<lambda>_.
     andThen (insertClient peerId leaderClient) (\<lambda>_.
     andThen (tcpReceive leaderClient) (\<lambda>message.
     andThen (lift (getMsgType (cfg_en cfg) message)) (\<lambda>msgType.
     andThen (lift (checkMsgType msgType NEW_LEADER)) (\<lambda>_.
     andThen (lift (deserializeNewLeaderMsg (cfg_en cfg) message)) (\<lambda>newLeaderMsg.
     andThen (lift (showNewLeaderMsg newLeaderMsg)) (\<lambda>_. ret ())))))))))))"

definition pendingFrom :: "Config \<Rightarrow> PeerId \<Rightarrow> RequestMsg \<Rightarrow> RequestMsg ms" where
  "pendingFrom cfg peer pendingRequestMsg =
     andThen (clientAt peer) (\<lambda>tcpClient.
     andThen (tcpReceive tcpClient) (\<lambda>message.
     andThen (lift (getMsgType (cfg_en cfg) message)) (\<lambda>msgType.
     andThen (lift (checkMsgType msgType REQUEST)) (\<lambda>_.
     andThen (lift (deserializeRequestMsg (cfg_en cfg) message)) (\<lambda>requestMsg.
     if rq_operationType requestMsg \<noteq> operationCode NOTHING
     then andThen (lift (showRequestMsg requestMsg)) (\<lambda>_. ret requestMsg)
     else ret pendingRequestMsg)))))"

fun pendingLoop :: "Config \<Rightarrow> PeerId list \<Rightarrow> RequestMsg \<Rightarrow> RequestMsg ms" where
  "pendingLoop cfg [] pendingRequestMsg = ret pendingRequestMsg"
| "pendingLoop cfg (peer # peers) pendingRequestMsg =
     andThen (get (\<lambda>s. tcpClientMap s peer)) (\<lambda>client.
     andThen (case client of None \<Rightarrow> ret pendingRequestMsg | Some _ \<Rightarrow> pendingFrom cfg peer pendingRequestMsg)
       (pendingLoop cfg peers))"

definition waitForPendingRequestMsg :: "Config \<Rightarrow> RequestMsg ms" where
  "waitForPendingRequestMsg cfg =
     andThen (get alivePeers) (\<lambda>peers.
     pendingLoop cfg (sorted_list_of_set peers) getDummyPendingRequestMsg)"

text \<open>The members that \<open>printNewlyInstalledView\<close> logs.\<close>

definition printNewlyInstalledView :: "Config \<Rightarrow> MembershipService \<Rightarrow> string" where
  "printNewlyInstalledView cfg s =
     ''installed view info, viewId: '' @ show_u32 (viewId s) @
     '', members: {'' @ showMembers (sorted_list_of_set (getGroupMembers cfg s)) @ ''}''"

section \<open>Changing the group\<close>

definition modifyGroupMembership :: "Config \<Rightarrow> PeerId \<Rightarrow> OperationTypeEnum \<Rightarrow> unit ms" where
  "modifyGroupMembership cfg peerId operationType =
     andThen (createRequestMsg peerId operationType) (\<lambda>requestMsg.
     andThen (modify (\<lambda>s. if operationType = DEL
                then s\<lparr>tcpClientMap := (tcpClientMap s)(peerId := None),
                       alivePeers := alivePeers s - {peerId}\<rparr>
                else s)) (\<lambda>_.
     andThen (sendRequestMsg cfg requestMsg) (\<lambda>_.
     andThen (waitForOkMsg cfg (rq_requestId requestMsg)) (\<lambda>_.
     andThen (modify (\<lambda>s. if operationType = ADD
                then s\<lparr>alivePeers := insert peerId (alivePeers s)\<rparr> else s)) (\<lambda>_.
     andThen (modify (\<lambda>s. s\<lparr>viewId := viewId s + 1\<rparr>)) (\<lambda>_.
     sendNewViewMsg cfg))))))"

fun findLeaderLoop :: "Config \<Rightarrow> hostname list \<Rightarrow> unit ms" where
  "findLeaderLoop cfg [] = modify (\<lambda>s. s\<lparr>leaderPeerId := getMyPeerId (cfg_info cfg)\<rparr>)"
| "findLeaderLoop cfg (hostname # hs) =
     andThen (lift (getPeerId (cfg_info cfg) hostname)) (\<lambda>peerId.
     if peerId = getMyPeerId (cfg_info cfg) then findLeaderLoop cfg hs
     else andThen (catching isRuntimeError
            (andThen (newTcpClient hostname (membershipPort cfg) 0) (\<lambda>leaderTcpClient. ret (Some leaderTcpClient)))
            (ret None)) (\<lambda>found.
          case found of
            Some leaderTcpClient \<Rightarrow>
              andThen (modify (\<lambda>s. s\<lparr>leaderPeerId := peerId\<rparr>)) (\<lambda>_. insertClient peerId leaderTcpClient)
          | None \<Rightarrow> findLeaderLoop cfg hs))"

definition findLeader :: "Config \<Rightarrow> unit ms" where
  "findLeader cfg = findLeaderLoop cfg (getAllPeerHostnames (cfg_info cfg))"

text \<open>
  The endless loops are given by their first \<open>n\<close> iterations. The leader accepts a new peer in each
  iteration, the follower handles a message of its leader.
\<close>

definition leaderStep :: "Config \<Rightarrow> unit ms" where
  "leaderStep cfg =
     andThen tcpAccept (\<lambda>tcpClient.
     andThen (lift (getPeerId (cfg_info cfg) (clientHostname tcpClient))) (\<lambda>newPeerId.
     andThen (insertClient newPeerId tcpClient) (\<lambda>_.
     modifyGroupMembership cfg newPeerId ADD)))"

fun leaderLoop :: "Config \<Rightarrow> nat \<Rightarrow> unit ms" where
  "leaderLoop cfg 0 = ret ()"
| "leaderLoop cfg (Suc n) = andThen (leaderStep cfg) (\<lambda>_. leaderLoop cfg n)"

definition startAsLeader :: "Config \<Rightarrow> nat \<Rightarrow> unit ms" where
  "startAsLeader cfg n = andThen newTcpServer (\<lambda>_. leaderLoop cfg n)"

definition followerStep :: "Config \<Rightarrow> unit ms" where
  "followerStep cfg =
     andThen (get leaderPeerId) (\<lambda>leader.
     andThen (clientAt leader) (\<lambda>leaderTcpClient.
     andThen (tcpReceive leaderTcpClient) (\<lambda>message.
     andThen (lift (getMsgType (cfg_en cfg) message)) (\<lambda>msgTypeEnum.
     case msgTypeEnum of
       REQUEST \<Rightarrow> andThen (processRequestMsg cfg message) (\<lambda>_.
                  andThen (get createOkMsg) (\<lambda>okMsg. sendOkMsg cfg okMsg))
     | NEW_VIEW \<Rightarrow> processNewViewMsg cfg message
     | _ \<Rightarrow> lift (Inl FatalLog)))))"

fun startAsFollower :: "Config \<Rightarrow> nat \<Rightarrow> unit ms" where
  "startAsFollower cfg 0 = ret ()"
| "startAsFollower cfg (Suc n) = andThen (followerStep cfg) (\<lambda>_. startAsFollower cfg n)"

section \<open>Failures\<close>

text \<open>
  \<open>handleLeaderCrash\<close>; \<open>alive\<close> is the answer of the failure detector, \<open>n\<close> the number of iterations of
  \<open>startAsLeader\<close> that are observed. The result tells whether this process has become the leader.
\<close>

definition handleLeaderCrash :: "Config \<Rightarrow> PeerId set \<Rightarrow> nat \<Rightarrow> bool ms" where
  "handleLeaderCrash cfg alive n =
     andThen (modify (\<lambda>s. s\<lparr>tcpClientMap := Map.empty\<rparr>)) (\<lambda>_.
     let nextLeader = Min (insert (getMyPeerId (cfg_info cfg)) alive)
     in if getMyPeerId (cfg_info cfg) = nextLeader
        then andThen (modify (\<lambda>s. s\<lparr>alivePeers := alivePeers s - {leaderPeerId s}\<rparr>)) (\<lambda>_.
             andThen (sendNewLeaderMsg cfg) (\<lambda>_.
             andThen (waitForPendingRequestMsg cfg) (\<lambda>pendingRequestMsg.
             andThen (if rq_operationType pendingRequestMsg \<noteq> operationCode NOTHING
                      then andThen (lift (showRequestMsg pendingRequestMsg)) (\<lambda>_.
                           modifyGroupMembership cfg (rq_peerId pendingRequestMsg)
                             (operationOf (rq_operationType pendingRequestMsg)))
                      else sendNewViewMsg cfg) (\<lambda>_.
             andThen (modify (\<lambda>s. s\<lparr>leaderPeerId := nextLeader\<rparr>)) (\<lambda>_.
             andThen (startAsLeader cfg n) (\<lambda>_. ret True))))))
        else andThen (waitForNewLeaderMsg cfg) (\<lambda>_.
             andThen (sendPendingRequestMsg cfg) (\<lambda>_. ret False)))"

definition handlePeerFailure :: "Config \<Rightarrow> PeerId \<Rightarrow> unit ms" where
  "handlePeerFailure cfg crashedPeerId =
     andThen (get leaderPeerId) (\<lambda>leader.
     if getMyPeerId (cfg_info cfg) = leader then modifyGroupMembership cfg crashedPeerId DEL
     else if crashedPeerId = leader then modify (\<lambda>s. s\<lparr>leaderCrashed := True\<rparr>)
     else ret ())"

text \<open>Waiting for the condition variable: the failure detector reports \<open>crashed\<close> meanwhile.\<close>

definition awaitLeaderCrash :: "Config \<Rightarrow> PeerId list \<Rightarrow> unit ms" where
  "awaitLeaderCrash cfg crashed =
     andThen (forEach crashed (handlePeerFailure cfg)) (\<lambda>_.
     andThen (get leaderCrashed) (\<lambda>woken.
     if woken then modify (\<lambda>s. s\<lparr>leaderCrashed := False\<rparr>) else lift (Inl Blocked)))"

text \<open>
  The loop of \<open>start\<close> for a follower. A round is: the iterations of \<open>startAsFollower\<close> that are observed,
  the crashes reported while waiting, the answer of the failure detector, and the iterations as leader.
\<close>

fun followerRounds :: "Config \<Rightarrow> (nat \<times> PeerId list \<times> PeerId set \<times> nat) list \<Rightarrow> unit ms" where
  "followerRounds cfg [] = ret ()"
| "followerRounds cfg ((n, crashed, alive, k) # rounds) =
     andThen (catching isTransportException
                (andThen (startAsFollower cfg n) (\<lambda>_. ret False))
                (andThen (awaitLeaderCrash cfg crashed) (\<lambda>_. handleLeaderCrash cfg alive k)))
       (\<lambda>leads. if leads then ret () else followerRounds cfg rounds)"

definition start :: "Config \<Rightarrow> nat \<Rightarrow> (nat \<times> PeerId list \<times> PeerId set \<times> nat) list \<Rightarrow> unit ms" where
  "start cfg n rounds =
     andThen (findLeader cfg) (\<lambda>_.
     andThen (get leaderPeerId) (\<lambda>leader.
     if getMyPeerId (cfg_info cfg) = leader then startAsLeader cfg n
     else followerRounds cfg rounds))"

end
