(* ===== verification/MembershipLemmas.thy ===== *)
theory MembershipLemmas
  imports Membership
begin

text \<open>
  What the operations of the membership service do when they succeed, and when they succeed: sending
  to all peers, collecting the answers, installing a view. The messages on the wire are given by
  their words.
\<close>

section \<open>Messages on the wire\<close>

definition requestBytes :: "RequestId \<Rightarrow> ViewId \<Rightarrow> u32 \<Rightarrow> PeerId \<Rightarrow> byte list" where
  "requestBytes r v op p = wire_words [1, r, v, op, p]"

definition okBytes :: "RequestId \<Rightarrow> ViewId \<Rightarrow> byte list" where
  "okBytes r v = wire_words [2, r, v]"

text \<open>A view message: what follows the members in the array is arbitrary.\<close>

definition isViewMsg :: "byte list \<Rightarrow> ViewId \<Rightarrow> PeerId set \<Rightarrow> bool" where
  "isViewMsg bs v M \<longleftrightarrow> finite M \<and> (\<exists>ws. length ws + card M = MAX_PEERS \<and>
     bs = wire_words ([3, v, of_nat (card M)] @ sorted_list_of_set M @ ws))"

lemma getMsgType_received:
  "length ws < 256 \<Longrightarrow> getMsgType en (received (wire_words (w # ws)) junk from) = Inr (msgTypeOf w)"
  by (simp add: getMsgType_def getTypeWord_received wire_words_simps MAX_BUFFER_SIZE_def)

lemma deserializeRequestMsg_received:
  "deserializeRequestMsg en (received (requestBytes r v op p) junk from) =
   Inr \<lparr>rq_msgType = 1, rq_requestId = r, rq_currentViewId = v, rq_operationType = op, rq_peerId = p\<rparr>"
  by (rule request_codec.deser_image)
    (simp_all add: take_received MAX_BUFFER_SIZE_def lab2_codec_defs requestBytes_def)

lemma deserializeOkMsg_received:
  "deserializeOkMsg en (received (okBytes r v) junk from) =
   Inr \<lparr>ok_msgType = 2, ok_requestId = r, ok_currentViewId = v\<rparr>"
  by (rule ok_codec.deser_image)
    (simp_all add: take_received MAX_BUFFER_SIZE_def lab2_codec_defs okBytes_def)

lemma deserializeNewViewMsg_received:
  assumes "isViewMsg bs v M"
  shows "deserializeNewViewMsg en (received bs junk from) = Inr (newViewOf v (sorted_list_of_set M))"
proof -
  obtain ws where ws: "length ws + card M = MAX_PEERS" "finite M"
    "bs = wire_words ([3, v, of_nat (card M)] @ sorted_list_of_set M @ ws)"
    using assms by (auto simp: isViewMsg_def)
  then show ?thesis
    by (intro deserializeNewViewMsg_words [of _ ws])
      (simp_all add: take_received sizeof_NewViewMsg_def MAX_BUFFER_SIZE_def MAX_PEERS_def)
qed

lemma viewMsg_card: "isViewMsg bs v M \<Longrightarrow> finite M \<and> card M \<le> MAX_PEERS"
  by (auto simp: isViewMsg_def)

lemma getMsgType_view: "isViewMsg bs v M \<Longrightarrow> getMsgType en (received bs junk from) = Inr NEW_VIEW"
  by (auto simp: isViewMsg_def MAX_PEERS_def getMsgType_received)

lemma showNewViewMsg_ok:
  "length ps \<le> MAX_PEERS \<Longrightarrow> \<exists>text. showNewViewMsg (newViewOf v ps) = Inr text"
  by (simp add: showNewViewMsg_def newViewOf_def countedMembers_all)

lemma viewMsg_request: "\<not> isViewMsg (requestBytes r v op p) w M"
  by (simp add: isViewMsg_def requestBytes_def wire_words_inject)

lemma viewMsg_inject: "isViewMsg bs v M \<Longrightarrow> isViewMsg bs w N \<Longrightarrow> v = w \<and> M = N"
  using deserializeNewViewMsg_received [of bs v M] deserializeNewViewMsg_received [of bs w N]
  by (metis (no_types, lifting) NewViewMsg.ext_inject isViewMsg_def newViewOf_def
      sorted_list_of_set.set_sorted_key_list_of_set sum.inject(2))

section \<open>Sending to all peers\<close>

definition reachable :: "MembershipService \<Rightarrow> PeerId \<Rightarrow> bool" where
  "reachable s p \<longleftrightarrow> (\<exists>c. tcpClientMap s p = Some c \<and> \<not> sendFails s (tc_sockFd c))"

definition fdOf :: "MembershipService \<Rightarrow> PeerId \<Rightarrow> fd" where
  "fdOf s p = tc_sockFd (the (tcpClientMap s p))"

lemma sendTo_iff:
  "sendTo p buf s = (Inr u, s') \<longleftrightarrow> reachable s p \<and> s' = s\<lparr>sent := sent s @ [(fdOf s p, buf)]\<rparr>"
  by (auto simp: sendTo_def clientAt_def andThen_eq_Inr map_at_eq_Inr tcpSend_def reachable_def fdOf_def)

lemma reachable_update [simp]:
  "reachable (s\<lparr>sent := x\<rparr>) p = reachable s p" "fdOf (s\<lparr>sent := x\<rparr>) = fdOf s"
  "reachable (s\<lparr>recvs := y\<rparr>) p = reachable s p" "fdOf (s\<lparr>recvs := y\<rparr>) = fdOf s"
  "reachable (s\<lparr>requestCounter := r\<rparr>) p = reachable s p" "fdOf (s\<lparr>requestCounter := r\<rparr>) = fdOf s"
  "reachable (s\<lparr>viewId := v\<rparr>) p = reachable s p" "fdOf (s\<lparr>viewId := v\<rparr>) = fdOf s"
  "reachable (s\<lparr>alivePeers := A\<rparr>) p = reachable s p" "fdOf (s\<lparr>alivePeers := A\<rparr>) = fdOf s"
  by (simp_all add: reachable_def fdOf_def fun_eq_iff)

lemma forEach_sendTo_iff:
  "forEach ps (\<lambda>p. sendTo p buf) s = (Inr u, s') \<longleftrightarrow>
   (\<forall>p \<in> set ps. reachable s p) \<and> s' = s\<lparr>sent := sent s @ map (\<lambda>p. (fdOf s p, buf)) ps\<rparr>"
  by (induction ps arbitrary: s) (auto simp: andThen_eq_Inr act_eq_Inr sendTo_iff)

lemma serializeRequestMsg_bytes:
  "length buf = sizeof_RequestMsg \<Longrightarrow>
   serializeRequestMsg en \<lparr>rq_msgType = 1, rq_requestId = r, rq_currentViewId = v, rq_operationType = op, rq_peerId = p\<rparr> buf =
   requestBytes r v op p"
  by (simp add: request_codec.ser_image fieldsRequestMsg_def requestBytes_def)

definition knownOp :: "OperationTypeEnum \<Rightarrow> bool" where
  "knownOp op \<longleftrightarrow> (\<exists>text. showOperationType op = Inr text)"

lemma knownOp_simps [simp]: "knownOp NOTHING" "knownOp ADD" "knownOp DEL" "knownOp PENDING"
  by (simp_all add: knownOp_def)

lemma showRequestMsg_iff:
  "(\<exists>text. showRequestMsg \<lparr>rq_msgType = 1, rq_requestId = r, rq_currentViewId = v,
     rq_operationType = op, rq_peerId = p\<rparr> = Inr text) \<longleftrightarrow> knownOp (operationOf op)"
  by (auto simp: showRequestMsg_def knownOp_def rbind_eq_Inr)

lemma sendRequestMsg_iff:
  assumes "finite (alivePeers s)"
  shows "sendRequestMsg cfg \<lparr>rq_msgType = 1, rq_requestId = r, rq_currentViewId = v,
      rq_operationType = op, rq_peerId = p\<rparr> s = (Inr u, s') \<longleftrightarrow>
    knownOp (operationOf op) \<and> \<not> (leaderFailureDemo cfg \<and> op = 2) \<and> (\<forall>q \<in> alivePeers s. reachable s q) \<and>
    s' = s\<lparr>sent := sent s @ map (\<lambda>q. (fdOf s q, requestBytes r v op p)) (sorted_list_of_set (alivePeers s))\<rparr>"
proof (cases "leaderFailureDemo cfg \<and> op = 2")
  case True
  then show ?thesis
    by (auto simp: sendRequestMsg_def andThen_eq_Inr act_eq_Inr Let_def)
next
  case False
  then consider "\<not> leaderFailureDemo cfg" | "op \<noteq> 2" by blast
  then show ?thesis
    using assms showRequestMsg_iff [of r v op p]
    by cases (auto simp: sendRequestMsg_def andThen_eq_Inr act_eq_Inr Let_def serializeRequestMsg_bytes
        forEach_sendTo_iff)
qed

text \<open>The view message is built anew for every peer, in memory that does not change meanwhile.\<close>

lemma forEach_view_iff:
  assumes "serializeNewViewMsg en m (stackBuffer sizeof_NewViewMsg s) = Inr bs"
  shows "forEach ps (\<lambda>peerId. andThen (get (stackBuffer sizeof_NewViewMsg)) (\<lambda>buffer.
           andThen (lift (serializeNewViewMsg en m buffer)) (\<lambda>buffer. sendTo peerId buffer))) s = (Inr u, s') \<longleftrightarrow>
    (\<forall>p \<in> set ps. reachable s p) \<and> s' = s\<lparr>sent := sent s @ map (\<lambda>p. (fdOf s p, bs)) ps\<rparr>"
  using assms
proof (induction ps arbitrary: s)
  case (Cons p ps)
  have same: "stackBuffer sizeof_NewViewMsg (s\<lparr>sent := x\<rparr>) = stackBuffer sizeof_NewViewMsg s" for x
    by (simp add: stackBuffer_def)
  have "serializeNewViewMsg en m (stackBuffer sizeof_NewViewMsg (s\<lparr>sent := x\<rparr>)) = Inr bs" for x
    using Cons.prems by (simp add: same)
  from Cons.IH [OF this] show ?case
    using Cons.prems by (auto simp: andThen_eq_Inr act_eq_Inr sendTo_iff)
qed (auto simp: act_eq_Inr)

lemma sendViewAs_iff:
  assumes fin: "finite (alivePeers s)" and card: "card (getGroupMembers cfg s) \<le> MAX_PEERS"
  shows "\<exists>bs. isViewMsg bs v (getGroupMembers cfg s) \<and>
    (\<forall>u s'. sendViewAs cfg v s = (Inr u, s') \<longleftrightarrow> (\<forall>p \<in> alivePeers s. reachable s p) \<and>
       s' = s\<lparr>sent := sent s @ map (\<lambda>p. (fdOf s p, bs)) (sorted_list_of_set (alivePeers s))\<rparr>)"
proof -
  let ?M = "getGroupMembers cfg s"
  let ?ps = "sorted_list_of_set ?M"
  have finM: "finite ?M" using fin by (simp add: getGroupMembers_def)
  have len: "length ?ps \<le> MAX_PEERS" using card by simp
  obtain ws where ws: "length ws + length ?ps = MAX_PEERS"
    "serializeNewViewMsg (cfg_en cfg) (newViewOf v ?ps) (stackBuffer sizeof_NewViewMsg s) =
       Inr (wire_words ([3, v, of_nat (length ?ps)] @ ?ps @ ws))"
    using serializeNewViewMsg_words [OF len, of "stackBuffer sizeof_NewViewMsg s"] by force
  obtain str where str: "showNewViewMsg (newViewOf v ?ps) = Inr str"
    using showNewViewMsg_ok [OF len] by blast
  define bs where "bs = wire_words ([3, v, of_nat (length ?ps)] @ ?ps @ ws)"
  have "isViewMsg bs v ?M"
    using ws(1) finM by (auto simp: isViewMsg_def bs_def)
  moreover have "sendViewAs cfg v s = (Inr u, s') \<longleftrightarrow> (\<forall>p \<in> alivePeers s. reachable s p) \<and>
       s' = s\<lparr>sent := sent s @ map (\<lambda>p. (fdOf s p, bs)) (sorted_list_of_set (alivePeers s))\<rparr>" for u s'
    using len str fin forEach_view_iff [OF ws(2) [folded bs_def], of "sorted_list_of_set (alivePeers s)"]
    by (simp add: sendViewAs_def andThen_eq_Inr act_eq_Inr newViewOf_def)
  ultimately show ?thesis by blast
qed

lemma sendViewAs_overflow:
  assumes "MAX_PEERS < card (getGroupMembers cfg s)"
  shows "sendViewAs cfg v s = (Inl UndefinedBehaviour, s)"
  using assms by (simp add: sendViewAs_def act_simps)

lemma sendNewViewMsg_apply: "sendNewViewMsg cfg s = sendViewAs cfg (viewId s) s"
  by (simp add: sendNewViewMsg_def act_simps)

lemma sendNewViewMsg_iff:
  assumes fin: "finite (alivePeers s)" and card: "card (getGroupMembers cfg s) \<le> MAX_PEERS"
  shows "\<exists>bs. isViewMsg bs (viewId s) (getGroupMembers cfg s) \<and>
    (\<forall>u s'. sendNewViewMsg cfg s = (Inr u, s') \<longleftrightarrow> (\<forall>p \<in> alivePeers s. reachable s p) \<and>
       s' = s\<lparr>sent := sent s @ map (\<lambda>p. (fdOf s p, bs)) (sorted_list_of_set (alivePeers s))\<rparr>)"
  unfolding sendNewViewMsg_apply by (rule sendViewAs_iff [OF assms])

lemma sendNewViewMsg_overflow:
  assumes "MAX_PEERS < card (getGroupMembers cfg s)"
  shows "sendNewViewMsg cfg s = (Inl UndefinedBehaviour, s)"
  using assms by (simp add: sendNewViewMsg_apply sendViewAs_overflow)

section \<open>Collecting the answers\<close>

lemma tcpReceive_chunk:
  "recvs s (tc_sockFd c) = Some bs # rest \<Longrightarrow> bs \<noteq> [] \<Longrightarrow>
   tcpReceive c s = (Inr (received bs (memory s) (tc_hostname c)), s\<lparr>recvs := (recvs s)(tc_sockFd c := rest)\<rparr>)"
  by (simp add: tcpReceive_def)

lemma okBytes_ne [simp]: "okBytes r v \<noteq> []" "requestBytes r v op p \<noteq> []"
  by (simp_all add: okBytes_def requestBytes_def wire_words_simps)

lemma isViewMsg_ne: "isViewMsg bs v M \<Longrightarrow> bs \<noteq> []"
  by (auto simp: isViewMsg_def wire_words_simps)

lemma okFrom_reply:
  assumes "tcpClientMap s p = Some c" and "recvs s (tc_sockFd c) = Some (okBytes r v) # rest"
  shows "okFrom cfg r p s = (Inr (), s\<lparr>recvs := (recvs s)(tc_sockFd c := rest)\<rparr>)"
  using assms
  by (simp add: okFrom_def clientAt_def andThen_def lift_def tcpReceive_chunk checkMsgType_def
      getMsgType_received [of "[r, v]" _ 2, folded okBytes_def] deserializeOkMsg_received showOkMsg_def)

text \<open>Whatever is received, only the receive buffers change.\<close>

lemma tcpReceive_frame: "tcpReceive c s = (r, s') \<Longrightarrow> \<exists>rv. s' = s\<lparr>recvs := rv\<rparr>"
  by (auto simp: tcpReceive_def Let_def split: list.splits option.splits if_splits
      intro: exI [of _ "recvs s"])

lemma okFrom_frame: "okFrom cfg r p s = (Inr u, s') \<Longrightarrow> \<exists>rv. s' = s\<lparr>recvs := rv\<rparr>"
  by (auto simp: okFrom_def andThen_eq_Inr clientAt_def act_eq_Inr dest!: tcpReceive_frame)

lemma forEach_okFrom_frame:
  "forEach ps (okFrom cfg r) s = (Inr u, s') \<Longrightarrow> \<exists>rv. s' = s\<lparr>recvs := rv\<rparr>"
proof (induction ps arbitrary: s)
  case (Cons p ps)
  then obtain s1 where s1: "okFrom cfg r p s = (Inr (), s1)" "forEach ps (okFrom cfg r) s1 = (Inr u, s')"
    by (auto simp: andThen_eq_Inr)
  from okFrom_frame [OF s1(1)] Cons.IH [OF s1(2)] show ?case by auto
qed (auto simp: act_eq_Inr intro: exI [of _ "recvs s'"])

lemma waitForOkMsg_frame: "waitForOkMsg cfg r s = (Inr u, s') \<Longrightarrow> \<exists>rv. s' = s\<lparr>recvs := rv\<rparr>"
  by (auto simp: waitForOkMsg_def andThen_eq_Inr act_eq_Inr dest: forEach_okFrom_frame)

definition answered :: "RequestId \<Rightarrow> MembershipService \<Rightarrow> PeerId \<Rightarrow> bool" where
  "answered r s p \<longleftrightarrow> (\<exists>c v rest. tcpClientMap s p = Some c \<and> recvs s (tc_sockFd c) = Some (okBytes r v) # rest)"

lemma forEach_okFrom_reply:
  assumes "\<forall>p \<in> set ps. answered r s p" and "inj_on (fdOf s) (set ps)" and "distinct ps"
  shows "\<exists>rv. forEach ps (okFrom cfg r) s = (Inr (), s\<lparr>recvs := rv\<rparr>) \<and>
    (\<forall>f. f \<notin> fdOf s ` set ps \<longrightarrow> rv f = recvs s f)"
  using assms
proof (induction ps arbitrary: s)
  case Nil
  then show ?case by (auto simp: act_basic intro: exI [of _ "recvs s"])
next
  case (Cons p ps)
  obtain c v rest where c: "tcpClientMap s p = Some c" "recvs s (tc_sockFd c) = Some (okBytes r v) # rest"
    using Cons.prems(1) by (auto simp: answered_def)
  let ?s1 = "s\<lparr>recvs := (recvs s)(tc_sockFd c := rest)\<rparr>"
  have fdp: "fdOf s p = tc_sockFd c" by (simp add: fdOf_def c(1))
  have "answered r ?s1 q" if "q \<in> set ps" for q
  proof -
    obtain d w rest' where d: "tcpClientMap s q = Some d" "recvs s (tc_sockFd d) = Some (okBytes r w) # rest'"
      using Cons.prems(1) \<open>q \<in> set ps\<close> by (auto simp: answered_def)
    have "q \<noteq> p" using that Cons.prems(3) by auto
    then have "fdOf s q \<noteq> fdOf s p" using Cons.prems(2) that by (auto simp: inj_on_def)
    with d fdp have "tc_sockFd d \<noteq> tc_sockFd c" by (simp add: fdOf_def)
    with d show ?thesis by (auto simp: answered_def)
  qed
  moreover have "inj_on (fdOf ?s1) (set ps)" using Cons.prems(2) by simp
  ultimately obtain rv where rv: "forEach ps (okFrom cfg r) ?s1 = (Inr (), ?s1\<lparr>recvs := rv\<rparr>)"
    "\<forall>f. f \<notin> fdOf s ` set ps \<longrightarrow> rv f = recvs ?s1 f"
    using Cons.IH [of ?s1] Cons.prems(3) by auto
  then show ?case
    using okFrom_reply [OF c] by (intro exI [of _ rv]) (auto simp: andThen_def fdp)
qed

section \<open>Modifying the group\<close>

text \<open>The peers that are asked, and the peers of the new view.\<close>

definition askedPeers :: "OperationTypeEnum \<Rightarrow> PeerId \<Rightarrow> PeerId set \<Rightarrow> PeerId set" where
  "askedPeers op p A = (if op = DEL then A - {p} else A)"

definition newPeers :: "OperationTypeEnum \<Rightarrow> PeerId \<Rightarrow> PeerId set \<Rightarrow> PeerId set" where
  "newPeers op p A = (if op = DEL then A - {p} else if op = ADD then insert p A else A)"

definition newClients :: "OperationTypeEnum \<Rightarrow> PeerId \<Rightarrow> (PeerId \<rightharpoonup> TcpClient) \<Rightarrow> (PeerId \<rightharpoonup> TcpClient)" where
  "newClients op p m = (if op = DEL then m(p := None) else m)"

lemma finite_newPeers [simp]: "finite A \<Longrightarrow> finite (newPeers op p A)" "finite A \<Longrightarrow> finite (askedPeers op p A)"
  by (simp_all add: newPeers_def askedPeers_def)

lemma operationOf_operationCode:
  "op = ADD \<or> op = DEL \<or> op = NOTHING \<or> op = PENDING \<Longrightarrow> operationOf (operationCode op) = op"
  by auto

text \<open>The state between the request and the answers.\<close>

definition askingState :: "OperationTypeEnum \<Rightarrow> PeerId \<Rightarrow> MembershipService \<Rightarrow> MembershipService" where
  "askingState op p s = s\<lparr>requestCounter := requestCounter s + 1,
     tcpClientMap := newClients op p (tcpClientMap s), alivePeers := askedPeers op p (alivePeers s)\<rparr>"

lemma askingState_simps [simp]:
  "requestCounter (askingState op p s) = requestCounter s + 1" "viewId (askingState op p s) = viewId s"
  "sent (askingState op p s) = sent s" "recvs (askingState op p s) = recvs s"
  "alivePeers (askingState op p s) = askedPeers op p (alivePeers s)"
  "tcpClientMap (askingState op p s) = newClients op p (tcpClientMap s)"
  "leaderPeerId (askingState op p s) = leaderPeerId s" "sendFails (askingState op p s) = sendFails s"
  by (simp_all add: askingState_def)

lemma modify_unfold:
  "modifyGroupMembership cfg p op s =
     andThen (sendRequestMsg cfg \<lparr>rq_msgType = 1, rq_requestId = requestCounter s + 1, rq_currentViewId = viewId s,
        rq_operationType = operationCode op, rq_peerId = p\<rparr>) (\<lambda>_.
     andThen (waitForOkMsg cfg (requestCounter s + 1)) (\<lambda>_.
     andThen (modify (\<lambda>s. if op = ADD then s\<lparr>alivePeers := insert p (alivePeers s)\<rparr> else s)) (\<lambda>_.
     andThen (modify (\<lambda>s. s\<lparr>viewId := viewId s + 1\<rparr>)) (\<lambda>_. sendNewViewMsg cfg)))) (askingState op p s)"
  by (simp add: modifyGroupMembership_def createRequestMsg_def andThen_simps andThen_assoc askingState_def
      newClients_def askedPeers_def)

text \<open>The messages of one change: the requests, then the views.\<close>

definition requestsSent :: "OperationTypeEnum \<Rightarrow> PeerId \<Rightarrow> MembershipService \<Rightarrow> (fd \<times> byte list) list" where
  "requestsSent op p s = map (\<lambda>q. (fdOf s q, requestBytes (requestCounter s + 1) (viewId s) (operationCode op) p))
     (sorted_list_of_set (askedPeers op p (alivePeers s)))"

lemma asking_fdOf:
  "q \<in> askedPeers op p A \<Longrightarrow> fdOf (askingState op p s) q = fdOf s q"
  "q \<in> askedPeers op p A \<Longrightarrow> reachable (askingState op p s) q = reachable s q"
  by (auto simp: fdOf_def reachable_def newClients_def askedPeers_def)

lemma asking_requests:
  "map (\<lambda>q. (fdOf (askingState op p s) q, bs)) (sorted_list_of_set (askedPeers op p A)) =
   map (\<lambda>q. (fdOf s q, bs)) (sorted_list_of_set (askedPeers op p A))"
  by (cases "finite (askedPeers op p A)") (auto simp: asking_fdOf)

lemma modify_Inr:
  assumes m: "modifyGroupMembership cfg p op s = (Inr u, s')" and fin: "finite (alivePeers s)"
  shows "\<exists>bs rv. card (insert (getMyPeerId (cfg_info cfg)) (newPeers op p (alivePeers s))) \<le> MAX_PEERS \<and>
    isViewMsg bs (viewId s + 1) (insert (getMyPeerId (cfg_info cfg)) (newPeers op p (alivePeers s))) \<and>
    (\<forall>q \<in> newPeers op p (alivePeers s). newClients op p (tcpClientMap s) q \<noteq> None) \<and>
    s' = s\<lparr>requestCounter := requestCounter s + 1, tcpClientMap := newClients op p (tcpClientMap s),
           recvs := rv, viewId := viewId s + 1, alivePeers := newPeers op p (alivePeers s),
           sent := sent s @ requestsSent op p s @ map (\<lambda>q. (fdOf (askingState op p s) q, bs))
                     (sorted_list_of_set (newPeers op p (alivePeers s)))\<rparr>"
proof -
  let ?a = "askingState op p s"
  let ?R = "\<lparr>rq_msgType = 1, rq_requestId = requestCounter s + 1, rq_currentViewId = viewId s,
        rq_operationType = operationCode op, rq_peerId = p\<rparr>"
  have fina: "finite (alivePeers ?a)" using fin by simp
  from m obtain s1 s2 where
    s1: "sendRequestMsg cfg ?R ?a = (Inr (), s1)" and
    s2: "waitForOkMsg cfg (requestCounter s + 1) s1 = (Inr (), s2)" and
    s': "sendNewViewMsg cfg ((if op = ADD then s2\<lparr>alivePeers := insert p (alivePeers s2)\<rparr> else s2)
           \<lparr>viewId := viewId s2 + 1\<rparr>) = (Inr u, s')"
    unfolding modify_unfold andThen_eq_Inr act_eq_Inr
    by (cases "op = ADD") auto
  have e1: "s1 = ?a\<lparr>sent := sent s @ requestsSent op p s\<rparr>"
    using s1 unfolding sendRequestMsg_iff [OF fina] by (simp add: requestsSent_def asking_requests)
  obtain rv where e2: "s2 = s1\<lparr>recvs := rv\<rparr>" using waitForOkMsg_frame [OF s2] by blast
  define t where "t = (if op = ADD then s2\<lparr>alivePeers := insert p (alivePeers s2)\<rparr> else s2)
           \<lparr>viewId := viewId s2 + 1\<rparr>"
  have t: "t = s\<lparr>requestCounter := requestCounter s + 1, tcpClientMap := newClients op p (tcpClientMap s),
       recvs := rv, viewId := viewId s + 1, alivePeers := newPeers op p (alivePeers s),
       sent := sent s @ requestsSent op p s\<rparr>"
    by (cases "op = ADD") (simp_all add: t_def e2 e1 askingState_def newPeers_def askedPeers_def)
  have members: "getGroupMembers cfg t = insert (getMyPeerId (cfg_info cfg)) (newPeers op p (alivePeers s))"
    by (simp add: getGroupMembers_def t)
  have fint: "finite (alivePeers t)" using fin by (simp add: t)
  have s'': "sendNewViewMsg cfg t = (Inr u, s')" using s' by (simp add: t_def)
  then have card: "card (getGroupMembers cfg t) \<le> MAX_PEERS"
    using sendNewViewMsg_overflow [of cfg t] by (cases "MAX_PEERS < card (getGroupMembers cfg t)") auto
  from sendNewViewMsg_iff [OF fint card] obtain bs where
    bs: "isViewMsg bs (viewId t) (getGroupMembers cfg t)" and
    out: "\<forall>p \<in> alivePeers t. reachable t p"
      "s' = t\<lparr>sent := sent t @ map (\<lambda>p. (fdOf t p, bs)) (sorted_list_of_set (alivePeers t))\<rparr>"
    using s'' by blast
  have "fdOf t = fdOf ?a" by (simp add: fun_eq_iff fdOf_def t)
  moreover have "\<forall>q \<in> newPeers op p (alivePeers s). newClients op p (tcpClientMap s) q \<noteq> None"
    using out(1) by (auto simp: reachable_def t)
  ultimately show ?thesis
    using bs card out(2) unfolding members
    by (intro exI [of _ bs] exI [of _ rv]) (simp add: t)
qed

text \<open>When the change succeeds: every asked peer can be reached and answers, and the new peer is connected.\<close>

lemma modify_succeeds:
  assumes op: "op = ADD \<or> op = DEL" and demo: "\<not> (leaderFailureDemo cfg \<and> op = DEL)"
    and fin: "finite (alivePeers s)"
    and card: "card (insert (getMyPeerId (cfg_info cfg)) (newPeers op p (alivePeers s))) \<le> MAX_PEERS"
    and reach: "\<forall>q \<in> newPeers op p (alivePeers s). reachable s q"
    and answers: "\<forall>q \<in> askedPeers op p (alivePeers s). answered (requestCounter s + 1) s q"
    and inj: "inj_on (fdOf s) (askedPeers op p (alivePeers s))"
  shows "\<exists>s'. modifyGroupMembership cfg p op s = (Inr (), s')"
proof -
  let ?a = "askingState op p s"
  let ?R = "\<lparr>rq_msgType = 1, rq_requestId = requestCounter s + 1, rq_currentViewId = viewId s,
        rq_operationType = operationCode op, rq_peerId = p\<rparr>"
  let ?A = "askedPeers op p (alivePeers s)"
  have fina: "finite (alivePeers ?a)" using fin by simp
  have sub: "?A \<subseteq> newPeers op p (alivePeers s)" by (auto simp: askedPeers_def newPeers_def)
  define s1 where "s1 = ?a\<lparr>sent := sent s @ requestsSent op p s\<rparr>"
  have "sendRequestMsg cfg ?R ?a = (Inr (), s1)"
    unfolding sendRequestMsg_iff [OF fina] s1_def using op demo reach sub
    by (auto simp: requestsSent_def asking_requests asking_fdOf)
  moreover obtain rv where "waitForOkMsg cfg (requestCounter s + 1) s1 = (Inr (), s1\<lparr>recvs := rv\<rparr>)"
  proof -
    have fd: "fdOf s1 q = fdOf s q" if "q \<in> ?A" for q using asking_fdOf(1) [OF that] by (simp add: s1_def)
    have "answered (requestCounter s + 1) s1 q" if "q \<in> ?A" for q
    proof -
      have "tcpClientMap s1 q = tcpClientMap s q"
        using that by (auto simp: s1_def newClients_def askedPeers_def)
      then show ?thesis using answers that by (simp add: answered_def s1_def)
    qed
    moreover have "inj_on (fdOf s1) ?A" using inj fd by (simp add: inj_on_def)
    ultimately have "\<exists>rv. forEach (sorted_list_of_set ?A) (okFrom cfg (requestCounter s + 1)) s1 =
        (Inr (), s1\<lparr>recvs := rv\<rparr>)"
      using forEach_okFrom_reply [of "sorted_list_of_set ?A" "requestCounter s + 1" s1 cfg] fin by auto
    then show ?thesis using that by (auto simp: waitForOkMsg_def act_simps s1_def)
  qed
  moreover define t where "t = (if op = ADD then s1\<lparr>recvs := rv, alivePeers := insert p (alivePeers s1)\<rparr>
      else s1\<lparr>recvs := rv\<rparr>)\<lparr>viewId := viewId s1 + 1\<rparr>"
  moreover have "\<exists>s'. sendNewViewMsg cfg t = (Inr (), s')"
  proof -
    have alive: "alivePeers t = newPeers op p (alivePeers s)"
      using op by (auto simp: t_def s1_def newPeers_def askedPeers_def)
    have "reachable t q" if "q \<in> newPeers op p (alivePeers s)" for q
      using reach that op by (auto simp: t_def s1_def reachable_def newClients_def newPeers_def)
    moreover have "card (getGroupMembers cfg t) \<le> MAX_PEERS" "finite (alivePeers t)"
      using card fin by (simp_all add: getGroupMembers_def alive)
    ultimately show ?thesis using sendNewViewMsg_iff [of t cfg] by (auto simp: alive)
  qed
  ultimately show ?thesis unfolding modify_unfold by (auto simp: act_simps andThen_def)
qed

end
