(* ===== verification/MembershipProps.thy ===== *)
theory MembershipProps
  imports MembershipLemmas
begin

text \<open>
  The properties of the membership service of lab2 while its leader is up: what one change of the
  group does, what happens when a peer does not answer, and the agreement of all members on every
  view.
\<close>

section \<open>One change of the group\<close>

lemma new_fdOf: "q \<in> newPeers op p A \<Longrightarrow> fdOf (askingState op p s) q = fdOf s q"
  by (auto simp: fdOf_def newClients_def newPeers_def)

text \<open>
  The conditions of a change: the peers of the new view can be reached, those that are asked have sent
  an acknowledgement of the request, on connections of their own, and the view fits into a message.
\<close>

definition readyFor :: "Config \<Rightarrow> OperationTypeEnum \<Rightarrow> PeerId \<Rightarrow> MembershipService \<Rightarrow> bool" where
  "readyFor cfg op p s \<longleftrightarrow> (op = ADD \<or> op = DEL) \<and> \<not> (leaderFailureDemo cfg \<and> op = DEL) \<and>
     finite (alivePeers s) \<and>
     card (insert (getMyPeerId (cfg_info cfg)) (newPeers op p (alivePeers s))) \<le> MAX_PEERS \<and>
     (\<forall>q \<in> newPeers op p (alivePeers s). reachable s q) \<and>
     (\<forall>q \<in> askedPeers op p (alivePeers s). answered (requestCounter s + 1) s q) \<and>
     inj_on (fdOf s) (askedPeers op p (alivePeers s))"

lemma modify_ready:
  assumes "readyFor cfg op p s"
  shows "\<exists>s' bs. modifyGroupMembership cfg p op s = (Inr (), s') \<and>
    viewId s' = viewId s + 1 \<and> requestCounter s' = requestCounter s + 1 \<and>
    alivePeers s' = newPeers op p (alivePeers s) \<and>
    isViewMsg bs (viewId s + 1) (getGroupMembers cfg s') \<and>
    sent s' = sent s @
      map (\<lambda>q. (fdOf s q, requestBytes (requestCounter s + 1) (viewId s) (operationCode op) p))
        (sorted_list_of_set (askedPeers op p (alivePeers s))) @
      map (\<lambda>q. (fdOf s q, bs)) (sorted_list_of_set (newPeers op p (alivePeers s)))"
proof -
  have fin: "finite (alivePeers s)" using assms by (simp add: readyFor_def)
  obtain s' where s': "modifyGroupMembership cfg p op s = (Inr (), s')"
    using modify_succeeds [of op cfg s p] assms unfolding readyFor_def by blast
  have "map (\<lambda>q. (fdOf (askingState op p s) q, bs)) (sorted_list_of_set (newPeers op p (alivePeers s))) =
      map (\<lambda>q. (fdOf s q, bs)) (sorted_list_of_set (newPeers op p (alivePeers s)))" for bs :: "byte list"
    using fin by (auto simp: new_fdOf)
  with modify_Inr [OF s' fin] s' show ?thesis
    by (auto simp: getGroupMembers_def requestsSent_def)
qed

text \<open>
  C15: a change of the group. If the peers that stay can be reached and acknowledge the request, the
  leader completes the change: the view identifier is one larger, the peers are the old ones with the
  peer added or removed, every old peer that stays has been sent the request and every peer of the
  new view the new view with exactly its members, in this order.
\<close>

theorem modify_group:
  assumes "readyFor cfg op p s"
  shows "\<exists>s' bs. modifyGroupMembership cfg p op s = (Inr (), s') \<and>
    viewId s' = viewId s + 1 \<and> requestCounter s' = requestCounter s + 1 \<and>
    alivePeers s' = (if op = ADD then insert p (alivePeers s) else alivePeers s - {p}) \<and>
    isViewMsg bs (viewId s + 1) (getGroupMembers cfg s') \<and>
    sent s' = sent s @
      map (\<lambda>q. (fdOf s q, requestBytes (requestCounter s + 1) (viewId s) (operationCode op) p))
        (sorted_list_of_set (if op = ADD then alivePeers s else alivePeers s - {p})) @
      map (\<lambda>q. (fdOf s q, bs))
        (sorted_list_of_set (if op = ADD then insert p (alivePeers s) else alivePeers s - {p}))"
proof -
  have op: "newPeers op p (alivePeers s) = (if op = ADD then insert p (alivePeers s) else alivePeers s - {p})"
    "askedPeers op p (alivePeers s) = (if op = ADD then alivePeers s else alivePeers s - {p})"
    using assms by (auto simp: readyFor_def newPeers_def askedPeers_def)
  show ?thesis using modify_ready [OF assms] unfolding op .
qed

section \<open>Peers that do not answer\<close>

lemma asking_ok:
  assumes op: "op = ADD \<or> op = DEL" and demo: "\<not> (leaderFailureDemo cfg \<and> op = DEL)"
    and fin: "finite (alivePeers s)"
    and reach: "\<forall>q \<in> askedPeers op p (alivePeers s). reachable s q"
    and wait: "forEach (sorted_list_of_set (askedPeers op p (alivePeers s))) (okFrom cfg (requestCounter s + 1))
        (askingState op p s\<lparr>sent := sent s @ requestsSent op p s\<rparr>) = (Inl e, s')"
  shows "modifyGroupMembership cfg p op s = (Inl e, s')"
proof -
  have "sendRequestMsg cfg \<lparr>rq_msgType = 1, rq_requestId = requestCounter s + 1, rq_currentViewId = viewId s,
        rq_operationType = operationCode op, rq_peerId = p\<rparr> (askingState op p s) =
      (Inr (), askingState op p s\<lparr>sent := sent s @ requestsSent op p s\<rparr>)"
    using op demo reach fin by (subst sendRequestMsg_iff) (auto simp: requestsSent_def asking_requests asking_fdOf)
  moreover have "waitForOkMsg cfg (requestCounter s + 1) (askingState op p s\<lparr>sent := sent s @ requestsSent op p s\<rparr>) =
      (Inl e, s')"
    using wait by (simp add: waitForOkMsg_def act_simps)
  ultimately show ?thesis by (simp add: modify_unfold act_simps)
qed

text \<open>The first peer that fails to answer, after others that did.\<close>

lemma forEach_okFrom_fails:
  assumes "\<forall>p \<in> set pre. answered r s p" and "inj_on (fdOf s) (set (pre @ [q]))" and "distinct (pre @ [q])"
    and "\<And>rv. rv (fdOf s q) = recvs s (fdOf s q) \<Longrightarrow> \<exists>rv'. okFrom cfg r q (s\<lparr>recvs := rv\<rparr>) = (Inl e, s\<lparr>recvs := rv'\<rparr>)"
  shows "\<exists>rv'. forEach (pre @ q # post) (okFrom cfg r) s = (Inl e, s\<lparr>recvs := rv'\<rparr>)"
proof -
  have "inj_on (fdOf s) (set pre)" "distinct pre" using assms(2,3) by auto
  from forEach_okFrom_reply [OF assms(1) this] obtain rv where
    rv: "forEach pre (okFrom cfg r) s = (Inr (), s\<lparr>recvs := rv\<rparr>)"
      "\<forall>f. f \<notin> fdOf s ` set pre \<longrightarrow> rv f = recvs s f" by blast
  have "fdOf s q \<notin> fdOf s ` set pre" using assms(2,3) by auto
  with rv(2) assms(4) obtain rv' where "okFrom cfg r q (s\<lparr>recvs := rv\<rparr>) = (Inl e, s\<lparr>recvs := rv'\<rparr>)"
    by blast
  with rv(1) show ?thesis by (intro exI [of _ rv']) (simp add: forEach_append andThen_def)
qed

lemma okFrom_lost:
  assumes "tcpClientMap s q = Some c" and "recvs s (tc_sockFd c) = r # rest" and "r = None \<or> r = Some []"
  shows "okFrom cfg i q s = (Inl TransportException, s\<lparr>recvs := (recvs s)(tc_sockFd c := rest)\<rparr>)"
  using assms by (auto simp: okFrom_def clientAt_def andThen_def tcpReceive_def lift_def)

lemma okFrom_stale:
  assumes "tcpClientMap s q = Some c" and "recvs s (tc_sockFd c) = Some (okBytes j v) # rest" and "j \<noteq> i"
  shows "okFrom cfg i q s = (Inl CheckFailed, s\<lparr>recvs := (recvs s)(tc_sockFd c := rest)\<rparr>)"
  using assms
  by (simp add: okFrom_def clientAt_def andThen_def lift_def tcpReceive_chunk checkMsgType_def
      getMsgType_received [of "[j, v]" _ 2, folded okBytes_def] deserializeOkMsg_received showOkMsg_def)

text \<open>
  The assumptions of the two failures: the requests can be sent, the peers before \<open>q\<close> in the order of
  the identifiers answer.
\<close>

definition failsAt :: "Config \<Rightarrow> OperationTypeEnum \<Rightarrow> PeerId \<Rightarrow> MembershipService \<Rightarrow> PeerId list \<Rightarrow> PeerId \<Rightarrow> bool" where
  "failsAt cfg op p s pre q \<longleftrightarrow> (op = ADD \<or> op = DEL) \<and> \<not> (leaderFailureDemo cfg \<and> op = DEL) \<and>
     finite (alivePeers s) \<and> (\<forall>q \<in> askedPeers op p (alivePeers s). reachable s q) \<and>
     inj_on (fdOf s) (askedPeers op p (alivePeers s)) \<and>
     (\<exists>post. sorted_list_of_set (askedPeers op p (alivePeers s)) = pre @ q # post) \<and>
     (\<forall>q \<in> set pre. answered (requestCounter s + 1) s q)"

lemma failsAt_result:
  assumes f: "failsAt cfg op p s pre q" and c: "tcpClientMap s q = Some c"
    and fail: "\<And>t. tcpClientMap t q = Some c \<Longrightarrow> recvs t (tc_sockFd c) = recvs s (tc_sockFd c) \<Longrightarrow>
      \<exists>rv'. okFrom cfg (requestCounter s + 1) q t = (Inl e, t\<lparr>recvs := rv'\<rparr>)"
  shows "\<exists>s'. modifyGroupMembership cfg p op s = (Inl e, s') \<and> viewId s' = viewId s \<and>
    alivePeers s' = askedPeers op p (alivePeers s) \<and> sent s' = sent s @ requestsSent op p s"
proof -
  let ?A = "askedPeers op p (alivePeers s)"
  let ?a = "askingState op p s\<lparr>sent := sent s @ requestsSent op p s\<rparr>"
  obtain post where post: "sorted_list_of_set ?A = pre @ q # post" using f by (auto simp: failsAt_def)
  have fin: "finite ?A" using f by (simp add: failsAt_def)
  have A: "set (pre @ q # post) = ?A" using fin by (simp flip: post)
  have d: "distinct (pre @ q # post)" by (simp flip: post)
  have same: "tcpClientMap ?a x = tcpClientMap s x" if "x \<in> ?A" for x
    using that by (auto simp: newClients_def askedPeers_def)
  have fd: "fdOf ?a x = fdOf s x" if "x \<in> ?A" for x using same [OF that] by (simp add: fdOf_def)
  have cq: "tcpClientMap ?a q = Some c" "fdOf s q = tc_sockFd c"
    using same [of q] A c by (auto simp: fdOf_def)
  have "q \<in> ?A" using A by auto
  then have fdq: "fdOf ?a q = tc_sockFd c" using fd [of q] cq(2) by simp
  have inj: "inj_on (fdOf ?a) (set (pre @ [q]))"
  proof (rule inj_onI)
    fix x y
    assume "x \<in> set (pre @ [q])" "y \<in> set (pre @ [q])" "fdOf ?a x = fdOf ?a y"
    moreover from this A have "x \<in> ?A" "y \<in> ?A" by auto
    ultimately show "x = y" using f fd by (simp add: failsAt_def inj_on_def)
  qed
  have ans: "answered (requestCounter s + 1) ?a x" if "x \<in> set pre" for x
  proof -
    have "answered (requestCounter s + 1) s x" using f that by (simp add: failsAt_def)
    moreover have "tcpClientMap ?a x = tcpClientMap s x" using same A that by auto
    ultimately show ?thesis by (simp add: answered_def)
  qed
  have "\<exists>rv'. forEach (pre @ q # post) (okFrom cfg (requestCounter s + 1)) ?a = (Inl e, ?a\<lparr>recvs := rv'\<rparr>)"
  proof (rule forEach_okFrom_fails)
    show "distinct (pre @ [q])" using d by simp
    show "\<exists>rv'. okFrom cfg (requestCounter s + 1) q (?a\<lparr>recvs := rv\<rparr>) = (Inl e, ?a\<lparr>recvs := rv'\<rparr>)"
      if "rv (fdOf ?a q) = recvs ?a (fdOf ?a q)" for rv
    proof -
      have "\<exists>rv'. okFrom cfg (requestCounter s + 1) q (?a\<lparr>recvs := rv\<rparr>) = (Inl e, ?a\<lparr>recvs := rv\<rparr>\<lparr>recvs := rv'\<rparr>)"
        using that cq fdq by (intro fail) simp_all
      then show ?thesis by simp
    qed
  qed (use inj ans in auto)
  then obtain rv' where "forEach (sorted_list_of_set ?A) (okFrom cfg (requestCounter s + 1)) ?a =
      (Inl e, ?a\<lparr>recvs := rv'\<rparr>)" by (auto simp: post)
  from asking_ok [OF _ _ _ _ this] f show ?thesis by (auto simp: failsAt_def)
qed

text \<open>
  C36: a peer whose connection is lost before it acknowledges. The change ends with a
  \<open>TransportException\<close> (which the code that runs as leader does not catch): no view is installed or
  sent and the view identifier is unchanged, but a peer to be deleted has already been removed from
  the group.
\<close>

theorem lost_peer_aborts_change:
  assumes "failsAt cfg op p s pre q" and "tcpClientMap s q = Some c"
    and "recvs s (tc_sockFd c) = r # rest" and "r = None \<or> r = Some []"
  shows "\<exists>s'. modifyGroupMembership cfg p op s = (Inl TransportException, s') \<and> viewId s' = viewId s \<and>
    alivePeers s' = askedPeers op p (alivePeers s) \<and> sent s' = sent s @ requestsSent op p s"
proof (rule failsAt_result [OF assms(1,2)])
  fix t :: MembershipService
  assume "tcpClientMap t q = Some c" "recvs t (tc_sockFd c) = recvs s (tc_sockFd c)"
  then show "\<exists>rv'. okFrom cfg (requestCounter s + 1) q t = (Inl TransportException, t\<lparr>recvs := rv'\<rparr>)"
    using okFrom_lost [of t q c r rest] assms(3,4) by auto
qed

text \<open>
  An acknowledgement with the identifier of another request is never taken for the answer: the
  leader aborts before it changes the view.
\<close>

theorem stale_ok_aborts_change:
  assumes "failsAt cfg op p s pre q" and "tcpClientMap s q = Some c"
    and "recvs s (tc_sockFd c) = Some (okBytes j v) # rest" and "j \<noteq> requestCounter s + 1"
  shows "\<exists>s'. modifyGroupMembership cfg p op s = (Inl CheckFailed, s') \<and> viewId s' = viewId s \<and>
    alivePeers s' = askedPeers op p (alivePeers s) \<and> sent s' = sent s @ requestsSent op p s"
proof (rule failsAt_result [OF assms(1,2)])
  fix t :: MembershipService
  assume "tcpClientMap t q = Some c" "recvs t (tc_sockFd c) = recvs s (tc_sockFd c)"
  then show "\<exists>rv'. okFrom cfg (requestCounter s + 1) q t = (Inl CheckFailed, t\<lparr>recvs := rv'\<rparr>)"
    using okFrom_stale [of t q c j v rest "requestCounter s + 1"] assms(3,4) by auto
qed

section \<open>The follower\<close>

lemma followerStep_view:
  assumes "tcpClientMap t (leaderPeerId t) = Some c" and "recvs t (tc_sockFd c) = Some bs # rest"
    and "isViewMsg bs v M"
  shows "followerStep cfg t = (Inr (), t\<lparr>recvs := (recvs t)(tc_sockFd c := rest), viewId := v,
    alivePeers := M - {getMyPeerId (cfg_info cfg)}, pendingRequest := getDummyPendingRequestMsg\<rparr>)"
proof -
  let ?ps = "sorted_list_of_set M"
  have len: "length ?ps \<le> MAX_PEERS" using viewMsg_card [OF assms(3)] by simp
  obtain str where "showNewViewMsg (newViewOf v ?ps) = Inr str" using showNewViewMsg_ok [OF len] by blast
  moreover have "countedMembers (of_nat (length ?ps)) ?ps = Inr ?ps" by (rule countedMembers_all(1) [OF len])
  moreover have "set ?ps = M" using viewMsg_card [OF assms(3)] by simp
  ultimately show ?thesis
    using assms isViewMsg_ne [OF assms(3)]
    by (simp add: followerStep_def clientAt_def andThen_def act_basic tcpReceive_chunk getMsgType_view
        processNewViewMsg_def deserializeNewViewMsg_received newViewOf_def)
qed

lemma getMsgType_request: "getMsgType en (received (requestBytes r v op p) junk from) = Inr REQUEST"
  by (simp add: requestBytes_def getMsgType_received)

lemma sendOkMsg_iff:
  "sendOkMsg cfg \<lparr>ok_msgType = 2, ok_requestId = r, ok_currentViewId = v\<rparr> t = (Inr u, t') \<longleftrightarrow>
   reachable t (leaderPeerId t) \<and> t' = t\<lparr>sent := sent t @ [(fdOf t (leaderPeerId t), okBytes r v)]\<rparr>"
  by (auto simp: sendOkMsg_def andThen_eq_Inr act_eq_Inr sendTo_iff showOkMsg_def okBytes_def
      ok_codec.ser_image fieldsOkMsg_def)

lemma followerStep_request_iff:
  assumes "tcpClientMap t (leaderPeerId t) = Some c" and "recvs t (tc_sockFd c) = Some (requestBytes r v op p) # rest"
  shows "followerStep cfg t = (Inr u, t') \<longleftrightarrow> knownOp (operationOf op) \<and> \<not> sendFails t (tc_sockFd c) \<and>
    t' = t\<lparr>recvs := (recvs t)(tc_sockFd c := rest),
      pendingRequest := \<lparr>rq_msgType = 1, rq_requestId = r, rq_currentViewId = v, rq_operationType = op, rq_peerId = p\<rparr>,
      sent := sent t @ [(tc_sockFd c, okBytes r (viewId t))]\<rparr>"
  using assms showRequestMsg_iff [of r v op p]
  by (auto simp: followerStep_def clientAt_def andThen_eq_Inr act_eq_Inr tcpReceive_chunk getMsgType_request
      processRequestMsg_def deserializeRequestMsg_received createOkMsg_def sendOkMsg_iff reachable_def fdOf_def)

text \<open>
  A follower that gets a request remembers it and acknowledges it to its leader with the
  identifier of the request and its own view, and changes nothing else.
\<close>

theorem follower_acknowledges:
  assumes "tcpClientMap t (leaderPeerId t) = Some c" and "\<not> sendFails t (tc_sockFd c)"
    and "recvs t (tc_sockFd c) = Some (requestBytes r v op p) # rest" and "knownOp (operationOf op)"
  shows "followerStep cfg t = (Inr (), t\<lparr>recvs := (recvs t)(tc_sockFd c := rest),
    pendingRequest := \<lparr>rq_msgType = 1, rq_requestId = r, rq_currentViewId = v, rq_operationType = op, rq_peerId = p\<rparr>,
    sent := sent t @ [(tc_sockFd c, okBytes r (viewId t))]\<rparr>)"
  using followerStep_request_iff [OF assms(1,3)] assms by simp

end
