(* ===== verification/ViewAgreement.thy ===== *)
theory ViewAgreement
  imports MembershipProps
begin

text \<open>
  The agreement of the membership service: a leader goes through any sequence of joins and failures,
  every member handles messages that the leader has sent to it. Two members, or a member and the
  leader, that have installed the same view identifier have the same group.
\<close>

section \<open>The events of the leader\<close>

datatype leaderEvent = PeerJoins | PeerFails PeerId

fun runEvent :: "Config \<Rightarrow> leaderEvent \<Rightarrow> unit ms" where
  "runEvent cfg PeerJoins = leaderStep cfg"
| "runEvent cfg (PeerFails p) = handlePeerFailure cfg p"

definition me :: "Config \<Rightarrow> PeerId" where
  "me cfg = getMyPeerId (cfg_info cfg)"

text \<open>
  The leader knows who is at the other end of a connection: \<open>peerAt\<close> gives the peer of every
  descriptor, and the names of accepted connections are those of their peers.
\<close>

definition leading :: "(fd \<Rightarrow> PeerId) \<Rightarrow> Config \<Rightarrow> MembershipService \<Rightarrow> bool" where
  "leading peerAt cfg s \<longleftrightarrow> leaderPeerId s = me cfg \<and> finite (alivePeers s) \<and>
     (\<forall>q c. tcpClientMap s q = Some c \<longrightarrow> peerAt (tc_sockFd c) = q) \<and>
     (\<forall>(f, h, port) \<in> set (accepts s). \<forall>i.
        getPeerId (cfg_info cfg) (parseHostnameFromSender h) = Inr i \<longrightarrow> peerAt f = i)"

lemma leadingD:
  assumes "leading peerAt cfg s"
  shows "leaderPeerId s = me cfg" "finite (alivePeers s)" "tcpClientMap s q = Some c \<Longrightarrow> peerAt (tc_sockFd c) = q"
    "(f, h, port) \<in> set (accepts s) \<Longrightarrow> getPeerId (cfg_info cfg) (parseHostnameFromSender h) = Inr i \<Longrightarrow> peerAt f = i"
  using assms by (auto simp: leading_def)

lemma leadingI:
  assumes "leaderPeerId s = me cfg" and "finite (alivePeers s)"
    and "\<And>q c. tcpClientMap s q = Some c \<Longrightarrow> peerAt (tc_sockFd c) = q"
    and "\<And>f h port i. (f, h, port) \<in> set (accepts s) \<Longrightarrow>
      getPeerId (cfg_info cfg) (parseHostnameFromSender h) = Inr i \<Longrightarrow> peerAt f = i"
  shows "leading peerAt cfg s"
  using assms by (auto simp: leading_def)

text \<open>
  An entry of the log of what was sent: a request, or the view after one of the first \<open>n\<close> changes, to
  a member of it. \<open>A k\<close> are the peers after \<open>k\<close> changes.
\<close>

definition isRequest :: "byte list \<Rightarrow> bool" where
  "isRequest bs \<longleftrightarrow> (\<exists>r w op p. bs = requestBytes r w op p)"

lemma isRequest_requestBytes: "isRequest (requestBytes r w op p)"
  unfolding isRequest_def by (intro exI) (rule refl)

definition logEntry :: "(fd \<Rightarrow> PeerId) \<Rightarrow> Config \<Rightarrow> ViewId \<Rightarrow> (nat \<Rightarrow> PeerId set) \<Rightarrow> nat \<Rightarrow> fd \<Rightarrow> byte list \<Rightarrow> bool" where
  "logEntry peerAt cfg v A n f bs \<longleftrightarrow> isRequest bs \<or>
     (\<exists>k<n. peerAt f \<in> A (Suc k) \<and> isViewMsg bs (v + of_nat (Suc k)) (insert (me cfg) (A (Suc k))))"

lemma logEntry_shift:
  assumes "logEntry peerAt cfg (v + 1) A n f bs"
  shows "logEntry peerAt cfg v (case_nat B A) (Suc n) f bs"
  using assms unfolding logEntry_def
proof (elim disjE exE conjE)
  fix k
  assume k: "k < n" "peerAt f \<in> A (Suc k)" "isViewMsg bs (v + 1 + of_nat (Suc k)) (insert (me cfg) (A (Suc k)))"
  from k show "isRequest bs \<or> (\<exists>k<Suc n. peerAt f \<in> case_nat B A (Suc k) \<and>
      isViewMsg bs (v + of_nat (Suc k)) (insert (me cfg) (case_nat B A (Suc k))))"
    by (intro disjI2 exI [of _ "Suc k"]) (simp add: ac_simps)
qed simp

lemma logEntry_first:
  assumes "logEntry peerAt cfg v (\<lambda>_. A 0) 1 f bs"
  shows "logEntry peerAt cfg v (case_nat B A) (Suc n) f bs"
  using assms by (auto simp: logEntry_def)

lemma newClients_le: "newClients op p m q = Some c \<Longrightarrow> m q = Some c"
  by (auto simp: newClients_def split: if_splits)

lemma requestsSent_requests: "e \<in> set (requestsSent op p s) \<Longrightarrow> isRequest (snd e)"
  by (auto simp: requestsSent_def isRequest_requestBytes)

lemma modify_step:
  assumes l: "leading peerAt cfg s" and m: "modifyGroupMembership cfg p op s = (Inr u, s')"
  shows "\<exists>log. leading peerAt cfg s' \<and> viewId s' = viewId s + 1 \<and> sent s' = sent s @ log \<and>
    (\<forall>e \<in> set log. logEntry peerAt cfg (viewId s) (\<lambda>_. alivePeers s') 1 (fst e) (snd e))"
proof -
  let ?A = "newPeers op p (alivePeers s)"
  from modify_Inr [OF m leadingD(2) [OF l], folded me_def] obtain bs rv where
    bs: "isViewMsg bs (viewId s + 1) (insert (me cfg) ?A)" and
    cl: "\<forall>q \<in> ?A. newClients op p (tcpClientMap s) q \<noteq> None" and
    s': "s' = s\<lparr>requestCounter := requestCounter s + 1, tcpClientMap := newClients op p (tcpClientMap s),
           recvs := rv, viewId := viewId s + 1, alivePeers := ?A,
           sent := sent s @ requestsSent op p s @ map (\<lambda>q. (fdOf (askingState op p s) q, bs))
                     (sorted_list_of_set ?A)\<rparr>"
    by (elim exE conjE)
  have fields: "leaderPeerId s' = leaderPeerId s" "alivePeers s' = ?A" "accepts s' = accepts s"
    "tcpClientMap s' = newClients op p (tcpClientMap s)" "viewId s' = viewId s + 1"
    "sent s' = sent s @ requestsSent op p s @ map (\<lambda>q. (fdOf (askingState op p s) q, bs)) (sorted_list_of_set ?A)"
    by (simp_all add: s')
  have fin: "finite ?A" using leadingD(2) [OF l] by simp
  have "leading peerAt cfg s'"
  proof (rule leadingI)
    show "peerAt (tc_sockFd c) = q" if "tcpClientMap s' q = Some c" for q c
      using that newClients_le leadingD(3) [OF l] by (simp add: fields)
    show "peerAt f = i" if "(f, h, port) \<in> set (accepts s')"
      "getPeerId (cfg_info cfg) (parseHostnameFromSender h) = Inr i" for f h port i
      using that leadingD(4) [OF l] by (simp add: fields)
  qed (use leadingD(1,2) [OF l] in \<open>simp_all add: fields\<close>)
  moreover have "logEntry peerAt cfg (viewId s) (\<lambda>_. ?A) 1 (fst e) (snd e)"
    if "e \<in> set (requestsSent op p s @ map (\<lambda>q. (fdOf (askingState op p s) q, bs)) (sorted_list_of_set ?A))" for e
    using that
  proof (unfold set_append, elim UnE)
    assume "e \<in> set (requestsSent op p s)"
    then show ?thesis unfolding logEntry_def by (intro disjI1) (rule requestsSent_requests)
  next
    assume "e \<in> set (map (\<lambda>q. (fdOf (askingState op p s) q, bs)) (sorted_list_of_set ?A))"
    then obtain q where q: "q \<in> ?A" "e = (fdOf (askingState op p s) q, bs)" using fin by auto
    obtain c where c: "newClients op p (tcpClientMap s) q = Some c" using cl q(1) by blast
    then have "fdOf (askingState op p s) q = tc_sockFd c" by (simp add: fdOf_def)
    with leadingD(3) [OF l newClients_le [OF c]] q have "peerAt (fst e) \<in> ?A" by simp
    then show ?thesis unfolding logEntry_def using bs q(2) by (intro disjI2 exI [of _ 0]) simp
  qed
  ultimately show ?thesis
    by (intro exI [of _ "requestsSent op p s @ map (\<lambda>q. (fdOf (askingState op p s) q, bs)) (sorted_list_of_set ?A)"]
        conjI ballI) (simp_all add: fields)
qed

lemma accept_step:
  assumes l: "leading peerAt cfg s" and a: "tcpAccept s = (Inr c, s1)"
    and i: "getPeerId (cfg_info cfg) (clientHostname c) = Inr p"
    and ins: "insertClient p c s1 = (Inr u, s2)"
  shows "leading peerAt cfg s2 \<and> viewId s2 = viewId s \<and> sent s2 = sent s"
proof -
  obtain f h port as where acc: "accepts s = (f, h, port) # as" and s1: "s1 = s\<lparr>accepts := as\<rparr>"
    and c: "c = \<lparr>tc_hostname = h, tc_port = port, tc_sockFd = f\<rparr>"
    using a by (auto simp: tcpAccept_def acceptedClient_def split: list.splits if_splits)
  have p: "peerAt f = p"
    using leadingD(4) [OF l, of f h port p] i by (simp add: acc c clientHostname_def)
  have s2: "s2 = s1 \<or> s2 = s1\<lparr>tcpClientMap := (tcpClientMap s1)(p \<mapsto> c)\<rparr>"
    using ins by (auto simp: insertClient_def act_basic split: option.splits)
  have "leading peerAt cfg s2"
  proof (rule leadingI)
    show "peerAt (tc_sockFd d) = q" if "tcpClientMap s2 q = Some d" for q d
    proof (cases "q = p \<and> d = c")
      case True
      then show ?thesis by (simp add: p c)
    next
      case False
      with that s2 have "tcpClientMap s q = Some d" by (auto simp: s1 split: if_splits)
      then show ?thesis by (rule leadingD(3) [OF l])
    qed
    show "peerAt f' = j" if "(f', h', port') \<in> set (accepts s2)"
      "getPeerId (cfg_info cfg) (parseHostnameFromSender h') = Inr j" for f' h' port' j
    proof (rule leadingD(4) [OF l _ that(2)])
      show "(f', h', port') \<in> set (accepts s)" using that(1) s2 by (auto simp: s1 acc)
    qed
  qed (use leadingD(1,2) [OF l] s2 in \<open>auto simp: s1\<close>)
  then show ?thesis using s2 by (auto simp: s1)
qed

lemma event_step:
  assumes l: "leading peerAt cfg s" and m: "runEvent cfg ev s = (Inr u, s')"
  shows "\<exists>log. leading peerAt cfg s' \<and> viewId s' = viewId s + 1 \<and> sent s' = sent s @ log \<and>
    (\<forall>e \<in> set log. logEntry peerAt cfg (viewId s) (\<lambda>_. alivePeers s') 1 (fst e) (snd e))"
proof (cases ev)
  case PeerJoins
  then obtain c s1 p s2 where s: "tcpAccept s = (Inr c, s1)" "getPeerId (cfg_info cfg) (clientHostname c) = Inr p"
    "insertClient p c s1 = (Inr (), s2)" "modifyGroupMembership cfg p ADD s2 = (Inr u, s')"
    using m by (auto simp: leaderStep_def andThen_eq_Inr act_eq_Inr)
  from accept_step [OF l s(1-3)] have "leading peerAt cfg s2" "viewId s2 = viewId s" "sent s2 = sent s"
    by simp_all
  with modify_step [OF this(1) s(4)] show ?thesis by simp
next
  case (PeerFails p)
  with m leadingD(1) [OF l] have "modifyGroupMembership cfg p DEL s = (Inr u, s')"
    by (simp add: handlePeerFailure_def act_simps me_def)
  from modify_step [OF l this] show ?thesis .
qed

lemma events_log:
  assumes "leading peerAt cfg s" and "forEach evs (runEvent cfg) s = (Inr u, s')"
  shows "\<exists>A log. sent s' = sent s @ log \<and> viewId s' = viewId s + of_nat (length evs) \<and>
    alivePeers s = A 0 \<and> alivePeers s' = A (length evs) \<and>
    (\<forall>e \<in> set log. logEntry peerAt cfg (viewId s) A (length evs) (fst e) (snd e))"
  using assms
proof (induction evs arbitrary: s)
  case Nil
  then show ?case
    by (intro exI [of _ "\<lambda>k. alivePeers s"] exI [of _ "[]"]) (simp add: act_eq_Inr)
next
  case (Cons ev evs)
  then obtain s1 where s1: "runEvent cfg ev s = (Inr (), s1)" "forEach evs (runEvent cfg) s1 = (Inr u, s')"
    by (auto simp: andThen_eq_Inr)
  from event_step [OF Cons.prems(1) s1(1)] obtain log1 where
    l1: "leading peerAt cfg s1" "viewId s1 = viewId s + 1" "sent s1 = sent s @ log1"
      "\<forall>e \<in> set log1. logEntry peerAt cfg (viewId s) (\<lambda>_. alivePeers s1) 1 (fst e) (snd e)" by blast
  from Cons.IH [OF l1(1) s1(2)] obtain A log where
    A: "sent s' = sent s1 @ log" "viewId s' = viewId s1 + of_nat (length evs)"
      "alivePeers s1 = A 0" "alivePeers s' = A (length evs)"
      "\<forall>e \<in> set log. logEntry peerAt cfg (viewId s1) A (length evs) (fst e) (snd e)" by blast
  have "logEntry peerAt cfg (viewId s) (case_nat (alivePeers s) A) (Suc (length evs)) (fst e) (snd e)"
    if "e \<in> set (log1 @ log)" for e
    using that
  proof (unfold set_append, elim UnE)
    assume "e \<in> set log1"
    with l1(4) have "logEntry peerAt cfg (viewId s) (\<lambda>_. A 0) 1 (fst e) (snd e)" by (simp add: A(3))
    then show ?thesis by (rule logEntry_first)
  next
    assume "e \<in> set log"
    with A(5) have "logEntry peerAt cfg (viewId s + 1) A (length evs) (fst e) (snd e)" by (simp add: l1(2))
    then show ?thesis by (rule logEntry_shift)
  qed
  then show ?case
    by (intro exI [of _ "case_nat (alivePeers s) A"] exI [of _ "log1 @ log"])
      (simp add: A l1 ac_simps)
qed

section \<open>The members\<close>

text \<open>
  A member that started in the state \<open>t0\<close> and has handled chunks of the stream from its leader, each of
  which is one of the messages of \<open>log\<close> that were sent to it.
\<close>

definition follows :: "(fd \<Rightarrow> PeerId) \<Rightarrow> (fd \<times> byte list) list \<Rightarrow> Config \<Rightarrow> MembershipService \<Rightarrow> MembershipService \<Rightarrow> bool" where
  "follows peerAt log cfg t0 t \<longleftrightarrow> (\<exists>c cs rest. tcpClientMap t0 (leaderPeerId t0) = Some c \<and>
     recvs t0 (tc_sockFd c) = map Some cs @ rest \<and>
     (\<forall>bs \<in> set cs. \<exists>f. (f, bs) \<in> set log \<and> peerAt f = me cfg) \<and>
     startAsFollower cfg (length cs) t0 = (Inr (), t))"

text \<open>What a member has installed: nothing yet, or the members of the last view it has handled.\<close>

definition installedFrom :: "Config \<Rightarrow> byte list list \<Rightarrow> MembershipService \<Rightarrow> bool" where
  "installedFrom cfg cs t \<longleftrightarrow>
     (\<exists>bs \<in> set cs. \<exists>M. isViewMsg bs (viewId t) M \<and> alivePeers t = M - {me cfg})"

lemma installedFrom_Cons: "installedFrom cfg cs t \<Longrightarrow> installedFrom cfg (bs # cs) t"
  by (simp add: installedFrom_def)

lemma installedFrom_same:
  "viewId t = viewId t1 \<Longrightarrow> alivePeers t = alivePeers t1 \<Longrightarrow> installedFrom cfg [bs] t1 \<Longrightarrow> installedFrom cfg (bs # cs) t"
  by (simp add: installedFrom_def)

lemma follower_installed:
  assumes "tcpClientMap t0 (leaderPeerId t0) = Some c" and "recvs t0 (tc_sockFd c) = map Some cs @ rest"
    and "startAsFollower cfg (length cs) t0 = (Inr (), t)"
    and "\<And>bs. bs \<in> set cs \<Longrightarrow> isRequest bs \<or> (\<exists>v M. isViewMsg bs v M)"
  shows "viewId t = viewId t0 \<and> alivePeers t = alivePeers t0 \<or> installedFrom cfg cs t"
  using assms
proof (induction cs arbitrary: t0)
  case Nil
  then show ?case by (simp add: act_eq_Inr)
next
  case (Cons bs cs)
  from Cons.prems(3) obtain t1 where t1: "followerStep cfg t0 = (Inr (), t1)"
    "startAsFollower cfg (length cs) t1 = (Inr (), t)"
    by (auto simp: andThen_eq_Inr)
  have chunk: "recvs t0 (tc_sockFd c) = Some bs # (map Some cs @ rest)" using Cons.prems(2) by simp
  have kind: "isRequest bs \<or> (\<exists>v M. isViewMsg bs v M)" using Cons.prems(4) by simp
  have t1': "leaderPeerId t1 = leaderPeerId t0 \<and> tcpClientMap t1 = tcpClientMap t0 \<and>
      recvs t1 (tc_sockFd c) = map Some cs @ rest \<and>
      (viewId t1 = viewId t0 \<and> alivePeers t1 = alivePeers t0 \<or> installedFrom cfg [bs] t1)"
    using kind
  proof (elim disjE exE)
    assume "isRequest bs"
    then obtain r w op p where "bs = requestBytes r w op p" by (auto simp: isRequest_def)
    with followerStep_request_iff [OF Cons.prems(1) chunk [unfolded this]] t1(1) show ?thesis by simp
  next
    fix v M
    assume "isViewMsg bs v M"
    with followerStep_view [OF Cons.prems(1) chunk this, of cfg] t1(1) show ?thesis
      by (auto simp: me_def installedFrom_def)
  qed
  have "viewId t = viewId t1 \<and> alivePeers t = alivePeers t1 \<or> installedFrom cfg cs t"
  proof (rule Cons.IH [OF _ _ t1(2)])
    show "tcpClientMap t1 (leaderPeerId t1) = Some c" "recvs t1 (tc_sockFd c) = map Some cs @ rest"
      using t1' Cons.prems(1) by simp_all
    show "isRequest b \<or> (\<exists>v M. isViewMsg b v M)" if "b \<in> set cs" for b
      using that by (intro Cons.prems(4)) simp
  qed
  with t1' installedFrom_Cons installedFrom_same show ?case by metis
qed

text \<open>So a member that has installed something has installed the view after one of the changes.\<close>

lemma follows_view:
  assumes f: "follows peerAt log cfgp t0 t" and new: "viewId t \<noteq> viewId t0"
    and log: "\<forall>e \<in> set log. logEntry peerAt cfg v A n (fst e) (snd e)"
  shows "\<exists>k<n. viewId t = v + of_nat (Suc k) \<and> getGroupMembers cfgp t = insert (me cfg) (A (Suc k))"
proof -
  obtain c cs rest where c: "tcpClientMap t0 (leaderPeerId t0) = Some c"
    "recvs t0 (tc_sockFd c) = map Some cs @ rest" "startAsFollower cfgp (length cs) t0 = (Inr (), t)"
    and cs: "\<And>bs. bs \<in> set cs \<Longrightarrow> \<exists>f. (f, bs) \<in> set log \<and> peerAt f = me cfgp"
    using f unfolding follows_def by blast
  have entry: "\<exists>f. logEntry peerAt cfg v A n f bs \<and> peerAt f = me cfgp" if "bs \<in> set cs" for bs
    using cs [OF that] log by force
  have kind: "isRequest bs \<or> (\<exists>v M. isViewMsg bs v M)" if "bs \<in> set cs" for bs
    using entry [OF that] unfolding logEntry_def by (elim exE conjE disjE) (assumption | intro disjI1 disjI2 exI)+
  have "installedFrom cfgp cs t"
    using follower_installed [OF c(1,2,3) kind] new by simp
  then obtain bs M where
    b: "bs \<in> set cs" "isViewMsg bs (viewId t) M" "alivePeers t = M - {me cfgp}"
    unfolding installedFrom_def by (elim bexE exE conjE)
  have "\<not> isRequest bs" using b(2) viewMsg_request by (auto simp: isRequest_def)
  with entry [OF b(1)] obtain f k where k: "k < n" "peerAt f \<in> A (Suc k)" "peerAt f = me cfgp"
    "isViewMsg bs (v + of_nat (Suc k)) (insert (me cfg) (A (Suc k)))"
    unfolding logEntry_def by blast
  have "viewId t = v + of_nat (Suc k)" "M = insert (me cfg) (A (Suc k))"
    using viewMsg_inject [OF b(2) k(4)] by simp_all
  with b k show ?thesis by (auto simp: getGroupMembers_def me_def)
qed

lemma of_nat_view_inject:
  assumes "v + of_nat k = (v + of_nat l :: u32)" and "k \<le> n" and "l \<le> n" and "n < 2 ^ 32"
  shows "k = l"
  using assms of_nat_u32_inject [of k l] by simp

text \<open>
  C2: agreement. A leader goes through any sequence of joins and failures without a fault; two
  members handle any messages among those that the leader has sent to them. If both have installed a
  view with the same identifier, they have the same group, and a member with the identifier of the
  leader has the group of the leader. The views may overtake each other or be lost.
\<close>

theorem view_agreement:
  assumes "leading peerAt cfg s" and "forEach evs (runEvent cfg) s = (Inr (), s')"
    and "length evs < 2 ^ 32" and "sent s' = sent s @ log"
    and "follows peerAt log cfgp t0 t" and "viewId t \<noteq> viewId t0"
    and "follows peerAt log cfgq u0 u" and "viewId u \<noteq> viewId u0"
  shows "(viewId t = viewId u \<longrightarrow> getGroupMembers cfgp t = getGroupMembers cfgq u) \<and>
    (viewId t = viewId s' \<longrightarrow> getGroupMembers cfgp t = getGroupMembers cfg s')"
proof -
  from events_log [OF assms(1,2)] assms(4) obtain A where
    A: "viewId s' = viewId s + of_nat (length evs)" "alivePeers s' = A (length evs)"
      "\<forall>e \<in> set log. logEntry peerAt cfg (viewId s) A (length evs) (fst e) (snd e)" by auto
  obtain k where k: "k < length evs" "viewId t = viewId s + of_nat (Suc k)"
    "getGroupMembers cfgp t = insert (me cfg) (A (Suc k))"
    using follows_view [OF assms(5,6) A(3)] by blast
  obtain l where l: "l < length evs" "viewId u = viewId s + of_nat (Suc l)"
    "getGroupMembers cfgq u = insert (me cfg) (A (Suc l))"
    using follows_view [OF assms(7,8) A(3)] by blast
  have "Suc k = Suc l" if "viewId t = viewId u"
    using of_nat_view_inject [of "viewId s" "Suc k" "Suc l" "length evs"] that k(1,2) l(1,2) assms(3)
    by (simp del: of_nat_Suc)
  moreover have "Suc k = length evs" if "viewId t = viewId s'"
    using of_nat_view_inject [of "viewId s" "Suc k" "length evs" "length evs"] that k(1,2) A(1) assms(3)
    by (simp del: of_nat_Suc)
  ultimately show ?thesis using k(3) l(3) A(2) by (auto simp: getGroupMembers_def me_def)
qed

section \<open>A join\<close>

text \<open>The state after a new peer has been accepted, and before the group is changed.\<close>

definition joinState :: "PeerId \<Rightarrow> TcpClient \<Rightarrow> MembershipService \<Rightarrow> MembershipService" where
  "joinState p c s = s\<lparr>accepts := tl (accepts s), tcpClientMap := (tcpClientMap s)(p \<mapsto> c)\<rparr>"

text \<open>The host \<open>h\<close> can join: it is known and not connected, and the members acknowledge.\<close>

definition canJoin :: "Config \<Rightarrow> fd \<Rightarrow> string \<Rightarrow> PeerId \<Rightarrow> MembershipService \<Rightarrow> bool" where
  "canJoin cfg f h p s \<longleftrightarrow> h \<noteq> [] \<and> getPeerId (cfg_info cfg) (parseHostnameFromSender h) = Inr p \<and>
     tcpClientMap s p = None \<and> finite (alivePeers s) \<and>
     card (insert (getMyPeerId (cfg_info cfg)) (insert p (alivePeers s))) \<le> MAX_PEERS \<and>
     \<not> sendFails s f \<and> (\<forall>q \<in> alivePeers s. reachable s q \<and> answered (requestCounter s + 1) s q) \<and>
     inj_on (fdOf s) (alivePeers s)"

lemma join_ready:
  assumes j: "canJoin cfg f h p s" and c: "tc_sockFd c = f"
  shows "readyFor cfg ADD p (joinState p c s)"
proof -
  have old: "p \<notin> alivePeers s" using j by (auto simp: canJoin_def reachable_def)
  have same: "tcpClientMap (joinState p c s) q = tcpClientMap s q" "fdOf (joinState p c s) q = fdOf s q"
    if "q \<in> alivePeers s" for q
    using that old by (auto simp: joinState_def fdOf_def)
  have "reachable (joinState p c s) q" if "q \<in> insert p (alivePeers s)" for q
    using that j c by (auto simp: canJoin_def reachable_def joinState_def)
  moreover have "answered (requestCounter s + 1) (joinState p c s) q" if "q \<in> alivePeers s" for q
    using j that same(1) [OF that] by (auto simp: canJoin_def answered_def joinState_def)
  moreover have "inj_on (fdOf (joinState p c s)) (alivePeers s)"
    using j same(2) by (simp add: canJoin_def inj_on_def)
  ultimately show ?thesis
    using j by (simp add: readyFor_def canJoin_def newPeers_def askedPeers_def joinState_def)
qed

lemma leaderStep_accepts:
  assumes j: "canJoin cfg f h p s" and acc: "accepts s = (f, h, port) # as"
  shows "leaderStep cfg s = modifyGroupMembership cfg p ADD (joinState p \<lparr>tc_hostname = h, tc_port = port, tc_sockFd = f\<rparr> s)"
  using j acc
  by (simp add: leaderStep_def andThen_def act_basic tcpAccept_def acceptedClient_def clientHostname_def
      insertClient_def joinState_def canJoin_def)

lemma join_general:
  assumes j: "canJoin cfg f h p s" and acc: "accepts s = (f, h, port) # as"
  shows "\<exists>s' bs. leaderStep cfg s = (Inr (), s') \<and> viewId s' = viewId s + 1 \<and>
    alivePeers s' = insert p (alivePeers s) \<and>
    isViewMsg bs (viewId s + 1) (getGroupMembers cfg s') \<and>
    (f, bs) \<in> set (sent s') \<and> (\<forall>q \<in> alivePeers s. (fdOf s q, bs) \<in> set (sent s'))"
proof -
  define c where "c = \<lparr>tc_hostname = h, tc_port = port, tc_sockFd = f\<rparr>"
  let ?s = "joinState p c s"
  have old: "p \<notin> alivePeers s" using j by (auto simp: canJoin_def reachable_def)
  have fin: "finite (alivePeers s)" using j by (simp add: canJoin_def)
  have fd: "fdOf ?s q = (if q = p then f else fdOf s q)" for q
    by (simp add: fdOf_def joinState_def c_def)
  have alive: "alivePeers ?s = alivePeers s" "viewId ?s = viewId s"
    by (simp_all add: joinState_def)
  obtain s' bs where s': "modifyGroupMembership cfg p ADD ?s = (Inr (), s')" "viewId s' = viewId s + 1"
    "alivePeers s' = insert p (alivePeers s)" "isViewMsg bs (viewId s + 1) (getGroupMembers cfg s')"
    "\<forall>q \<in> set (sorted_list_of_set (insert p (alivePeers s))). (fdOf ?s q, bs) \<in> set (sent s')"
    using modify_ready [OF join_ready [OF j, of c]] unfolding alive newPeers_def
    by (force simp: c_def simp del: sorted_list_of_set_insert_remove)
  have "set (sorted_list_of_set (insert p (alivePeers s))) = insert p (alivePeers s)"
    using fin by (simp del: sorted_list_of_set_insert_remove)
  then have "\<forall>q \<in> insert p (alivePeers s). (fdOf ?s q, bs) \<in> set (sent s')"
    using s'(5) by simp
  then have "(f, bs) \<in> set (sent s')" "\<forall>q \<in> alivePeers s. (fdOf s q, bs) \<in> set (sent s')"
    using old unfolding fd by (auto split: if_splits)
  with s' leaderStep_accepts [OF j acc] show ?thesis by (auto simp: c_def)
qed

text \<open>
  A new peer. If the accepted connection belongs to a host of the directory that is not
  connected, and the members acknowledge, the leader installs the view with the new peer and has sent
  it to all members, to the new one over the accepted connection.
\<close>

theorem peer_joins:
  assumes "canJoin cfg f h p s" and "accepts s = (f, h, port) # as"
  shows "\<exists>s' bs. leaderStep cfg s = (Inr (), s') \<and> viewId s' = viewId s + 1 \<and>
    alivePeers s' = insert p (alivePeers s) \<and>
    isViewMsg bs (viewId s + 1) (getGroupMembers cfg s') \<and>
    (f, bs) \<in> set (sent s') \<and> (\<forall>q \<in> alivePeers s. (fdOf s q, bs) \<in> set (sent s'))"
  by (rule join_general [OF assms])

section \<open>An example\<close>

definition exampleInfo :: "PeerId \<Rightarrow> PeerInfo" where
  "exampleInfo i = \<lparr>myPeerId = i, allPeerHostnames = [''a'', ''b'', ''c'', ''d'', ''e''],
     hostnameToPeerIdMap = [''a'' \<mapsto> 1, ''b'' \<mapsto> 2, ''c'' \<mapsto> 3, ''d'' \<mapsto> 4, ''e'' \<mapsto> 5],
     peerIdToHostnameMap = [1 \<mapsto> ''a'', 2 \<mapsto> ''b'', 3 \<mapsto> ''c'', 4 \<mapsto> ''d'', 5 \<mapsto> ''e'']\<rparr>"

lemma exampleInfo_maps:
  "hostnameToPeerIdMap (exampleInfo i) =
     [''a'' \<mapsto> 1, ''b'' \<mapsto> 2, ''c'' \<mapsto> 3, ''d'' \<mapsto> 4, ''e'' \<mapsto> 5]"
  "peerIdToHostnameMap (exampleInfo i) =
     [1 \<mapsto> ''a'', 2 \<mapsto> ''b'', 3 \<mapsto> ''c'', 4 \<mapsto> ''d'', 5 \<mapsto> ''e'']"
  "allPeerHostnames (exampleInfo i) = [''a'', ''b'', ''c'', ''d'', ''e'']"
  by (simp_all add: exampleInfo_def)

definition exampleConfig :: "PeerId \<Rightarrow> Config" where
  "exampleConfig i = \<lparr>cfg_en = LittleEndian, cfg_info = exampleInfo i, membershipPort = 10000, leaderFailureDemo = False\<rparr>"

lemma me_example [simp]: "me (exampleConfig i) = i" "getMyPeerId (exampleInfo i) = i"
  "getMyPeerId (cfg_info (exampleConfig i)) = i" "cfg_info (exampleConfig i) = exampleInfo i"
  "leaderFailureDemo (exampleConfig i) = False" "cfg_en (exampleConfig i) = LittleEndian"
  "membershipPort (exampleConfig i) = 10000"
  by (simp_all add: me_def exampleConfig_def exampleInfo_def getMyPeerId_def)

definition clientTo :: "string \<Rightarrow> fd \<Rightarrow> TcpClient" where
  "clientTo h f = \<lparr>tc_hostname = h, tc_port = 10000, tc_sockFd = f\<rparr>"

lemma clientTo_simps [simp]: "tc_sockFd (clientTo h f) = f" "tc_hostname (clientTo h f) = h"
  by (simp_all add: clientTo_def)

text \<open>The leader 1 with the member 2 in its second view; the host \<open>c\<close> connects.\<close>

definition exampleLeader :: MembershipService where
  "exampleLeader = (newMembershipService (idleNetwork\<lparr>accepts := [(3, ''c.net'', 51)],
       recvs := (\<lambda>f. [Some (okBytes 3 2)])\<rparr>))
     \<lparr>requestCounter := 2, viewId := 2, alivePeers := {2}, tcpClientMap := [2 \<mapsto> clientTo ''b.net'' 2]\<rparr>"

text \<open>A member that has found its leader and to which \<open>bs\<close> has been sent.\<close>

definition exampleMember :: "byte list \<Rightarrow> MembershipService" where
  "exampleMember bs = (newMembershipService (idleNetwork\<lparr>recvs := (\<lambda>f. [Some bs])\<rparr>))
     \<lparr>tcpClientMap := [1 \<mapsto> clientTo ''a'' 9]\<rparr>"

definition examplePeer :: "fd \<Rightarrow> PeerId" where
  "examplePeer f = of_nat f"

lemmas example_defs = exampleLeader_def exampleMember_def newMembershipService_def idleNetwork_def Network.defs

lemma example_parse: "parseHostnameFromSender ''c.net'' = ''c''"
  by (simp add: parseHostnameFromSender_def)

lemma exampleLeader_canJoin:
  "canJoin (exampleConfig 1) 3 ''c.net'' 3 exampleLeader" "accepts exampleLeader = (3, ''c.net'', 51) # []"
  "viewId exampleLeader = 2" "alivePeers exampleLeader = {2}" "fdOf exampleLeader 2 = 2" "sent exampleLeader = []"
proof -
  have "\<exists>v. okBytes 3 2 = okBytes 3 v" by blast
  moreover have "card {1 :: PeerId, 3, 2} \<le> 10" by simp
  ultimately show "canJoin (exampleConfig 1) 3 ''c.net'' 3 exampleLeader"
    by (simp add: canJoin_def example_defs example_parse getPeerId_def exampleInfo_maps reachable_def
        answered_def MAX_PEERS_def)
qed (simp_all add: example_defs fdOf_def)

theorem peer_joins_witness:
  "\<exists>s' bs. leaderStep (exampleConfig 1) exampleLeader = (Inr (), s') \<and> viewId s' = 3 \<and>
    alivePeers s' = {2, 3} \<and> (2, bs) \<in> set (sent s')"
  using peer_joins [OF exampleLeader_canJoin(1,2)]
  by (auto simp: exampleLeader_canJoin insert_commute)

text \<open>The change that the join of the host \<open>c\<close> makes, and the deletion of the member 2.\<close>

lemma exampleLeader_ready:
  "readyFor (exampleConfig 1) ADD 3 (joinState 3 (clientTo ''c.net'' 3) exampleLeader)"
  "readyFor (exampleConfig 1) DEL 2 exampleLeader"
  by (rule join_ready [OF exampleLeader_canJoin(1)], simp)
    (simp add: readyFor_def newPeers_def askedPeers_def example_defs MAX_PEERS_def)

lemma exampleMember_follows:
  assumes bs: "isViewMsg bs v M" and log: "(f, bs) \<in> set log" and f: "examplePeer f = i"
  shows "\<exists>t. follows examplePeer log (exampleConfig i) (exampleMember bs) t \<and> viewId t = v \<and>
    getGroupMembers (exampleConfig i) t = insert i M \<and> viewId (exampleMember bs) = 1"
proof -
  have e: "tcpClientMap (exampleMember bs) (leaderPeerId (exampleMember bs)) = Some (clientTo ''a'' 9)"
    "recvs (exampleMember bs) (tc_sockFd (clientTo ''a'' 9)) = [Some bs]"
    by (simp_all add: example_defs)
  from followerStep_view [OF this bs, of "exampleConfig i"] obtain t where
    t: "followerStep (exampleConfig i) (exampleMember bs) = (Inr (), t)" "viewId t = v" "alivePeers t = M - {i}"
    by simp
  have "follows examplePeer log (exampleConfig i) (exampleMember bs) t"
    unfolding follows_def using e t(1) log f
    by (intro exI [of _ "clientTo ''a'' 9"] exI [of _ "[bs]"] exI [of _ "[]"]) (auto simp: andThen_def act_basic)
  then show ?thesis
    using t(2,3) by (intro exI [of _ t]) (auto simp: getGroupMembers_def example_defs)
qed

theorem view_agreement_witness:
  "\<exists>s' t u. leaderStep (exampleConfig 1) exampleLeader = (Inr (), s') \<and> viewId t = 3 \<and> viewId u = 3 \<and>
    getGroupMembers (exampleConfig 2) t = {1, 2, 3} \<and>
    getGroupMembers (exampleConfig 2) t = getGroupMembers (exampleConfig 3) u \<and>
    getGroupMembers (exampleConfig 2) t = getGroupMembers (exampleConfig 1) s'"
proof -
  have two: "leading examplePeer (exampleConfig 1) exampleLeader"
    by (rule leadingI) (auto simp: example_defs examplePeer_def example_parse getPeerId_def
        exampleInfo_maps split: if_splits)
  obtain s' bs where s': "leaderStep (exampleConfig 1) exampleLeader = (Inr (), s')" "viewId s' = 3"
    "alivePeers s' = {2, 3}" "isViewMsg bs 3 (getGroupMembers (exampleConfig 1) s')"
    "(3, bs) \<in> set (sent s')" "(2, bs) \<in> set (sent s')"
    using join_general [OF exampleLeader_canJoin(1,2)] by (auto simp: exampleLeader_canJoin insert_commute)
  have M: "getGroupMembers (exampleConfig 1) s' = {1, 2, 3}"
    using s'(3) by (simp add: getGroupMembers_def)
  have run: "forEach [PeerJoins] (runEvent (exampleConfig 1)) exampleLeader = (Inr (), s')"
    using s'(1) by (simp add: andThen_def act_basic)
  obtain t where t: "follows examplePeer (sent s') (exampleConfig 2) (exampleMember bs) t" "viewId t = 3"
    "getGroupMembers (exampleConfig 2) t = insert 2 {1, 2, 3}" "viewId (exampleMember bs) = 1"
    using exampleMember_follows [OF s'(4,6), of 2] by (auto simp: examplePeer_def M)
  obtain u where u: "follows examplePeer (sent s') (exampleConfig 3) (exampleMember bs) u" "viewId u = 3"
    using exampleMember_follows [OF s'(4,5), of 3] by (auto simp: examplePeer_def)
  have "sent s' = sent exampleLeader @ sent s'" by (simp add: exampleLeader_canJoin)
  from view_agreement [OF two run _ this t(1) _ u(1)] t u s' M show ?thesis by force
qed

section \<open>Examples of single changes\<close>

theorem modify_group_witness:
  "\<exists>s' bs. modifyGroupMembership (exampleConfig 1) 3 ADD (joinState 3 (clientTo ''c.net'' 3) exampleLeader) = (Inr (), s') \<and>
    recvs (joinState 3 (clientTo ''c.net'' 3) exampleLeader) 2 = [Some (okBytes 3 2)] \<and>
    viewId s' = 3 \<and> alivePeers s' = {2, 3} \<and> isViewMsg bs 3 (getGroupMembers (exampleConfig 1) s') \<and>
    sent s' = [(2, requestBytes 3 2 1 3), (2, bs), (3, bs)]"
proof -
  let ?s = "joinState 3 (clientTo ''c.net'' 3) exampleLeader"
  have s: "alivePeers ?s = {2}" "viewId ?s = 2" "requestCounter ?s = 2" "sent ?s = []" "fdOf ?s 2 = 2" "fdOf ?s 3 = 3"
    "recvs ?s 2 = [Some (okBytes 3 2)]"
    by (simp_all add: joinState_def example_defs fdOf_def)
  have "sorted_list_of_set {3, 2 :: PeerId} = [2, 3]" by simp
  with modify_group [OF exampleLeader_ready(1)] s show ?thesis by (auto simp: insert_commute)
qed

text \<open>The leader 1 with two members, of which the second is about to be deleted.\<close>

definition brokenLeader :: "byte list option \<Rightarrow> MembershipService" where
  "brokenLeader answer = exampleLeader\<lparr>alivePeers := {2, 3}, recvs := (\<lambda>f. [answer]),
     tcpClientMap := [2 \<mapsto> clientTo ''b.net'' 2, 3 \<mapsto> clientTo ''c.net'' 3]\<rparr>"

lemma brokenLeader_simps:
  "failsAt (exampleConfig 1) DEL 3 (brokenLeader r) [] 2"
  "tcpClientMap (brokenLeader r) 2 = Some (clientTo ''b.net'' 2)" "recvs (brokenLeader r) f = [r]"
  "viewId (brokenLeader r) = 2" "alivePeers (brokenLeader r) = {2, 3}" "requestCounter (brokenLeader r) = 2"
proof -
  have two: "{2, 3} - {3} = {2 :: PeerId}" by auto
  show "failsAt (exampleConfig 1) DEL 3 (brokenLeader r) [] 2"
    by (simp add: brokenLeader_def failsAt_def askedPeers_def example_defs reachable_def two)
qed (simp_all add: brokenLeader_def example_defs)

theorem lost_peer_aborts_change_witness:
  "\<exists>s'. modifyGroupMembership (exampleConfig 1) 3 DEL (brokenLeader (Some [])) = (Inl TransportException, s') \<and>
    viewId s' = 2 \<and> alivePeers s' = {2}"
  using lost_peer_aborts_change [OF brokenLeader_simps(1,2), of "Some []" "Some []" "[]"]
  by (auto simp: brokenLeader_simps askedPeers_def)

theorem stale_ok_aborts_change_witness:
  "\<exists>s'. modifyGroupMembership (exampleConfig 1) 3 DEL (brokenLeader (Some (okBytes 2 1))) = (Inl CheckFailed, s') \<and>
    viewId s' = 2 \<and> alivePeers s' = {2}"
  using stale_ok_aborts_change [OF brokenLeader_simps(1,2), of "Some (okBytes 2 1)" 2 1 "[]"]
  by (auto simp: brokenLeader_simps askedPeers_def)

theorem follower_acknowledges_witness:
  "\<exists>t. followerStep (exampleConfig 2) (exampleMember (requestBytes 3 2 1 3)) = (Inr (), t) \<and>
    sent t = [(9, okBytes 3 1)] \<and> rq_peerId (pendingRequest t) = 3"
  using follower_acknowledges [of "exampleMember (requestBytes 3 2 1 3)" "clientTo ''a'' 9" 3 2 1 3 "[]" "exampleConfig 2"]
  by (simp add: example_defs)

end
