(* ===== verification/Overlap.thy ===== *)
theory Overlap
  imports ViewAgreement
begin

text \<open>
  Two changes of the group at the same time. On the leader of lab2 the thread that accepts new peers
  and the thread of the failure detector both call \<open>modifyGroupMembership\<close>. Its critical section is the
  exchange of request and acknowledgements; the request is created before it, and \<open>sendNewViewMsg\<close>
  follows it, reads the view identifier without the lock and takes the lock again for the members. The
  other theories let the changes follow one another; here their parts are interleaved.
\<close>

section \<open>The parts of a change\<close>

definition changeUnderLock :: "Config \<Rightarrow> PeerId \<Rightarrow> OperationTypeEnum \<Rightarrow> RequestMsg \<Rightarrow> unit ms" where
  "changeUnderLock cfg peerId operationType requestMsg =
     andThen (modify (\<lambda>s. if operationType = DEL
                then s\<lparr>tcpClientMap := (tcpClientMap s)(peerId := None),
                       alivePeers := alivePeers s - {peerId}\<rparr>
                else s)) (\<lambda>_.
     andThen (sendRequestMsg cfg requestMsg) (\<lambda>_.
     andThen (waitForOkMsg cfg (rq_requestId requestMsg)) (\<lambda>_.
     andThen (modify (\<lambda>s. if operationType = ADD
                then s\<lparr>alivePeers := insert peerId (alivePeers s)\<rparr> else s)) (\<lambda>_.
     modify (\<lambda>s. s\<lparr>viewId := viewId s + 1\<rparr>)))))"

datatype changePoint = NotStarted | Requested RequestMsg | Changed | ViewRead ViewId | Announced

fun changeStep :: "Config \<Rightarrow> PeerId \<Rightarrow> OperationTypeEnum \<Rightarrow> changePoint \<Rightarrow> changePoint ms" where
  "changeStep cfg p op NotStarted = andThen (createRequestMsg p op) (\<lambda>requestMsg. ret (Requested requestMsg))"
| "changeStep cfg p op (Requested requestMsg) = andThen (changeUnderLock cfg p op requestMsg) (\<lambda>_. ret Changed)"
| "changeStep cfg p op Changed = andThen (get viewId) (\<lambda>newViewId. ret (ViewRead newViewId))"
| "changeStep cfg p op (ViewRead newViewId) = andThen (sendViewAs cfg newViewId) (\<lambda>_. ret Announced)"
| "changeStep cfg p op Announced = ret Announced"

fun changeSteps :: "Config \<Rightarrow> PeerId \<Rightarrow> OperationTypeEnum \<Rightarrow> nat \<Rightarrow> changePoint \<Rightarrow> changePoint ms" where
  "changeSteps cfg p op 0 pc = ret pc"
| "changeSteps cfg p op (Suc n) pc = andThen (changeStep cfg p op pc) (changeSteps cfg p op n)"

text \<open>The parts, one after the other, are the change: a thread that is not interleaved makes it in four steps.\<close>

lemma change_is_four_steps:
  "andThen (modifyGroupMembership cfg p op) (\<lambda>_. ret Announced) = changeSteps cfg p op 4 NotStarted"
proof
  fix s
  have four: "(4 :: nat) = Suc (Suc (Suc (Suc 0)))" by simp
  show "andThen (modifyGroupMembership cfg p op) (\<lambda>_. ret Announced) s = changeSteps cfg p op 4 NotStarted s"
    by (simp add: four modifyGroupMembership_def changeUnderLock_def sendNewViewMsg_def andThen_assoc
        createRequestMsg_def andThen_simps) (simp add: andThen_def act_basic split: prod.splits sum.splits)
qed

section \<open>Interleavings\<close>

type_synonym change = "PeerId \<times> OperationTypeEnum"

text \<open>A schedule says for every step whether it is one of the first thread.\<close>

fun overlapRun ::
  "Config \<Rightarrow> change \<Rightarrow> change \<Rightarrow> bool list \<Rightarrow> changePoint \<Rightarrow> changePoint \<Rightarrow> (changePoint \<times> changePoint) ms" where
  "overlapRun cfg c d [] pc qc = ret (pc, qc)"
| "overlapRun cfg c d (first # sched) pc qc =
     (if first
      then andThen (changeStep cfg (fst c) (snd c) pc) (\<lambda>pc'. overlapRun cfg c d sched pc' qc)
      else andThen (changeStep cfg (fst d) (snd d) qc) (\<lambda>qc'. overlapRun cfg c d sched pc qc'))"

lemma forEach_sent:
  assumes "\<And>x t t'. f x t = (Inr (), t') \<Longrightarrow> \<exists>out. t' = t\<lparr>sent := out\<rparr>"
  shows "forEach xs f s = (Inr u, s') \<Longrightarrow> \<exists>out. s' = s\<lparr>sent := out\<rparr>"
proof (induction xs arbitrary: s)
  case Nil
  then show ?case by (intro exI [of _ "sent s"]) (simp add: act_eq_Inr)
next
  case (Cons x xs)
  then obtain s1 where s1: "f x s = (Inr (), s1)" "forEach xs f s1 = (Inr u, s')"
    by (auto simp: andThen_eq_Inr)
  from assms [OF s1(1)] Cons.IH [OF s1(2)] show ?case by auto
qed

lemma sendRequestMsg_frame:
  assumes "sendRequestMsg cfg r s = (Inr u, s')"
  shows "\<exists>out. s' = s\<lparr>sent := out\<rparr>"
proof -
  obtain f where "forEach (sorted_list_of_set (alivePeers s)) f s = (Inr (), s')"
    "\<And>x t t'. f x t = (Inr (), t') \<Longrightarrow> \<exists>out. t' = t\<lparr>sent := out\<rparr>"
  proof -
    let ?buffer = "serializeRequestMsg (cfg_en cfg) r (stackBuffer sizeof_RequestMsg s)"
    let ?demo = "leaderFailureDemo cfg \<and> rq_operationType r = operationCode DEL"
    let ?f = "\<lambda>peerId :: PeerId. if ?demo \<and> peerId = 2 then ret () else sendTo peerId ?buffer"
    have "forEach (sorted_list_of_set (alivePeers s)) ?f s = (Inr (), s')"
      using assms by (auto simp: sendRequestMsg_def andThen_eq_Inr act_eq_Inr Let_def split: if_splits)
    moreover have "\<exists>out. t' = t\<lparr>sent := out\<rparr>" if "?f x t = (Inr (), t')" for x t t'
      using that by (auto simp: sendTo_iff act_eq_Inr split: if_splits intro: exI [of _ "sent t"])
    ultimately show thesis by (rule that)
  qed
  then show ?thesis using forEach_sent by blast
qed

lemma changeUnderLock_Inr:
  assumes "changeUnderLock cfg p op r s = (Inr u, s')"
  shows "alivePeers s' = newPeers op p (alivePeers s) \<and> viewId s' = viewId s + 1"
proof -
  let ?s0 = "if op = DEL then s\<lparr>tcpClientMap := (tcpClientMap s)(p := None), alivePeers := alivePeers s - {p}\<rparr> else s"
  obtain s1 s2 where s1: "sendRequestMsg cfg r ?s0 = (Inr (), s1)"
    and s2: "waitForOkMsg cfg (rq_requestId r) s1 = (Inr (), s2)"
    and s': "s' = (if op = ADD then s2\<lparr>alivePeers := insert p (alivePeers s2)\<rparr> else s2)\<lparr>viewId := viewId s2 + 1\<rparr>"
    using assms unfolding changeUnderLock_def andThen_eq_Inr act_eq_Inr by (cases "op = ADD") auto
  obtain out where "s1 = ?s0\<lparr>sent := out\<rparr>" using sendRequestMsg_frame [OF s1] by blast
  moreover obtain rv where "s2 = s1\<lparr>recvs := rv\<rparr>" using waitForOkMsg_frame [OF s2] by blast
  ultimately show ?thesis by (simp add: s' newPeers_def)
qed

fun hasChanged :: "changePoint \<Rightarrow> bool" where
  "hasChanged NotStarted = False"
| "hasChanged (Requested r) = False"
| "hasChanged _ = True"

lemma sendViewAs_Inr:
  assumes "sendViewAs cfg v s = (Inr u, s')" and "finite (alivePeers s)"
  shows "\<exists>bs. isViewMsg bs v (getGroupMembers cfg s) \<and>
    s' = s\<lparr>sent := sent s @ map (\<lambda>p. (fdOf s p, bs)) (sorted_list_of_set (alivePeers s))\<rparr>"
proof -
  have "card (getGroupMembers cfg s) \<le> MAX_PEERS"
    using assms(1) sendViewAs_overflow [of cfg s v] by (cases "MAX_PEERS < card (getGroupMembers cfg s)") auto
  from sendViewAs_iff [OF assms(2) this, of v] assms(1) show ?thesis by blast
qed

text \<open>What one step does to the group and the view identifier.\<close>

lemma changeStep_Inr:
  assumes "changeStep cfg p op pc s = (Inr pc', s')" and "finite (alivePeers s)"
  shows "(\<not> hasChanged pc \<and> hasChanged pc' \<and> alivePeers s' = newPeers op p (alivePeers s) \<and> viewId s' = viewId s + 1 \<or>
     hasChanged pc' = hasChanged pc \<and> alivePeers s' = alivePeers s \<and> viewId s' = viewId s) \<and>
   (pc' = Announced \<and> pc \<noteq> Announced \<longrightarrow> (\<exists>v bs. pc = ViewRead v \<and> isViewMsg bs v (getGroupMembers cfg s) \<and>
     s' = s\<lparr>sent := sent s @ map (\<lambda>p. (fdOf s p, bs)) (sorted_list_of_set (alivePeers s))\<rparr>)) \<and>
   (\<forall>v. pc' = ViewRead v \<longrightarrow> pc = Changed \<and> v = viewId s)"
proof (cases pc)
  case NotStarted
  with assms show ?thesis by (auto simp: createRequestMsg_def andThen_eq_Inr act_eq_Inr)
next
  case (Requested r)
  then obtain u where u: "changeUnderLock cfg p op r s = (Inr u, s')" "pc' = Changed"
    using assms(1) by (auto simp: andThen_eq_Inr act_eq_Inr)
  with changeUnderLock_Inr [OF u(1)] Requested show ?thesis by simp
next
  case Changed
  with assms(1) show ?thesis by (auto simp: andThen_eq_Inr act_eq_Inr)
next
  case (ViewRead v)
  then obtain u where u: "sendViewAs cfg v s = (Inr u, s')" "pc' = Announced"
    using assms(1) by (auto simp: andThen_eq_Inr act_eq_Inr)
  from sendViewAs_Inr [OF u(1) assms(2)] u(2) ViewRead show ?thesis by auto
next
  case Announced
  with assms(1) show ?thesis by (auto simp: act_eq_Inr)
qed

text \<open>The group after the changes of those threads that have made theirs.\<close>

definition changedPeers :: "change \<Rightarrow> change \<Rightarrow> changePoint \<Rightarrow> changePoint \<Rightarrow> PeerId set \<Rightarrow> PeerId set" where
  "changedPeers c d pc qc A =
     (let B = (if hasChanged pc then newPeers (snd c) (fst c) A else A)
      in if hasChanged qc then newPeers (snd d) (fst d) B else B)"

lemma newPeers_commute:
  "p \<noteq> q \<Longrightarrow> newPeers op p (newPeers op' q A) = newPeers op' q (newPeers op p A)"
  by (auto simp: newPeers_def)

definition announcedLast :: "Config \<Rightarrow> MembershipService \<Rightarrow> bool" where
  "announcedLast cfg s \<longleftrightarrow> (\<exists>v bs before. isViewMsg bs v (getGroupMembers cfg s) \<and>
     sent s = before @ map (\<lambda>p. (fdOf s p, bs)) (sorted_list_of_set (alivePeers s)))"

text \<open>What holds between two steps, seen from the first thread.\<close>

definition overlapInv ::
  "Config \<Rightarrow> change \<Rightarrow> change \<Rightarrow> PeerId set \<Rightarrow> ViewId \<Rightarrow> changePoint \<Rightarrow> changePoint \<Rightarrow> MembershipService \<Rightarrow> bool" where
  "overlapInv cfg c d A v pc qc s \<longleftrightarrow>
     alivePeers s = changedPeers c d pc qc A \<and>
     viewId s = v + of_bool (hasChanged pc) + of_bool (hasChanged qc) \<and>
     (pc = Announced \<and> qc = Announced \<longrightarrow> announcedLast cfg s)"

lemma overlapInv_swap:
  assumes "fst c \<noteq> fst d"
  shows "overlapInv cfg c d A v pc qc s \<longleftrightarrow> overlapInv cfg d c A v qc pc s"
proof -
  have "changedPeers c d pc qc A = changedPeers d c qc pc A"
    by (simp add: changedPeers_def Let_def newPeers_commute [OF assms])
  moreover have "v + of_bool (hasChanged pc) + of_bool (hasChanged qc)
      = v + of_bool (hasChanged qc) + of_bool (hasChanged pc)"
    by (simp add: ac_simps)
  ultimately show ?thesis unfolding overlapInv_def by auto
qed

lemma overlapInv_finite: "overlapInv cfg c d A v pc qc s \<Longrightarrow> finite A \<Longrightarrow> finite (alivePeers s)"
  by (simp add: overlapInv_def changedPeers_def Let_def)

lemma overlapInv_first:
  assumes inv: "overlapInv cfg c d A v pc qc s" and fin: "finite A" and "fst c \<noteq> fst d"
    and s1: "changeStep cfg (fst c) (snd c) pc s = (Inr pc1, s1)"
  shows "overlapInv cfg c d A v pc1 qc s1"
proof -
  note step = changeStep_Inr [OF s1 overlapInv_finite [OF inv fin]]
  have group: "alivePeers s1 = changedPeers c d pc1 qc A \<and>
      viewId s1 = v + of_bool (hasChanged pc1) + of_bool (hasChanged qc)"
    using step [THEN conjunct1]
  proof (elim disjE conjE)
    assume "\<not> hasChanged pc" "hasChanged pc1" "alivePeers s1 = newPeers (snd c) (fst c) (alivePeers s)"
      "viewId s1 = viewId s + 1"
    then show ?thesis using inv
      by (simp add: overlapInv_def changedPeers_def Let_def newPeers_commute [OF assms(3)])
  next
    assume "hasChanged pc1 = hasChanged pc" "alivePeers s1 = alivePeers s" "viewId s1 = viewId s"
    then show ?thesis using inv by (simp add: overlapInv_def changedPeers_def Let_def)
  qed
  have last: "announcedLast cfg s1" if now: "pc1 = Announced" "qc = Announced"
  proof (cases "pc = Announced")
    case True
    then have "s1 = s" using s1 by (simp add: act_eq_Inr)
    then show ?thesis using inv True now(2) by (simp add: overlapInv_def)
  next
    case False
    then obtain w bs where "isViewMsg bs w (getGroupMembers cfg s)"
      and eq: "s1 = s\<lparr>sent := sent s @ map (\<lambda>p. (fdOf s p, bs)) (sorted_list_of_set (alivePeers s))\<rparr>"
      using step now(1) by blast
    then have "isViewMsg bs w (getGroupMembers cfg s1)" by (simp add: getGroupMembers_def)
    moreover have "sent s1 = sent s @ map (\<lambda>p. (fdOf s1 p, bs)) (sorted_list_of_set (alivePeers s1))"
      by (simp add: eq)
    ultimately show ?thesis unfolding announcedLast_def by blast
  qed
  from group last show ?thesis unfolding overlapInv_def by blast
qed

lemma overlapRun_group:
  assumes "fst c \<noteq> fst d" and "finite A"
  shows "overlapRun cfg c d sched pc qc s = (Inr (pc', qc'), s') \<Longrightarrow> overlapInv cfg c d A v pc qc s \<Longrightarrow>
    overlapInv cfg c d A v pc' qc' s'"
proof (induction sched arbitrary: pc qc s)
  case Nil
  then show ?case by (simp add: act_eq_Inr)
next
  case (Cons first sched)
  show ?case
  proof (cases first)
    case True
    then obtain pc1 s1 where s1: "changeStep cfg (fst c) (snd c) pc s = (Inr pc1, s1)"
      "overlapRun cfg c d sched pc1 qc s1 = (Inr (pc', qc'), s')"
      using Cons.prems(1) by (auto simp: andThen_eq_Inr)
    from Cons.IH [OF s1(2) overlapInv_first [OF Cons.prems(2) assms(2,1) s1(1)]] show ?thesis .
  next
    case False
    then obtain qc1 s1 where s1: "changeStep cfg (fst d) (snd d) qc s = (Inr qc1, s1)"
      "overlapRun cfg c d sched pc qc1 s1 = (Inr (pc', qc'), s')"
      using Cons.prems(1) by (auto simp: andThen_eq_Inr)
    from Cons.prems(2) have "overlapInv cfg d c A v qc pc s" using overlapInv_swap [OF assms(1)] by blast
    then have "overlapInv cfg d c A v qc1 pc s1"
      by (rule overlapInv_first [OF _ assms(2) assms(1) [symmetric] s1(1)])
    then have "overlapInv cfg c d A v pc qc1 s1" using overlapInv_swap [OF assms(1)] by blast
    from Cons.IH [OF s1(2) this] show ?thesis .
  qed
qed

text \<open>
  C10: the group is right whatever the interleaving. When two changes of different peers are both done,
  the leader has made both, the view identifier has advanced by two, and the view that was sent last
  has exactly the members of the leader's group.
\<close>

theorem overlap_group:
  assumes "overlapRun cfg c d sched NotStarted NotStarted s = (Inr (Announced, Announced), s')"
    and "fst c \<noteq> fst d" and "finite (alivePeers s)"
  shows "alivePeers s' = newPeers (snd d) (fst d) (newPeers (snd c) (fst c) (alivePeers s)) \<and>
    viewId s' = viewId s + 2 \<and>
    (\<exists>v bs before. isViewMsg bs v (getGroupMembers cfg s') \<and>
       sent s' = before @ map (\<lambda>p. (fdOf s' p, bs)) (sorted_list_of_set (alivePeers s')))"
proof -
  have "overlapInv cfg c d (alivePeers s) (viewId s) NotStarted NotStarted s"
    by (simp add: overlapInv_def changedPeers_def Let_def)
  from overlapRun_group [OF assms(2,3,1) this]
  have "alivePeers s' = changedPeers c d Announced Announced (alivePeers s)"
    and "viewId s' = viewId s + of_bool (hasChanged Announced) + of_bool (hasChanged Announced)"
    and "announcedLast cfg s'"
    unfolding overlapInv_def by blast+
  then show ?thesis
    unfolding announcedLast_def by (simp add: changedPeers_def add.assoc)
qed

section \<open>The views can be sent in the wrong order\<close>

text \<open>When the peers that are asked can be reached and answer, the part under the lock succeeds.\<close>

definition changedState ::
  "OperationTypeEnum \<Rightarrow> PeerId \<Rightarrow> RequestId \<Rightarrow> ViewId \<Rightarrow> (fd \<Rightarrow> byte list option list) \<Rightarrow> MembershipService \<Rightarrow> MembershipService" where
  "changedState op p r v rv s = s\<lparr>tcpClientMap := newClients op p (tcpClientMap s),
     sent := sent s @ map (\<lambda>q. (fdOf s q, requestBytes r v (operationCode op) p)) (sorted_list_of_set (askedPeers op p (alivePeers s))),
     recvs := rv, alivePeers := newPeers op p (alivePeers s), viewId := viewId s + 1\<rparr>"

lemma changeUnderLock_ok:
  assumes op: "op = ADD \<or> op = DEL" and demo: "\<not> leaderFailureDemo cfg" and fin: "finite (alivePeers s)"
    and reach: "\<forall>q \<in> askedPeers op p (alivePeers s). reachable s q \<and> answered r s q"
    and inj: "inj_on (fdOf s) (askedPeers op p (alivePeers s))"
  shows "\<exists>rv. changeUnderLock cfg p op \<lparr>rq_msgType = 1, rq_requestId = r, rq_currentViewId = v,
      rq_operationType = operationCode op, rq_peerId = p\<rparr> s = (Inr (), changedState op p r v rv s) \<and>
    (\<forall>f. f \<notin> fdOf s ` askedPeers op p (alivePeers s) \<longrightarrow> rv f = recvs s f)"
proof -
  let ?A = "askedPeers op p (alivePeers s)"
  let ?s0 = "s\<lparr>tcpClientMap := newClients op p (tcpClientMap s), alivePeers := ?A\<rparr>"
  let ?out = "sent s @ map (\<lambda>q. (fdOf s q, requestBytes r v (operationCode op) p)) (sorted_list_of_set ?A)"
  have fd: "fdOf ?s0 q = fdOf s q" "reachable ?s0 q = reachable s q" "answered r ?s0 q = answered r s q"
    "answered r (?s0\<lparr>sent := ?out\<rparr>) q = answered r s q" if "q \<in> ?A" for q
    using that by (auto simp: fdOf_def reachable_def answered_def newClients_def askedPeers_def split: if_splits)
  have s1: "sendRequestMsg cfg \<lparr>rq_msgType = 1, rq_requestId = r, rq_currentViewId = v,
      rq_operationType = operationCode op, rq_peerId = p\<rparr> ?s0 = (Inr (), ?s0\<lparr>sent := ?out\<rparr>)"
    using op demo reach fin fd by (subst sendRequestMsg_iff) (auto simp: askedPeers_def)
  have inj0: "inj_on (fdOf (?s0\<lparr>sent := ?out\<rparr>)) ?A" using inj fd by (simp add: inj_on_def)
  obtain rv where rv: "forEach (sorted_list_of_set ?A) (okFrom cfg r) (?s0\<lparr>sent := ?out\<rparr>)
      = (Inr (), ?s0\<lparr>sent := ?out, recvs := rv\<rparr>)"
    "\<forall>f. f \<notin> fdOf s ` ?A \<longrightarrow> rv f = recvs s f"
    using forEach_okFrom_reply [of "sorted_list_of_set ?A" r "?s0\<lparr>sent := ?out\<rparr>" cfg] fd reach inj0 fin
    by auto
  have "changeUnderLock cfg p op \<lparr>rq_msgType = 1, rq_requestId = r, rq_currentViewId = v,
      rq_operationType = operationCode op, rq_peerId = p\<rparr> s = (Inr (), changedState op p r v rv s)"
    using op
  proof
    assume "op = DEL"
    with s1 rv(1) show ?thesis
      by (simp add: changeUnderLock_def andThen_def act_basic waitForOkMsg_def changedState_def
          newClients_def askedPeers_def newPeers_def)
  next
    assume "op = ADD"
    with s1 rv(1) show ?thesis
      by (simp add: changeUnderLock_def andThen_def act_basic waitForOkMsg_def changedState_def
          newClients_def askedPeers_def newPeers_def)
  qed
  with rv(2) show ?thesis by blast
qed

text \<open>
  The leader 1 with the member 2. The peer 3 has connected and joins, while the member 2 is reported.
  The join has the request 3, which the member 2 acknowledges, the deletion the request 4, which the
  peer 3 acknowledges.
\<close>

definition overlapLeader :: MembershipService where
  "overlapLeader = exampleLeader\<lparr>recvs := (\<lambda>f. if f = 2 then [Some (okBytes 3 2)] else [Some (okBytes 4 3)]),
     tcpClientMap := [2 \<mapsto> clientTo ''b.net'' 2, 3 \<mapsto> clientTo ''c.net'' 3]\<rparr>"

abbreviation joining :: change where "joining \<equiv> (3, ADD)"
abbreviation failing :: change where "failing \<equiv> (2, DEL)"

text \<open>The join reads the view identifier; the deletion is made and announced; then the join announces its view.\<close>

definition joinOvertaken :: "bool list" where
  "joinOvertaken = [True, True, True, False, False, False, False, True]"

lemma overlapRun_append:
  "overlapRun cfg c d (xs @ ys) pc qc = andThen (overlapRun cfg c d xs pc qc) (\<lambda>(pc', qc'). overlapRun cfg c d ys pc' qc')"
  by (induction xs arbitrary: pc qc)
    (auto simp: fun_eq_iff andThen_def act_basic split: prod.splits sum.splits)

lemma overlapLeader_run:
  "\<exists>s' bs bs'. overlapRun (exampleConfig 1) joining failing joinOvertaken NotStarted NotStarted overlapLeader
      = (Inr (Announced, Announced), s') \<and> viewId s' = 4 \<and> alivePeers s' = {3} \<and>
    isViewMsg bs 4 {1, 3} \<and> isViewMsg bs' 3 {1, 3} \<and>
    sent s' = [(2, requestBytes 3 2 1 3), (3, requestBytes 4 3 2 2), (3, bs), (3, bs')] \<and>
    (\<exists>t. overlapRun (exampleConfig 1) joining failing [True, True] NotStarted NotStarted overlapLeader
       = (Inr (Changed, NotStarted), t) \<and> viewId t = 3 \<and> alivePeers t = {2, 3})"
proof -
  let ?cfg = "exampleConfig 1"
  define s1 where "s1 = overlapLeader\<lparr>requestCounter := 3\<rparr>"
  have "\<exists>v. okBytes 3 2 = okBytes 3 v" by blast
  then have f1: "alivePeers s1 = {2}" "viewId s1 = 2" "requestCounter s1 = 3" "sent s1 = []" "fdOf s1 2 = 2" "fdOf s1 3 = 3"
    "reachable s1 2" "reachable s1 3" "answered 3 s1 2" "recvs s1 3 = [Some (okBytes 4 3)]"
    "tcpClientMap s1 = [2 \<mapsto> clientTo ''b.net'' 2, 3 \<mapsto> clientTo ''c.net'' 3]"
    "sendFails s1 = (\<lambda>_. False)"
    by (simp_all add: s1_def overlapLeader_def example_defs fdOf_def reachable_def answered_def)
  define s2 where "s2 rv = changedState ADD 3 3 2 rv s1" for rv
  obtain rv where rv: "changeUnderLock ?cfg 3 ADD \<lparr>rq_msgType = 1, rq_requestId = 3, rq_currentViewId = 2,
      rq_operationType = operationCode ADD, rq_peerId = 3\<rparr> s1 = (Inr (), s2 rv)" "rv 3 = [Some (okBytes 4 3)]"
    using changeUnderLock_ok [of ADD ?cfg s1 3 3 2] f1 by (auto simp: askedPeers_def s2_def)
  define s3 where "s3 = (s2 rv)\<lparr>requestCounter := 4\<rparr>"
  have f3: "alivePeers s3 = {2, 3}" "viewId s3 = 3" "sent s3 = [(2, requestBytes 3 2 1 3)]"
    "tcpClientMap s3 = tcpClientMap s1" "recvs s3 = rv" "sendFails s3 = (\<lambda>_. False)" "requestCounter (s2 rv) = 3"
    "viewId (s2 rv) = 3" "requestCounter s3 = 4"
    by (auto simp: s3_def s2_def changedState_def f1 newPeers_def newClients_def askedPeers_def)
  have asked: "askedPeers DEL 2 {2, 3} = {3}" "newPeers DEL 2 {2, 3} = {3}"
    by (auto simp: askedPeers_def newPeers_def)
  have "\<exists>v. okBytes 4 3 = okBytes 4 v" by blast
  then have g3: "fdOf s3 3 = 3" "reachable s3 3" "answered 4 s3 3"
    by (simp_all add: fdOf_def reachable_def answered_def f3 f1 rv(2))
  define s4 where "s4 rw = changedState DEL 2 4 3 rw s3" for rw
  obtain rw where rw: "changeUnderLock ?cfg 2 DEL \<lparr>rq_msgType = 1, rq_requestId = 4, rq_currentViewId = 3,
      rq_operationType = operationCode DEL, rq_peerId = 2\<rparr> s3 = (Inr (), s4 rw)"
    using changeUnderLock_ok [of DEL ?cfg s3 2 4 3] f3 g3 asked by (auto simp: s4_def)
  have f4: "alivePeers (s4 rw) = {3}" "viewId (s4 rw) = 4"
    "sent (s4 rw) = [(2, requestBytes 3 2 1 3), (3, requestBytes 4 3 2 2)]"
    "fdOf (s4 rw) 3 = 3" "reachable (s4 rw) 3"
    using g3(1,2) by (auto simp: s4_def changedState_def f3 asked fdOf_def reachable_def newClients_def f1)
  have members: "getGroupMembers ?cfg (s4 rw) = {1, 3}" and card: "card {1, 3 :: PeerId} \<le> MAX_PEERS"
    by (simp_all add: getGroupMembers_def f4 MAX_PEERS_def)
  obtain bs where bs: "isViewMsg bs 4 {1, 3}" "sendViewAs ?cfg 4 (s4 rw)
      = (Inr (), (s4 rw)\<lparr>sent := sent (s4 rw) @ [(3, bs)]\<rparr>)"
    using sendViewAs_iff [of "s4 rw" ?cfg 4] card members f4 by auto
  define s5 where "s5 = (s4 rw)\<lparr>sent := sent (s4 rw) @ [(3, bs)]\<rparr>"
  have s5: "sendViewAs ?cfg 4 (s4 rw) = (Inr (), s5)" using bs(2) by (simp only: s5_def)
  have f5: "alivePeers s5 = {3}" "viewId s5 = 4" "fdOf s5 3 = 3" "reachable s5 3" "getGroupMembers ?cfg s5 = {1, 3}"
    "sent s5 = [(2, requestBytes 3 2 1 3), (3, requestBytes 4 3 2 2), (3, bs)]"
    using f4 members by (simp_all add: s5_def getGroupMembers_def)
  obtain bs' where bs': "isViewMsg bs' 3 {1, 3}" "sendViewAs ?cfg 3 s5 = (Inr (), s5\<lparr>sent := sent s5 @ [(3, bs')]\<rparr>)"
    using sendViewAs_iff [of s5 ?cfg 3] card f5 by auto
  have r0: "requestCounter overlapLeader = 2" "viewId overlapLeader = 2" "overlapLeader\<lparr>requestCounter := 3\<rparr> = s1"
    by (simp_all add: overlapLeader_def example_defs s1_def)
  have "overlapRun ?cfg joining failing joinOvertaken NotStarted NotStarted overlapLeader
      = (Inr (Announced, Announced), s5\<lparr>sent := sent s5 @ [(3, bs')]\<rparr>)"
    using rv(1) rw s5 bs'(2)
    by (simp add: joinOvertaken_def createRequestMsg_def andThen_def act_basic r0 f1 f3 f4 s3_def [symmetric] del: operationCode.simps)
  moreover have "overlapRun ?cfg joining failing [True, True] NotStarted NotStarted overlapLeader
      = (Inr (Changed, NotStarted), s2 rv)"
    using rv(1) by (simp add: createRequestMsg_def andThen_def act_basic r0 f1 del: operationCode.simps)
  moreover have "alivePeers (s2 rv) = {2, 3}" using f3(1) by (simp add: s3_def)
  ultimately show ?thesis using bs(1) bs'(1) f5 f3(8) by auto
qed

theorem overlap_group_witness:
  "\<exists>s'. overlapRun (exampleConfig 1) joining failing joinOvertaken NotStarted NotStarted overlapLeader
      = (Inr (Announced, Announced), s') \<and> alivePeers s' = {3} \<and> viewId s' = 4"
proof -
  obtain s' where run: "overlapRun (exampleConfig 1) joining failing joinOvertaken NotStarted NotStarted overlapLeader
      = (Inr (Announced, Announced), s')" using overlapLeader_run by blast
  have "finite (alivePeers overlapLeader)" "viewId overlapLeader = 2" "alivePeers overlapLeader = {2}"
    by (simp_all add: overlapLeader_def example_defs)
  with overlap_group [OF run] run show ?thesis by (auto simp: newPeers_def)
qed

text \<open>
  Now the first thread reads the view identifier before the second one makes its change, and sends its
  view after the second one has sent its own. First, the identifier that it has read:
\<close>

lemma overlapRun_read:
  "overlapRun cfg c d sched pc qc s = (Inr (ViewRead v, qc'), t) \<Longrightarrow> \<not> hasChanged qc' \<Longrightarrow> finite (alivePeers s) \<Longrightarrow>
    (\<And>w. pc = ViewRead w \<Longrightarrow> \<not> hasChanged qc \<Longrightarrow> w = viewId s) \<Longrightarrow> v = viewId t"
proof (induction sched arbitrary: pc qc s)
  case Nil
  then show ?case by (simp add: act_eq_Inr)
next
  case (Cons first sched)
  note fin = Cons.prems(3)
  show ?case
  proof (cases first)
    case True
    then obtain pc1 s1 where s1: "changeStep cfg (fst c) (snd c) pc s = (Inr pc1, s1)"
      "overlapRun cfg c d sched pc1 qc s1 = (Inr (ViewRead v, qc'), t)"
      using Cons.prems(1) by (auto simp: andThen_eq_Inr)
    note step = changeStep_Inr [OF s1(1) fin]
    have "finite (alivePeers s1)" using step fin by auto
    moreover have "w = viewId s1" if "pc1 = ViewRead w" for w
      using step that by auto
    ultimately show ?thesis using Cons.IH [OF s1(2) Cons.prems(2)] by blast
  next
    case False
    then obtain qc1 s1 where s1: "changeStep cfg (fst d) (snd d) qc s = (Inr qc1, s1)"
      "overlapRun cfg c d sched pc qc1 s1 = (Inr (ViewRead v, qc'), t)"
      using Cons.prems(1) by (auto simp: andThen_eq_Inr)
    note step = changeStep_Inr [OF s1(1) fin]
    have "finite (alivePeers s1)" using step fin by auto
    moreover have "w = viewId s1" if "pc = ViewRead w" "\<not> hasChanged qc1" for w
      using step that Cons.prems(4) by auto
    ultimately show ?thesis using Cons.IH [OF s1(2) Cons.prems(2)] by blast
  qed
qed

text \<open>Then the second thread goes on alone: what holds between its steps.\<close>

definition overtaken :: "Config \<Rightarrow> ViewId \<Rightarrow> changePoint \<Rightarrow> MembershipService \<Rightarrow> bool" where
  "overtaken cfg v qc t \<longleftrightarrow> viewId t = v + of_bool (hasChanged qc) \<and>
     (\<forall>w. qc = ViewRead w \<longrightarrow> w = v + 1) \<and>
     (qc = Announced \<longrightarrow> (\<exists>bs before. isViewMsg bs (v + 1) (getGroupMembers cfg t) \<and>
        sent t = before @ map (\<lambda>p. (fdOf t p, bs)) (sorted_list_of_set (alivePeers t))))"

lemma announced_stays: "overlapRun cfg c d sched Announced qc s = (Inr (pc', qc'), s') \<Longrightarrow> pc' = Announced"
proof (induction sched arbitrary: qc s)
  case (Cons first sched)
  then show ?case by (cases first) (auto simp: andThen_eq_Inr act_eq_Inr)
qed (simp add: act_eq_Inr)

lemma overtaken_step:
  assumes "overtaken cfg v qc s" and "finite (alivePeers s)" and s1: "changeStep cfg p op qc s = (Inr qc1, s1)"
  shows "overtaken cfg v qc1 s1"
proof -
  note step = changeStep_Inr [OF s1 assms(2)]
  show ?thesis
  proof (cases "qc = Announced")
    case True
    then show ?thesis using assms(1) s1 by (simp add: act_eq_Inr)
  next
    case False
    have "viewId s1 = v + of_bool (hasChanged qc1)"
      using step assms(1) by (auto simp: overtaken_def)
    moreover have "w = v + 1" if "qc1 = ViewRead w" for w
      using step that assms(1) by (auto simp: overtaken_def)
    moreover have "\<exists>bs before. isViewMsg bs (v + 1) (getGroupMembers cfg s1) \<and>
        sent s1 = before @ map (\<lambda>p. (fdOf s1 p, bs)) (sorted_list_of_set (alivePeers s1))" if now: "qc1 = Announced"
    proof -
      obtain w bs where w: "qc = ViewRead w" "isViewMsg bs w (getGroupMembers cfg s)"
        and eq: "s1 = s\<lparr>sent := sent s @ map (\<lambda>p. (fdOf s p, bs)) (sorted_list_of_set (alivePeers s))\<rparr>"
        using step now False by blast
      have "w = v + 1" using assms(1) w(1) by (simp add: overtaken_def)
      with w(2) have "isViewMsg bs (v + 1) (getGroupMembers cfg s1)" by (simp add: eq getGroupMembers_def)
      moreover have "sent s1 = sent s @ map (\<lambda>p. (fdOf s1 p, bs)) (sorted_list_of_set (alivePeers s1))" by (simp add: eq)
      ultimately show ?thesis by blast
    qed
    ultimately show ?thesis unfolding overtaken_def by blast
  qed
qed

lemma overlapRun_overtakes:
  "overlapRun cfg c d sched (ViewRead v) qc s = (Inr (ViewRead v, qc'), t) \<Longrightarrow> overtaken cfg v qc s \<Longrightarrow>
    finite (alivePeers s) \<Longrightarrow> overtaken cfg v qc' t"
proof (induction sched arbitrary: qc s)
  case Nil
  then show ?case by (simp add: act_eq_Inr)
next
  case (Cons first sched)
  have "\<not> first"
  proof
    assume first
    then obtain u where "overlapRun cfg c d sched Announced qc u = (Inr (ViewRead v, qc'), t)"
      using Cons.prems(1) by (auto simp: andThen_eq_Inr act_eq_Inr)
    from announced_stays [OF this] show False by simp
  qed
  then obtain qc1 s1 where s1: "changeStep cfg (fst d) (snd d) qc s = (Inr qc1, s1)"
    "overlapRun cfg c d sched (ViewRead v) qc1 s1 = (Inr (ViewRead v, qc'), t)"
    using Cons.prems(1) by (auto simp: andThen_eq_Inr)
  have "finite (alivePeers s1)" using changeStep_Inr [OF s1(1) Cons.prems(3)] Cons.prems(3) by auto
  with Cons.IH [OF s1(2) overtaken_step [OF Cons.prems(2,3) s1(1)]] show ?case .
qed

text \<open>A member that is sent two views one after the other ends in the second one.\<close>

lemma follower_two_views:
  assumes c: "tcpClientMap m (leaderPeerId m) = Some k" and read: "recvs m (tc_sockFd k) = [Some bs, Some bs']"
    and bs: "isViewMsg bs v M" and bs': "isViewMsg bs' v' M'"
  shows "\<exists>u. forEach [(), ()] (\<lambda>_. followerStep cfg) m = (Inr (), u) \<and> viewId u = v' \<and> alivePeers u = M' - {me cfg}"
proof -
  obtain u1 where u1: "followerStep cfg m = (Inr (), u1)" "recvs u1 (tc_sockFd k) = [Some bs']"
    "tcpClientMap u1 = tcpClientMap m" "leaderPeerId u1 = leaderPeerId m"
    using followerStep_view [OF c read bs, of cfg] by auto
  have c1: "tcpClientMap u1 (leaderPeerId u1) = Some k" using c u1(3,4) by simp
  obtain u where u: "followerStep cfg u1 = (Inr (), u)" "viewId u = v'" "alivePeers u = M' - {me cfg}"
    using followerStep_view [OF c1 u1(2) bs', of cfg] by (auto simp: me_def)
  then show ?thesis using u1(1) by (simp add: andThen_def act_basic)
qed

text \<open>
  C37: two changes that overlap can take a member back to an earlier view. Suppose one thread has read
  the view identifier \<open>v\<close> when the other one has not made its change yet, and sends its view when the
  other one has sent its own. Then the members of the leader's group, which is in view \<open>v + 1\<close>, are
  sent the view \<open>v + 1\<close> and after it a view \<open>v\<close>, both with the group of both changes, although the
  leader had the group of the first change only when its identifier was \<open>v\<close>; and a member that handles
  the two messages ends in view \<open>v\<close>.
\<close>

theorem overlapping_views_go_back:
  assumes read: "overlapRun cfg c d sched NotStarted NotStarted s = (Inr (ViewRead v, qc), t)" and "\<not> hasChanged qc"
    and other: "overlapRun cfg c d sched' (ViewRead v) qc t = (Inr (ViewRead v, Announced), t')"
    and send: "changeStep cfg (fst c) (snd c) (ViewRead v) t' = (Inr Announced, s')"
    and "fst c \<noteq> fst d" and "finite (alivePeers s)"
  shows "viewId t = v \<and> alivePeers t = newPeers (snd c) (fst c) (alivePeers s) \<and>
    viewId s' = v + 1 \<and> alivePeers s' = newPeers (snd d) (fst d) (alivePeers t) \<and>
    (\<exists>before bs bs'. isViewMsg bs (v + 1) (getGroupMembers cfg s') \<and> isViewMsg bs' v (getGroupMembers cfg s') \<and>
       sent s' = before @ map (\<lambda>p. (fdOf s' p, bs)) (sorted_list_of_set (alivePeers s')) @
                 map (\<lambda>p. (fdOf s' p, bs')) (sorted_list_of_set (alivePeers s')) \<and>
       (\<forall>cfg' m k. tcpClientMap m (leaderPeerId m) = Some k \<longrightarrow> recvs m (tc_sockFd k) = [Some bs, Some bs'] \<longrightarrow>
          (\<exists>u. forEach [(), ()] (\<lambda>_. followerStep cfg') m = (Inr (), u) \<and> viewId u = v \<and>
             alivePeers u = getGroupMembers cfg s' - {me cfg'})))"
proof -
  have inv0: "overlapInv cfg c d (alivePeers s) (viewId s) NotStarted NotStarted s"
    by (simp add: overlapInv_def changedPeers_def Let_def)
  note inv = overlapRun_group [OF assms(5,6) read inv0]
  note inv' = overlapRun_group [OF assms(5,6) other inv]
  note fin = overlapInv_finite [OF inv assms(6)] and fin' = overlapInv_finite [OF inv' assms(6)]
  have v: "viewId t = v" using overlapRun_read [OF read assms(2,6)] by simp
  have "overtaken cfg v qc t" using assms(2) v by (auto simp: overtaken_def)
  from overlapRun_overtakes [OF other this fin] obtain bs before where
    t': "viewId t' = v + 1" "isViewMsg bs (v + 1) (getGroupMembers cfg t')"
      "sent t' = before @ map (\<lambda>p. (fdOf t' p, bs)) (sorted_list_of_set (alivePeers t'))"
    by (auto simp: overtaken_def)
  obtain bs' where bs': "isViewMsg bs' v (getGroupMembers cfg t')"
    and s': "s' = t'\<lparr>sent := sent t' @ map (\<lambda>p. (fdOf t' p, bs')) (sorted_list_of_set (alivePeers t'))\<rparr>"
    using changeStep_Inr [OF send fin'] by auto
  have same: "getGroupMembers cfg s' = getGroupMembers cfg t'" "alivePeers s' = alivePeers t'" "viewId s' = v + 1"
    "fdOf s' = fdOf t'"
    using t'(1) by (simp_all add: s' getGroupMembers_def fun_eq_iff)
  have groups: "alivePeers t = newPeers (snd c) (fst c) (alivePeers s)"
    "alivePeers s' = newPeers (snd d) (fst d) (alivePeers t)"
    using inv inv' assms(2) by (simp_all add: same(2) overlapInv_def changedPeers_def Let_def)
  have "sent s' = before @ map (\<lambda>p. (fdOf s' p, bs)) (sorted_list_of_set (alivePeers s')) @
      map (\<lambda>p. (fdOf s' p, bs')) (sorted_list_of_set (alivePeers s'))"
    using t'(3) by (simp add: same) (simp add: s')
  with v groups same(3) t'(2) bs' follower_two_views [OF _ _ t'(2) bs'] show ?thesis
    unfolding same(1) by blast
qed

theorem overlapping_views_go_back_witness:
  "\<exists>t s'. overlapRun (exampleConfig 1) joining failing [True, True, True] NotStarted NotStarted overlapLeader
      = (Inr (ViewRead 3, NotStarted), t) \<and> getGroupMembers (exampleConfig 1) t = {1, 2, 3} \<and>
    overlapRun (exampleConfig 1) joining failing joinOvertaken NotStarted NotStarted overlapLeader
      = (Inr (Announced, Announced), s') \<and> viewId s' = 4 \<and> getGroupMembers (exampleConfig 1) s' = {1, 3} \<and>
    (\<exists>before bs bs'. isViewMsg bs 4 {1, 3} \<and> isViewMsg bs' 3 {1, 3} \<and> sent s' = before @ [(3, bs), (3, bs')] \<and>
       (\<exists>u. forEach [(), ()] (\<lambda>_. followerStep (exampleConfig 3))
          ((exampleMember bs)\<lparr>recvs := (\<lambda>f. [Some bs, Some bs'])\<rparr>) = (Inr (), u) \<and> viewId u = 3))"
proof -
  obtain s' t2 where
    t2: "overlapRun (exampleConfig 1) joining failing [True, True] NotStarted NotStarted overlapLeader
       = (Inr (Changed, NotStarted), t2)" "viewId t2 = 3" "alivePeers t2 = {2, 3}" and
    run: "overlapRun (exampleConfig 1) joining failing joinOvertaken NotStarted NotStarted overlapLeader
       = (Inr (Announced, Announced), s')" "viewId s' = 4" "alivePeers s' = {3}"
    and log: "\<exists>b b'. sent s' = [(2, requestBytes 3 2 1 3), (3, requestBytes 4 3 2 2), (3, b), (3, b')]"
    using overlapLeader_run by blast
  have read: "overlapRun (exampleConfig 1) joining failing [True, True, True] NotStarted NotStarted overlapLeader
      = (Inr (ViewRead 3, NotStarted), t2)"
    using overlapRun_append [of "exampleConfig 1" joining failing "[True, True]" "[True]"] t2(1,2)
    by (simp add: andThen_def act_basic del: overlapRun.simps(2)) (simp add: andThen_def act_basic t2(2))
  have "overlapRun (exampleConfig 1) joining failing ([False, False, False, False] @ [True]) (ViewRead 3) NotStarted t2
      = (Inr (Announced, Announced), s')"
    using run(1) overlapRun_append [of "exampleConfig 1" joining failing "[True, True, True]" "[False, False, False, False, True]"]
    by (simp add: joinOvertaken_def andThen_def read del: overlapRun.simps(2))
  then obtain t' where other: "overlapRun (exampleConfig 1) joining failing [False, False, False, False] (ViewRead 3) NotStarted t2
      = (Inr (ViewRead 3, Announced), t')"
    and send: "changeStep (exampleConfig 1) (fst joining) (snd joining) (ViewRead 3) t' = (Inr Announced, s')"
    by (auto simp: andThen_eq_Inr act_eq_Inr simp del: changeStep.simps(2,4))
  have "\<not> hasChanged NotStarted" "fst joining \<noteq> fst failing" "finite (alivePeers overlapLeader)"
    by (simp_all add: overlapLeader_def example_defs)
  note result = overlapping_views_go_back [OF read this(1) other send this(2,3)]
  have M: "getGroupMembers (exampleConfig 1) t2 = {1, 2, 3}" "getGroupMembers (exampleConfig 1) s' = {1, 3}"
    using t2(3) run(3) by (auto simp: getGroupMembers_def)
  have four: "3 + 1 = (4 :: ViewId)" by simp
  have L: "sorted_list_of_set {3 :: PeerId} = [3]" by simp
  note views = result [THEN conjunct2, THEN conjunct2, THEN conjunct2, THEN conjunct2, unfolded M run(3) four L list.map append_Cons append_Nil]
  then obtain before bs bs' where v: "isViewMsg bs 4 {1, 3}" "isViewMsg bs' 3 {1, 3}"
    "sent s' = before @ [(fdOf s' 3, bs), (fdOf s' 3, bs')]" and
    member: "\<forall>cfg' m k. tcpClientMap m (leaderPeerId m) = Some k \<longrightarrow> recvs m (tc_sockFd k) = [Some bs, Some bs'] \<longrightarrow>
      (\<exists>u. forEach [(), ()] (\<lambda>_. followerStep cfg') m = (Inr (), u) \<and> viewId u = 3 \<and> alivePeers u = {1, 3} - {me cfg'})"
    by (elim exE conjE)
  have "fdOf s' 3 = 3" using log v(3) by (auto simp: append_eq_Cons_conv Cons_eq_append_conv)
  then have "sent s' = before @ [(3, bs), (3, bs')]" using v(3) by simp
  moreover have "\<exists>u. forEach [(), ()] (\<lambda>_. followerStep (exampleConfig 3))
      ((exampleMember bs)\<lparr>recvs := (\<lambda>f. [Some bs, Some bs'])\<rparr>) = (Inr (), u) \<and> viewId u = 3"
    using member [rule_format, of "(exampleMember bs)\<lparr>recvs := (\<lambda>f. [Some bs, Some bs'])\<rparr>" "clientTo ''a'' 9" "exampleConfig 3"]
    by (simp add: example_defs del: forEach.simps) blast
  ultimately show ?thesis using read M run(1,2) v(1,2) by blast
qed

end
