(* ===== verification/Streams.thy ===== *)
theory Streams
  imports Codec "HOL-Library.Sublist"
begin

text \<open>
  The connections between a server and its clients as streams of bytes. \<open>send\<close> appends a message to a
  stream; \<open>recv\<close> takes a chunk of at most \<open>MAX_BUFFER_SIZE\<close> of the bytes that have not been read, which
  may end within a message or hold several. A process is given by what it has sent when it has read
  given chunks (it is deterministic, and does not take back what it has sent): these are the laws of
  the locale \<open>stream_network\<close>, which a leader of lab2 with its members satisfies.
\<close>

section \<open>The steps of the network\<close>

record traffic =
  toServer :: "nat \<Rightarrow> byte list list"
  toClient :: "nat \<Rightarrow> byte list list"

definition noTraffic :: traffic where
  "noTraffic = \<lparr>toServer = (\<lambda>_. []), toClient = (\<lambda>_. [])\<rparr>"

lemma noTraffic_simps [simp]: "toServer noTraffic f = []" "toClient noTraffic f = []"
  by (simp_all add: noTraffic_def)

text \<open>
  \<open>bs\<close> can be the next chunk of a stream of the messages \<open>msgs\<close> after \<open>chunks\<close> have been read. If
  \<open>whole\<close> holds, every chunk is one message; TCP does not promise it.
\<close>

definition nextChunk :: "bool \<Rightarrow> byte list list \<Rightarrow> byte list list \<Rightarrow> byte list \<Rightarrow> bool" where
  "nextChunk whole msgs chunks bs \<longleftrightarrow> bs \<noteq> [] \<and> length bs \<le> MAX_BUFFER_SIZE \<and>
     prefix (concat chunks @ bs) (concat msgs) \<and> (whole \<longrightarrow> prefix (chunks @ [bs]) msgs)"

text \<open>
  \<open>serve ins f\<close>: what the server has sent over the connection \<open>f\<close> when it has read the chunks \<open>ins\<close>;
  \<open>reply f cs\<close>: what the client at the connection \<open>f\<close> has sent when it has read \<open>cs\<close>.
\<close>

inductive flows :: "bool \<Rightarrow> ((nat \<Rightarrow> byte list list) \<Rightarrow> nat \<Rightarrow> byte list list) \<Rightarrow>
    (nat \<Rightarrow> byte list list \<Rightarrow> byte list list) \<Rightarrow> traffic \<Rightarrow> traffic \<Rightarrow> bool"
  for whole serve reply where
  clientReads: "nextChunk whole (serve (toServer w) f) (toClient w f) bs \<Longrightarrow>
     flows whole serve reply w (w\<lparr>toClient := (toClient w)(f := toClient w f @ [bs])\<rparr>)"
| serverReads: "nextChunk whole (reply f (toClient w f)) (toServer w f) bs \<Longrightarrow>
     flows whole serve reply w (w\<lparr>toServer := (toServer w)(f := toServer w f @ [bs])\<rparr>)"

text \<open>Nothing is on its way over a connection.\<close>

definition drained :: "((nat \<Rightarrow> byte list list) \<Rightarrow> nat \<Rightarrow> byte list list) \<Rightarrow>
    (nat \<Rightarrow> byte list list \<Rightarrow> byte list list) \<Rightarrow> traffic \<Rightarrow> nat \<Rightarrow> bool" where
  "drained serve reply w f \<longleftrightarrow> concat (toClient w f) = concat (serve (toServer w) f) \<and>
     concat (toServer w f) = concat (reply f (toClient w f))"

lemma flows_grows:
  assumes "flows whole serve reply w w'"
  shows "prefix (toClient w f) (toClient w' f)" "prefix (toServer w f) (toServer w' f)"
  using assms by (cases; simp)+

lemma flows_star_grows:
  assumes "(flows whole serve reply)\<^sup>*\<^sup>* w w'"
  shows "prefix (toClient w f) (toClient w' f) \<and> prefix (toServer w f) (toServer w' f)"
  using assms
proof (induction rule: rtranclp_induct)
  case (step v w')
  with flows_grows [OF step.hyps(2), of f] show ?case by (blast intro: prefix_order.trans)
qed simp

text \<open>Every step reads one chunk.\<close>

definition chunksIn :: "nat set \<Rightarrow> traffic \<Rightarrow> nat" where
  "chunksIn F w = (\<Sum>f\<in>F. length (toClient w f) + length (toServer w f))"

lemma chunksIn_step:
  assumes s: "flows whole serve reply w w'" and "finite F"
    and out: "\<And>f. f \<notin> F \<Longrightarrow> toClient w' f = [] \<and> toServer w' f = []"
  shows "chunksIn F w' = Suc (chunksIn F w)"
proof -
  obtain g where g: "g \<in> F" "length (toClient w' g) + length (toServer w' g) =
      Suc (length (toClient w g) + length (toServer w g))"
    "\<And>f. f \<noteq> g \<Longrightarrow> toClient w' f = toClient w f \<and> toServer w' f = toServer w f"
    using s
  proof cases
    case (clientReads f bs)
    then show ?thesis using out [of f] by (intro that [of f]) auto
  next
    case (serverReads f bs)
    then show ?thesis using out [of f] by (intro that [of f]) auto
  qed
  have "chunksIn (F - {g}) w' = chunksIn (F - {g}) w"
    unfolding chunksIn_def using g(3) by (intro sum.cong) auto
  then show ?thesis
    using g(1,2) \<open>finite F\<close> by (simp add: chunksIn_def sum.remove [of F g])
qed

lemma chunksIn_steps:
  assumes "(flows whole serve reply ^^ n) noTraffic w" and "finite F"
    and "\<And>f. f \<notin> F \<Longrightarrow> toClient w f = [] \<and> toServer w f = []"
  shows "chunksIn F w = n"
  using assms
proof (induction n arbitrary: w)
  case 0
  then show ?case by (simp add: chunksIn_def)
next
  case (Suc n)
  then obtain v where v: "(flows whole serve reply ^^ n) noTraffic v" "flows whole serve reply v w" by auto
  have "toClient v f = [] \<and> toServer v f = []" if "f \<notin> F" for f
    using Suc.prems(3) [OF that] flows_grows [OF v(2), of f] by simp
  with Suc.IH [OF v(1) Suc.prems(2)] chunksIn_step [OF v(2) Suc.prems(2,3)] show ?case by simp
qed

section \<open>The end of a connection\<close>

text \<open>
  A process that ends closes its connections. From then on \<open>recv\<close> at the other end can yield zero bytes,
  after the bytes that are left or, when the connection is reset, before them; \<open>tcpReceive\<close> treats a
  reset (\<open>-1\<close>) and zero bytes alike. \<open>serverEnds ins\<close> and \<open>clientEnds f cs\<close>: the process has ended
  when it has read these chunks.
\<close>

inductive connStep :: "bool \<Rightarrow> ((nat \<Rightarrow> byte list list) \<Rightarrow> nat \<Rightarrow> byte list list) \<Rightarrow>
    (nat \<Rightarrow> byte list list \<Rightarrow> byte list list) \<Rightarrow> ((nat \<Rightarrow> byte list list) \<Rightarrow> bool) \<Rightarrow>
    (nat \<Rightarrow> byte list list \<Rightarrow> bool) \<Rightarrow> traffic \<Rightarrow> traffic \<Rightarrow> bool"
  for whole serve reply serverEnds clientEnds where
  ns_flows: "flows whole serve reply w w' \<Longrightarrow> connStep whole serve reply serverEnds clientEnds w w'"
| ns_clientEnded: "clientEnds f (toClient w f) \<Longrightarrow>
     connStep whole serve reply serverEnds clientEnds w (w\<lparr>toServer := (toServer w)(f := toServer w f @ [[]])\<rparr>)"
| ns_serverEnded: "serverEnds (toServer w) \<Longrightarrow>
     connStep whole serve reply serverEnds clientEnds w (w\<lparr>toClient := (toClient w)(f := toClient w f @ [[]])\<rparr>)"

text \<open>As long as no process ends, chunks are all that is read.\<close>

lemma connStep_flows:
  assumes alive: "\<And>v. (flows whole serve reply)\<^sup>*\<^sup>* w v \<Longrightarrow> \<not> serverEnds (toServer v) \<and> (\<forall>f. \<not> clientEnds f (toClient v f))"
  shows "(connStep whole serve reply serverEnds clientEnds ^^ n) w w' \<longleftrightarrow> (flows whole serve reply ^^ n) w w'"
proof (induction n arbitrary: w')
  case (Suc n)
  have "connStep whole serve reply serverEnds clientEnds v w' \<longleftrightarrow> flows whole serve reply v w'"
    if "(flows whole serve reply ^^ n) w v" for v
    using alive [OF relpowp_imp_rtranclp [OF that]] by (auto elim: connStep.cases intro: ns_flows)
  with Suc show ?case by (simp add: OO_def) blast
qed simp

lemma connStep_flows_star:
  assumes "\<And>v. (flows whole serve reply)\<^sup>*\<^sup>* w v \<Longrightarrow> \<not> serverEnds (toServer v) \<and> (\<forall>f. \<not> clientEnds f (toClient v f))"
  shows "(connStep whole serve reply serverEnds clientEnds)\<^sup>*\<^sup>* w w' \<longleftrightarrow> (flows whole serve reply)\<^sup>*\<^sup>* w w'"
  using connStep_flows [of whole serve reply w serverEnds clientEnds, OF assms] by (simp add: rtranclp_power)

section \<open>The laws of the processes\<close>

lemma concat_prefix: "prefix xs ys \<Longrightarrow> prefix (concat xs) (concat ys)"
  by (auto simp: prefix_def)

text \<open>If all messages have a byte, only the messages themselves have all their bytes.\<close>

lemma concat_prefix_eq:
  assumes "prefix xs ys" and "concat xs = concat ys" and "\<forall>y \<in> set ys. y \<noteq> []"
  shows "xs = ys"
proof -
  obtain zs where zs: "ys = xs @ zs" using assms(1) by (auto simp: prefix_def)
  with assms(2) have "concat zs = []" by simp
  with assms(3) zs show ?thesis by (cases zs) auto
qed

locale stream_network =
  fixes serve :: "(nat \<Rightarrow> byte list list) \<Rightarrow> nat \<Rightarrow> byte list list"
    and reply :: "nat \<Rightarrow> byte list list \<Rightarrow> byte list list"
  assumes serve_mono: "(\<And>f. prefix (ins f) (ins' f)) \<Longrightarrow> prefix (serve ins f) (serve ins' f)"
    and reply_mono: "prefix cs cs' \<Longrightarrow> prefix (reply f cs) (reply f cs')"
begin

text \<open>What has been read is a prefix of what has been sent.\<close>

definition inStep :: "bool \<Rightarrow> traffic \<Rightarrow> bool" where
  "inStep whole w \<longleftrightarrow> (\<forall>f. prefix (concat (toClient w f)) (concat (serve (toServer w) f)) \<and>
     prefix (concat (toServer w f)) (concat (reply f (toClient w f))) \<and>
     (whole \<longrightarrow> prefix (toClient w f) (serve (toServer w) f) \<and> prefix (toServer w f) (reply f (toClient w f))))"

lemma serve_grows:
  assumes "flows whole serve reply w w'"
  shows "prefix (serve (toServer w) f) (serve (toServer w') f)"
    "prefix (reply f (toClient w f)) (reply f (toClient w' f))"
  by (rule serve_mono reply_mono, rule flows_grows [OF assms])+

text \<open>A stream that has grown, and one of which the next chunk has been read.\<close>

definition partOf :: "bool \<Rightarrow> byte list list \<Rightarrow> byte list list \<Rightarrow> bool" where
  "partOf whole cs ms \<longleftrightarrow> prefix (concat cs) (concat ms) \<and> (whole \<longrightarrow> prefix cs ms)"

lemma partOf_grows: "partOf whole cs ms \<Longrightarrow> prefix ms ms' \<Longrightarrow> partOf whole cs ms'"
  unfolding partOf_def by (blast intro: prefix_order.trans concat_prefix)

lemma partOf_next: "nextChunk whole ms cs bs \<Longrightarrow> partOf whole (cs @ [bs]) ms"
  by (simp add: partOf_def nextChunk_def)

lemma inStep_partOf: "inStep whole w \<longleftrightarrow>
    (\<forall>f. partOf whole (toClient w f) (serve (toServer w) f) \<and> partOf whole (toServer w f) (reply f (toClient w f)))"
  unfolding inStep_def partOf_def by blast

lemma inStep_step:
  assumes s: "flows whole serve reply w w'" and w: "inStep whole w"
  shows "inStep whole w'"
  unfolding inStep_partOf
proof (intro allI)
  fix g
  have old: "partOf whole (toClient w g) (serve (toServer w') g)" "partOf whole (toServer w g) (reply g (toClient w' g))"
    using w serve_grows [OF s, of g] partOf_grows unfolding inStep_partOf by blast+
  show "partOf whole (toClient w' g) (serve (toServer w') g) \<and> partOf whole (toServer w' g) (reply g (toClient w' g))"
    using s
  proof cases
    case (clientReads f bs)
    with old partOf_next [OF clientReads(2)] show ?thesis by (cases "g = f") auto
  next
    case (serverReads f bs)
    with old partOf_next [OF serverReads(2)] show ?thesis by (cases "g = f") auto
  qed
qed

lemma reachable_inStep:
  assumes "(flows whole serve reply)\<^sup>*\<^sup>* noTraffic w"
  shows "inStep whole w"
  using assms by (induction rule: rtranclp_induct) (simp add: inStep_def, rule inStep_step)

lemma read_is_sent:
  assumes "(flows True serve reply)\<^sup>*\<^sup>* noTraffic w"
  shows "prefix (toClient w f) (serve (toServer w) f)" "prefix (toServer w f) (reply f (toClient w f))"
  using reachable_inStep [OF assms] by (simp_all add: inStep_def)

lemma drained_eq:
  assumes "(flows True serve reply)\<^sup>*\<^sup>* noTraffic w" and "drained serve reply w f"
    and "\<forall>bs \<in> set (serve (toServer w) f). bs \<noteq> []" and "\<forall>bs \<in> set (reply f (toClient w f)). bs \<noteq> []"
  shows "toClient w f = serve (toServer w) f" "toServer w f = reply f (toClient w f)"
  using assms(2) concat_prefix_eq [OF read_is_sent(1) [OF assms(1)] _ assms(3)]
    concat_prefix_eq [OF read_is_sent(2) [OF assms(1)] _ assms(4)]
  by (simp_all add: drained_def)

text \<open>
  The processes are deterministic, and a process reads what it has been sent: a state in which all that
  was sent has been read is ahead of every other one, whatever the interleaving that led there.
\<close>

definition atRest :: "traffic \<Rightarrow> bool" where
  "atRest w \<longleftrightarrow> toClient w = serve (toServer w) \<and> (\<forall>f. toServer w f = reply f (toClient w f))"

lemma atRest_ahead:
  assumes "(flows True serve reply)\<^sup>*\<^sup>* noTraffic w" and e: "atRest e"
  shows "prefix (toClient w f) (toClient e f) \<and> prefix (toServer w f) (toServer e f)"
  using assms(1)
proof (induction arbitrary: f rule: rtranclp_induct)
  case (step w w')
  have sent: "prefix (serve (toServer w) f) (toClient e f)" "prefix (reply f (toClient w f)) (toServer e f)" for f
    using serve_mono [of "toServer w" "toServer e" f] reply_mono [of "toClient w f" "toClient e f" f] step.IH e
    by (simp_all add: atRest_def)
  from step.hyps(2) show ?case
  proof cases
    case (clientReads g bs)
    then have "prefix (toClient w g @ [bs]) (serve (toServer w) g)" by (simp add: nextChunk_def)
    with step.IH sent(1) clientReads(1) show ?thesis by (auto intro: prefix_order.trans)
  next
    case (serverReads g bs)
    then have "prefix (toServer w g @ [bs]) (reply g (toClient w g))" by (simp add: nextChunk_def)
    with step.IH sent(2) serverReads(1) show ?thesis by (auto intro: prefix_order.trans)
  qed
qed simp

lemma atRest_unique:
  assumes "(flows True serve reply)\<^sup>*\<^sup>* noTraffic w" "atRest w"
    and "(flows True serve reply)\<^sup>*\<^sup>* noTraffic e" "atRest e"
  shows "w = e"
proof -
  have "toClient w = toClient e" "toServer w = toServer e"
    using atRest_ahead [OF assms(1,4)] atRest_ahead [OF assms(3,2)] by (auto intro: prefix_order.antisym)
  then show ?thesis by (cases w; cases e) simp
qed

lemma drained_atRest:
  assumes "(flows True serve reply)\<^sup>*\<^sup>* noTraffic w" and "\<And>f. drained serve reply w f"
    and "\<And>f. \<forall>bs \<in> set (serve (toServer w) f). bs \<noteq> []" and "\<And>f. \<forall>bs \<in> set (reply f (toClient w f)). bs \<noteq> []"
  shows "atRest w"
  unfolding atRest_def using drained_eq [OF assms] by (intro conjI ext allI)

text \<open>As long as something is on its way there is a step.\<close>

lemma not_drained_step:
  assumes r: "(flows True serve reply)\<^sup>*\<^sup>* noTraffic w" and d: "\<not> drained serve reply w f"
    and "\<forall>bs \<in> set (serve (toServer w) f). bs \<noteq> [] \<and> length bs \<le> MAX_BUFFER_SIZE"
    and "\<forall>bs \<in> set (reply f (toClient w f)). bs \<noteq> [] \<and> length bs \<le> MAX_BUFFER_SIZE"
  shows "\<exists>w'. flows True serve reply w w'"
proof -
  have next_chunk: "\<exists>bs. nextChunk True msgs chunks bs"
    if "prefix chunks msgs" "concat chunks \<noteq> concat msgs" "\<forall>bs \<in> set msgs. bs \<noteq> [] \<and> length bs \<le> MAX_BUFFER_SIZE"
    for msgs chunks
  proof -
    obtain zs where zs: "msgs = chunks @ zs" using \<open>prefix chunks msgs\<close> by (auto simp: prefix_def)
    with \<open>concat chunks \<noteq> concat msgs\<close> obtain bs rest where "msgs = chunks @ bs # rest" by (cases zs) auto
    then show ?thesis using \<open>\<forall>bs \<in> set msgs. bs \<noteq> [] \<and> length bs \<le> MAX_BUFFER_SIZE\<close> by (intro exI [of _ bs]) (simp add: nextChunk_def)
  qed
  show ?thesis
  proof (cases "concat (toClient w f) = concat (serve (toServer w) f)")
    case True
    with d have "concat (toServer w f) \<noteq> concat (reply f (toClient w f))" by (simp add: drained_def)
    from next_chunk [OF read_is_sent(2) [OF r] this assms(4)] show ?thesis by (blast intro: serverReads)
  next
    case False
    from next_chunk [OF read_is_sent(1) [OF r] this assms(3)] show ?thesis by (blast intro: clientReads)
  qed
qed

text \<open>A run is as long as the messages are many.\<close>

lemma run_bounded:
  assumes r: "(flows True serve reply ^^ n) noTraffic w"
    and fin: "finite {f. serve (toServer w) f \<noteq> []}"
    and serves: "(\<Sum>f | serve (toServer w) f \<noteq> []. length (serve (toServer w) f)) \<le> N"
    and replies: "\<And>f. length (reply f (toClient w f)) \<le> length (toClient w f)"
  shows "n \<le> 2 * N"
proof -
  let ?F = "{f. serve (toServer w) f \<noteq> []}"
  have star: "(flows True serve reply)\<^sup>*\<^sup>* noTraffic w" using r by (rule relpowp_imp_rtranclp)
  have lc: "length (toClient w f) \<le> length (serve (toServer w) f)" for f
    by (rule prefix_length_le [OF read_is_sent(1) [OF star]])
  have ls: "length (toServer w f) \<le> length (toClient w f)" for f
    by (rule order.trans [OF prefix_length_le [OF read_is_sent(2) [OF star]] replies])
  have "toClient w f = [] \<and> toServer w f = []" if "f \<notin> ?F" for f
    using that lc [of f] ls [of f] by simp
  from chunksIn_steps [OF r fin this] have "n = chunksIn ?F w" by simp
  also have "\<dots> \<le> (\<Sum>f\<in>?F. 2 * length (serve (toServer w) f))"
    unfolding chunksIn_def
  proof (rule sum_mono)
    show "length (toClient w f) + length (toServer w f) \<le> 2 * length (serve (toServer w) f)" for f
      using lc [of f] ls [of f] by simp
  qed
  also have "\<dots> \<le> 2 * N" using serves by (simp flip: sum_distrib_left)
  finally show ?thesis .
qed

end

end
