(* ===== verification/Blocking.thy ===== *)
theory Blocking
  imports Membership "HOL-Library.Sublist"
begin

text \<open>
  What more input does to an operation of the membership service. If the operation has not waited for
  input that was missing, it does the same; if it has, it goes on from there, and what it had sent
  stays sent. This is proved from the operations of \<open>Net\<close> upwards, once for each of them.
\<close>

definition behind :: "MembershipService \<Rightarrow> MembershipService \<Rightarrow> bool" where
  "behind s s' \<longleftrightarrow> (\<exists>rv. s' = s\<lparr>recvs := rv\<rparr> \<and> (\<forall>f. prefix (recvs s f) (rv f)))"

lemma behindI: "s' = s\<lparr>recvs := recvs s'\<rparr> \<Longrightarrow> (\<And>f. prefix (recvs s f) (recvs s' f)) \<Longrightarrow> behind s s'"
  unfolding behind_def by blast

definition feeds :: "'a ms \<Rightarrow> bool" where
  "feeds m \<longleftrightarrow> (\<forall>s. prefix (sent s) (sent (snd (m s)))) \<and>
     (\<forall>s s'. behind s s' \<longrightarrow>
        fst (m s) = Inl Blocked \<and> prefix (sent (snd (m s))) (sent (snd (m s'))) \<or>
        fst (m s) = fst (m s') \<and> behind (snd (m s)) (snd (m s')))"

named_theorems feeds_intros "operations that only wait for input"

lemma feedsI:
  assumes "\<And>s. prefix (sent s) (sent (snd (m s)))"
    and "\<And>s rv. (\<And>f. prefix (recvs s f) (rv f)) \<Longrightarrow>
      fst (m s) = Inl Blocked \<and> prefix (sent (snd (m s))) (sent (snd (m (s\<lparr>recvs := rv\<rparr>)))) \<or>
      fst (m s) = fst (m (s\<lparr>recvs := rv\<rparr>)) \<and> behind (snd (m s)) (snd (m (s\<lparr>recvs := rv\<rparr>)))"
  shows "feeds m"
  using assms unfolding feeds_def behind_def by blast

lemma feeds_sent: "feeds m \<Longrightarrow> prefix (sent s) (sent (snd (m s)))"
  by (simp add: feeds_def)

lemma feeds_behind:
  "feeds m \<Longrightarrow> behind s s' \<Longrightarrow>
     fst (m s) = Inl Blocked \<and> prefix (sent (snd (m s))) (sent (snd (m s'))) \<or>
     fst (m s) = fst (m s') \<and> behind (snd (m s)) (snd (m s'))"
  by (simp add: feeds_def)

lemma behind_sent: "behind s s' \<Longrightarrow> sent s' = sent s"
  by (auto simp: behind_def)

lemma feeds_prefix: "feeds m \<Longrightarrow> behind s s' \<Longrightarrow> prefix (sent (snd (m s))) (sent (snd (m s')))"
  using feeds_behind behind_sent by fastforce

lemma andThen_fst_snd:
  "andThen m f s = (case fst (m s) of Inl e \<Rightarrow> (Inl e, snd (m s)) | Inr x \<Rightarrow> f x (snd (m s)))"
  by (cases "m s"; cases "fst (m s)") (simp_all add: andThen_def)

section \<open>The parts of an operation\<close>

lemma andThen_grows:
  assumes "\<And>x. feeds (f x)"
  shows "prefix (sent (snd (m s))) (sent (snd (andThen m f s)))"
  using feeds_sent [OF assms] by (simp add: andThen_fst_snd split: sum.splits)

lemma feeds_andThen [feeds_intros]:
  assumes m: "feeds m" and f: "\<And>x. feeds (f x)"
  shows "feeds (andThen m f)"
  unfolding feeds_def
proof (intro conjI allI impI)
  note grows = andThen_grows [of f m, OF f]
  show "prefix (sent s) (sent (snd (andThen m f s)))" for s
    using feeds_sent [OF m] grows by (rule prefix_order.trans)
  fix s s'
  assume "behind s s'"
  from feeds_behind [OF m this]
  show "fst (andThen m f s) = Inl Blocked \<and> prefix (sent (snd (andThen m f s))) (sent (snd (andThen m f s'))) \<or>
      fst (andThen m f s) = fst (andThen m f s') \<and> behind (snd (andThen m f s)) (snd (andThen m f s'))"
  proof (elim disjE conjE)
    assume "fst (m s) = Inl Blocked" "prefix (sent (snd (m s))) (sent (snd (m s')))"
    with grows [of s'] show ?thesis
      by (auto simp: andThen_fst_snd [of m f s] intro: prefix_order.trans)
  next
    assume same: "fst (m s) = fst (m s')" and ahead: "behind (snd (m s)) (snd (m s'))"
    show ?thesis
    proof (cases "fst (m s)")
      case (Inl e)
      moreover from this same have "fst (m s') = Inl e" by simp
      ultimately show ?thesis using ahead by (simp add: andThen_fst_snd)
    next
      case (Inr x)
      moreover from this same have "fst (m s') = Inr x" by simp
      ultimately show ?thesis using feeds_behind [OF f ahead, of x] by (simp add: andThen_fst_snd)
    qed
  qed
qed

lemma feeds_ret [feeds_intros]: "feeds (ret x)"
  by (auto simp: feeds_def act_basic)

lemma feeds_lift [feeds_intros]: "feeds (lift r)"
  by (auto simp: feeds_def act_basic)

lemma feeds_get [feeds_intros]:
  assumes "\<And>s rv. f (s\<lparr>recvs := rv\<rparr>) = f s"
  shows "feeds (get f)"
  using assms by (auto simp: feeds_def act_basic behind_def)

lemma feeds_modify [feeds_intros]:
  assumes "\<And>s rv. g (s\<lparr>recvs := rv\<rparr>) = (g s)\<lparr>recvs := rv\<rparr>"
    and "\<And>s. sent (g s) = sent s" and "\<And>s. recvs (g s) = recvs s"
  shows "feeds (modify g)"
  using assms by (auto simp: feeds_def act_basic behind_def)

lemma feeds_if [feeds_intros]: "feeds m \<Longrightarrow> feeds n \<Longrightarrow> feeds (if b then m else n)"
  by simp

lemma feeds_forEach [feeds_intros]:
  assumes "\<And>x. feeds (body x)"
  shows "feeds (forEach xs body)"
  using assms by (induction xs) (auto intro: feeds_intros)

section \<open>Sockets\<close>

lemma feeds_clientAt [feeds_intros]: "feeds (clientAt p)"
  by (rule feedsI) (auto simp: clientAt_def behind_def)

lemma feeds_insertClient [feeds_intros]: "feeds (insertClient p c)"
  unfolding insertClient_def by (rule feeds_modify) (simp_all split: option.splits)

lemma feeds_tcpSend [feeds_intros]: "feeds (tcpSend c bs)"
  by (rule feedsI) (auto simp: tcpSend_def intro!: behindI)

lemma feeds_tcpAccept [feeds_intros]: "feeds tcpAccept"
  by (rule feedsI) (auto simp: tcpAccept_def split: list.splits intro!: behindI)

text \<open>The only operation that takes input: it waits, or takes the same chunk.\<close>

lemma feeds_tcpReceive [feeds_intros]: "feeds (tcpReceive c)"
proof (rule feedsI)
  show "prefix (sent s) (sent (snd (tcpReceive c s)))" for s :: MembershipService
    by (auto simp: tcpReceive_def Let_def split: list.splits option.splits)
  fix s :: MembershipService and rv
  assume rv: "\<And>f. prefix (recvs s f) (rv f)"
  let ?f = "tc_sockFd c"
  show "fst (tcpReceive c s) = Inl Blocked \<and>
      prefix (sent (snd (tcpReceive c s))) (sent (snd (tcpReceive c (s\<lparr>recvs := rv\<rparr>)))) \<or>
    fst (tcpReceive c s) = fst (tcpReceive c (s\<lparr>recvs := rv\<rparr>)) \<and>
      behind (snd (tcpReceive c s)) (snd (tcpReceive c (s\<lparr>recvs := rv\<rparr>)))"
  proof (cases "recvs s ?f")
    case Nil
    then show ?thesis
      by (auto simp: tcpReceive_def Let_def split: list.splits option.splits)
  next
    case (Cons r rs)
    then obtain rs' where rs': "rv ?f = r # rs'" "prefix rs rs'"
      using rv [of ?f] by (cases "rv ?f") auto
    have "behind (s\<lparr>recvs := (recvs s)(?f := rs)\<rparr>) (s\<lparr>recvs := rv(?f := rs')\<rparr>)"
      unfolding behind_def using rv rs'(2) by (intro exI [of _ "rv(?f := rs')"]) simp
    then show ?thesis using Cons rs'(1) by (auto simp: tcpReceive_def Let_def split: option.splits)
  qed
qed

section \<open>The operations of the leader and of the followers\<close>

lemma feeds_sendTo [feeds_intros]: "feeds (sendTo p bs)"
  unfolding sendTo_def by (intro feeds_intros)

lemma feeds_createRequestMsg [feeds_intros]: "feeds (createRequestMsg p op)"
  unfolding createRequestMsg_def by (intro feeds_intros) simp_all

lemma stackBuffer_recvs [simp]: "stackBuffer n (s\<lparr>recvs := rv\<rparr>) = stackBuffer n s"
  by (simp add: stackBuffer_def)

lemma feeds_sendRequestMsg [feeds_intros]: "feeds (sendRequestMsg cfg m)"
  unfolding sendRequestMsg_def Let_def by (intro feeds_intros) simp_all

lemma feeds_sendOkMsg [feeds_intros]: "feeds (sendOkMsg cfg m)"
  unfolding sendOkMsg_def by (intro feeds_intros) simp_all

lemma feeds_sendViewAs [feeds_intros]: "feeds (sendViewAs cfg v)"
  unfolding sendViewAs_def Let_def split_beta
  by (intro feeds_intros) (simp_all add: getGroupMembers_def)

lemma feeds_sendNewViewMsg [feeds_intros]: "feeds (sendNewViewMsg cfg)"
  unfolding sendNewViewMsg_def by (intro feeds_intros) simp

lemma feeds_okFrom [feeds_intros]: "feeds (okFrom cfg r p)"
  unfolding okFrom_def by (intro feeds_intros)

lemma feeds_waitForOkMsg [feeds_intros]: "feeds (waitForOkMsg cfg r)"
  unfolding waitForOkMsg_def by (intro feeds_intros) simp

lemma feeds_modifyGroupMembership [feeds_intros]: "feeds (modifyGroupMembership cfg p op)"
  unfolding modifyGroupMembership_def by (intro feeds_intros) simp_all

lemma feeds_leaderStep [feeds_intros]: "feeds (leaderStep cfg)"
  unfolding leaderStep_def by (intro feeds_intros)

lemma feeds_handlePeerFailure [feeds_intros]: "feeds (handlePeerFailure cfg p)"
  unfolding handlePeerFailure_def by (intro feeds_intros) simp_all

lemma feeds_processMessages [feeds_intros]: "feeds (processRequestMsg cfg m)" "feeds (processNewViewMsg cfg m)"
  unfolding processRequestMsg_def processNewViewMsg_def by (intro feeds_intros; simp)+

lemma feeds_followerStep [feeds_intros]: "feeds (followerStep cfg)"
proof -
  have "feeds (case t of REQUEST \<Rightarrow> andThen (processRequestMsg cfg m) (\<lambda>_. andThen (get createOkMsg) (sendOkMsg cfg))
      | NEW_VIEW \<Rightarrow> processNewViewMsg cfg m | _ \<Rightarrow> lift (Inl FatalLog))" for t m
    by (cases t) (auto simp: createOkMsg_def intro!: feeds_intros)
  then show ?thesis unfolding followerStep_def by (intro feeds_intros) simp_all
qed

lemma feeds_startAsFollower [feeds_intros]: "feeds (startAsFollower cfg n)"
  by (induction n) (auto intro: feeds_intros)

text \<open>More iterations of an endless loop go on where the others have stopped.\<close>

lemma startAsFollower_add:
  "startAsFollower cfg (m + n) = andThen (startAsFollower cfg m) (\<lambda>_. startAsFollower cfg n)"
proof (induction m)
  case 0
  show ?case by (simp add: fun_eq_iff andThen_simps)
next
  case (Suc m)
  then show ?case by (simp add: andThen_assoc)
qed

lemma startAsFollower_prefix:
  assumes "behind s s'" and "m \<le> n"
  shows "prefix (sent (snd (startAsFollower cfg m s))) (sent (snd (startAsFollower cfg n s')))"
proof -
  obtain k where n: "n = m + k" using assms(2) le_Suc_ex by blast
  have "prefix (sent (snd (startAsFollower cfg m s'))) (sent (snd (startAsFollower cfg n s')))"
    unfolding n startAsFollower_add using feeds_sent [OF feeds_startAsFollower]
    by (simp add: andThen_fst_snd split: sum.splits)
  with feeds_prefix [OF feeds_startAsFollower assms(1)] show ?thesis by (rule prefix_order.trans)
qed

end
