(* ===== verification/GroupSystem.thy ===== *)
theory GroupSystem
  imports Streams Blocking ViewAgreement
begin

text \<open>
  The leader of a group and its members as processes that run side by side: the leader goes through
  joins and failures, the processes at the other ends of its connections follow it, and everything
  they read has been sent by the other side. Each process is the function of \<open>membership.cpp\<close> that it
  runs, applied to the chunks that it has read; the steps are those of \<open>Streams\<close>.
\<close>

section \<open>The processes\<close>

record Lab2Group =
  grp_config :: Config
  grp_leader :: MembershipService
  grp_events :: "leaderEvent list"
  grp_memberConfig :: "fd \<Rightarrow> Config"
  grp_member :: "fd \<Rightarrow> MembershipService"

text \<open>The leader after it has read the chunks \<open>ins\<close>, or while it waits for another one.\<close>

definition leaderRun :: "Lab2Group \<Rightarrow> (fd \<Rightarrow> byte list list) \<Rightarrow> unit res \<times> MembershipService" where
  "leaderRun G ins =
     forEach (grp_events G) (runEvent (grp_config G)) ((grp_leader G)\<lparr>recvs := (\<lambda>f. map Some (ins f))\<rparr>)"

text \<open>The member at the other end of the leader's connection \<open>f\<close>, and its own descriptor.\<close>

definition memberFd :: "Lab2Group \<Rightarrow> fd \<Rightarrow> fd" where
  "memberFd G f = fdOf (grp_member G f) (leaderPeerId (grp_member G f))"

definition memberIn :: "Lab2Group \<Rightarrow> fd \<Rightarrow> byte list list \<Rightarrow> MembershipService" where
  "memberIn G f cs = (grp_member G f)\<lparr>recvs := (\<lambda>g. if g = memberFd G f then map Some cs else [])\<rparr>"

definition memberRun :: "Lab2Group \<Rightarrow> fd \<Rightarrow> byte list list \<Rightarrow> unit res \<times> MembershipService" where
  "memberRun G f cs = startAsFollower (grp_memberConfig G f) (Suc (length cs)) (memberIn G f cs)"

definition sentOn :: "fd \<Rightarrow> MembershipService \<Rightarrow> byte list list" where
  "sentOn f s = map snd (filter (\<lambda>e. fst e = f) (sent s))"

definition leaderSends :: "Lab2Group \<Rightarrow> (fd \<Rightarrow> byte list list) \<Rightarrow> fd \<Rightarrow> byte list list" where
  "leaderSends G ins f = sentOn f (snd (leaderRun G ins))"

definition memberSends :: "Lab2Group \<Rightarrow> fd \<Rightarrow> byte list list \<Rightarrow> byte list list" where
  "memberSends G f cs = sentOn (memberFd G f) (snd (memberRun G f cs))"

text \<open>
  A process that throws or aborts ends, and the system closes its connections. Only a member survives a
  \<open>TransportException\<close>: \<open>start\<close> catches it there, and waits for the failure of the leader.
\<close>

definition leaderEnds :: "Lab2Group \<Rightarrow> (fd \<Rightarrow> byte list list) \<Rightarrow> bool" where
  "leaderEnds G ins = (case fst (leaderRun G ins) of Inl e \<Rightarrow> e \<noteq> Blocked | Inr _ \<Rightarrow> False)"

definition memberEnds :: "Lab2Group \<Rightarrow> fd \<Rightarrow> byte list list \<Rightarrow> bool" where
  "memberEnds G f cs =
     (case fst (memberRun G f cs) of Inl e \<Rightarrow> e \<noteq> Blocked \<and> e \<noteq> TransportException | Inr _ \<Rightarrow> False)"

text \<open>A step of the group: somebody reads what was sent, or the end of a connection.\<close>

definition groupStep :: "bool \<Rightarrow> Lab2Group \<Rightarrow> traffic \<Rightarrow> traffic \<Rightarrow> bool" where
  "groupStep whole G = connStep whole (leaderSends G) (memberSends G) (leaderEnds G) (memberEnds G)"

lemma sentOn_prefix: "prefix (sent s) (sent t) \<Longrightarrow> prefix (sentOn f s) (sentOn f t)"
  by (auto simp: sentOn_def prefix_def)

lemma feeds_runEvent [feeds_intros]: "feeds (runEvent cfg ev)"
  by (cases ev) (auto intro: feeds_intros)

lemma feeds_run: "feeds (forEach evs (runEvent cfg))"
  by (intro feeds_intros)

interpretation group: stream_network "leaderSends G" "memberSends G" for G
proof
  fix ins ins' :: "fd \<Rightarrow> byte list list" and f
  assume ins: "\<And>f. prefix (ins f) (ins' f)"
  have "behind ((grp_leader G)\<lparr>recvs := (\<lambda>f. map Some (ins f))\<rparr>) ((grp_leader G)\<lparr>recvs := (\<lambda>f. map Some (ins' f))\<rparr>)"
    by (rule behindI) (use ins in \<open>auto intro: map_mono_prefix\<close>)
  from feeds_prefix [OF feeds_run this]
  show "prefix (leaderSends G ins f) (leaderSends G ins' f)"
    unfolding leaderSends_def leaderRun_def by (rule sentOn_prefix)
next
  fix cs cs' :: "byte list list" and f
  assume cs: "prefix cs cs'"
  have "behind (memberIn G f cs) (memberIn G f cs')"
    by (rule behindI) (use cs in \<open>auto simp: memberIn_def intro: map_mono_prefix\<close>)
  moreover have "Suc (length cs) \<le> Suc (length cs')" using prefix_length_le [OF cs] by simp
  ultimately show "prefix (memberSends G f cs) (memberSends G f cs')"
    unfolding memberSends_def memberRun_def by (intro sentOn_prefix startAsFollower_prefix)
qed

section \<open>The state of the leader\<close>

text \<open>Every peer has a connection of its own, also those that are waiting to be accepted.\<close>

definition groupOk :: "Config \<Rightarrow> MembershipService \<Rightarrow> bool" where
  "groupOk cfg s \<longleftrightarrow> leaderPeerId s = me cfg \<and> finite (alivePeers s) \<and> alivePeers s \<subseteq> dom (tcpClientMap s) \<and>
     (\<forall>q r c d. tcpClientMap s q = Some c \<and> tcpClientMap s r = Some d \<and> tc_sockFd c = tc_sockFd d \<longrightarrow> q = r) \<and>
     distinct (map fst (accepts s)) \<and>
     (\<forall>q c. tcpClientMap s q = Some c \<longrightarrow> tc_sockFd c \<notin> fst ` set (accepts s))"

lemma groupOkD:
  assumes "groupOk cfg s"
  shows "leaderPeerId s = me cfg" "finite (alivePeers s)" "alivePeers s \<subseteq> dom (tcpClientMap s)"
    "tcpClientMap s q = Some c \<Longrightarrow> tcpClientMap s r = Some d \<Longrightarrow> tc_sockFd c = tc_sockFd d \<Longrightarrow> q = r"
    "distinct (map fst (accepts s))" "tcpClientMap s q = Some c \<Longrightarrow> tc_sockFd c \<notin> fst ` set (accepts s)"
  using assms unfolding groupOk_def by blast+

lemma groupOkI:
  assumes "leaderPeerId s = me cfg" and "finite (alivePeers s)" and "alivePeers s \<subseteq> dom (tcpClientMap s)"
    and "\<And>q r c d. tcpClientMap s q = Some c \<Longrightarrow> tcpClientMap s r = Some d \<Longrightarrow> tc_sockFd c = tc_sockFd d \<Longrightarrow> q = r"
    and "distinct (map fst (accepts s))"
    and "\<And>q c. tcpClientMap s q = Some c \<Longrightarrow> tc_sockFd c \<notin> fst ` set (accepts s)"
  shows "groupOk cfg s"
  using assms unfolding groupOk_def by blast

lemma groupOk_inj: "groupOk cfg s \<Longrightarrow> inj_on (fdOf s) (dom (tcpClientMap s))"
  by (rule inj_onI) (auto simp: fdOf_def dest: groupOkD(4))

text \<open>Fewer connections, and other peers among those that are connected.\<close>

lemma groupOk_shrink:
  assumes g: "groupOk cfg s" and "leaderPeerId t = leaderPeerId s" and "accepts t = accepts s"
    and "\<And>q c. tcpClientMap t q = Some c \<Longrightarrow> tcpClientMap s q = Some c"
    and "finite (alivePeers t)" and "\<And>q. q \<in> alivePeers t \<Longrightarrow> tcpClientMap t q \<noteq> None"
  shows "groupOk cfg t"
proof (rule groupOkI)
  show "leaderPeerId t = me cfg" "distinct (map fst (accepts t))"
    using assms(2,3) groupOkD(1,5) [OF g] by simp_all
  show "q = r" if "tcpClientMap t q = Some c" "tcpClientMap t r = Some d" "tc_sockFd c = tc_sockFd d" for q r c d
    using groupOkD(4) [OF g assms(4) [OF that(1)] assms(4) [OF that(2)] that(3)] .
  show "tc_sockFd c \<notin> fst ` set (accepts t)" if "tcpClientMap t q = Some c" for q c
    using groupOkD(6) [OF g assms(4) [OF that]] by (simp add: assms(3))
  show "alivePeers t \<subseteq> dom (tcpClientMap t)"
    using assms(6) by auto
qed (rule assms(5))

lemma accept_groupOk:
  assumes g: "groupOk cfg s" and a: "tcpAccept s = (Inr c, s1)" and ins: "insertClient p c s1 = (Inr u, s2)"
  shows "groupOk cfg s2"
proof -
  obtain f h port as where acc: "accepts s = (f, h, port) # as" and s1: "s1 = s\<lparr>accepts := as\<rparr>"
    and c: "c = \<lparr>tc_hostname = h, tc_port = port, tc_sockFd = f\<rparr>"
    using a by (auto simp: tcpAccept_def acceptedClient_def split: list.splits if_splits)
  have new: "tc_sockFd d \<noteq> f" if "tcpClientMap s q = Some d" for q d
    using groupOkD(6) [OF g that] by (simp add: acc)
  have s2: "s2 = s1 \<or> tcpClientMap s p = None \<and> s2 = s1\<lparr>tcpClientMap := (tcpClientMap s1)(p \<mapsto> c)\<rparr>"
    using ins by (auto simp: s1 insertClient_def act_basic split: option.splits)
  have as: "distinct (map fst as)" "f \<notin> fst ` set as"
    using groupOkD(5) [OF g] by (simp_all add: acc)
  have old: "tc_sockFd d \<notin> fst ` set as" if "tcpClientMap s q = Some d" for q d
    using groupOkD(6) [OF g that] by (simp add: acc)
  from s2 show ?thesis
  proof (elim disjE conjE)
    assume s2: "s2 = s1"
    show ?thesis
    proof (rule groupOkI)
      show "q = r" if "tcpClientMap s2 q = Some d" "tcpClientMap s2 r = Some e" "tc_sockFd d = tc_sockFd e" for q r d e
        using that groupOkD(4) [OF g, of q d r e] by (simp add: s2 s1)
      show "tc_sockFd d \<notin> fst ` set (accepts s2)" if "tcpClientMap s2 q = Some d" for q d
        using that old [of q d] by (simp add: s2 s1)
    qed (use groupOkD(1-3) [OF g] as(1) in \<open>simp_all add: s2 s1\<close>)
  next
    assume p: "tcpClientMap s p = None" and s2: "s2 = s1\<lparr>tcpClientMap := (tcpClientMap s1)(p \<mapsto> c)\<rparr>"
    have map: "tcpClientMap s2 = (tcpClientMap s)(p \<mapsto> c)" by (simp add: s2 s1)
    show ?thesis
    proof (rule groupOkI)
      show "q = r" if "tcpClientMap s2 q = Some d" "tcpClientMap s2 r = Some e" "tc_sockFd d = tc_sockFd e" for q r d e
        using that new [of q d] new [of r e] groupOkD(4) [OF g, of q d r e] unfolding map c
        by (auto split: if_splits)
      show "tc_sockFd d \<notin> fst ` set (accepts s2)" if "tcpClientMap s2 q = Some d" for q d
      proof (cases "q = p")
        case True
        then have "tc_sockFd d = f" using that unfolding map by (auto simp: c)
        then show ?thesis using as(2) by (simp add: s2 s1)
      next
        case False
        then have "tcpClientMap s q = Some d" using that unfolding map by simp
        from old [OF this] show ?thesis by (simp add: s2 s1)
      qed
      show "alivePeers s2 \<subseteq> dom (tcpClientMap s2)"
        unfolding map using groupOkD(3) [OF g] by (auto simp: s2 s1)
    qed (use groupOkD(1,2) [OF g] as(1) in \<open>simp_all add: s2 s1\<close>)
  qed
qed

section \<open>Every outcome keeps the state well-formed\<close>

text \<open>\<open>keeps P m\<close>: \<open>P\<close> is an invariant of \<open>m\<close>, also when \<open>m\<close> throws, aborts or waits.\<close>

definition keeps :: "(MembershipService \<Rightarrow> bool) \<Rightarrow> 'a ms \<Rightarrow> bool" where
  "keeps P m \<longleftrightarrow> (\<forall>s. P s \<longrightarrow> P (snd (m s)))"

text \<open>A property of the group and its connections alone.\<close>

definition aboutGroup :: "(MembershipService \<Rightarrow> bool) \<Rightarrow> bool" where
  "aboutGroup P \<longleftrightarrow> (\<forall>s t. leaderPeerId t = leaderPeerId s \<longrightarrow> alivePeers t = alivePeers s \<longrightarrow>
     tcpClientMap t = tcpClientMap s \<longrightarrow> accepts t = accepts s \<longrightarrow> P s \<longrightarrow> P t)"

named_theorems keeps_intros "operations that keep a property"

lemma keeps_andThen [keeps_intros]: "keeps P m \<Longrightarrow> (\<And>x. keeps P (f x)) \<Longrightarrow> keeps P (andThen m f)"
  by (simp add: keeps_def andThen_fst_snd split: sum.splits)

lemma keeps_basic [keeps_intros]: "keeps P (ret x)" "keeps P (lift r)" "keeps P (get g)"
  by (simp_all add: keeps_def act_basic)

lemma keeps_modify: "(\<And>s. P s \<Longrightarrow> P (g s)) \<Longrightarrow> keeps P (modify g)"
  by (simp add: keeps_def act_basic)

lemma keeps_if [keeps_intros]: "keeps P m \<Longrightarrow> keeps P n \<Longrightarrow> keeps P (if b then m else n)"
  by simp

lemma keeps_forEach [keeps_intros]: "(\<And>x. keeps P (body x)) \<Longrightarrow> keeps P (forEach xs body)"
  by (induction xs) (auto intro: keeps_intros)

lemma keeps_frame:
  "aboutGroup P \<Longrightarrow> (\<And>s. leaderPeerId (snd (m s)) = leaderPeerId s \<and> alivePeers (snd (m s)) = alivePeers s \<and>
     tcpClientMap (snd (m s)) = tcpClientMap s \<and> accepts (snd (m s)) = accepts s) \<Longrightarrow> keeps P m"
  unfolding keeps_def aboutGroup_def by blast

lemma keeps_sockets:
  assumes "aboutGroup P"
  shows "keeps P (clientAt q)" "keeps P (tcpSend c bs)" "keeps P (tcpReceive c)" "keeps P (createRequestMsg q op)"
  by (rule keeps_frame [OF assms];
      auto simp: clientAt_def tcpSend_def tcpReceive_def createRequestMsg_def andThen_def act_basic Let_def
        split: list.splits option.splits)+

lemma keeps_messages:
  assumes "aboutGroup P"
  shows "keeps P (sendRequestMsg cfg m)" "keeps P (waitForOkMsg cfg r)" "keeps P (sendNewViewMsg cfg)"
  unfolding sendRequestMsg_def waitForOkMsg_def okFrom_def sendNewViewMsg_def sendViewAs_def sendTo_def Let_def split_beta
  by (intro keeps_intros keeps_sockets [OF assms])+

lemma groupOk_about: "aboutGroup (\<lambda>s. groupOk cfg s \<and> (b \<longrightarrow> tcpClientMap s p \<noteq> None))"
  by (simp add: aboutGroup_def groupOk_def)

lemma modify_keeps:
  "keeps (\<lambda>s. groupOk cfg s \<and> (op = ADD \<longrightarrow> tcpClientMap s p \<noteq> None)) (modifyGroupMembership cfg p op)"
proof -
  let ?P = "\<lambda>s. groupOk cfg s \<and> (op = ADD \<longrightarrow> tcpClientMap s p \<noteq> None)"
  note about = groupOk_about [of cfg "op = ADD" p]
  have del: "?P (if op = DEL then s\<lparr>tcpClientMap := (tcpClientMap s)(p := None), alivePeers := alivePeers s - {p}\<rparr> else s)"
    if P: "?P s" for s
  proof (cases "op = DEL")
    case True
    have "groupOk cfg (s\<lparr>tcpClientMap := (tcpClientMap s)(p := None), alivePeers := alivePeers s - {p}\<rparr>)"
      by (rule groupOk_shrink [of cfg s]) (use P groupOkD(2,3) in \<open>auto split: if_splits\<close>)
    then show ?thesis using True by simp
  qed (use P in simp)
  have add: "?P (if op = ADD then s\<lparr>alivePeers := insert p (alivePeers s)\<rparr> else s)" if P: "?P s" for s
  proof (cases "op = ADD")
    case True
    have "groupOk cfg (s\<lparr>alivePeers := insert p (alivePeers s)\<rparr>)"
      by (rule groupOk_shrink [of cfg s]) (use P True groupOkD(2,3) in auto)
    then show ?thesis using P True by simp
  qed (use P in simp)
  show ?thesis
    unfolding modifyGroupMembership_def
    by (intro keeps_intros keeps_modify keeps_sockets [OF about] keeps_messages [OF about])
      (erule del add | simp add: groupOk_def)+
qed

lemma tcpAccept_groupOk:
  assumes g: "groupOk cfg s"
  shows "groupOk cfg (snd (tcpAccept s))"
proof (cases "accepts s")
  case Nil
  with g show ?thesis by (simp add: tcpAccept_def)
next
  case (Cons a as)
  have eq: "snd (tcpAccept s) = s\<lparr>accepts := as\<rparr>" by (cases a) (simp add: tcpAccept_def Cons)
  show ?thesis
    unfolding eq
  proof (rule groupOkI)
    show "q = r" if "tcpClientMap (s\<lparr>accepts := as\<rparr>) q = Some c" "tcpClientMap (s\<lparr>accepts := as\<rparr>) r = Some d"
      "tc_sockFd c = tc_sockFd d" for q r c d
      using that groupOkD(4) [OF g, of q c r d] by simp
    show "tc_sockFd c \<notin> fst ` set (accepts (s\<lparr>accepts := as\<rparr>))" if "tcpClientMap (s\<lparr>accepts := as\<rparr>) q = Some c" for q c
      using that groupOkD(6) [OF g, of q c] by (simp add: Cons)
  qed (use groupOkD(1-3,5) [OF g] in \<open>simp_all add: Cons\<close>)
qed

lemma event_groupOk:
  assumes g: "groupOk cfg s"
  shows "groupOk cfg (snd (runEvent cfg ev s))"
proof (cases ev)
  case (PeerFails p)
  with modify_keeps [of cfg DEL p] g groupOkD(1) [OF g] show ?thesis
    by (simp add: keeps_def handlePeerFailure_def act_simps me_def)
next
  case PeerJoins
  show ?thesis
  proof (cases "fst (tcpAccept s)")
    case (Inl e)
    with tcpAccept_groupOk [OF g] show ?thesis by (simp add: PeerJoins leaderStep_def andThen_fst_snd)
  next
    case (Inr c)
    define s1 where "s1 = snd (tcpAccept s)"
    have acc: "tcpAccept s = (Inr c, s1)" using Inr by (simp add: s1_def prod_eq_iff)
    have "groupOk cfg s1" using tcpAccept_groupOk [OF g] by (simp add: s1_def)
    show ?thesis
    proof (cases "getPeerId (cfg_info cfg) (clientHostname c)")
      case (Inl e)
      with \<open>groupOk cfg s1\<close> show ?thesis by (simp add: PeerJoins leaderStep_def andThen_def acc act_basic)
    next
      case (Inr p)
      define s2 where "s2 = snd (insertClient p c s1)"
      have ins: "insertClient p c s1 = (Inr (), s2)"
        by (simp add: s2_def insertClient_def act_basic)
      have "tcpClientMap s2 p \<noteq> None"
        by (auto simp: s2_def insertClient_def act_basic split: option.splits)
      with modify_keeps [of cfg ADD p] accept_groupOk [OF g acc ins] have "groupOk cfg (snd (modifyGroupMembership cfg p ADD s2))"
        by (simp add: keeps_def)
      then show ?thesis by (simp add: PeerJoins leaderStep_def andThen_def acc Inr ins act_basic)
    qed
  qed
qed

text \<open>
  C28: the state stays well-formed. Whatever joins and failures a leader goes through, and however they
  end (with an exception, an abort, or while it waits for an acknowledgement), it remains the leader,
  every member has a connection, no two peers share one, and no connection that is still to be accepted
  is in use.
\<close>

theorem group_state_wellformed:
  assumes "groupOk cfg s"
  shows "groupOk cfg (snd (forEach evs (runEvent cfg) s))"
proof -
  have "keeps (groupOk cfg) (forEach evs (runEvent cfg))"
    by (intro keeps_forEach) (simp add: keeps_def event_groupOk)
  with assms show ?thesis by (simp add: keeps_def)
qed

theorem group_state_wellformed_witness:
  "groupOk (exampleConfig 1) (snd (forEach [PeerJoins, PeerFails 3, PeerFails 4] (runEvent (exampleConfig 1)) exampleLeader))"
  by (rule group_state_wellformed, rule groupOkI) (auto simp: example_defs split: if_splits)

end
