(* ===== verification/GroupChange.thy ===== *)
theory GroupChange
  imports GroupSystem
begin

text \<open>
  What one event does to the leader when every acknowledgement that it has read is the right one: it
  waits for the first member that has not answered, or the change is complete.
\<close>

section \<open>Collecting acknowledgements that may be missing\<close>

definition answeredOrNot :: "RequestId \<Rightarrow> MembershipService \<Rightarrow> PeerId \<Rightarrow> bool" where
  "answeredOrNot r s q \<longleftrightarrow> (\<exists>c. tcpClientMap s q = Some c \<and>
     (recvs s (tc_sockFd c) = [] \<or> (\<exists>v rest. recvs s (tc_sockFd c) = Some (okBytes r v) # rest)))"

definition takeFrom :: "fd set \<Rightarrow> (fd \<Rightarrow> byte list option list) \<Rightarrow> fd \<Rightarrow> byte list option list" where
  "takeFrom F rv f = (if f \<in> F then tl (rv f) else rv f)"

lemma okFrom_waits:
  "tcpClientMap s p = Some c \<Longrightarrow> recvs s (tc_sockFd c) = [] \<Longrightarrow> okFrom cfg r p s = (Inl Blocked, s)"
  by (simp add: okFrom_def clientAt_def andThen_def tcpReceive_def)

lemma forEach_okFrom_outcome:
  assumes "distinct ps" and "inj_on (fdOf s) (set ps)" and "\<forall>q \<in> set ps. answeredOrNot r s q"
  shows "(\<exists>q \<in> set ps. recvs s (fdOf s q) = []) \<and> (\<exists>rv. forEach ps (okFrom cfg r) s = (Inl Blocked, s\<lparr>recvs := rv\<rparr>)) \<or>
    (\<forall>q \<in> set ps. recvs s (fdOf s q) \<noteq> []) \<and>
    forEach ps (okFrom cfg r) s = (Inr (), s\<lparr>recvs := takeFrom (fdOf s ` set ps) (recvs s)\<rparr>)"
  using assms
proof (induction ps arbitrary: s)
  case Nil
  have "takeFrom {} (recvs s) = recvs s" by (simp add: fun_eq_iff takeFrom_def)
  then show ?case by (simp add: act_basic)
next
  case (Cons p ps)
  obtain c where c: "tcpClientMap s p = Some c" and
    cs: "recvs s (tc_sockFd c) = [] \<or> (\<exists>v rest. recvs s (tc_sockFd c) = Some (okBytes r v) # rest)"
    using Cons.prems(3) by (auto simp: answeredOrNot_def)
  have fdp: "fdOf s p = tc_sockFd c" by (simp add: fdOf_def c)
  from cs show ?case
  proof (elim disjE exE)
    assume "recvs s (tc_sockFd c) = []"
    with okFrom_waits [OF c this, of cfg r] show ?thesis
      by (intro disjI1 conjI bexI [of _ p] exI [of _ "recvs s"]) (simp_all add: andThen_def fdp)
  next
    fix v rest
    assume reply: "recvs s (tc_sockFd c) = Some (okBytes r v) # rest"
    define s1 where "s1 = s\<lparr>recvs := (recvs s)(tc_sockFd c := rest)\<rparr>"
    have step: "okFrom cfg r p s = (Inr (), s1)" using okFrom_reply [OF c reply] by (simp add: s1_def)
    have fd1: "fdOf s1 = fdOf s" by (simp add: s1_def)
    have other: "fdOf s q \<noteq> tc_sockFd c" if "q \<in> set ps" for q
      using Cons.prems(1,2) that by (auto simp: inj_on_def simp flip: fdp)
    have same: "recvs s1 (fdOf s q) = recvs s (fdOf s q)" if "q \<in> set ps" for q
      using other [OF that] by (simp add: s1_def)
    have "answeredOrNot r s1 q" if q: "q \<in> set ps" for q
    proof -
      have "answeredOrNot r s q" using Cons.prems(3) q by simp
      then obtain d where d: "tcpClientMap s q = Some d"
        "recvs s (tc_sockFd d) = [] \<or> (\<exists>v rest. recvs s (tc_sockFd d) = Some (okBytes r v) # rest)"
        unfolding answeredOrNot_def by blast
      then have "fdOf s q = tc_sockFd d" by (simp add: fdOf_def)
      with d same [OF q] show ?thesis by (auto simp: answeredOrNot_def s1_def)
    qed
    then have "(\<exists>q \<in> set ps. recvs s1 (fdOf s1 q) = []) \<and>
        (\<exists>rv. forEach ps (okFrom cfg r) s1 = (Inl Blocked, s1\<lparr>recvs := rv\<rparr>)) \<or>
      (\<forall>q \<in> set ps. recvs s1 (fdOf s1 q) \<noteq> []) \<and>
        forEach ps (okFrom cfg r) s1 = (Inr (), s1\<lparr>recvs := takeFrom (fdOf s1 ` set ps) (recvs s1)\<rparr>)"
      using Cons.prems(1,2) by (intro Cons.IH) (simp_all add: fd1)
    moreover have "forEach (p # ps) (okFrom cfg r) s = forEach ps (okFrom cfg r) s1"
      by (simp add: andThen_def step)
    moreover have "takeFrom (fdOf s ` set ps) (recvs s1) = takeFrom (fdOf s ` set (p # ps)) (recvs s)"
    proof -
      have "tc_sockFd c \<notin> fdOf s ` set ps" using other by (metis imageE)
      then show ?thesis by (simp add: takeFrom_def s1_def fun_eq_iff reply fdp)
    qed
    ultimately show ?thesis using same by (auto simp: fd1 s1_def fdp reply)
  qed
qed

section \<open>One change\<close>

definition afterChange :: "OperationTypeEnum \<Rightarrow> PeerId \<Rightarrow> byte list \<Rightarrow> MembershipService \<Rightarrow> MembershipService" where
  "afterChange op p bs s = s\<lparr>requestCounter := requestCounter s + 1, tcpClientMap := newClients op p (tcpClientMap s),
     recvs := takeFrom (fdOf s ` askedPeers op p (alivePeers s)) (recvs s), viewId := viewId s + 1,
     alivePeers := newPeers op p (alivePeers s),
     sent := sent s @ requestsSent op p s @
       map (\<lambda>q. (fdOf s q, bs)) (sorted_list_of_set (newPeers op p (alivePeers s)))\<rparr>"

text \<open>The leader can make the change: the peers are connected and not too many.\<close>

definition canChange :: "Config \<Rightarrow> OperationTypeEnum \<Rightarrow> PeerId \<Rightarrow> MembershipService \<Rightarrow> bool" where
  "canChange cfg op p s \<longleftrightarrow> groupOk cfg s \<and> (op = ADD \<or> op = DEL) \<and> \<not> leaderFailureDemo cfg \<and>
     (\<forall>f. \<not> sendFails s f) \<and> newPeers op p (alivePeers s) \<subseteq> dom (tcpClientMap s) \<and>
     card (insert (me cfg) (newPeers op p (alivePeers s))) \<le> MAX_PEERS"

lemma canChange_asked:
  assumes "canChange cfg op p s"
  shows "op = ADD \<or> op = DEL" "\<not> leaderFailureDemo cfg" "finite (alivePeers s)"
    "\<forall>q \<in> askedPeers op p (alivePeers s). reachable s q"
proof -
  have g: "groupOk cfg s" using assms by (simp add: canChange_def)
  show "\<forall>q \<in> askedPeers op p (alivePeers s). reachable s q"
    using groupOkD(3) [OF g] assms by (auto simp: canChange_def reachable_def askedPeers_def split: if_splits)
qed (use assms groupOkD(2) in \<open>auto simp: canChange_def\<close>)

lemma modify_waits:
  assumes c: "canChange cfg op p s"
    and w: "forEach (sorted_list_of_set (askedPeers op p (alivePeers s))) (okFrom cfg (requestCounter s + 1))
        (askingState op p s\<lparr>sent := sent s @ requestsSent op p s\<rparr>) = (Inl e, s')"
  shows "modifyGroupMembership cfg p op s = (Inl e, s')"
  using canChange_asked [OF c] by (intro asking_ok [OF _ _ _ _ w]) simp_all

lemma asking_sends:
  assumes c: "canChange cfg op p s"
  shows "sendRequestMsg cfg \<lparr>rq_msgType = 1, rq_requestId = requestCounter s + 1, rq_currentViewId = viewId s,
        rq_operationType = operationCode op, rq_peerId = p\<rparr> (askingState op p s) =
      (Inr (), askingState op p s\<lparr>sent := sent s @ requestsSent op p s\<rparr>)"
  using canChange_asked [OF c]
  by (subst sendRequestMsg_iff) (auto simp: requestsSent_def asking_requests asking_fdOf)

text \<open>Whatever it reads, the leader first asks.\<close>

lemma modify_requests:
  assumes c: "canChange cfg op p s"
  shows "prefix (sent s @ requestsSent op p s) (sent (snd (modifyGroupMembership cfg p op s)))"
proof -
  have "feeds (andThen (waitForOkMsg cfg (requestCounter s + 1)) (\<lambda>_.
      andThen (modify (\<lambda>s. if op = ADD then s\<lparr>alivePeers := insert p (alivePeers s)\<rparr> else s)) (\<lambda>_.
      andThen (modify (\<lambda>s. s\<lparr>viewId := viewId s + 1\<rparr>)) (\<lambda>_. sendNewViewMsg cfg))))"
    by (intro feeds_intros) simp_all
  from feeds_sent [OF this, of "askingState op p s\<lparr>sent := sent s @ requestsSent op p s\<rparr>"] show ?thesis
    by (simp add: modify_unfold act_simps asking_sends [OF c] del: askingState_simps)
qed

lemma modify_completes:
  assumes c: "canChange cfg op p s"
    and w: "forEach (sorted_list_of_set (askedPeers op p (alivePeers s))) (okFrom cfg (requestCounter s + 1))
        (askingState op p s\<lparr>sent := sent s @ requestsSent op p s\<rparr>) =
      (Inr (), askingState op p s\<lparr>sent := sent s @ requestsSent op p s,
         recvs := takeFrom (fdOf s ` askedPeers op p (alivePeers s)) (recvs s)\<rparr>)"
  shows "\<exists>bs. modifyGroupMembership cfg p op s = (Inr (), afterChange op p bs s) \<and>
    isViewMsg bs (viewId s + 1) (insert (me cfg) (newPeers op p (alivePeers s)))"
proof -
  let ?A = "newPeers op p (alivePeers s)"
  let ?a = "askingState op p s\<lparr>sent := sent s @ requestsSent op p s\<rparr>"
  define t where "t = s\<lparr>requestCounter := requestCounter s + 1, tcpClientMap := newClients op p (tcpClientMap s),
       recvs := takeFrom (fdOf s ` askedPeers op p (alivePeers s)) (recvs s), viewId := viewId s + 1,
       alivePeers := ?A, sent := sent s @ requestsSent op p s\<rparr>"
  note asked = canChange_asked [OF c]
  have fins: "finite ?A" using asked(3) by simp
  note asking_sends [OF c]
  moreover define u where "u = ?a\<lparr>recvs := takeFrom (fdOf s ` askedPeers op p (alivePeers s)) (recvs s)\<rparr>"
  moreover have "waitForOkMsg cfg (requestCounter s + 1) ?a = (Inr (), u)"
    using w by (simp add: waitForOkMsg_def act_simps u_def)
  moreover have "(if op = ADD then u\<lparr>alivePeers := insert p (alivePeers u)\<rparr> else u)\<lparr>viewId := viewId u + 1\<rparr> = t"
    using asked(1) by (auto simp: u_def t_def askingState_def newPeers_def askedPeers_def)
  ultimately have m: "modifyGroupMembership cfg p op s = sendNewViewMsg cfg t"
    using asked(1) by (auto simp: modify_unfold act_simps simp del: askingState_simps)
  have members: "getGroupMembers cfg t = insert (me cfg) ?A" by (simp add: getGroupMembers_def t_def me_def)
  have "finite (alivePeers t)" "card (getGroupMembers cfg t) \<le> MAX_PEERS"
    using c fins unfolding members by (simp_all add: t_def canChange_def)
  from sendNewViewMsg_iff [OF this] obtain bs where
    bs: "isViewMsg bs (viewId t) (getGroupMembers cfg t)" and
    out: "sendNewViewMsg cfg t = (Inr u, s') \<longleftrightarrow> (\<forall>p \<in> alivePeers t. reachable t p) \<and>
      s' = t\<lparr>sent := sent t @ map (\<lambda>p. (fdOf t p, bs)) (sorted_list_of_set (alivePeers t))\<rparr>" for u s'
    by blast
  have reach: "reachable t q \<and> fdOf t q = fdOf s q" if "q \<in> ?A" for q
    using that c by (auto simp: t_def reachable_def fdOf_def canChange_def newClients_def newPeers_def)
  have "map (\<lambda>p. (fdOf t p, bs)) (sorted_list_of_set ?A) = map (\<lambda>q. (fdOf s q, bs)) (sorted_list_of_set ?A)"
    using reach fins by auto
  then have "sendNewViewMsg cfg t = (Inr (), afterChange op p bs s)"
    unfolding out using reach by (simp add: t_def afterChange_def)
  then show ?thesis using bs unfolding members m by (auto simp: t_def)
qed

lemma modify_outcome:
  assumes c: "canChange cfg op p s"
    and replies: "\<forall>q \<in> askedPeers op p (alivePeers s). answeredOrNot (requestCounter s + 1) s q"
  shows "(\<exists>q \<in> askedPeers op p (alivePeers s). recvs s (fdOf s q) = []) \<and>
      (\<exists>rv. modifyGroupMembership cfg p op s =
        (Inl Blocked, askingState op p s\<lparr>sent := sent s @ requestsSent op p s, recvs := rv\<rparr>)) \<or>
    (\<forall>q \<in> askedPeers op p (alivePeers s). recvs s (fdOf s q) \<noteq> []) \<and>
      (\<exists>bs. modifyGroupMembership cfg p op s = (Inr (), afterChange op p bs s) \<and>
        isViewMsg bs (viewId s + 1) (insert (me cfg) (newPeers op p (alivePeers s))))"
proof -
  let ?Q = "askedPeers op p (alivePeers s)"
  let ?a = "askingState op p s\<lparr>sent := sent s @ requestsSent op p s\<rparr>"
  have g: "groupOk cfg s" using c by (simp add: canChange_def)
  have fin: "finite ?Q" using groupOkD(2) [OF g] by simp
  have fd: "fdOf ?a q = fdOf s q" if "q \<in> ?Q" for q using asking_fdOf(1) [OF that] by simp
  have "?Q \<subseteq> dom (tcpClientMap s)" using groupOkD(3) [OF g] by (auto simp: askedPeers_def)
  from inj_on_subset [OF groupOk_inj [OF g] this] have "inj_on (fdOf ?a) ?Q"
    using fd by (simp add: inj_on_def)
  moreover have "answeredOrNot (requestCounter s + 1) ?a q" if "q \<in> ?Q" for q
  proof -
    have "tcpClientMap ?a q = tcpClientMap s q" using that by (auto simp: newClients_def askedPeers_def)
    with replies that show ?thesis by (simp add: answeredOrNot_def)
  qed
  ultimately have
    "(\<exists>q \<in> ?Q. recvs s (fdOf s q) = []) \<and>
        (\<exists>rv. forEach (sorted_list_of_set ?Q) (okFrom cfg (requestCounter s + 1)) ?a = (Inl Blocked, ?a\<lparr>recvs := rv\<rparr>)) \<or>
      (\<forall>q \<in> ?Q. recvs s (fdOf s q) \<noteq> []) \<and>
        forEach (sorted_list_of_set ?Q) (okFrom cfg (requestCounter s + 1)) ?a =
          (Inr (), ?a\<lparr>recvs := takeFrom (fdOf s ` ?Q) (recvs s)\<rparr>)"
    using forEach_okFrom_outcome [of "sorted_list_of_set ?Q" ?a "requestCounter s + 1" cfg] fin fd
    by (simp cong: image_cong)
  then show ?thesis
  proof (elim disjE conjE exE)
    fix rv
    assume "\<exists>q \<in> ?Q. recvs s (fdOf s q) = []"
      "forEach (sorted_list_of_set ?Q) (okFrom cfg (requestCounter s + 1)) ?a = (Inl Blocked, ?a\<lparr>recvs := rv\<rparr>)"
    with modify_waits [OF c this(2)] show ?thesis by blast
  next
    assume "\<forall>q \<in> ?Q. recvs s (fdOf s q) \<noteq> []"
      "forEach (sorted_list_of_set ?Q) (okFrom cfg (requestCounter s + 1)) ?a =
        (Inr (), ?a\<lparr>recvs := takeFrom (fdOf s ` ?Q) (recvs s)\<rparr>)"
    with modify_completes [OF c] show ?thesis by simp
  qed
qed

end
