(* ===== verification/GroupRuns.thy ===== *)
theory GroupRuns
  imports GroupChange
begin

text \<open>
  The runs of a leader through joins and failures when what it has read are the acknowledgements of the
  requests it has sent, and the runs of a member that has read whole messages of its leader.
\<close>

section \<open>Leaders that can go on\<close>

text \<open>The peers that are or can become members.\<close>

definition peersSeen :: "Config \<Rightarrow> MembershipService \<Rightarrow> PeerId set" where
  "peersSeen cfg s = insert (me cfg) (dom (tcpClientMap s) \<union>
     {i. \<exists>(f, h, port) \<in> set (accepts s). getPeerId (cfg_info cfg) (parseHostnameFromSender h) = Inr i})"

text \<open>For every join a known host that is not connected is waiting to be accepted.\<close>

fun joinsKnown :: "Config \<Rightarrow> leaderEvent list \<Rightarrow> (fd \<times> string \<times> nat) list \<Rightarrow> PeerId set \<Rightarrow> bool" where
  "joinsKnown cfg [] as C \<longleftrightarrow> True"
| "joinsKnown cfg (PeerFails p # evs) as C \<longleftrightarrow> joinsKnown cfg evs as (C - {p})"
| "joinsKnown cfg (PeerJoins # evs) [] C \<longleftrightarrow> False"
| "joinsKnown cfg (PeerJoins # evs) ((f, h, port) # as) C \<longleftrightarrow> h \<noteq> [] \<and>
     (case getPeerId (cfg_info cfg) (parseHostnameFromSender h) of
        Inl e \<Rightarrow> False | Inr p \<Rightarrow> p \<notin> C \<and> joinsKnown cfg evs as (insert p C))"

definition canGoOn :: "Config \<Rightarrow> leaderEvent list \<Rightarrow> MembershipService \<Rightarrow> bool" where
  "canGoOn cfg evs s \<longleftrightarrow> groupOk cfg s \<and> \<not> leaderFailureDemo cfg \<and> (\<forall>f. \<not> sendFails s f) \<and>
     finite (peersSeen cfg s) \<and> card (peersSeen cfg s) \<le> MAX_PEERS \<and>
     joinsKnown cfg evs (accepts s) (dom (tcpClientMap s))"

fun askedBy :: "leaderEvent \<Rightarrow> MembershipService \<Rightarrow> PeerId set" where
  "askedBy PeerJoins s = alivePeers s"
| "askedBy (PeerFails p) s = alivePeers s - {p}"

lemma joinState_groupOk:
  assumes g: "groupOk cfg s" and acc: "accepts s = (f, h, port) # as" and p: "tcpClientMap s p = None"
    and h: "h \<noteq> []" and c: "c = \<lparr>tc_hostname = h, tc_port = port, tc_sockFd = f\<rparr>"
  shows "groupOk cfg (joinState p c s)"
proof (rule accept_groupOk [OF g])
  show "tcpAccept s = (Inr c, s\<lparr>accepts := as\<rparr>)"
    by (simp add: tcpAccept_def acceptedClient_def acc h c)
  show "insertClient p c (s\<lparr>accepts := as\<rparr>) = (Inr (), joinState p c s)"
    by (simp add: insertClient_def act_basic p joinState_def acc)
qed

lemma afterChange_groupOk:
  assumes "canChange cfg op p s"
  shows "groupOk cfg (afterChange op p bs s)"
proof (rule groupOk_shrink)
  show g: "groupOk cfg s" using assms by (simp add: canChange_def)
  show "finite (alivePeers (afterChange op p bs s))"
    using groupOkD(2) [OF g] by (simp add: afterChange_def)
  show "tcpClientMap (afterChange op p bs s) q \<noteq> None" if "q \<in> alivePeers (afterChange op p bs s)" for q
    using that assms by (auto simp: afterChange_def canChange_def newClients_def newPeers_def)
qed (auto simp: afterChange_def dest: newClients_le)

lemma peersSeen_mono:
  assumes "dom (tcpClientMap t) \<subseteq> peersSeen cfg s" and "set (accepts t) \<subseteq> set (accepts s)"
  shows "peersSeen cfg t \<subseteq> peersSeen cfg s"
proof -
  have "me cfg \<in> peersSeen cfg s" by (simp add: peersSeen_def)
  moreover have "i \<in> peersSeen cfg s"
    if "e \<in> set (accepts t)" "case e of (f, h, port) \<Rightarrow> getPeerId (cfg_info cfg) (parseHostnameFromSender h) = Inr i" for e i
    using that assms(2) unfolding peersSeen_def by blast
  ultimately show ?thesis using assms(1) unfolding peersSeen_def [of cfg t] by blast
qed

lemma fewer_peers:
  assumes "peersSeen cfg t \<subseteq> peersSeen cfg s" and "finite (peersSeen cfg s)" and "card (peersSeen cfg s) \<le> MAX_PEERS"
  shows "finite (peersSeen cfg t)" "card (peersSeen cfg t) \<le> MAX_PEERS"
  using assms card_mono [OF assms(2,1)] finite_subset [OF assms(1,2)] by simp_all

text \<open>A state in which a change can be made, and the state after it.\<close>

lemma change_goes_on:
  assumes go: "canGoOn cfg evs' s" and "groupOk cfg s0" and sf: "sendFails s0 = sendFails s"
    and sub: "peersSeen cfg s0 \<subseteq> peersSeen cfg s" and new: "newPeers op p (alivePeers s0) \<subseteq> dom (tcpClientMap s0)"
    and op: "op = ADD \<or> op = DEL" and j: "joinsKnown cfg evs (accepts s0) (dom (newClients op p (tcpClientMap s0)))"
  shows "canChange cfg op p s0" "canGoOn cfg evs (afterChange op p bs s0)"
proof -
  have demo: "\<not> leaderFailureDemo cfg" "\<forall>f. \<not> sendFails s f" and
    few: "finite (peersSeen cfg s)" "card (peersSeen cfg s) \<le> MAX_PEERS"
    using go by (simp_all add: canGoOn_def)
  note few0 = fewer_peers [OF sub few]
  have "insert (me cfg) (newPeers op p (alivePeers s0)) \<subseteq> peersSeen cfg s0"
    using new by (auto simp: peersSeen_def)
  from card_mono [OF few0(1) this] few0(2) show c: "canChange cfg op p s0"
    using assms(2) op new demo by (simp add: canChange_def sf)
  have "peersSeen cfg (afterChange op p bs s0) \<subseteq> peersSeen cfg s0"
    by (rule peersSeen_mono) (auto simp: afterChange_def peersSeen_def newClients_def split: if_splits)
  from fewer_peers [OF this few0] show "canGoOn cfg evs (afterChange op p bs s0)"
    using demo j afterChange_groupOk [OF c] by (simp add: canGoOn_def afterChange_def sf)
qed

lemma join_change:
  assumes go: "canGoOn cfg (PeerJoins # evs) s"
  shows "\<exists>p c f h port as. accepts s = (f, h, port) # as \<and> tc_sockFd c = f \<and> tcpClientMap s p = None \<and>
    runEvent cfg PeerJoins s = modifyGroupMembership cfg p ADD (joinState p c s) \<and>
    canChange cfg ADD p (joinState p c s) \<and> (\<forall>bs. canGoOn cfg evs (afterChange ADD p bs (joinState p c s)))"
proof -
  have g: "groupOk cfg s" and j: "joinsKnown cfg (PeerJoins # evs) (accepts s) (dom (tcpClientMap s))"
    using go by (simp_all add: canGoOn_def)
  then obtain f h port as p where acc: "accepts s = (f, h, port) # as" and h: "h \<noteq> []" and
    p: "getPeerId (cfg_info cfg) (parseHostnameFromSender h) = Inr p" "p \<notin> dom (tcpClientMap s)" and
    rest: "joinsKnown cfg evs as (insert p (dom (tcpClientMap s)))"
    by (cases "accepts s") (auto split: sum.splits)
  define c where "c = \<lparr>tc_hostname = h, tc_port = port, tc_sockFd = f\<rparr>"
  have none: "tcpClientMap s p = None" using p(2) by auto
  have run: "runEvent cfg PeerJoins s = modifyGroupMembership cfg p ADD (joinState p c s)"
    using h p(1) none
    by (simp add: leaderStep_def andThen_def act_basic tcpAccept_def acceptedClient_def clientHostname_def
        insertClient_def joinState_def acc c_def)
  have seen: "peersSeen cfg (joinState p c s) \<subseteq> peersSeen cfg s"
    by (rule peersSeen_mono) (use p(1) in \<open>auto simp: joinState_def peersSeen_def acc\<close>)
  have "newPeers ADD p (alivePeers (joinState p c s)) \<subseteq> dom (tcpClientMap (joinState p c s))"
    using groupOkD(3) [OF g] by (auto simp: joinState_def newPeers_def)
  moreover have "joinsKnown cfg evs (accepts (joinState p c s)) (dom (newClients ADD p (tcpClientMap (joinState p c s))))"
    using rest by (simp add: joinState_def acc newClients_def)
  moreover have "sendFails (joinState p c s) = sendFails s" by (simp add: joinState_def)
  ultimately have "canChange cfg ADD p (joinState p c s) \<and> (\<forall>bs. canGoOn cfg evs (afterChange ADD p bs (joinState p c s)))"
    using change_goes_on [OF go joinState_groupOk [OF g acc none h c_def] _ seen, of ADD p evs] by simp
  then show ?thesis
    using run by (intro exI [of _ p] exI [of _ c] exI [of _ f] exI [of _ h] exI [of _ port] exI [of _ as])
      (simp add: acc none c_def)
qed

text \<open>The state in which an event starts its change of the group.\<close>

lemma event_change:
  assumes go: "canGoOn cfg (ev # evs) s"
  shows "\<exists>op p s0. runEvent cfg ev s = modifyGroupMembership cfg p op s0 \<and> canChange cfg op p s0 \<and>
    askedPeers op p (alivePeers s0) = askedBy ev s \<and>
    requestCounter s0 = requestCounter s \<and> sent s0 = sent s \<and> recvs s0 = recvs s \<and>
    (\<forall>q \<in> alivePeers s. tcpClientMap s0 q = tcpClientMap s q) \<and>
    (\<forall>bs. canGoOn cfg evs (afterChange op p bs s0))"
proof (cases ev)
  case (PeerFails p)
  have g: "groupOk cfg s" and j: "joinsKnown cfg (PeerFails p # evs) (accepts s) (dom (tcpClientMap s))"
    using go by (simp_all add: canGoOn_def PeerFails)
  have "runEvent cfg ev s = modifyGroupMembership cfg p DEL s"
    using groupOkD(1) [OF g] by (simp add: PeerFails handlePeerFailure_def act_simps me_def)
  moreover have "newPeers DEL p (alivePeers s) \<subseteq> dom (tcpClientMap s)"
    using groupOkD(3) [OF g] by (auto simp: newPeers_def)
  ultimately show ?thesis
    using change_goes_on [OF go g refl order.refl, of DEL p evs] j
    by (intro exI [of _ DEL] exI [of _ p] exI [of _ s]) (simp add: PeerFails askedPeers_def newClients_def)
next
  case PeerJoins
  obtain p c where c: "tcpClientMap s p = None"
    "runEvent cfg PeerJoins s = modifyGroupMembership cfg p ADD (joinState p c s)"
    "canChange cfg ADD p (joinState p c s)" "\<forall>bs. canGoOn cfg evs (afterChange ADD p bs (joinState p c s))"
    using join_change [OF go [unfolded PeerJoins]] by blast
  have "p \<notin> alivePeers s" using c(1) go groupOkD(3) [of cfg s] by (auto simp: canGoOn_def)
  with c show ?thesis
    by (intro exI [of _ ADD] exI [of _ p] exI [of _ "joinState p c s"])
      (auto simp: PeerJoins askedPeers_def joinState_def)
qed

section \<open>Requests and their acknowledgements\<close>

text \<open>The identifiers of the requests among messages, and the acknowledgements of the first of them.\<close>

fun requestIds :: "byte list list \<Rightarrow> RequestId list" where
  "requestIds [] = []"
| "requestIds (bs # ms) =
     (if getMsgType LittleEndian (received bs [] []) = Inr REQUEST
      then (case deserializeRequestMsg LittleEndian (received bs [] []) of
              Inl e \<Rightarrow> requestIds ms | Inr m \<Rightarrow> rq_requestId m # requestIds ms)
      else requestIds ms)"

fun acks :: "RequestId list \<Rightarrow> byte list list \<Rightarrow> bool" where
  "acks ids [] \<longleftrightarrow> True"
| "acks [] (ok # oks) \<longleftrightarrow> False"
| "acks (r # ids) (ok # oks) \<longleftrightarrow> (\<exists>v. ok = okBytes r v) \<and> acks ids oks"

lemma acks_length: "acks ids oks \<Longrightarrow> length oks \<le> length ids"
  by (induction ids oks rule: acks.induct) auto

lemma acks_prefix: "acks ids oks \<Longrightarrow> prefix ids ids' \<Longrightarrow> prefix oks' oks \<Longrightarrow> acks ids' oks'"
proof (induction ids oks arbitrary: ids' oks' rule: acks.induct)
  case (3 r ids ok oks)
  then show ?case by (cases ids'; cases oks') auto
qed auto

lemma requestIds_append: "requestIds (ms @ ns) = requestIds ms @ requestIds ns"
  by (induction ms) (auto split: sum.splits)

lemma requestIds_request [simp]: "requestIds (requestBytes r v op p # ms) = r # requestIds ms"
  by (simp add: getMsgType_request deserializeRequestMsg_received)

lemma requestIds_view: "isViewMsg bs v M \<Longrightarrow> requestIds (bs # ms) = requestIds ms"
  by (simp add: getMsgType_view)

declare requestIds.simps(2) [simp del]

definition idsOn :: "fd \<Rightarrow> (fd \<times> byte list) list \<Rightarrow> RequestId list" where
  "idsOn f log = requestIds (map snd (filter (\<lambda>e. fst e = f) log))"

lemma idsOn_append: "idsOn f (xs @ ys) = idsOn f xs @ idsOn f ys"
  by (simp add: idsOn_def requestIds_append)

lemma idsOn_requests:
  assumes "inj_on h (set ps)" and "distinct ps"
  shows "idsOn f (map (\<lambda>q. (h q, requestBytes r v op p)) ps) = (if f \<in> h ` set ps then [r] else [])"
  using assms by (induction ps) (auto simp: idsOn_def)

lemma idsOn_views:
  assumes "isViewMsg bs v M"
  shows "idsOn f (map (\<lambda>q. (h q, bs)) ps) = []"
  by (induction ps) (auto simp: idsOn_def requestIds_view [OF assms])

section \<open>The outcome of an event\<close>

definition goodMsg :: "byte list \<Rightarrow> bool" where
  "goodMsg bs \<longleftrightarrow> (\<exists>r v op p. knownOp (operationOf op) \<and> bs = requestBytes r v op p) \<or> (\<exists>v M. isViewMsg bs v M)"

lemma goodMsgI: "knownOp (operationOf op) \<Longrightarrow> goodMsg (requestBytes r v op p)" "isViewMsg bs w M \<Longrightarrow> goodMsg bs"
  unfolding goodMsg_def by blast+

definition requestsTo :: "(PeerId \<Rightarrow> fd) \<Rightarrow> PeerId set \<Rightarrow> RequestId \<Rightarrow> (fd \<times> byte list) list \<Rightarrow> bool" where
  "requestsTo h Q r log \<longleftrightarrow> (\<exists>v op p. knownOp (operationOf op) \<and>
     log = map (\<lambda>q. (h q, requestBytes r v op p)) (sorted_list_of_set Q))"

definition viewsTo :: "Config \<Rightarrow> MembershipService \<Rightarrow> (fd \<times> byte list) list \<Rightarrow> bool" where
  "viewsTo cfg s log \<longleftrightarrow> (\<exists>bs. isViewMsg bs (viewId s) (getGroupMembers cfg s) \<and>
     log = map (\<lambda>q. (fdOf s q, bs)) (sorted_list_of_set (alivePeers s)))"

lemma requestsTo_ids:
  assumes "requestsTo h Q r log" and "inj_on h Q" and "finite Q"
  shows "idsOn f log = (if f \<in> h ` Q then [r] else [])" "length log = card Q" "e \<in> set log \<Longrightarrow> goodMsg (snd e)"
proof -
  obtain v op p where v: "knownOp (operationOf op)"
    "log = map (\<lambda>q. (h q, requestBytes r v op p)) (sorted_list_of_set Q)"
    using assms(1) by (auto simp: requestsTo_def)
  then show "idsOn f log = (if f \<in> h ` Q then [r] else [])" "length log = card Q"
    using assms(2,3) by (simp_all add: idsOn_requests)
  show "goodMsg (snd e)" if "e \<in> set log"
    using that v assms(3) by (auto intro: goodMsgI)
qed

lemma viewsTo_ids:
  assumes "viewsTo cfg s log"
  shows "idsOn f log = []" "length log = card (alivePeers s)" "e \<in> set log \<Longrightarrow> goodMsg (snd e)"
proof -
  obtain bs where bs: "isViewMsg bs (viewId s) (getGroupMembers cfg s)"
    "log = map (\<lambda>q. (fdOf s q, bs)) (sorted_list_of_set (alivePeers s))"
    using assms by (auto simp: viewsTo_def)
  then show "idsOn f log = []" "length log = card (alivePeers s)" by (simp_all add: idsOn_views)
  show "goodMsg (snd e)" if "e \<in> set log"
    using that bs by (auto intro: goodMsgI)
qed

text \<open>The acknowledgements of the next request that have been read are right.\<close>

definition repliesRight :: "leaderEvent \<Rightarrow> MembershipService \<Rightarrow> bool" where
  "repliesRight ev s \<longleftrightarrow> (\<forall>q \<in> askedBy ev s. recvs s (fdOf s q) = [] \<or>
     (\<exists>v rest. recvs s (fdOf s q) = Some (okBytes (requestCounter s + 1) v) # rest))"

lemma event_requests:
  assumes r: "canGoOn cfg (ev # evs) s"
  shows "\<exists>reqs. requestsTo (fdOf s) (askedBy ev s) (requestCounter s + 1) reqs \<and>
    prefix (sent s @ reqs) (sent (snd (runEvent cfg ev s)))"
proof -
  obtain op p s0 where e: "runEvent cfg ev s = modifyGroupMembership cfg p op s0" "canChange cfg op p s0"
    "askedPeers op p (alivePeers s0) = askedBy ev s" "requestCounter s0 = requestCounter s" "sent s0 = sent s"
    "\<forall>q \<in> alivePeers s. tcpClientMap s0 q = tcpClientMap s q"
    using event_change [OF r] by blast
  have "finite (alivePeers s)" using r groupOkD(2) by (auto simp: canGoOn_def)
  then have "finite (askedBy ev s)" "askedBy ev s \<subseteq> alivePeers s" by (cases ev; auto)+
  moreover have "knownOp op" using e(2) by (auto simp: canChange_def)
  moreover have "operationOf (operationCode op) = op"
    using e(2) by (auto simp: canChange_def)
  ultimately have "requestsTo (fdOf s) (askedBy ev s) (requestCounter s + 1) (requestsSent op p s0)"
    unfolding requestsTo_def requestsSent_def e(3,4)
    by (intro exI [of _ "viewId s0"] exI [of _ "operationCode op"] exI [of _ p] conjI)
      (use e(6) in \<open>auto simp: fdOf_def\<close>)
  then show ?thesis using modify_requests [OF e(2)] e(1,5) by (intro exI [of _ "requestsSent op p s0"]) simp
qed

lemma event_outcome:
  assumes r: "canGoOn cfg (ev # evs) s" and right: "repliesRight ev s"
  shows "\<exists>reqs s'. requestsTo (fdOf s) (askedBy ev s) (requestCounter s + 1) reqs \<and>
    (runEvent cfg ev s = (Inl Blocked, s') \<and> sent s' = sent s @ reqs \<and> alivePeers s' = askedBy ev s \<and>
       (\<exists>q \<in> askedBy ev s. fdOf s' q = fdOf s q \<and> recvs s (fdOf s q) = []) \<or>
     runEvent cfg ev s = (Inr (), s') \<and> (\<forall>q \<in> askedBy ev s. recvs s (fdOf s q) \<noteq> []) \<and> canGoOn cfg evs s' \<and>
       (\<exists>views. viewsTo cfg s' views \<and> sent s' = sent s @ reqs @ views) \<and>
       recvs s' = takeFrom (fdOf s ` askedBy ev s) (recvs s))"
proof -
  obtain op p s0 where e: "runEvent cfg ev s = modifyGroupMembership cfg p op s0" "canChange cfg op p s0"
    "askedPeers op p (alivePeers s0) = askedBy ev s" "requestCounter s0 = requestCounter s" "sent s0 = sent s"
    "recvs s0 = recvs s" "\<forall>q \<in> alivePeers s. tcpClientMap s0 q = tcpClientMap s q"
    "\<forall>bs. canGoOn cfg evs (afterChange op p bs s0)"
    using event_change [OF r] by (elim exE conjE)
  have g: "groupOk cfg s" using r by (simp add: canGoOn_def)
  have sub: "askedBy ev s \<subseteq> alivePeers s" by (cases ev) auto
  have fin: "finite (askedBy ev s)" by (rule finite_subset [OF sub groupOkD(2) [OF g]])
  have fd: "fdOf s0 q = fdOf s q" if "q \<in> askedBy ev s" for q
    using e(7) sub that by (auto simp: fdOf_def)
  have known: "knownOp (operationOf (operationCode op))"
    using e(2) by (auto simp: canChange_def)
  have reqs: "requestsTo (fdOf s) (askedBy ev s) (requestCounter s + 1) (requestsSent op p s0)"
    unfolding requestsTo_def requestsSent_def e(3,4)
    by (intro exI [of _ "viewId s0"] exI [of _ "operationCode op"] exI [of _ p] conjI known)
      (use fin fd in auto)
  have "answeredOrNot (requestCounter s0 + 1) s0 q" if q: "q \<in> askedBy ev s" for q
  proof -
    obtain c where c: "tcpClientMap s q = Some c" using groupOkD(3) [OF g] sub q by blast
    then have "tcpClientMap s0 q = Some c" "fdOf s q = tc_sockFd c"
      using e(7) sub q by (auto simp: fdOf_def)
    with right q show ?thesis by (auto simp: answeredOrNot_def repliesRight_def e(4,6))
  qed
  then have "\<forall>q \<in> askedPeers op p (alivePeers s0). answeredOrNot (requestCounter s0 + 1) s0 q"
    by (simp add: e(3))
  from modify_outcome [OF e(2) this] show ?thesis
  proof (elim disjE conjE exE)
    fix rv
    assume q: "\<exists>q \<in> askedPeers op p (alivePeers s0). recvs s0 (fdOf s0 q) = []" and
      m: "modifyGroupMembership cfg p op s0 =
        (Inl Blocked, askingState op p s0\<lparr>sent := sent s0 @ requestsSent op p s0, recvs := rv\<rparr>)"
    obtain q where q: "q \<in> askedBy ev s" "recvs s (fdOf s q) = []" using q fd by (auto simp: e(3,6))
    have "fdOf (askingState op p s0\<lparr>sent := sent s0 @ requestsSent op p s0, recvs := rv\<rparr>) q = fdOf s q"
      using asking_fdOf(1) [of q op p "alivePeers s0" s0] fd q(1) by (simp add: e(3))
    with q show ?thesis
      by (intro exI [of _ "requestsSent op p s0"]
          exI [of _ "askingState op p s0\<lparr>sent := sent s0 @ requestsSent op p s0, recvs := rv\<rparr>"] conjI disjI1 reqs)
        (auto simp: e(1,3,5) m)
  next
    fix bs
    assume ans: "\<forall>q \<in> askedPeers op p (alivePeers s0). recvs s0 (fdOf s0 q) \<noteq> []" and
      m: "modifyGroupMembership cfg p op s0 = (Inr (), afterChange op p bs s0)" and
      bs: "isViewMsg bs (viewId s0 + 1) (insert (me cfg) (newPeers op p (alivePeers s0)))"
    let ?s' = "afterChange op p bs s0"
    have "fdOf ?s' q = fdOf s0 q" if "q \<in> newPeers op p (alivePeers s0)" for q
      using that by (auto simp: fdOf_def afterChange_def newClients_def newPeers_def)
    moreover have "finite (newPeers op p (alivePeers s0))"
      using canChange_asked(3) [OF e(2)] by simp
    ultimately have "viewsTo cfg ?s' (map (\<lambda>q. (fdOf s0 q, bs)) (sorted_list_of_set (newPeers op p (alivePeers s0))))"
      unfolding viewsTo_def using bs
      by (intro exI [of _ bs]) (auto simp: afterChange_def getGroupMembers_def me_def)
    then have "\<exists>views. viewsTo cfg ?s' views \<and> sent ?s' = sent s @ requestsSent op p s0 @ views"
      by (intro exI [of _ "map (\<lambda>q. (fdOf s0 q, bs)) (sorted_list_of_set (newPeers op p (alivePeers s0)))"] conjI)
        (simp_all add: afterChange_def e(5))
    moreover have "recvs ?s' = takeFrom (fdOf s ` askedBy ev s) (recvs s)"
      using fd by (simp add: afterChange_def e(3,6) cong: image_cong)
    moreover have "\<forall>q \<in> askedBy ev s. recvs s (fdOf s q) \<noteq> []" using ans fd by (simp add: e(3,6))
    ultimately show ?thesis
      using e(8) reqs m unfolding e(1) by blast
  qed
qed

section \<open>The outcome of a run\<close>

text \<open>
  \<open>oks f\<close> has been read from the connection \<open>f\<close>, \<open>log\<close> is sent in the whole run. The leader waits for
  an acknowledgement that it has not read, or has finished, and sent the last view to every member as
  its last message.
\<close>

definition waitsFor :: "(fd \<Rightarrow> byte list list) \<Rightarrow> (fd \<times> byte list) list \<Rightarrow> MembershipService \<Rightarrow> bool" where
  "waitsFor oks log t \<longleftrightarrow> (\<exists>q \<in> alivePeers t. length (oks (fdOf t q)) < length (idsOn (fdOf t q) log))"

definition endsWithViews :: "Config \<Rightarrow> (fd \<times> byte list) list \<Rightarrow> MembershipService \<Rightarrow> bool" where
  "endsWithViews cfg log t \<longleftrightarrow> (\<exists>pre views. viewsTo cfg t views \<and> log = pre @ views)"

lemma repliesRight_acks:
  assumes r: "canGoOn cfg (ev # evs) s" and l: "requestsTo (fdOf s) (askedBy ev s) (requestCounter s + 1) reqs"
    and oks: "\<And>f. recvs s f = map Some (oks f)" and a: "\<And>f. acks (idsOn f (reqs @ rest)) (oks f)"
    and inj: "inj_on (fdOf s) (askedBy ev s)" and fin: "finite (askedBy ev s)"
  shows "repliesRight ev s" "acks (idsOn f rest) (if f \<in> fdOf s ` askedBy ev s then tl (oks f) else oks f)"
proof -
  note ids = requestsTo_ids(1) [OF l inj fin]
  show "repliesRight ev s"
    unfolding repliesRight_def
  proof
    fix q
    assume "q \<in> askedBy ev s"
    with a [of "fdOf s q"] have "acks ((requestCounter s + 1) # idsOn (fdOf s q) rest) (oks (fdOf s q))"
      by (simp add: idsOn_append ids)
    then show "recvs s (fdOf s q) = [] \<or>
        (\<exists>v rest. recvs s (fdOf s q) = Some (okBytes (requestCounter s + 1) v) # rest)"
      by (cases "oks (fdOf s q)") (auto simp: oks)
  qed
  show "acks (idsOn f rest) (if f \<in> fdOf s ` askedBy ev s then tl (oks f) else oks f)"
    using a [of f] by (cases "oks f") (auto simp: idsOn_append ids)
qed

lemma canGoOn_peers:
  assumes go: "canGoOn cfg evs s" and A: "A \<subseteq> alivePeers s"
  shows "card A \<le> MAX_PEERS" "finite A" "inj_on (fdOf s) A"
proof -
  have g: "groupOk cfg s" and fin: "finite (peersSeen cfg s)" and card: "card (peersSeen cfg s) \<le> MAX_PEERS"
    using go by (simp_all add: canGoOn_def)
  have "A \<subseteq> peersSeen cfg s" using A groupOkD(3) [OF g] by (auto simp: peersSeen_def)
  from card_mono [OF fin this] card show "card A \<le> MAX_PEERS" by simp
  show "finite A" by (rule finite_subset [OF A groupOkD(2) [OF g]])
  show "inj_on (fdOf s) A"
    using A groupOkD(3) [OF g] by (intro inj_on_subset [OF groupOk_inj [OF g]]) blast
qed

lemma askedBy_subset: "askedBy ev s \<subseteq> alivePeers s"
  by (cases ev) auto

lemma run_starts:
  assumes go: "canGoOn cfg (ev # evs) s" and run: "forEach (ev # evs) (runEvent cfg) s = (r, t)"
    and log: "sent t = sent s @ log"
  shows "\<exists>reqs rest. requestsTo (fdOf s) (askedBy ev s) (requestCounter s + 1) reqs \<and> log = reqs @ rest"
proof -
  obtain reqs where reqs: "requestsTo (fdOf s) (askedBy ev s) (requestCounter s + 1) reqs"
    "prefix (sent s @ reqs) (sent (snd (runEvent cfg ev s)))" using event_requests [OF go] by blast
  have "prefix (sent (snd (runEvent cfg ev s))) (sent t)"
    using andThen_grows [where f = "\<lambda>_. forEach evs (runEvent cfg)", OF feeds_run, of "runEvent cfg ev" s] run by simp
  with reqs(2) have "prefix (sent s @ reqs) (sent t)" by (rule prefix_order.trans)
  with reqs(1) log show ?thesis by (auto simp: prefix_def)
qed

lemma waitsFor_earlier:
  assumes "waitsFor oks' log' t" and "\<And>f. idsOn f log = (if f \<in> F then [r] else []) @ idsOn f log'"
    and "\<And>f. oks' f = (if f \<in> F then tl (oks f) else oks f)"
  shows "waitsFor oks log t"
proof -
  from assms(1) obtain q where q: "q \<in> alivePeers t" "length (oks' (fdOf t q)) < length (idsOn (fdOf t q) log')"
    by (auto simp: waitsFor_def)
  have "length (oks (fdOf t q)) < length (idsOn (fdOf t q) log)"
    using q(2) by (auto simp: assms(2,3) split: if_splits)
  with q(1) show ?thesis by (auto simp: waitsFor_def)
qed

lemma endsWithViews_last: "viewsTo cfg t views \<Longrightarrow> endsWithViews cfg (reqs @ views) t"
  and endsWithViews_later: "endsWithViews cfg log' t \<Longrightarrow> endsWithViews cfg (log @ log') t"
  unfolding endsWithViews_def by (blast, metis append.assoc)

lemma run_outcome:
  assumes "canGoOn cfg evs s" and "forEach evs (runEvent cfg) s = (r, t)" and "sent t = sent s @ log"
    and "\<And>f. recvs s f = map Some (oks f)" and "\<And>f. acks (idsOn f log) (oks f)"
  shows "(\<forall>e \<in> set log. goodMsg (snd e)) \<and> length log \<le> 2 * MAX_PEERS * length evs \<and>
    (r = Inl Blocked \<and> waitsFor oks log t \<or>
     r = Inr () \<and> canGoOn cfg [] t \<and> (evs \<noteq> [] \<longrightarrow> endsWithViews cfg log t))"
  using assms
proof (induction evs arbitrary: s oks log)
  case Nil
  then show ?case by (simp add: act_basic)
next
  case (Cons ev evs)
  note go = Cons.prems(1) and asked = canGoOn_peers [OF Cons.prems(1) askedBy_subset]
  obtain reqs0 log0 where l0: "requestsTo (fdOf s) (askedBy ev s) (requestCounter s + 1) reqs0" "log = reqs0 @ log0"
    using run_starts [OF Cons.prems(1-3)] by blast
  have "\<And>f. acks (idsOn f (reqs0 @ log0)) (oks f)" using Cons.prems(5) by (simp flip: l0(2))
  from event_outcome [OF go repliesRight_acks(1) [OF go l0(1) Cons.prems(4) this asked(3,2)]] obtain reqs s' where
    reqs: "requestsTo (fdOf s) (askedBy ev s) (requestCounter s + 1) reqs" and
    s': "runEvent cfg ev s = (Inl Blocked, s') \<and> sent s' = sent s @ reqs \<and> alivePeers s' = askedBy ev s \<and>
       (\<exists>q \<in> askedBy ev s. fdOf s' q = fdOf s q \<and> recvs s (fdOf s q) = []) \<or>
     runEvent cfg ev s = (Inr (), s') \<and> (\<forall>q \<in> askedBy ev s. recvs s (fdOf s q) \<noteq> []) \<and> canGoOn cfg evs s' \<and>
       (\<exists>views. viewsTo cfg s' views \<and> sent s' = sent s @ reqs @ views) \<and>
       recvs s' = takeFrom (fdOf s ` askedBy ev s) (recvs s)" by (elim exE conjE)
  note ids = requestsTo_ids [OF reqs asked(3,2)]
  from s' show ?case
  proof (elim disjE conjE exE)
    assume b: "runEvent cfg ev s = (Inl Blocked, s')" "sent s' = sent s @ reqs" "alivePeers s' = askedBy ev s"
      and "\<exists>q \<in> askedBy ev s. fdOf s' q = fdOf s q \<and> recvs s (fdOf s q) = []"
    then obtain q where q: "q \<in> askedBy ev s" "fdOf s' q = fdOf s q" "recvs s (fdOf s q) = []" by blast
    have t: "r = Inl Blocked" "t = s'" "log = reqs" using Cons.prems(2,3) b(1,2) by (simp_all add: andThen_def)
    have "waitsFor oks log t"
      unfolding waitsFor_def using q Cons.prems(4) [of "fdOf s q"]
      by (intro bexI [of _ q]) (simp_all add: t b(3) ids(1))
    moreover have "length reqs \<le> 2 * MAX_PEERS * length (ev # evs)" using ids(2) asked(1) [of ev] by simp
    ultimately show ?thesis using t ids(3) by simp
  next
    fix views
    assume m: "runEvent cfg ev s = (Inr (), s')" and go': "canGoOn cfg evs s'" and v: "viewsTo cfg s' views"
      and sent': "sent s' = sent s @ reqs @ views"
      and recvs': "recvs s' = takeFrom (fdOf s ` askedBy ev s) (recvs s)"
    have run: "forEach evs (runEvent cfg) s' = (r, t)" using Cons.prems(2) by (simp add: andThen_def m)
    obtain log1 where log1: "sent t = sent s' @ log1"
      using feeds_sent [OF feeds_run, of s' evs cfg] run by (auto simp: prefix_def)
    have log: "log = reqs @ views @ log1" using Cons.prems(3) log1 sent' by simp
    define oks' where "oks' f = (if f \<in> fdOf s ` askedBy ev s then tl (oks f) else oks f)" for f
    have recvs'': "recvs s' f = map Some (oks' f)" for f
      by (simp add: recvs' takeFrom_def oks'_def Cons.prems(4) map_tl)
    have "acks (idsOn f (reqs @ views @ log1)) (oks f)" for f using Cons.prems(5) [of f] by (simp add: log)
    from repliesRight_acks(2) [OF go reqs Cons.prems(4) this asked(3,2)]
    have acks': "acks (idsOn f log1) (oks' f)" for f by (simp add: oks'_def idsOn_append viewsTo_ids(1) [OF v])
    note IH = Cons.IH [OF go' run log1 recvs'' acks']
    have "waitsFor oks' log1 t \<Longrightarrow> waitsFor oks log t"
      by (erule waitsFor_earlier) (simp_all add: log idsOn_append ids(1) viewsTo_ids(1) [OF v] oks'_def)
    moreover have "endsWithViews cfg log t" if "evs \<noteq> [] \<longrightarrow> endsWithViews cfg log1 t"
    proof (cases "evs = []")
      case True
      then show ?thesis using run log1 endsWithViews_last [OF v] by (simp add: act_basic log)
    next
      case False
      with that endsWithViews_later [of cfg log1 t "reqs @ views"] show ?thesis by (simp add: log)
    qed
    moreover have "length log \<le> 2 * MAX_PEERS * length (ev # evs)"
      using IH ids(2) asked(1) [of ev] viewsTo_ids(2) [OF v] canGoOn_peers(1) [OF go' order.refl] by (simp add: log)
    moreover have "\<forall>e \<in> set log. goodMsg (snd e)"
      using IH ids(3) viewsTo_ids(3) [OF v] by (auto simp: log)
    ultimately show ?thesis using IH by blast
  qed
qed

section \<open>The group that the events lead to\<close>

text \<open>The specification: a host that joins is added to the group, a peer that fails is removed.\<close>

fun groupAfter :: "Config \<Rightarrow> leaderEvent list \<Rightarrow> (fd \<times> string \<times> nat) list \<Rightarrow> PeerId set \<Rightarrow> PeerId set" where
  "groupAfter cfg [] as A = A"
| "groupAfter cfg (PeerFails p # evs) as A = groupAfter cfg evs as (A - {p})"
| "groupAfter cfg (PeerJoins # evs) [] A = A"
| "groupAfter cfg (PeerJoins # evs) ((f, h, port) # as) A =
     (case getPeerId (cfg_info cfg) (parseHostnameFromSender h) of
        Inl e \<Rightarrow> A | Inr p \<Rightarrow> groupAfter cfg evs as (insert p A))"

lemma modify_group_after:
  assumes "modifyGroupMembership cfg p op s = (Inr u, t)" and "finite (alivePeers s)"
  shows "leaderPeerId t = leaderPeerId s \<and> finite (alivePeers t) \<and> accepts t = accepts s \<and>
    viewId t = viewId s + 1 \<and> alivePeers t = newPeers op p (alivePeers s)"
  using modify_Inr [OF assms] assms(2) by (elim exE conjE) simp

lemma event_group:
  assumes run: "runEvent cfg ev s = (Inr u, t)" and lead: "leaderPeerId s = me cfg" and fin: "finite (alivePeers s)"
  shows "leaderPeerId t = me cfg \<and> finite (alivePeers t) \<and> viewId t = viewId s + 1 \<and>
    groupAfter cfg (ev # evs) (accepts s) (alivePeers s) = groupAfter cfg evs (accepts t) (alivePeers t)"
proof (cases ev)
  case (PeerFails p)
  with run lead have "modifyGroupMembership cfg p DEL s = (Inr u, t)"
    by (simp add: handlePeerFailure_def act_simps me_def)
  from modify_group_after [OF this fin] lead show ?thesis by (simp add: PeerFails newPeers_def)
next
  case PeerJoins
  then obtain c s1 p s2 where s: "tcpAccept s = (Inr c, s1)" "getPeerId (cfg_info cfg) (clientHostname c) = Inr p"
    "insertClient p c s1 = (Inr (), s2)" "modifyGroupMembership cfg p ADD s2 = (Inr u, t)"
    using run by (auto simp: leaderStep_def andThen_eq_Inr act_eq_Inr)
  obtain f h port as where acc: "accepts s = (f, h, port) # as" "s1 = s\<lparr>accepts := as\<rparr>" "tc_hostname c = h"
    using s(1) by (auto simp: tcpAccept_def acceptedClient_def split: list.splits if_splits)
  have s2: "leaderPeerId s2 = leaderPeerId s" "alivePeers s2 = alivePeers s" "viewId s2 = viewId s" "accepts s2 = as"
    using s(3) acc(2) by (auto simp: insertClient_def act_basic split: option.splits)
  have "finite (alivePeers s2)" using fin by (simp add: s2)
  from modify_group_after [OF s(4) this] lead s(2) show ?thesis
    by (simp add: PeerJoins acc s2 newPeers_def clientHostname_def)
qed

lemma run_group:
  assumes "forEach evs (runEvent cfg) s = (Inr u, t)" and "leaderPeerId s = me cfg" and "finite (alivePeers s)"
  shows "alivePeers t = groupAfter cfg evs (accepts s) (alivePeers s) \<and> viewId t = viewId s + of_nat (length evs)"
  using assms
proof (induction evs arbitrary: s)
  case (Cons ev evs)
  then obtain s1 where s1: "runEvent cfg ev s = (Inr (), s1)" "forEach evs (runEvent cfg) s1 = (Inr u, t)"
    by (auto simp: andThen_eq_Inr)
  from event_group [OF s1(1) Cons.prems(2,3), of evs] Cons.IH [OF s1(2)] show ?case by simp
qed (simp add: act_eq_Inr)

end
