(* ===== verification/GroupProgress.thy ===== *)
theory GroupProgress
  imports GroupRuns
begin

text \<open>
  A leader and its members, connected by TCP: when every chunk that is read is a whole message, nothing
  faults, no connection ends, every run ends, and when nothing is left on its way the leader has made
  all its changes and every member has installed the last view. When two messages arrive in one chunk,
  the member that reads them aborts, its connection ends, and that ends the leader too.
\<close>

section \<open>The members\<close>

lemma followerStep_waits:
  "tcpClientMap s (leaderPeerId s) = Some c \<Longrightarrow> recvs s (tc_sockFd c) = [] \<Longrightarrow> followerStep cfg s = (Inl Blocked, s)"
  by (simp add: followerStep_def clientAt_def andThen_def act_basic tcpReceive_def)

text \<open>One message is handled, and the next one is waited for.\<close>

lemma follower_handles:
  assumes c: "tcpClientMap m (leaderPeerId m) = Some c" and cs: "recvs m (tc_sockFd c) = Some bs # rest"
    and sf: "\<not> sendFails m (tc_sockFd c)" and good: "goodMsg bs"
  shows "\<exists>m1 oks. followerStep cfg m = (Inr (), m1) \<and> sendFails m1 = sendFails m \<and>
    tcpClientMap m1 (leaderPeerId m1) = Some c \<and> recvs m1 (tc_sockFd c) = rest \<and>
    sent m1 = sent m @ map (Pair (tc_sockFd c)) oks \<and>
    (\<forall>ids oks'. acks ids oks' \<longrightarrow> acks (requestIds [bs] @ ids) (oks @ oks')) \<and> length oks = length (requestIds [bs]) \<and>
    (\<forall>v M. isViewMsg bs v M \<longrightarrow> viewId m1 = v \<and> alivePeers m1 = M - {me cfg})"
  using good unfolding goodMsg_def
proof (elim disjE exE conjE)
  fix r v op p
  assume op: "knownOp (operationOf op)" and bs: "bs = requestBytes r v op p"
  let ?m1 = "m\<lparr>recvs := (recvs m)(tc_sockFd c := rest),
    pendingRequest := \<lparr>rq_msgType = 1, rq_requestId = r, rq_currentViewId = v, rq_operationType = op, rq_peerId = p\<rparr>,
    sent := sent m @ [(tc_sockFd c, okBytes r (viewId m))]\<rparr>"
  have "followerStep cfg m = (Inr (), ?m1)"
    by (rule follower_acknowledges [OF c sf cs [unfolded bs] op])
  moreover have "\<not> isViewMsg bs w M" for w M by (simp add: bs viewMsg_request)
  ultimately show ?thesis
    using c by (intro exI [of _ ?m1] exI [of _ "[okBytes r (viewId m)]"]) (auto simp: bs)
next
  fix v M
  assume bs: "isViewMsg bs v M"
  from followerStep_view [OF c cs bs, of cfg] show ?thesis
    using c viewMsg_inject [OF bs] requestIds_view [OF bs, of "[]"]
    by (intro exI [of _ "m\<lparr>recvs := (recvs m)(tc_sockFd c := rest), viewId := v,
        alivePeers := M - {getMyPeerId (cfg_info cfg)}, pendingRequest := getDummyPendingRequestMsg\<rparr>"]
        exI [of _ "[]"]) (auto simp: me_def)
qed

definition lastView :: "Config \<Rightarrow> byte list list \<Rightarrow> MembershipService \<Rightarrow> bool" where
  "lastView cfg cs t \<longleftrightarrow> (\<forall>pre bs v M. cs = pre @ [bs] \<longrightarrow> isViewMsg bs v M \<longrightarrow>
     viewId t = v \<and> alivePeers t = M - {me cfg})"

lemma follower_run:
  assumes "tcpClientMap m (leaderPeerId m) = Some c" and "recvs m (tc_sockFd c) = map Some cs"
    and "\<not> sendFails m (tc_sockFd c)" and "\<forall>bs \<in> set cs. goodMsg bs"
  shows "\<exists>t oks. startAsFollower cfg (Suc (length cs)) m = (Inl Blocked, t) \<and>
    sent t = sent m @ map (Pair (tc_sockFd c)) oks \<and> acks (requestIds cs) oks \<and>
    length oks = length (requestIds cs) \<and> lastView cfg cs t \<and>
    (cs = [] \<longrightarrow> viewId t = viewId m \<and> alivePeers t = alivePeers m)"
  using assms
proof (induction cs arbitrary: m)
  case Nil
  then have "followerStep cfg m = (Inl Blocked, m)" by (intro followerStep_waits) simp_all
  then show ?case by (intro exI [of _ m] exI [of _ "[]"]) (simp add: andThen_def lastView_def)
next
  case (Cons bs cs)
  have chunk: "recvs m (tc_sockFd c) = Some bs # map Some cs" using Cons.prems(2) by simp
  have good: "goodMsg bs" using Cons.prems(4) by simp
  obtain m1 oks1 where
    m1: "followerStep cfg m = (Inr (), m1)" "sendFails m1 = sendFails m"
      "tcpClientMap m1 (leaderPeerId m1) = Some c" "recvs m1 (tc_sockFd c) = map Some cs"
      "sent m1 = sent m @ map (Pair (tc_sockFd c)) oks1" and
    oks1: "\<forall>ids oks'. acks ids oks' \<longrightarrow> acks (requestIds [bs] @ ids) (oks1 @ oks')"
      "length oks1 = length (requestIds [bs])" and
    view: "\<forall>v M. isViewMsg bs v M \<longrightarrow> viewId m1 = v \<and> alivePeers m1 = M - {me cfg}"
    using follower_handles [OF Cons.prems(1) chunk Cons.prems(3) good] by blast
  obtain t oks where
    t: "startAsFollower cfg (Suc (length cs)) m1 = (Inl Blocked, t)"
      "sent t = sent m1 @ map (Pair (tc_sockFd c)) oks" "acks (requestIds cs) oks"
      "length oks = length (requestIds cs)" "lastView cfg cs t"
      "cs = [] \<longrightarrow> viewId t = viewId m1 \<and> alivePeers t = alivePeers m1"
    using Cons.IH [OF m1(3,4)] Cons.prems(3,4) m1(2) by auto
  have ids: "requestIds (bs # cs) = requestIds [bs] @ requestIds cs"
    using requestIds_append [of "[bs]" cs] by simp
  have "lastView cfg (bs # cs) t"
    using t(5,6) view unfolding lastView_def by (auto simp: Cons_eq_append_conv)
  then show ?case
    using t(1-4) m1(1,5) oks1
    by (intro exI [of _ t] exI [of _ "oks1 @ oks"]) (simp add: andThen_def ids)
qed

section \<open>The system\<close>

text \<open>
  The members have found the leader; the leader knows who is at the other end of a connection, and its
  events are joins of known hosts, and failures.
\<close>

definition groupSystem :: "Lab2Group \<Rightarrow> bool" where
  "groupSystem G \<longleftrightarrow> canGoOn (grp_config G) (grp_events G) (grp_leader G) \<and> sent (grp_leader G) = [] \<and>
     leading (\<lambda>f. me (grp_memberConfig G f)) (grp_config G) (grp_leader G) \<and>
     (\<forall>f. tcpClientMap (grp_member G f) (leaderPeerId (grp_member G f)) \<noteq> None \<and>
        (\<forall>g. \<not> sendFails (grp_member G f) g) \<and> sent (grp_member G f) = [])"

definition reaches :: "bool \<Rightarrow> Lab2Group \<Rightarrow> traffic \<Rightarrow> bool" where
  "reaches whole G = (groupStep whole G)\<^sup>*\<^sup>* noTraffic"

lemma canGoOn_recvs [simp]: "canGoOn cfg evs (s\<lparr>recvs := rv\<rparr>) \<longleftrightarrow> canGoOn cfg evs s"
  by (simp add: canGoOn_def groupOk_def peersSeen_def)

lemma leader_log:
  assumes g: "groupSystem G" and acks: "\<And>f. acks (requestIds (leaderSends G ins f)) (ins f)"
  shows "(\<forall>f. \<forall>bs \<in> set (leaderSends G ins f). goodMsg bs) \<and>
    length (sent (snd (leaderRun G ins))) \<le> 2 * MAX_PEERS * length (grp_events G) \<and>
    (fst (leaderRun G ins) = Inl Blocked \<and> (\<exists>q \<in> alivePeers (snd (leaderRun G ins)).
       let f = fdOf (snd (leaderRun G ins)) q in length (ins f) < length (requestIds (leaderSends G ins f))) \<or>
     fst (leaderRun G ins) = Inr () \<and> canGoOn (grp_config G) [] (snd (leaderRun G ins)) \<and>
     (grp_events G \<noteq> [] \<longrightarrow>
       endsWithViews (grp_config G) (sent (snd (leaderRun G ins))) (snd (leaderRun G ins))))"
proof -
  obtain r t where run: "leaderRun G ins = (r, t)" by (cases "leaderRun G ins")
  have ids: "idsOn f (sent t) = requestIds (leaderSends G ins f)" for f
    by (simp add: idsOn_def leaderSends_def sentOn_def run)
  have go: "canGoOn (grp_config G) (grp_events G) ((grp_leader G)\<lparr>recvs := (\<lambda>f. map Some (ins f))\<rparr>)"
    using g by (simp add: groupSystem_def)
  have out: "(\<forall>e \<in> set (sent t). goodMsg (snd e)) \<and> length (sent t) \<le> 2 * MAX_PEERS * length (grp_events G) \<and>
    (r = Inl Blocked \<and> waitsFor ins (sent t) t \<or>
     r = Inr () \<and> canGoOn (grp_config G) [] t \<and> (grp_events G \<noteq> [] \<longrightarrow> endsWithViews (grp_config G) (sent t) t))"
    by (rule run_outcome [OF go run [unfolded leaderRun_def]])
      (use g acks in \<open>simp_all add: groupSystem_def ids\<close>)
  then show ?thesis by (auto simp: run waitsFor_def ids Let_def leaderSends_def sentOn_def)
qed

lemma member_replies:
  assumes g: "groupSystem G" and good: "\<forall>bs \<in> set cs. goodMsg bs"
  shows "fst (memberRun G f cs) = Inl Blocked \<and> acks (requestIds cs) (memberSends G f cs) \<and>
    length (memberSends G f cs) = length (requestIds cs) \<and>
    lastView (grp_memberConfig G f) cs (snd (memberRun G f cs))"
proof -
  let ?m = "grp_member G f"
  obtain c where c: "tcpClientMap ?m (leaderPeerId ?m) = Some c" using g unfolding groupSystem_def by blast
  then have fd: "memberFd G f = tc_sockFd c" by (simp add: memberFd_def fdOf_def)
  obtain t oks where t: "memberRun G f cs = (Inl Blocked, t)" "sent t = map (Pair (tc_sockFd c)) oks"
    "acks (requestIds cs) oks" "length oks = length (requestIds cs)" "lastView (grp_memberConfig G f) cs t"
    using follower_run [of "memberIn G f cs" c cs "grp_memberConfig G f"] g good c
    by (auto simp: memberIn_def memberRun_def fd groupSystem_def)
  moreover have "memberSends G f cs = oks"
    by (simp add: memberSends_def sentOn_def t(1,2) fd filter_map o_def)
  ultimately show ?thesis by simp
qed

text \<open>The leader reads acknowledgements of its requests, in every reachable state.\<close>

lemma requestIds_mono: "prefix ms ns \<Longrightarrow> prefix (requestIds ms) (requestIds ns)"
  by (auto simp: prefix_def requestIds_append)

lemma good_prefix: "prefix cs ms \<Longrightarrow> \<forall>bs \<in> set ms. goodMsg bs \<Longrightarrow> \<forall>bs \<in> set cs. goodMsg bs"
  by (auto simp: prefix_def)

lemma reachable_acks:
  assumes g: "groupSystem G" and r: "(flows True (leaderSends G) (memberSends G))\<^sup>*\<^sup>* noTraffic w"
  shows "acks (requestIds (leaderSends G (toServer w) f)) (toServer w f)"
  using r
proof (induction arbitrary: f rule: rtranclp_induct)
  case base
  show ?case by simp
next
  case (step w w')
  note grow = group.serve_grows [OF step.hyps(2)]
  have old: "acks (requestIds (leaderSends G (toServer w') f)) (toServer w f)" for f
    by (rule acks_prefix [OF step.IH requestIds_mono [OF grow(1)]]) simp
  from step.hyps(2) show ?case
  proof cases
    case (clientReads h bs)
    with old show ?thesis by simp
  next
    case (serverReads h bs)
    have read: "prefix (toClient w h) (leaderSends G (toServer w) h)"
      by (rule group.read_is_sent(1) [OF step.hyps(1)])
    have "\<forall>bs \<in> set (toClient w h). goodMsg bs"
      using leader_log [OF g step.IH] good_prefix [OF read] by blast
    from member_replies [OF g this] have "acks (requestIds (toClient w h)) (memberSends G h (toClient w h))" by blast
    moreover have "prefix (requestIds (toClient w h)) (requestIds (leaderSends G (toServer w') h))"
      by (rule requestIds_mono [OF prefix_order.trans [OF read grow(1)]])
    moreover have "prefix (toServer w h @ [bs]) (memberSends G h (toClient w h))"
      using serverReads(2) by (simp add: nextChunk_def)
    ultimately have "acks (requestIds (leaderSends G (toServer w') h)) (toServer w h @ [bs])"
      by (rule acks_prefix)
    moreover have at: "toServer w' f = (if f = h then toServer w h @ [bs] else toServer w f)"
      by (simp add: serverReads(1))
    ultimately show ?thesis unfolding at using old by (cases "f = h") simp_all
  qed
qed

lemma reachable_good:
  assumes g: "groupSystem G" and r: "(flows True (leaderSends G) (memberSends G))\<^sup>*\<^sup>* noTraffic w"
  shows "\<forall>bs \<in> set (leaderSends G (toServer w) f). goodMsg bs" "\<forall>bs \<in> set (toClient w f). goodMsg bs"
proof -
  show log: "\<forall>bs \<in> set (leaderSends G (toServer w) f). goodMsg bs"
    using leader_log [OF g reachable_acks [OF g r]] by blast
  show "\<forall>bs \<in> set (toClient w f). goodMsg bs"
    by (rule good_prefix [OF group.read_is_sent(1) [OF r] log])
qed

section \<open>No fault\<close>

lemma flows_outcome:
  assumes "groupSystem G" and "(flows True (leaderSends G) (memberSends G))\<^sup>*\<^sup>* noTraffic w"
  shows "(fst (leaderRun G (toServer w)) = Inr () \<or> fst (leaderRun G (toServer w)) = Inl Blocked) \<and>
    fst (memberRun G f (toClient w f)) = Inl Blocked"
  using leader_log [OF assms(1) reachable_acks [OF assms]]
    member_replies [OF assms(1) reachable_good(2) [OF assms, of f]] by blast

text \<open>So nobody ends, and no connection does.\<close>

lemma nobody_ends:
  assumes "groupSystem G" and "(flows True (leaderSends G) (memberSends G))\<^sup>*\<^sup>* noTraffic w"
  shows "\<not> leaderEnds G (toServer w) \<and> (\<forall>f. \<not> memberEnds G f (toClient w f))"
proof -
  note out = flows_outcome [OF assms]
  have "\<not> memberEnds G f (toClient w f)" for f using out [of f] by (simp add: memberEnds_def)
  moreover have "\<not> leaderEnds G (toServer w)"
    using out [of 0] unfolding leaderEnds_def by (elim conjE disjE) simp_all
  ultimately show ?thesis by blast
qed

lemma whole_steps:
  assumes "groupSystem G"
  shows "(groupStep True G ^^ n) noTraffic w \<longleftrightarrow> (flows True (leaderSends G) (memberSends G) ^^ n) noTraffic w"
    "reaches True G w \<longleftrightarrow> (flows True (leaderSends G) (memberSends G))\<^sup>*\<^sup>* noTraffic w"
  unfolding reaches_def groupStep_def
  by (rule connStep_flows connStep_flows_star, rule nobody_ends [OF assms], assumption)+

text \<open>
  C11: no fault. When every chunk that is read is a whole message, in every reachable state the leader
  has finished its changes or waits for an acknowledgement, and every member waits for the next message:
  no check fails, no exception is thrown, no connection ends and nothing is undefined, whatever the
  interleaving.
\<close>

theorem group_does_not_fault:
  assumes "groupSystem G" and "reaches True G w"
  shows "(fst (leaderRun G (toServer w)) = Inr () \<or> fst (leaderRun G (toServer w)) = Inl Blocked) \<and>
    fst (memberRun G f (toClient w f)) = Inl Blocked"
  using flows_outcome [OF assms(1)] assms(2) whole_steps(2) [OF assms(1)] by blast

section \<open>The last view\<close>

lemma goodMsg_fits: "goodMsg bs \<Longrightarrow> bs \<noteq> [] \<and> length bs \<le> MAX_BUFFER_SIZE"
  unfolding goodMsg_def
proof (elim disjE exE conjE)
  fix r v op p
  assume "bs = requestBytes r v op p"
  then show ?thesis by (simp add: requestBytes_def MAX_BUFFER_SIZE_def wire_words_simps)
next
  fix v M
  assume "isViewMsg bs v M"
  then show ?thesis by (auto simp: isViewMsg_def MAX_BUFFER_SIZE_def MAX_PEERS_def wire_words_simps)
qed

lemma acks_fit: "acks ids oks \<Longrightarrow> bs \<in> set oks \<Longrightarrow> bs \<noteq> [] \<and> length bs \<le> MAX_BUFFER_SIZE"
  by (induction ids oks rule: acks.induct) (auto simp: okBytes_def MAX_BUFFER_SIZE_def wire_words_simps)

lemma run_leading:
  "leading peerAt cfg s \<Longrightarrow> forEach evs (runEvent cfg) s = (Inr u, t) \<Longrightarrow> leading peerAt cfg t"
proof (induction evs arbitrary: s)
  case (Cons ev evs)
  then obtain s1 where "runEvent cfg ev s = (Inr (), s1)" "forEach evs (runEvent cfg) s1 = (Inr u, t)"
    by (auto simp: andThen_eq_Inr)
  with event_step [OF Cons.prems(1)] Cons.IH show ?case by blast
qed (simp add: act_eq_Inr)

lemma leading_recvs [simp]: "leading peerAt cfg (s\<lparr>recvs := rv\<rparr>) \<longleftrightarrow> leading peerAt cfg s"
  by (simp add: leading_def)

lemma sentOn_views:
  assumes "distinct ps" and "inj_on h (set ps)" and "q \<in> set ps"
  shows "map snd (filter (\<lambda>e. fst e = h q) (map (\<lambda>q. (h q, bs)) ps)) = [bs]"
proof -
  have "filter (\<lambda>x. h x = h q) ps = [q]"
    using assms by (induction ps) (auto simp: inj_on_def filter_empty_conv)
  then show ?thesis by (simp add: filter_map o_def)
qed

lemma reachable_fits:
  assumes g: "groupSystem G" and r: "(flows True (leaderSends G) (memberSends G))\<^sup>*\<^sup>* noTraffic w"
  shows "\<forall>bs \<in> set (leaderSends G (toServer w) f). bs \<noteq> [] \<and> length bs \<le> MAX_BUFFER_SIZE"
    "\<forall>bs \<in> set (memberSends G f (toClient w f)). bs \<noteq> [] \<and> length bs \<le> MAX_BUFFER_SIZE"
proof -
  show "\<forall>bs \<in> set (leaderSends G (toServer w) f). bs \<noteq> [] \<and> length bs \<le> MAX_BUFFER_SIZE"
    using reachable_good(1) [OF g r] goodMsg_fits by blast
  have "acks (requestIds (toClient w f)) (memberSends G f (toClient w f))"
    using member_replies [OF g reachable_good(2) [OF g r]] by blast
  then show "\<forall>bs \<in> set (memberSends G f (toClient w f)). bs \<noteq> [] \<and> length bs \<le> MAX_BUFFER_SIZE"
    using acks_fit by blast
qed

text \<open>A member to which the last message is the last view has installed it, and is known to the leader.\<close>

lemma member_has_view:
  assumes g: "groupSystem G" and run: "leaderRun G ins = (Inr (), t)" and go: "canGoOn (grp_config G) [] t"
    and ends: "endsWithViews (grp_config G) (sent t) t" and q: "q \<in> alivePeers t"
    and last: "lastView (grp_memberConfig G (fdOf t q)) (leaderSends G ins (fdOf t q)) u"
  shows "viewId u = viewId t \<and> getGroupMembers (grp_memberConfig G (fdOf t q)) u = getGroupMembers (grp_config G) t"
proof -
  obtain pre bs where bs: "isViewMsg bs (viewId t) (getGroupMembers (grp_config G) t)" and
    log: "sent t = pre @ map (\<lambda>q. (fdOf t q, bs)) (sorted_list_of_set (alivePeers t))"
    using ends by (auto simp: endsWithViews_def viewsTo_def)
  note peers = canGoOn_peers [OF go order.refl]
  have "leaderSends G ins (fdOf t q) = map snd (filter (\<lambda>e. fst e = fdOf t q) pre) @ [bs]"
    using sentOn_views [of "sorted_list_of_set (alivePeers t)" "fdOf t" q bs] q peers(2,3)
    by (simp add: leaderSends_def sentOn_def run log)
  with last bs have u: "viewId u = viewId t"
    "alivePeers u = getGroupMembers (grp_config G) t - {me (grp_memberConfig G (fdOf t q))}"
    unfolding lastView_def by blast+
  have "leading (\<lambda>f. me (grp_memberConfig G f)) (grp_config G) t"
    by (rule run_leading [OF _ run [unfolded leaderRun_def]]) (use g in \<open>simp add: groupSystem_def\<close>)
  moreover obtain c where "tcpClientMap t q = Some c"
    using go q groupOkD(3) [of "grp_config G" t] by (auto simp: canGoOn_def)
  ultimately have "me (grp_memberConfig G (fdOf t q)) = q"
    using leadingD(3) by (fastforce simp: fdOf_def)
  with u q show ?thesis by (auto simp: getGroupMembers_def me_def)
qed

text \<open>
  C3: every change ends, and everybody has the result, when every \<open>recv\<close> yields exactly one message
  (TCP does not promise it, and without it the conclusion can be false, see below). If then nothing is
  on its way between the leader and its current members (a member that has been removed may have
  crashed), the leader has made all its changes: its view identifier counts them, the members are those of the specification, and every one of
  them has installed the last view, with the identifier and the group of the leader. There is at least
  one change.
\<close>

theorem group_installs_last_view:
  assumes g: "groupSystem G" and r: "reaches True G w" and "grp_events G \<noteq> []"
    and t: "t = snd (leaderRun G (toServer w))"
    and d: "\<And>q. q \<in> alivePeers t \<Longrightarrow> drained (leaderSends G) (memberSends G) w (fdOf t q)"
  shows "fst (leaderRun G (toServer w)) = Inr () \<and>
    viewId t = viewId (grp_leader G) + of_nat (length (grp_events G)) \<and>
    alivePeers t = groupAfter (grp_config G) (grp_events G) (accepts (grp_leader G)) (alivePeers (grp_leader G)) \<and>
    (\<forall>q \<in> alivePeers t. let f = fdOf t q; u = snd (memberRun G f (toClient w f)) in
       viewId u = viewId t \<and> getGroupMembers (grp_memberConfig G f) u = getGroupMembers (grp_config G) t)"
proof -
  have r: "(flows True (leaderSends G) (memberSends G))\<^sup>*\<^sup>* noTraffic w"
    using r whole_steps(2) [OF g] by blast
  note log = leader_log [OF g reachable_acks [OF g r]] and replies = member_replies [OF g reachable_good(2) [OF g r]]
  have read: "toClient w f = leaderSends G (toServer w) f" "toServer w f = memberSends G f (toClient w f)"
    if "q \<in> alivePeers t" "f = fdOf t q" for q f
    using group.drained_eq [OF r d [OF that(1)]] reachable_fits [OF g r] that(2) by blast+
  have "length (toServer w f) = length (requestIds (leaderSends G (toServer w) f))"
    if "q \<in> alivePeers t" "f = fdOf t q" for q f
    using read [OF that] replies [of f f] by metis
  with log have done_: "fst (leaderRun G (toServer w)) = Inr ()"
    and go: "canGoOn (grp_config G) [] t" and ends: "endsWithViews (grp_config G) (sent t) t"
    using assms(3) unfolding t Let_def by force+
  have run: "leaderRun G (toServer w) = (Inr (), t)" using done_ by (simp add: t prod_eq_iff)
  have "lastView (grp_memberConfig G (fdOf t q)) (leaderSends G (toServer w) (fdOf t q))
      (snd (memberRun G (fdOf t q) (toClient w (fdOf t q))))" if "q \<in> alivePeers t" for q
    using replies [of "fdOf t q" "fdOf t q"] read(1) [OF that refl] by simp
  moreover have "viewId t = viewId (grp_leader G) + of_nat (length (grp_events G)) \<and>
    alivePeers t = groupAfter (grp_config G) (grp_events G) (accepts (grp_leader G)) (alivePeers (grp_leader G))"
    using run_group [OF run [unfolded leaderRun_def]] g by (simp add: groupSystem_def leading_def)
  ultimately show ?thesis using done_ member_has_view [OF g run go ends] by (simp add: Let_def)
qed

section \<open>Every run ends\<close>

lemma sentOn_sum:
  "finite F \<Longrightarrow> (\<Sum>f\<in>F. length (filter (\<lambda>e. fst e = f) log)) \<le> length log"
proof (induction log)
  case (Cons e log)
  have "(\<Sum>f\<in>F. length (filter (\<lambda>x. fst x = f) (e # log))) =
      (\<Sum>f\<in>F. length (filter (\<lambda>x. fst x = f) log)) + (\<Sum>f\<in>F. if fst e = f then 1 else 0)"
    by (simp flip: sum.distrib) (rule sum.cong; simp)
  also have "\<dots> \<le> length log + 1"
    using Cons by (intro add_mono) simp_all
  finally show ?case by simp
qed simp

lemma requestIds_length: "length (requestIds ms) \<le> length ms"
  by (induction ms) (auto simp: requestIds.simps(2) split: sum.splits)

lemma runs_end:
  assumes g: "groupSystem G" and r: "(flows True (leaderSends G) (memberSends G) ^^ n) noTraffic w"
  shows "n \<le> 4 * MAX_PEERS * length (grp_events G) \<and>
    (drained (leaderSends G) (memberSends G) w f \<or> (\<exists>w'. flows True (leaderSends G) (memberSends G) w w'))"
proof -
  note re = relpowp_imp_rtranclp [OF r]
  let ?s = "snd (leaderRun G (toServer w))"
  let ?F = "{f. leaderSends G (toServer w) f \<noteq> []}"
  have "?F \<subseteq> fst ` set (sent ?s)"
    by (auto simp: leaderSends_def sentOn_def filter_empty_conv)
  then have fin: "finite ?F" by (rule finite_subset) simp
  have "(\<Sum>f\<in>?F. length (leaderSends G (toServer w) f)) \<le> length (sent ?s)"
    using sentOn_sum [OF fin] by (simp add: leaderSends_def sentOn_def)
  also have "\<dots> \<le> 2 * MAX_PEERS * length (grp_events G)"
    using leader_log [OF g reachable_acks [OF g re]] by blast
  finally have sum: "(\<Sum>f\<in>?F. length (leaderSends G (toServer w) f)) \<le> 2 * MAX_PEERS * length (grp_events G)" .
  have "n \<le> 2 * (2 * MAX_PEERS * length (grp_events G))"
    by (rule group.run_bounded [OF r fin sum])
      (use member_replies [OF g reachable_good(2) [OF g re]] requestIds_length in simp)
  moreover have "drained (leaderSends G) (memberSends G) w f \<or> (\<exists>w'. flows True (leaderSends G) (memberSends G) w w')"
    using group.not_drained_step [OF re _ reachable_fits [OF g re]] by blast
  ultimately show ?thesis by simp
qed

lemma reaches_end:
  assumes g: "groupSystem G"
  shows "\<exists>w. reaches True G w \<and> (\<forall>f. drained (leaderSends G) (memberSends G) w f)"
proof -
  let ?step = "flows True (leaderSends G) (memberSends G)"
  define N where "N = 4 * MAX_PEERS * length (grp_events G)"
  have "\<exists>w. reaches True G w \<and> (\<forall>f. drained (leaderSends G) (memberSends G) w f)"
    if "(?step ^^ n) noTraffic w" "k = N - n" for n k w
    using that
  proof (induction k arbitrary: n w rule: less_induct)
    case (less k)
    show ?case
    proof (cases "\<exists>w'. ?step w w'")
      case True
      then obtain w' where w': "(?step ^^ Suc n) noTraffic w'" using less.prems(1) by auto
      then have "Suc n \<le> N" using runs_end [OF g] by (simp add: N_def)
      then show ?thesis using less.IH [OF _ w' refl] less.prems(2) by simp
    next
      case False
      with runs_end [OF g less.prems(1)] relpowp_imp_rtranclp [OF less.prems(1)] show ?thesis
        by (auto simp: whole_steps(2) [OF g])
    qed
  qed
  from this [of 0 noTraffic N] show ?thesis by simp
qed

text \<open>The order in which the chunks are read does not matter for the end.\<close>

lemma end_unique:
  assumes g: "groupSystem G"
  shows "\<exists>!w. reaches True G w \<and> (\<forall>f. drained (leaderSends G) (memberSends G) w f)"
proof (rule ex_ex1I [OF reaches_end [OF g]])
  fix w e
  assume w: "reaches True G w \<and> (\<forall>f. drained (leaderSends G) (memberSends G) w f)"
    and e: "reaches True G e \<and> (\<forall>f. drained (leaderSends G) (memberSends G) e f)"
  have rest: "group.atRest G v" if "reaches True G v \<and> (\<forall>f. drained (leaderSends G) (memberSends G) v f)" for v
    using that reachable_fits [OF g, of v] unfolding whole_steps(2) [OF g] by (intro group.drained_atRest) blast+
  from group.atRest_unique [OF _ rest [OF w] _ rest [OF e]] w e show "w = e" unfolding whole_steps(2) [OF g] by blast
qed

text \<open>
  C17: every run ends, and all runs end alike, when every \<open>recv\<close> yields exactly one message (TCP does not
  promise it; without it the end can be another one). A run of the system has at most \<open>4 * MAX_PEERS\<close> steps for
  every change, and as long as something is on its way on some connection there is a next step: so every
  run that goes on as long as it can reaches a state in which nothing is on its way. There is exactly one
  such state, whatever the order in which the leader and its members read.
\<close>

theorem group_runs_end:
  assumes "groupSystem G" and "(groupStep True G ^^ n) noTraffic w"
  shows "n \<le> 4 * MAX_PEERS * length (grp_events G) \<and>
    (drained (leaderSends G) (memberSends G) w f \<or> (\<exists>w'. groupStep True G w w')) \<and>
    (\<exists>!e. reaches True G e \<and> (\<forall>f. drained (leaderSends G) (memberSends G) e f))"
proof -
  note run = runs_end [OF assms(1) assms(2) [unfolded whole_steps(1) [OF assms(1)]]]
  then have "drained (leaderSends G) (memberSends G) w f \<or> (\<exists>w'. groupStep True G w w')"
    unfolding groupStep_def by (blast intro: ns_flows)
  with run end_unique [OF assms(1)] show ?thesis by blast
qed

section \<open>Two messages in one chunk\<close>

lemma followerStep_coalesced:
  assumes c: "tcpClientMap m (leaderPeerId m) = Some c" and v: "isViewMsg bs v M"
    and cs: "recvs m (tc_sockFd c) = Some (bs @ x) # rest" and x: "x \<noteq> []" "length (bs @ x) \<le> MAX_BUFFER_SIZE"
  shows "followerStep cfg m = (Inl CheckFailed, m\<lparr>recvs := (recvs m)(tc_sockFd c := rest)\<rparr>)"
proof -
  let ?msg = "received (bs @ x) (memory m) (tc_hostname c)"
  obtain ws where ws: "length ws + card M = MAX_PEERS" "finite M"
    "bs = wire_words ([3, v, of_nat (card M)] @ sorted_list_of_set M @ ws)"
    using v by (auto simp: isViewMsg_def)
  have len: "length bs = sizeof_NewViewMsg"
    using ws by (simp add: sizeof_NewViewMsg_def MAX_PEERS_def wire_words_simps)
  have "getMsgType (cfg_en cfg) ?msg = Inr NEW_VIEW"
    using ws(3) x(2) len
    by (simp add: getMsgType_def getTypeWord_received [where w = 3] wire_words_simps sizeof_NewViewMsg_def)
  moreover have "deserializeNewViewMsg (cfg_en cfg) ?msg = Inl CheckFailed"
    using x len by (simp add: deserializeNewViewMsg_def check_def rbind_def)
  ultimately show ?thesis
    using c tcpReceive_chunk [OF cs] x(1)
    by (simp add: followerStep_def clientAt_def andThen_def act_basic processNewViewMsg_def)
qed

lemma memberRun_coalesced:
  assumes g: "groupSystem G" and v: "isViewMsg bs v M" and x: "x \<noteq> []" "length (bs @ x) \<le> MAX_BUFFER_SIZE"
  shows "fst (memberRun G f ((bs @ x) # cs)) = Inl CheckFailed" "memberSends G f ((bs @ x) # cs) = []"
proof -
  let ?m = "grp_member G f"
  obtain c where c: "tcpClientMap ?m (leaderPeerId ?m) = Some c" using g unfolding groupSystem_def by blast
  then have fd: "memberFd G f = tc_sockFd c" by (simp add: memberFd_def fdOf_def)
  obtain t where "memberRun G f ((bs @ x) # cs) = (Inl CheckFailed, t)" "sent t = []"
    using followerStep_coalesced [of "memberIn G f ((bs @ x) # cs)" c bs v M x "map Some cs" "grp_memberConfig G f"]
      v x c g
    by (simp add: memberRun_def memberIn_def fd andThen_def groupSystem_def)
  then show "fst (memberRun G f ((bs @ x) # cs)) = Inl CheckFailed" "memberSends G f ((bs @ x) # cs) = []"
    by (simp_all add: memberSends_def sentOn_def)
qed

text \<open>The first join of a leader that is alone: the new member is sent a view.\<close>

lemma first_join:
  assumes g: "groupSystem G" and alone: "alivePeers (grp_leader G) = {}" and evs: "grp_events G = PeerJoins # evs"
    and acc: "accepts (grp_leader G) = (f, h, port) # as"
  shows "\<exists>s1 p bs. leaderRun G ins = forEach evs (runEvent (grp_config G)) s1 \<and> canGoOn (grp_config G) evs s1 \<and>
    alivePeers s1 = {p} \<and> fdOf s1 p = f \<and> viewId s1 = viewId (grp_leader G) + 1 \<and>
    recvs s1 f = map Some (ins f) \<and> sent s1 = [(f, bs)] \<and> (\<exists>v M. isViewMsg bs v M)"
proof -
  let ?cfg = "grp_config G"
  let ?s = "(grp_leader G)\<lparr>recvs := (\<lambda>f. map Some (ins f))\<rparr>"
  have go: "canGoOn ?cfg (PeerJoins # evs) ?s" using g evs by (simp add: groupSystem_def)
  obtain p c where c: "tc_sockFd c = f" "runEvent ?cfg PeerJoins ?s = modifyGroupMembership ?cfg p ADD (joinState p c ?s)"
    "canChange ?cfg ADD p (joinState p c ?s)"
    "\<forall>bs. canGoOn ?cfg evs (afterChange ADD p bs (joinState p c ?s))"
    using join_change [OF go] acc by auto
  have none: "askedPeers ADD p (alivePeers (joinState p c ?s)) = {}"
    by (simp add: alone joinState_def askedPeers_def)
  obtain bs where m: "modifyGroupMembership ?cfg p ADD (joinState p c ?s) = (Inr (), afterChange ADD p bs (joinState p c ?s))"
    and bs: "isViewMsg bs (viewId (joinState p c ?s) + 1) (insert (me ?cfg) (newPeers ADD p (alivePeers (joinState p c ?s))))"
    using modify_outcome [OF c(3)] none by auto
  define s1 where "s1 = afterChange ADD p bs (joinState p c ?s)"
  have "alivePeers s1 = {p}" "fdOf s1 p = f" "viewId s1 = viewId (grp_leader G) + 1" "sent s1 = [(f, bs)]"
    "recvs s1 f = map Some (ins f)"
    using g alone c(1)
    by (simp_all add: s1_def afterChange_def joinState_def newPeers_def newClients_def fdOf_def requestsSent_def
        askedPeers_def groupSystem_def takeFrom_def)
  moreover have "leaderRun G ins = forEach evs (runEvent ?cfg) s1"
    using c(2) m unfolding leaderRun_def evs by (simp add: andThen_def s1_def del: runEvent.simps)
  ultimately show ?thesis using c(4) bs unfolding s1_def by blast
qed

text \<open>The next join: the request is sent, and no acknowledgement comes.\<close>

lemma second_join:
  assumes go: "canGoOn cfg (PeerJoins # evs) s" and alive: "alivePeers s = {p}"
    and read: "recvs s (fdOf s p) = [] \<and> e = Blocked \<or> (\<exists>rest. recvs s (fdOf s p) = Some [] # rest) \<and> e = TransportException"
  shows "\<exists>t r w op q. runEvent cfg PeerJoins s = (Inl e, t) \<and> viewId t = viewId s \<and>
    sent t = sent s @ [(fdOf s p, requestBytes r w op q)]"
proof -
  obtain q c where c: "tcpClientMap s q = None"
    "runEvent cfg PeerJoins s = modifyGroupMembership cfg q ADD (joinState q c s)"
    "canChange cfg ADD q (joinState q c s)"
    using join_change [OF go] by blast
  obtain d where d: "tcpClientMap s p = Some d"
    using go groupOkD(3) [of cfg s] alive by (auto simp: canGoOn_def)
  have "p \<noteq> q" using c(1) d by auto
  let ?j = "joinState q c s"
  let ?a = "askingState ADD q ?j\<lparr>sent := sent ?j @ requestsSent ADD q ?j\<rparr>"
  have asked: "askedPeers ADD q (alivePeers ?j) = {p}" using alive by (simp add: joinState_def askedPeers_def)
  have fd: "fdOf s p = tc_sockFd d" by (simp add: fdOf_def d)
  have map: "tcpClientMap ?a p = Some d" "recvs ?a = recvs s"
    using \<open>p \<noteq> q\<close> d by (simp_all add: joinState_def newClients_def)
  have "\<exists>rv. okFrom cfg (requestCounter ?j + 1) p ?a = (Inl e, ?a\<lparr>recvs := rv\<rparr>)"
    using read
  proof (elim disjE conjE exE)
    assume "recvs s (fdOf s p) = []" "e = Blocked"
    then show ?thesis using okFrom_waits [OF map(1), of cfg] map(2) fd by (intro exI [of _ "recvs ?a"]) simp
  next
    fix rest
    assume "recvs s (fdOf s p) = Some [] # rest" "e = TransportException"
    then show ?thesis using okFrom_lost [OF map(1), of "Some []" rest cfg] map(2) fd by auto
  qed
  then obtain rv where "forEach (sorted_list_of_set (askedPeers ADD q (alivePeers ?j)))
      (okFrom cfg (requestCounter ?j + 1)) ?a = (Inl e, ?a\<lparr>recvs := rv\<rparr>)"
    by (auto simp: asked andThen_def)
  from modify_waits [OF c(3) this] c(2)
  have "runEvent cfg PeerJoins s = (Inl e, ?a\<lparr>recvs := rv\<rparr>)" by simp
  moreover have "viewId (?a\<lparr>recvs := rv\<rparr>) = viewId s" by (simp add: joinState_def)
  moreover have "\<exists>r w op x. sent (?a\<lparr>recvs := rv\<rparr>) = sent s @ [(fdOf s p, requestBytes r w op x)]"
    using \<open>p \<noteq> q\<close> d unfolding askingState_simps requestsSent_def asked
    by (auto simp: fdOf_def joinState_def)
  ultimately show ?thesis by blast
qed

text \<open>Two joins in a row: the first member is sent a view and the next request without a pause.\<close>

lemma two_joins:
  assumes g: "groupSystem G" and alone: "alivePeers (grp_leader G) = {}"
    and evs: "grp_events G = PeerJoins # PeerJoins # evs"
    and acc: "accepts (grp_leader G) = (f, h, port) # as"
    and ins: "ins f = [] \<and> e = Blocked \<or> (\<exists>rest. ins f = [] # rest) \<and> e = TransportException"
  shows "fst (leaderRun G ins) = Inl e \<and> viewId (snd (leaderRun G ins)) = viewId (grp_leader G) + 1 \<and>
    (\<exists>bs v M r w op p. isViewMsg bs v M \<and> leaderSends G ins f = [bs, requestBytes r w op p])"
proof -
  obtain s1 p bs where s1: "leaderRun G ins = forEach (PeerJoins # evs) (runEvent (grp_config G)) s1"
    "canGoOn (grp_config G) (PeerJoins # evs) s1" "alivePeers s1 = {p}" "fdOf s1 p = f"
    "viewId s1 = viewId (grp_leader G) + 1" "recvs s1 f = map Some (ins f)" "sent s1 = [(f, bs)]"
    "\<exists>v M. isViewMsg bs v M"
    using first_join [OF g alone evs acc, of ins] by blast
  have "recvs s1 (fdOf s1 p) = [] \<and> e = Blocked \<or>
      (\<exists>rest. recvs s1 (fdOf s1 p) = Some [] # rest) \<and> e = TransportException"
    using ins s1(4,6) by auto
  from second_join [OF s1(2,3) this] obtain t r w op q where
    t: "runEvent (grp_config G) PeerJoins s1 = (Inl e, t)" "viewId t = viewId s1"
      "sent t = sent s1 @ [(fdOf s1 p, requestBytes r w op q)]" by blast
  have "leaderRun G ins = (Inl e, t)" using t(1) by (simp add: s1(1) andThen_def del: runEvent.simps)
  then show ?thesis using t(2,3) s1(4,5,7,8) by (auto simp: leaderSends_def sentOn_def)
qed

text \<open>
  C22: what happens without whole messages. If a leader that is alone accepts two hosts one after the
  other, its view for the first one and the next request may arrive in one chunk. The size check of
  \<open>deserializeNewViewMsg\<close> then aborts that member. However the system goes on, the second change is never
  made: the leader waits for the acknowledgement until it reads the end of the connection (which it
  always can), and then throws the \<open>TransportException\<close> that nothing in \<open>startAsLeader\<close> catches.
\<close>

theorem coalesced_messages_end_group:
  assumes g: "groupSystem G" and alone: "alivePeers (grp_leader G) = {}"
    and evs: "grp_events G = PeerJoins # PeerJoins # evs"
    and acc: "accepts (grp_leader G) = (f, h, port) # as"
  shows "\<exists>w. reaches False G w \<and> (\<forall>w'. (groupStep False G)\<^sup>*\<^sup>* w w' \<longrightarrow>
       fst (memberRun G f (toClient w' f)) = Inl CheckFailed \<and>
       viewId (snd (leaderRun G (toServer w'))) = viewId (grp_leader G) + 1 \<and>
       (fst (leaderRun G (toServer w')) = Inl TransportException \<or>
        fst (leaderRun G (toServer w')) = Inl Blocked \<and>
        (\<exists>w''. groupStep False G w' w'' \<and> fst (leaderRun G (toServer w'')) = Inl TransportException)))"
proof -
  obtain bs v M r u op p where bs: "isViewMsg bs v M" and
    out: "leaderSends G (toServer noTraffic) f = [bs, requestBytes r u op p]"
    using two_joins [OF assms, of "toServer noTraffic" Blocked] by auto
  define x where "x = requestBytes r u op p"
  have x: "x \<noteq> []" "length (bs @ x) \<le> MAX_BUFFER_SIZE"
    using bs by (auto simp: x_def isViewMsg_def requestBytes_def MAX_BUFFER_SIZE_def MAX_PEERS_def wire_words_simps)
  note bad = memberRun_coalesced [OF g bs x, of f]
  define w where "w = noTraffic\<lparr>toClient := (toClient noTraffic)(f := toClient noTraffic f @ [bs @ x])\<rparr>"
  have "flows False (leaderSends G) (memberSends G) noTraffic w"
    unfolding w_def by (rule clientReads) (use x out in \<open>simp add: nextChunk_def x_def\<close>)
  then have "groupStep False G noTraffic w" by (simp add: groupStep_def ns_flows)
  then have "reaches False G w" by (simp add: reaches_def)
  moreover have "(toServer w' f = [] \<or> (\<exists>rest. toServer w' f = [] # rest)) \<and> (\<exists>cs. toClient w' f = (bs @ x) # cs)"
    if "(groupStep False G)\<^sup>*\<^sup>* w w'" for w'
    using that
  proof (induction rule: rtranclp_induct)
    case base
    show ?case by (simp add: w_def)
  next
    case (step y z)
    from step.hyps(2) show ?case
      unfolding groupStep_def
    proof cases
      case ns_flows
      then show ?thesis
      proof cases
        case (clientReads k cs)
        with step.IH show ?thesis by auto
      next
        case (serverReads k cs)
        moreover have "k \<noteq> f" using serverReads(2) step.IH bad(2) by (auto simp: nextChunk_def)
        ultimately show ?thesis using step.IH by simp
      qed
    next
      case (ns_clientEnded k)
      with step.IH show ?thesis by (cases "k = f") auto
    next
      case (ns_serverEnded k)
      with step.IH show ?thesis by auto
    qed
  qed
  moreover have "\<exists>w''. groupStep False G w' w'' \<and> fst (leaderRun G (toServer w'')) = Inl TransportException"
    if "toServer w' f = []" "toClient w' f = (bs @ x) # cs" for w' cs
  proof -
    define w'' where "w'' = w'\<lparr>toServer := (toServer w')(f := toServer w' f @ [[]])\<rparr>"
    have "memberEnds G f (toClient w' f)" using bad(1) that(2) by (simp add: memberEnds_def)
    then have "groupStep False G w' w''" unfolding groupStep_def w''_def by (rule ns_clientEnded)
    moreover have "fst (leaderRun G (toServer w'')) = Inl TransportException"
      using two_joins [OF assms, of "toServer w''" TransportException] that(1) by (simp add: w''_def)
    ultimately show ?thesis by blast
  qed
  ultimately show ?thesis using two_joins [OF assms] bad(1) by metis
qed

section \<open>An example\<close>

text \<open>The leader 1 alone; the hosts \<open>b\<close> and \<open>c\<close> connect, and then \<open>b\<close> fails.\<close>

definition exampleGroup :: "leaderEvent list \<Rightarrow> Lab2Group" where
  "exampleGroup evs = \<lparr>grp_config = exampleConfig 1,
     grp_leader = newMembershipService (idleNetwork\<lparr>accepts := [(2, ''b.net'', 51), (3, ''c.net'', 52)]\<rparr>),
     grp_events = evs, grp_memberConfig = (\<lambda>f. exampleConfig (of_nat f)),
     grp_member = (\<lambda>f. (exampleMember [])\<lparr>leaderPeerId := 1\<rparr>)\<rparr>"

lemma exampleGroup_simps [simp]:
  "grp_config (exampleGroup evs) = exampleConfig 1" "grp_events (exampleGroup evs) = evs"
  "grp_memberConfig (exampleGroup evs) f = exampleConfig (of_nat f)"
  "alivePeers (grp_leader (exampleGroup evs)) = {}" "viewId (grp_leader (exampleGroup evs)) = 1"
  "accepts (grp_leader (exampleGroup evs)) = [(2, ''b.net'', 51), (3, ''c.net'', 52)]"
  by (simp_all add: exampleGroup_def example_defs)

lemma exampleGroup_known:
  "getPeerId (exampleInfo 1) (parseHostnameFromSender ''b.net'') = Inr 2"
  "getPeerId (exampleInfo 1) (parseHostnameFromSender ''c.net'') = Inr 3"
  by (simp_all add: parseHostnameFromSender_def getPeerId_def exampleInfo_maps)

lemma exampleGroup_ok:
  assumes "joinsKnown (exampleConfig 1) evs [(2, ''b.net'', 51), (3, ''c.net'', 52)] {}"
  shows "groupSystem (exampleGroup evs)"
proof -
  let ?s = "grp_leader (exampleGroup evs)"
  have map: "tcpClientMap ?s = Map.empty" "leaderPeerId ?s = 1" "sent ?s = []" "sendFails ?s f = False" for f
    by (simp_all add: exampleGroup_def example_defs)
  have "peersSeen (exampleConfig 1) ?s = {1, 2, 3}"
    using exampleGroup_known by (auto simp: peersSeen_def map)
  moreover have "groupOk (exampleConfig 1) ?s" by (rule groupOkI) (simp_all add: map)
  ultimately have "canGoOn (exampleConfig 1) evs ?s"
    using assms by (simp add: canGoOn_def map MAX_PEERS_def)
  moreover have "leading (\<lambda>f. me (exampleConfig (of_nat f))) (exampleConfig 1) ?s"
    by (rule leadingI) (auto simp: map exampleGroup_known)
  ultimately show ?thesis
    by (simp add: groupSystem_def map) (simp add: exampleGroup_def example_defs)
qed

lemma exampleGroup_events:
  "groupSystem (exampleGroup [PeerJoins, PeerJoins, PeerFails 2])" "groupSystem (exampleGroup [PeerJoins, PeerJoins])"
  by (rule exampleGroup_ok, simp add: exampleGroup_known)+

theorem group_does_not_fault_witness:
  "\<exists>w. reaches True (exampleGroup [PeerJoins, PeerJoins, PeerFails 2]) w \<and>
    fst (memberRun (exampleGroup [PeerJoins, PeerJoins, PeerFails 2]) 2 (toClient w 2)) = Inl Blocked"
  using reaches_end [OF exampleGroup_events(1)] group_does_not_fault [OF exampleGroup_events(1)] by blast

theorem group_installs_last_view_witness:
  "\<exists>w f u. reaches True (exampleGroup [PeerJoins, PeerJoins, PeerFails 2]) w \<and>
    snd (memberRun (exampleGroup [PeerJoins, PeerJoins, PeerFails 2]) f (toClient w f)) = u \<and> viewId u = 4 \<and>
    getGroupMembers (exampleConfig (of_nat f)) u = {1, 3}"
proof -
  let ?G = "exampleGroup [PeerJoins, PeerJoins, PeerFails 2]"
  obtain w where w: "reaches True ?G w" "\<And>f. drained (leaderSends ?G) (memberSends ?G) w f"
    using reaches_end [OF exampleGroup_events(1)] by blast
  have three: "{3, 2} - {2} = {3 :: PeerId}" by auto
  define t where "t = snd (leaderRun ?G (toServer w))"
  have "grp_events ?G \<noteq> []" by simp
  note result = group_installs_last_view [OF exampleGroup_events(1) w(1) this t_def w(2)]
  have t: "viewId t = 4" "alivePeers t = {3}" using result by (simp_all add: exampleGroup_known three)
  have m: "\<forall>q \<in> alivePeers t. let f = fdOf t q; u = snd (memberRun ?G f (toClient w f)) in
       viewId u = viewId t \<and> getGroupMembers (grp_memberConfig ?G f) u = getGroupMembers (grp_config ?G) t"
    using result by blast
  have "getGroupMembers (exampleConfig 1) t = {1, 3}" by (simp add: getGroupMembers_def t(2))
  then show ?thesis using m w(1) by (auto simp: t Let_def)
qed

theorem group_runs_end_witness:
  "(0 :: nat) \<le> 4 * MAX_PEERS * length (grp_events (exampleGroup [PeerJoins, PeerJoins])) \<and>
   (\<exists>w'. groupStep True (exampleGroup [PeerJoins, PeerJoins]) noTraffic w') \<and>
   (\<exists>!e. reaches True (exampleGroup [PeerJoins, PeerJoins]) e \<and>
      (\<forall>f. drained (leaderSends (exampleGroup [PeerJoins, PeerJoins])) (memberSends (exampleGroup [PeerJoins, PeerJoins])) e f))"
proof -
  let ?G = "exampleGroup [PeerJoins, PeerJoins]"
  obtain bs x where "leaderSends ?G (toServer noTraffic) 2 = [bs, x]" "bs \<noteq> []"
    using two_joins [OF exampleGroup_events(2), of "[]" 2 "''b.net''" 51 "[(3, ''c.net'', 52)]" "toServer noTraffic" Blocked]
      isViewMsg_ne by auto
  then have "\<not> drained (leaderSends ?G) (memberSends ?G) noTraffic 2" by (simp add: drained_def)
  with group_runs_end [OF exampleGroup_events(2), of 0 noTraffic 2] show ?thesis by auto
qed

theorem coalesced_messages_end_group_witness:
  "\<exists>w. reaches False (exampleGroup [PeerJoins, PeerJoins]) w \<and>
    fst (memberRun (exampleGroup [PeerJoins, PeerJoins]) 2 (toClient w 2)) = Inl CheckFailed \<and>
    viewId (snd (leaderRun (exampleGroup [PeerJoins, PeerJoins]) (toServer w))) = 2"
  using coalesced_messages_end_group [OF exampleGroup_events(2), of "[]" 2 "''b.net''" 51 "[(3, ''c.net'', 52)]"] by auto

end
