(* ===== verification/Lab1Net.thy ===== *)
theory Lab1Net
  imports Net Snapshot
begin

text \<open>
  The sockets of lab1 (\<open>common/network_utils.cpp\<close>), over the scripts of system calls of \<open>Net\<close>. They
  differ from those of lab2 in what they do about errors: constructors try for ever, sends only log,
  and a closed connection yields an empty message. At the end the connections of the snapshot service,
  which \<open>Snapshot\<close> leaves out: the markers that it sends, and the message that a marker thread
  receives.
\<close>

record Lab1Network = Network +
  connects :: "hostname \<Rightarrow> bool list"

section \<open>Datagrams\<close>

definition udpSenderSocket_lab1 :: "attempt \<Rightarrow> fd res" where
  "udpSenderSocket_lab1 a =
     (case a of
        NoSuchHost \<Rightarrow> Inl RuntimeError
      | Addresses rs _ \<Rightarrow> (case firstSocket rs of None \<Rightarrow> Inl CheckFailed | Some sendFD \<Rightarrow> Inr sendFD))"

text \<open>The loop of the constructor, which only a socket or a failed \<open>CHECK\<close> ends.\<close>

fun udpSenderLoop_lab1 :: "attempt list \<Rightarrow> fd res \<times> attempt list" where
  "udpSenderLoop_lab1 [] = (Inl Blocked, [])"
| "udpSenderLoop_lab1 (a # as) =
     (case udpSenderSocket_lab1 a of
        Inr sendFD \<Rightarrow> (Inr sendFD, as)
      | Inl e \<Rightarrow> if isRuntimeError e then udpSenderLoop_lab1 as else (Inl e, as))"

definition newUDPSender_lab1 :: "hostname \<Rightarrow> (fd, 'z Network_scheme) act" where
  "newUDPSender_lab1 serverHost s =
     (case udpSenderLoop_lab1 (attempts s serverHost) of
        (r, as) \<Rightarrow> (r, s\<lparr>attempts := (attempts s)(serverHost := as)\<rparr>))"

definition udpSenderSend_lab1 :: "fd \<Rightarrow> byte list \<Rightarrow> (unit, 'z Network_scheme) act" where
  "udpSenderSend_lab1 sendFD buff s =
     (Inr (), if sendFails s sendFD then s else s\<lparr>sent := sent s @ [(sendFD, buff)]\<rparr>)"

text \<open>The variant for strings, which lab1 does not use.\<close>

definition udpSenderSendString_lab1 :: "fd \<Rightarrow> string \<Rightarrow> (unit, 'z Network_scheme) act" where
  "udpSenderSendString_lab1 sendFD message s =
     (Inr (), if sendFails s sendFD then s else s\<lparr>sent := sent s @ [(sendFD, map of_char message)]\<rparr>)"

text \<open>\<open>None\<close>: \<open>getaddrinfo\<close> fails.\<close>

fun udpReceiverSocket_lab1 :: "(fd option \<times> bool) list option \<Rightarrow> fd res" where
  "udpReceiverSocket_lab1 None = Inl CheckFailed"
| "udpReceiverSocket_lab1 (Some []) = Inl CheckFailed"
| "udpReceiverSocket_lab1 (Some ((None, bound) # rs)) = udpReceiverSocket_lab1 (Some rs)"
| "udpReceiverSocket_lab1 (Some ((Some recvFD, bound) # rs)) =
     (if bound then Inr recvFD else udpReceiverSocket_lab1 (Some rs))"

text \<open>The bytes written to the buffer of \<open>n\<close> bytes, and the name of the sender.\<close>

definition udpReceive_lab1 :: "nat \<Rightarrow> (byte list \<times> string) option \<Rightarrow> (byte list \<times> string) res" where
  "udpReceive_lab1 n r =
     (case r of None \<Rightarrow> Inl RuntimeError | Some (bs, receivedFrom) \<Rightarrow> Inr (take n bs, receivedFrom))"

section \<open>Connections\<close>

text \<open>
  \<open>bindSocketToFd\<close>. The callers do not initialise \<open>*serverAddrInfo\<close>, which the \<open>CHECK\<close> reads when no
  socket could be created.
\<close>

definition bindSocketToFd_lab1 :: "attempt \<Rightarrow> fd res" where
  "bindSocketToFd_lab1 a =
     (case a of
        NoSuchHost \<Rightarrow> Inl RuntimeError
      | Addresses rs _ \<Rightarrow> (case firstSocket rs of None \<Rightarrow> Inl UndefinedBehaviour | Some sockFd \<Rightarrow> Inr sockFd))"

definition serverSocket_lab1 :: "serverSetup \<Rightarrow> fd res" where
  "serverSocket_lab1 su =
     rbind (bindSocketToFd_lab1 (su_addresses su)) (\<lambda>sockFd.
     rbind (check (su_setsockopt su)) (\<lambda>_.
     rbind (check (su_bind su)) (\<lambda>_.
     rbind (check (su_listen su)) (\<lambda>_. Inr sockFd))))"

definition newTcpServer_lab1 :: "(fd, 'z Network_scheme) act" where
  "newTcpServer_lab1 s =
     (case servers s of
        [] \<Rightarrow> (Inl Blocked, s)
      | su # sus \<Rightarrow> (serverSocket_lab1 su, s\<lparr>servers := sus\<rparr>))"

definition acceptedClient_lab1 :: "string \<Rightarrow> nat \<Rightarrow> fd \<Rightarrow> TcpClient res" where
  "acceptedClient_lab1 hostname port sockFd =
     (if hostname = [] then Inl FatalLog
      else Inr \<lparr>tc_hostname = hostname, tc_port = port, tc_sockFd = sockFd\<rparr>)"

definition tcpAccept_lab1 :: "(TcpClient, 'z Network_scheme) act" where
  "tcpAccept_lab1 s =
     (case accepts s of
        [] \<Rightarrow> (Inl Blocked, s)
      | (clientFd, hostname, clientPort) # as \<Rightarrow>
          (acceptedClient_lab1 hostname clientPort clientFd, s\<lparr>accepts := as\<rparr>))"

text \<open>The loop that calls \<open>connect\<close> until it succeeds.\<close>

fun connectUntil :: "bool list \<Rightarrow> bool list option" where
  "connectUntil [] = None"
| "connectUntil (ok # oks) = (if ok then Some oks else connectUntil oks)"

definition newTcpClient_lab1 :: "hostname \<Rightarrow> nat \<Rightarrow> (TcpClient, 'z Lab1Network_scheme) act" where
  "newTcpClient_lab1 hostname port s =
     (if hostname = [] then (Inl FatalLog, s)
      else case attempts s hostname of
        [] \<Rightarrow> (Inl Blocked, s)
      | a # as \<Rightarrow>
          (let s = s\<lparr>attempts := (attempts s)(hostname := as)\<rparr>
           in case bindSocketToFd_lab1 a of
                Inl e \<Rightarrow> (Inl e, s)
              | Inr sockFd \<Rightarrow>
                  (case connectUntil (connects s hostname) of
                     None \<Rightarrow> (Inl Blocked, s\<lparr>connects := (connects s)(hostname := [])\<rparr>)
                   | Some oks \<Rightarrow> (Inr \<lparr>tc_hostname = hostname, tc_port = port, tc_sockFd = sockFd\<rparr>,
                                 s\<lparr>connects := (connects s)(hostname := oks)\<rparr>))))"

definition tcpSend_lab1 :: "TcpClient \<Rightarrow> byte list \<Rightarrow> (unit, 'z Network_scheme) act" where
  "tcpSend_lab1 client buff s =
     (Inr (), if sendFails s (tc_sockFd client) then s else s\<lparr>sent := sent s @ [(tc_sockFd client, buff)]\<rparr>)"

definition tcpReceive_lab1 :: "TcpClient \<Rightarrow> (Message, 'z Network_scheme) act" where
  "tcpReceive_lab1 client s =
     (case recvs s (tc_sockFd client) of
        [] \<Rightarrow> (Inl Blocked, s)
      | r # rs \<Rightarrow>
          (let s = s\<lparr>recvs := (recvs s)(tc_sockFd client := rs)\<rparr>
           in case r of
                None \<Rightarrow> (Inl RuntimeError, s)
              | Some bs \<Rightarrow> (Inr (received bs (memory s) (tc_hostname client)), s)))"

text \<open>The \<open>close\<close> of the four classes.\<close>

definition udpSenderClose_lab1 :: "fd \<Rightarrow> (unit, 'z Network_scheme) act" where
  "udpSenderClose_lab1 sendFD = closeSocket sendFD"

definition udpReceiverClose_lab1 :: "fd \<Rightarrow> (unit, 'z Network_scheme) act" where
  "udpReceiverClose_lab1 recvFD = closeSocket recvFD"

definition tcpServerClose_lab1 :: "fd \<Rightarrow> (unit, 'z Network_scheme) act" where
  "tcpServerClose_lab1 sockFd = closeSocket sockFd"

definition tcpClientClose_lab1 :: "TcpClient \<Rightarrow> (unit, 'z Network_scheme) act" where
  "tcpClientClose_lab1 client = closeSocket (tc_sockFd client)"

lemma connectUntil_refused: "set pre \<subseteq> {False} \<Longrightarrow> connectUntil (pre @ True # oks) = Some oks"
  by (induction pre) auto

lemma udpSenderLoop_lab1_retries:
  "set pre \<subseteq> {NoSuchHost} \<Longrightarrow> firstSocket rs = Some sendFD \<Longrightarrow>
   udpSenderLoop_lab1 (pre @ Addresses rs c # as) = (Inr sendFD, as)"
  by (induction pre) (auto simp: udpSenderSocket_lab1_def isRuntimeError_def)

section \<open>The connections of the snapshot service\<close>

definition SNAPSHOT_PORT :: nat where
  "SNAPSHOT_PORT = 10002"

text \<open>The loop of \<open>sendMarkerMessageToPeers\<close>, over the peers and the marker for each.\<close>

definition sendMarkersOverTcp :: "markers \<Rightarrow> (unit, 'z Lab1Network_scheme) act" where
  "sendMarkersOverTcp ms =
     forEach ms (\<lambda>(peer, buffer).
       andThen (newTcpClient_lab1 peer SNAPSHOT_PORT) (\<lambda>tcpClient.
       andThen (tcpSend_lab1 tcpClient buffer) (\<lambda>_. tcpClientClose_lab1 tcpClient)))"

text \<open>The beginning of a marker thread; the local state is taken when it is needed.\<close>

definition markerThread ::
  "endian \<Rightarrow> TcpClient \<Rightarrow> string \<Rightarrow> SnapshotService \<Rightarrow> (SnapshotService \<times> markers, 'z Lab1Network_scheme) act" where
  "markerThread en client stateNow svc =
     andThen (tcpReceive_lab1 client) (\<lambda>msg. lift (markerReceived en msg stateNow svc))"

text \<open>A peer to which a connection can be made, after any number of refusals.\<close>

definition willAccept :: "'z Lab1Network_scheme \<Rightarrow> hostname \<Rightarrow> fd \<Rightarrow> bool" where
  "willAccept s h f \<longleftrightarrow> h \<noteq> [] \<and> \<not> sendFails s f \<and>
     (\<exists>rs c as pre oks. attempts s h = Addresses rs c # as \<and> firstSocket rs = Some f \<and>
        connects s h = pre @ True # oks \<and> set pre \<subseteq> {False})"

lemma sendMarkersOverTcp_all:
  assumes "distinct (map fst ms)" and "\<forall>m \<in> set ms. willAccept s (fst m) (to (fst m))"
  shows "\<exists>s'. sendMarkersOverTcp ms s = (Inr (), s') \<and>
    sent s' = sent s @ map (\<lambda>(peer, buffer). (to peer, buffer)) ms \<and>
    closed s' = closed s @ map (\<lambda>(peer, buffer). to peer) ms"
  using assms
proof (induction ms arbitrary: s)
  case Nil
  then show ?case by (simp add: sendMarkersOverTcp_def act_basic)
next
  case (Cons m ms)
  obtain h buffer where m: "m = (h, buffer)" by (cases m)
  from Cons.prems(2) obtain rs c as pre oks where w: "h \<noteq> []" "\<not> sendFails s (to h)"
    "attempts s h = Addresses rs c # as" "firstSocket rs = Some (to h)"
    "connects s h = pre @ True # oks" "set pre \<subseteq> {False}"
    by (auto simp: m willAccept_def)
  define s1 where "s1 = s\<lparr>attempts := (attempts s)(h := as), connects := (connects s)(h := oks),
      sent := sent s @ [(to h, buffer)], closed := closed s @ [to h]\<rparr>"
  have step: "andThen (newTcpClient_lab1 h SNAPSHOT_PORT) (\<lambda>tcpClient.
      andThen (tcpSend_lab1 tcpClient buffer) (\<lambda>_. tcpClientClose_lab1 tcpClient)) s = (Inr (), s1)"
    using w by (simp add: newTcpClient_lab1_def bindSocketToFd_lab1_def connectUntil_refused andThen_def
        tcpSend_lab1_def tcpClientClose_lab1_def closeSocket_def act_basic s1_def)
  have "\<forall>m \<in> set ms. willAccept s1 (fst m) (to (fst m))"
  proof
    fix m' assume "m' \<in> set ms"
    then have "fst m' \<noteq> h" "willAccept s (fst m') (to (fst m'))" using Cons.prems by (auto simp: m)
    then show "willAccept s1 (fst m') (to (fst m'))" by (simp add: willAccept_def s1_def)
  qed
  with Cons.IH [of s1] Cons.prems(1) obtain s' where
    "sendMarkersOverTcp ms s1 = (Inr (), s')" "sent s' = sent s1 @ map (\<lambda>(peer, buffer). (to peer, buffer)) ms"
    "closed s' = closed s1 @ map (\<lambda>(peer, buffer). to peer) ms"
    by auto
  with step show ?case by (auto simp: sendMarkersOverTcp_def m andThen_apply s1_def)
qed

text \<open>
  A local snapshot reaches every peer: as soon as the peers accept connections, however often they
  have refused before, each has got one marker of this process, and the connections are closed.
\<close>

lemma snapshot_markers_arrive:
  assumes "takeLocalSnapshot en stateNow channels svc = (svc', ms)" and "distinct (allPeers svc)"
    and "\<forall>h \<in> set (allPeers svc). willAccept s h (to h)"
  shows "\<exists>s'. sendMarkersOverTcp ms s = (Inr (), s') \<and>
    sent s' = sent s @ map (\<lambda>h. (to h, markerBytes (ss_senderId svc))) (allPeers svc) \<and>
    closed s' = closed s @ map to (allPeers svc)"
proof -
  have ms: "ms = map (\<lambda>h. (h, markerBytes (ss_senderId svc))) (allPeers svc)"
    using assms(1) by (auto simp: takeLocalSnapshot_def Let_def sendMarkerMessageToPeers_def createMarkerMessage_def
        markerBytes_def marker_codec.ser_image sizeof_MarkerMessage_def fieldsMarkerMessage_def)
  have "distinct (map fst ms)" using assms(2) by (simp add: ms comp_def)
  moreover have "\<forall>m \<in> set ms. willAccept s (fst m) (to (fst m))" using assms(3) by (auto simp: ms)
  ultimately show ?thesis using sendMarkersOverTcp_all [of ms s to] by (auto simp: ms comp_def)
qed

text \<open>A peer that closes its connection without a marker makes the process abort.\<close>

lemma closed_peer_aborts:
  assumes "recvs s (tc_sockFd client) = Some [] # rest"
  shows "fst (markerThread en client stateNow svc s) = Inl CheckFailed"
  using assms
  by (simp add: markerThread_def tcpReceive_lab1_def andThen_def act_basic markerReceived_def getMessageType_def
      getTypeWord_def)

end
