(* ===== verification/Resolver.thy ===== *)
theory Resolver
  imports Lab1Net Decimal
begin

text \<open>
  The names of hosts: \<open>getCurrentHostname\<close> and the look-ups of names and ports from socket addresses, of
  the three labs, over the calls \<open>gethostname\<close> and \<open>getnameinfo\<close> of the C library, which are arguments.
  The scripts of \<open>Net\<close>, \<open>Lab1Net\<close> and \<open>Heartbeat\<close> hold accepted connections and datagrams with names and
  numeric ports; here is when the code gets them.
\<close>

section \<open>Strings in buffers\<close>

definition NUL :: char where
  "NUL = CHR 0x00"

text \<open>The construction of a \<open>std::string\<close> from a character array.\<close>

definition cString :: "string \<Rightarrow> string res" where
  "cString buffer =
     (if NUL \<in> set buffer then Inr (takeWhile (\<lambda>c. c \<noteq> NUL) buffer) else Inl UndefinedBehaviour)"

lemma cString_terminated: "NUL \<notin> set s \<Longrightarrow> cString (s @ NUL # junk) = Inr s"
  by (auto simp: cString_def takeWhile_append)

section \<open>The own name\<close>

definition HOST_NAME_MAX :: nat where
  "HOST_NAME_MAX = 64"

text \<open>\<open>gethostname\<close>: the size of the array, the status and the array afterwards.\<close>

type_synonym hostCall = "nat \<Rightarrow> int \<times> string"

definition getCurrentContainerHostname :: "hostCall \<Rightarrow> string res" where
  "getCurrentContainerHostname gethostname =
     (case gethostname HOST_NAME_MAX of (errorCode, hostname) \<Rightarrow>
        if errorCode \<noteq> 0 then Inl FatalLog else cString hostname)"

definition getCurrentHostname_lab1 :: "hostCall \<Rightarrow> string res" where
  "getCurrentHostname_lab1 gethostname =
     (case gethostname HOST_NAME_MAX of (status, hostname) \<Rightarrow>
        rbind (check (status = 0)) (\<lambda>_. cString hostname))"

definition getCurrentHostname :: "hostCall \<Rightarrow> string res" where
  "getCurrentHostname gethostname =
     (case gethostname HOST_NAME_MAX of (status, hostname) \<Rightarrow>
        rbind (check (status = 0)) (\<lambda>_. cString hostname))"

text \<open>
  What the manual of \<open>gethostname\<close> promises: the name with its final zero if the array is large enough,
  an error otherwise.
\<close>

definition namesHost :: "hostCall \<Rightarrow> string \<Rightarrow> bool" where
  "namesHost gethostname name \<longleftrightarrow> NUL \<notin> set name \<and>
     (\<forall>size. if length name < size then \<exists>junk. gethostname size = (0, name @ NUL # junk)
             else fst (gethostname size) \<noteq> 0)"

lemma current_hostname:
  assumes "namesHost g name"
  shows "getCurrentHostname g = (if length name < 64 then Inr name else Inl CheckFailed)"
    and "getCurrentHostname_lab1 g = (if length name < 64 then Inr name else Inl CheckFailed)"
    and "getCurrentContainerHostname g = (if length name < 64 then Inr name else Inl FatalLog)"
proof -
  have size: "if length name < 64 then \<exists>junk. g 64 = (0, name @ NUL # junk) else fst (g 64) \<noteq> 0"
    using assms unfolding namesHost_def by blast
  have nul: "NUL \<notin> set name" using assms by (simp add: namesHost_def)
  note defs = getCurrentHostname_def getCurrentHostname_lab1_def getCurrentContainerHostname_def HOST_NAME_MAX_def
  show "getCurrentHostname g = (if length name < 64 then Inr name else Inl CheckFailed)"
    and "getCurrentHostname_lab1 g = (if length name < 64 then Inr name else Inl CheckFailed)"
    and "getCurrentContainerHostname g = (if length name < 64 then Inr name else Inl FatalLog)"
    using size by (auto simp: defs cString_terminated [OF nul] split: if_splits prod.splits)
qed

section \<open>Names and ports of socket addresses\<close>

text \<open>
  \<open>getnameinfo\<close> without flags: the address and its size, the sizes of the two arrays; the status and the
  arrays afterwards. The callers pass \<open>sizeof(struct sockaddr)\<close>.
\<close>

type_synonym 'a nameCall = "'a \<Rightarrow> nat \<Rightarrow> nat \<Rightarrow> nat \<Rightarrow> int \<times> string \<times> string"

definition sizeof_sockaddr :: nat where
  "sizeof_sockaddr = 16"

definition getHostnameFromSocket_lab0 :: "'a nameCall \<Rightarrow> 'a \<Rightarrow> string res" where
  "getHostnameFromSocket_lab0 getnameinfo sockaddr =
     (case getnameinfo sockaddr sizeof_sockaddr (HOST_NAME_MAX + 1) 0 of (rv, host, _) \<Rightarrow>
        if rv \<noteq> 0 then Inl FatalLog else cString host)"

definition getHostnameFromSocket_lab1 :: "'a nameCall \<Rightarrow> 'a \<Rightarrow> string res" where
  "getHostnameFromSocket_lab1 getnameinfo sockaddr =
     (case getnameinfo sockaddr sizeof_sockaddr (HOST_NAME_MAX + 1) 0 of (rv, host, _) \<Rightarrow>
        rbind (check (rv = 0)) (\<lambda>_. cString host))"

definition getServiceNameFromSocket_lab1 :: "'a nameCall \<Rightarrow> 'a \<Rightarrow> string res" where
  "getServiceNameFromSocket_lab1 getnameinfo sockaddr =
     (case getnameinfo sockaddr sizeof_sockaddr 0 (HOST_NAME_MAX + 1) of (rv, _, port) \<Rightarrow>
        rbind (check (rv = 0)) (\<lambda>_. cString port))"

definition getHostnameFromSocket :: "'a nameCall \<Rightarrow> 'a \<Rightarrow> string res" where
  "getHostnameFromSocket getnameinfo sockaddr =
     (case getnameinfo sockaddr sizeof_sockaddr (HOST_NAME_MAX + 1) 0 of (rv, host, _) \<Rightarrow>
        rbind (check (rv = 0)) (\<lambda>_. cString host))"

definition getServiceNameFromSocket :: "'a nameCall \<Rightarrow> 'a \<Rightarrow> string res" where
  "getServiceNameFromSocket getnameinfo sockaddr =
     (case getnameinfo sockaddr sizeof_sockaddr 0 (HOST_NAME_MAX + 1) of (rv, _, port) \<Rightarrow>
        rbind (check (rv = 0)) (\<lambda>_. cString port))"

text \<open>\<open>std::stoi\<close>: white space, a sign, digits; what follows is ignored.\<close>

definition isSpace :: "char \<Rightarrow> bool" where
  "isSpace c \<longleftrightarrow> c \<in> {CHR '' '', CHR 0x09, CHR 0x0A, CHR 0x0B, CHR 0x0C, CHR 0x0D}"

fun signedDigits :: "string \<Rightarrow> bool \<times> string" where
  "signedDigits [] = (False, [])"
| "signedDigits (c # cs) =
     (if c = CHR ''-'' then (True, takeWhile is_digit cs)
      else if c = CHR ''+'' then (False, takeWhile is_digit cs)
      else (False, takeWhile is_digit (c # cs)))"

definition stoi :: "string \<Rightarrow> int res" where
  "stoi s =
     (case signedDigits (dropWhile isSpace s) of (negative, digits) \<Rightarrow>
        let n = (if negative then - int (read_nat digits) else int (read_nat digits))
        in if digits = [] then Inl InvalidArgument
           else if n < - (2 ^ 31) \<or> 2 ^ 31 \<le> n then Inl OutOfRange
           else Inr n)"

text \<open>
  A call of \<open>accept\<close> and a call of \<open>recvfrom\<close>, with the addresses. The result of \<open>accept\<close> is not looked at:
  after an error (\<open>None\<close>) the address has no value.
\<close>

definition acceptFrom :: "'a nameCall \<Rightarrow> (fd \<times> 'a) option \<Rightarrow> TcpClient res" where
  "acceptFrom getnameinfo r =
     (case r of
        None \<Rightarrow> Inl UndefinedBehaviour
      | Some (clientFd, clientAddr) \<Rightarrow>
          rbind (getHostnameFromSocket getnameinfo clientAddr) (\<lambda>clientHostname.
          rbind (getServiceNameFromSocket getnameinfo clientAddr) (\<lambda>serviceName.
          rbind (stoi serviceName) (\<lambda>clientPort.
            acceptedClient clientFd clientHostname (nat clientPort)))))"

definition acceptFrom_lab1 :: "'a nameCall \<Rightarrow> (fd \<times> 'a) option \<Rightarrow> TcpClient res" where
  "acceptFrom_lab1 getnameinfo r =
     (case r of
        None \<Rightarrow> Inl UndefinedBehaviour
      | Some (clientFd, clientAddr) \<Rightarrow>
          rbind (getHostnameFromSocket_lab1 getnameinfo clientAddr) (\<lambda>clientHostname.
          rbind (getServiceNameFromSocket_lab1 getnameinfo clientAddr) (\<lambda>serviceName.
          rbind (stoi serviceName) (\<lambda>clientPort.
            acceptedClient_lab1 clientHostname (nat clientPort) clientFd))))"

definition udpReceiveFrom :: "'a nameCall \<Rightarrow> byte list \<Rightarrow> (byte list \<times> 'a) option \<Rightarrow> Message res" where
  "udpReceiveFrom getnameinfo junk r =
     (case r of
        None \<Rightarrow> Inl TransportException
      | Some (bs, their_addr) \<Rightarrow>
          rbind (getHostnameFromSocket getnameinfo their_addr) (\<lambda>receivedFrom.
            Inr (received bs junk receivedFrom)))"

section \<open>When a connection has a name and a port\<close>

text \<open>An address whose host has a name and whose port has the given text: a number, or a service.\<close>

definition resolvesTo :: "'a nameCall \<Rightarrow> 'a \<Rightarrow> string \<Rightarrow> string \<Rightarrow> bool" where
  "resolvesTo getnameinfo addr host port \<longleftrightarrow> NUL \<notin> set host \<and> NUL \<notin> set port \<and>
     (\<exists>serv junk. getnameinfo addr sizeof_sockaddr (HOST_NAME_MAX + 1) 0 = (0, host @ NUL # junk, serv)) \<and>
     (\<exists>h junk. getnameinfo addr sizeof_sockaddr 0 (HOST_NAME_MAX + 1) = (0, h, port @ NUL # junk))"

lemma resolvesTo_names:
  assumes "resolvesTo g addr host port"
  shows "getHostnameFromSocket g addr = Inr host" "getHostnameFromSocket_lab1 g addr = Inr host"
    "getHostnameFromSocket_lab0 g addr = Inr host"
    "getServiceNameFromSocket g addr = Inr port" "getServiceNameFromSocket_lab1 g addr = Inr port"
  using assms by (auto simp: resolvesTo_def getHostnameFromSocket_def getHostnameFromSocket_lab1_def
      getHostnameFromSocket_lab0_def getServiceNameFromSocket_def getServiceNameFromSocket_lab1_def cString_terminated)

lemma show_nat_ne: "show_nat n \<noteq> []"
  by (subst show_nat.simps) simp

lemma is_digit_char:
  assumes "is_digit c"
  shows "\<not> isSpace c" "c \<noteq> CHR ''-''" "c \<noteq> CHR ''+''"
  using assms by (auto simp: is_digit_def isSpace_def)

lemma signedDigits_number:
  assumes "\<forall>c \<in> set ds. is_digit c" and "ds \<noteq> []"
  shows "signedDigits (dropWhile isSpace ds) = (False, ds)"
proof -
  obtain c cs where ds: "ds = c # cs" using assms(2) by (cases ds) auto
  have c: "is_digit c" using assms(1) ds by simp
  have "takeWhile is_digit ds = ds" using assms(1) by simp
  with is_digit_char [OF c] show ?thesis by (simp add: ds)
qed

lemma stoi_number:
  assumes "n < 2 ^ 31"
  shows "stoi (show_nat n) = Inr (int n)"
proof -
  have "signedDigits (dropWhile isSpace (show_nat n)) = (False, show_nat n)"
    by (rule signedDigits_number) (auto simp: show_nat_digits show_nat_ne)
  with assms show ?thesis by (simp add: stoi_def show_nat_ne)
qed

lemma stoi_name:
  assumes "c \<notin> {CHR ''-'', CHR ''+''}" and "\<not> isSpace c" and "\<not> is_digit c"
  shows "stoi (c # cs) = Inl InvalidArgument"
  using assms by (simp add: stoi_def)

text \<open>
  Accepted connections. If the look-ups give a name and a numeric port, \<open>accept\<close> yields the
  connection with this name and port, and a datagram its sender, as the scripts of the other theories
  have it. The port is looked up as a service, though: for a port that has a name the conversion to a
  number throws, which nothing catches.
\<close>

theorem accept_needs_numeric_port:
  assumes "resolvesTo g addr host port"
  shows "(\<forall>n. port = show_nat n \<and> n < 2 ^ 31 \<longrightarrow>
      acceptFrom g (Some (f, addr)) = acceptedClient f host n \<and>
      acceptFrom_lab1 g (Some (f, addr)) = acceptedClient_lab1 host n f \<and>
      udpReceiveFrom g junk (Some (bs, addr)) = udpReceive junk (Some (bs, host))) \<and>
    (\<forall>c cs. port = c # cs \<and> c \<notin> {CHR ''-'', CHR ''+''} \<and> \<not> isSpace c \<and> \<not> is_digit c \<longrightarrow>
      acceptFrom g (Some (f, addr)) = Inl InvalidArgument \<and>
      acceptFrom_lab1 g (Some (f, addr)) = Inl InvalidArgument)"
  by (auto simp: acceptFrom_def acceptFrom_lab1_def udpReceiveFrom_def udpReceive_def
      resolvesTo_names [OF assms] stoi_number stoi_name)

text \<open>A resolver that knows one host, on two ports of which one is registered.\<close>

definition exampleResolver :: "nat nameCall" where
  "exampleResolver port addrlen hostlen servlen =
     (0, ''b.net'' @ [NUL], (if port = 6000 then ''x11'' else show_nat port) @ [NUL])"

lemma exampleResolver_resolves:
  "resolvesTo exampleResolver 40000 ''b.net'' (show_nat 40000)" "resolvesTo exampleResolver 6000 ''b.net'' ''x11''"
proof -
  have "\<not> is_digit NUL" by (simp add: is_digit_def NUL_def)
  then have "NUL \<notin> set (show_nat 40000)" using show_nat_digits by blast
  then show "resolvesTo exampleResolver 40000 ''b.net'' (show_nat 40000)" "resolvesTo exampleResolver 6000 ''b.net'' ''x11''"
    by (auto simp: resolvesTo_def exampleResolver_def NUL_def)
qed

theorem accept_needs_numeric_port_witness:
  "acceptFrom exampleResolver (Some (7, 40000)) = Inr \<lparr>tc_hostname = ''b.net'', tc_port = 40000, tc_sockFd = 7\<rparr> \<and>
   acceptFrom exampleResolver (Some (7, 6000)) = Inl InvalidArgument"
  using accept_needs_numeric_port [OF exampleResolver_resolves(1), of 7 "[]" "[]"]
    accept_needs_numeric_port [OF exampleResolver_resolves(2), of 7 "[]" "[]"]
  by (auto simp: acceptedClient_def isSpace_def is_digit_def)

text \<open>
  The callers pass the size of a \<open>struct sockaddr\<close>, whatever the address. If the look-up fails for
  an address whose size is given too small, as it does for one of IP version 6, then the process
  aborts on every connection and on every datagram from such an address.
\<close>

theorem long_address_aborts:
  assumes "\<And>addrlen h s. addrlen < needed \<Longrightarrow> fst (g addr addrlen h s) \<noteq> 0" and "16 < needed"
  shows "acceptFrom g (Some (f, addr)) = Inl CheckFailed \<and> acceptFrom_lab1 g (Some (f, addr)) = Inl CheckFailed \<and>
    udpReceiveFrom g junk (Some (bs, addr)) = Inl CheckFailed \<and> getHostnameFromSocket_lab0 g addr = Inl FatalLog"
proof -
  obtain rv a b where g: "g addr sizeof_sockaddr (HOST_NAME_MAX + 1) 0 = (rv, a, b)"
    by (cases "g addr sizeof_sockaddr (HOST_NAME_MAX + 1) 0")
  then have "rv \<noteq> 0" using assms(1) [of sizeof_sockaddr "HOST_NAME_MAX + 1" 0] assms(2)
    by (simp add: sizeof_sockaddr_def)
  with g show ?thesis
    by (simp add: acceptFrom_def acceptFrom_lab1_def udpReceiveFrom_def getHostnameFromSocket_def
        getHostnameFromSocket_lab1_def getHostnameFromSocket_lab0_def)
qed

text \<open>A resolver of addresses of 28 bytes.\<close>

definition longResolver :: "nat nameCall" where
  "longResolver addr addrlen hostlen servlen = (if addrlen < 28 then -6 else 0, ''b'' @ [NUL], ''1'' @ [NUL])"

theorem long_address_aborts_witness:
  "acceptFrom longResolver (Some (7, 40000)) = Inl CheckFailed \<and> fst (longResolver 40000 28 65 65) = 0"
  using long_address_aborts [of 28 longResolver 40000 7 "[]" "[]"] by (simp add: longResolver_def)

end
