(* ===== verification/Countdown.thy ===== *)
theory Countdown
  imports Main
begin

text \<open>
  The contract of a failure detector that counts down: every peer that was heard has a number of
  ticks left, a heartbeat sets it to the full number, a tick takes one off all of them or reports one
  peer that has none left, and may then leave out some of the others. The lemmas are what a client
  can rely on: a silent peer is reported, a peer that is heard often enough is not, and a peer that
  was never heard is not.
\<close>

locale countdown =
  fixes step :: "'e \<Rightarrow> 's \<Rightarrow> 's \<times> 'k option"
    and fits :: "'e \<Rightarrow> 's \<Rightarrow> bool"
    and valid :: "'s \<Rightarrow> bool"
    and left :: "'s \<Rightarrow> 'k \<Rightarrow> nat option"
    and beat :: "'e \<Rightarrow> 'k option"
    and full :: nat
  assumes step_valid: "valid s \<Longrightarrow> fits e s \<Longrightarrow> step e s = (s', r) \<Longrightarrow> valid s'"
    and step_beat: "valid s \<Longrightarrow> fits e s \<Longrightarrow> step e s = (s', r) \<Longrightarrow> beat e = Some q \<Longrightarrow>
          r = None \<and> left s' q = Some full \<and> (\<forall>p. p \<noteq> q \<longrightarrow> left s' p = left s p)"
    and step_quiet: "valid s \<Longrightarrow> fits e s \<Longrightarrow> step e s = (s', None) \<Longrightarrow> beat e = None \<Longrightarrow>
          (left s p = None \<longrightarrow> left s' p = None) \<and>
          (\<forall>n. left s p = Some n \<longrightarrow> 0 < n \<and> left s' p = Some (n - 1))"
    and step_report: "valid s \<Longrightarrow> fits e s \<Longrightarrow> step e s = (s', Some q) \<Longrightarrow> beat e = None \<Longrightarrow>
          left s q = Some 0 \<and> left s' q = None \<and>
          (\<forall>p. p \<noteq> q \<longrightarrow> left s' p = left s p \<or> (\<exists>n. left s p = Some (Suc n) \<and> left s' p = Some n))"
begin

fun runs :: "'e list \<Rightarrow> 's \<Rightarrow> 's \<times> 'k list" where
  "runs [] s = (s, [])"
| "runs (e # es) s =
     (case step e s of (s', r) \<Rightarrow> case runs es s' of (s'', rs) \<Rightarrow>
        (s'', (case r of None \<Rightarrow> rs | Some q \<Rightarrow> q # rs)))"

fun allFit :: "'e list \<Rightarrow> 's \<Rightarrow> bool" where
  "allFit [] s \<longleftrightarrow> True"
| "allFit (e # es) s \<longleftrightarrow> fits e s \<and> allFit es (fst (step e s))"

definition ticks :: "'e list \<Rightarrow> nat" where
  "ticks es = length (filter (\<lambda>e. beat e = None) es)"

text \<open>At most \<open>k\<close> ticks until the next heartbeat of \<open>p\<close>, and at most \<open>full\<close> after each one.\<close>

fun heardOften :: "'k \<Rightarrow> nat \<Rightarrow> 'e list \<Rightarrow> bool" where
  "heardOften p k [] \<longleftrightarrow> True"
| "heardOften p k (e # es) \<longleftrightarrow>
     (if beat e = None then 0 < k \<and> heardOften p (k - 1) es
      else heardOften p (if beat e = Some p then full else k) es)"

lemma runs_valid: "valid s \<Longrightarrow> allFit es s \<Longrightarrow> valid (fst (runs es s))"
proof (induction es arbitrary: s)
  case (Cons e es)
  obtain s' r where s': "step e s = (s', r)" by (cases "step e s")
  have "valid s'" by (rule step_valid [OF _ _ s']) (use Cons.prems in simp_all)
  with Cons s' show ?case by (cases "runs es s'") (auto dest: Cons.IH [of s'])
qed simp

lemma step_left:
  assumes "valid s" and "fits e s" and "step e s = (s', r)" and "beat e = None" and "left s p = Some n" and "r \<noteq> Some p"
  shows "\<exists>k. left s' p = Some k \<and> k \<le> n \<and> (r = None \<longrightarrow> k < n) \<and> n \<le> Suc k"
proof (cases r)
  case None
  with step_quiet [of s e s' p] assms show ?thesis by auto
next
  case (Some q)
  with step_report [of s e s' q] assms show ?thesis by auto
qed

text \<open>A silent peer is reported: every tick counts, except those that report another peer.\<close>

lemma silent_left:
  assumes "valid s" and "allFit es s" and "runs es s = (s', rs)" and "left s p = Some n"
    and "\<forall>e \<in> set es. beat e \<noteq> Some p" and "p \<notin> set rs"
  shows "\<exists>k. left s' p = Some k \<and> ticks es + k \<le> n + length rs"
  using assms
proof (induction es arbitrary: s rs n)
  case Nil
  then show ?case by (simp add: ticks_def)
next
  case (Cons e es)
  obtain s1 r where s1: "step e s = (s1, r)" by (cases "step e s")
  obtain rs' where rs': "runs es s1 = (s', rs')" "rs = (case r of None \<Rightarrow> rs' | Some q \<Rightarrow> q # rs')"
    using Cons.prems(3) s1 by (cases "runs es s1") auto
  have v: "valid s1" "fits e s" "allFit es s1" using Cons.prems(1,2) s1 step_valid by auto
  have p: "p \<notin> set rs'" "r \<noteq> Some p" using Cons.prems(6) rs'(2) by (auto split: option.splits)
  show ?case
  proof (cases "beat e")
    case None
    from step_left [OF Cons.prems(1) v(2) s1 None Cons.prems(4) p(2)] obtain k where
      k: "left s1 p = Some k" "k \<le> n" "r = None \<longrightarrow> k < n" by blast
    from Cons.IH [OF v(1,3) rs'(1) k(1) _ p(1)] Cons.prems(5) obtain l where
      "left s' p = Some l" "ticks es + l \<le> k + length rs'" by auto
    with k None rs'(2) show ?thesis by (cases r) (auto simp: ticks_def)
  next
    case (Some q)
    with Cons.prems(5) have "q \<noteq> p" by auto
    with step_beat [OF Cons.prems(1) v(2) s1 Some] Cons.prems(4) have l: "left s1 p = Some n" "r = None" by auto
    from Cons.IH [OF v(1,3) rs'(1) l(1) _ p(1)] Cons.prems(5) l(2) rs'(2) Some show ?thesis
      by (auto simp: ticks_def)
  qed
qed

lemma silent_reported:
  assumes "valid s" and "allFit es s" and "runs es s = (s', rs)" and "left s p = Some n"
    and "\<forall>e \<in> set es. beat e \<noteq> Some p" and "n + length rs < ticks es"
  shows "p \<in> set rs"
  using silent_left [OF assms(1-5)] assms(6) by fastforce

text \<open>A peer that is heard often enough is not reported.\<close>

lemma heard_not_reported:
  assumes "valid s" and "allFit es s" and "runs es s = (s', rs)" and "left s p = Some n" and "k \<le> n"
    and "heardOften p k es"
  shows "p \<notin> set rs"
  using assms
proof (induction es arbitrary: s rs n k)
  case (Cons e es)
  obtain s1 r where s1: "step e s = (s1, r)" by (cases "step e s")
  obtain rs' where rs': "runs es s1 = (s', rs')" "rs = (case r of None \<Rightarrow> rs' | Some q \<Rightarrow> q # rs')"
    using Cons.prems(3) s1 by (cases "runs es s1") auto
  have v: "valid s1" "fits e s" "allFit es s1" using Cons.prems(1,2) s1 step_valid by auto
  show ?case
  proof (cases "beat e")
    case None
    have k: "0 < k" "heardOften p (k - 1) es" using Cons.prems(6) None by simp_all
    have r: "r \<noteq> Some p"
      using step_report [of s e s1 p] Cons.prems(1,4,5) v(2) s1 None k(1) by auto
    from step_left [OF Cons.prems(1) v(2) s1 None Cons.prems(4) r] obtain m where
      m: "left s1 p = Some m" "n \<le> Suc m" by blast
    have "k - 1 \<le> m" using m(2) Cons.prems(5) by simp
    from Cons.IH [OF v(1,3) rs'(1) m(1) this k(2)] r rs'(2) show ?thesis by (auto split: option.splits)
  next
    case (Some q)
    from step_beat [OF Cons.prems(1) v(2) s1 Some] have
      b: "r = None" "left s1 q = Some full" "p \<noteq> q \<Longrightarrow> left s1 p = Some n" using Cons.prems(4) by auto
    show ?thesis
    proof (cases "q = p")
      case True
      with Cons.prems(6) Some have "heardOften p full es" by simp
      from Cons.IH [OF v(1,3) rs'(1) _ le_refl this] b True rs'(2) show ?thesis by simp
    next
      case False
      with Cons.prems(6) Some have "heardOften p k es" by simp
      from Cons.IH [OF v(1,3) rs'(1) _ Cons.prems(5) this] b False rs'(2) show ?thesis by simp
    qed
  qed
qed simp

text \<open>A peer that is not known and not heard is not reported.\<close>

lemma unheard_not_reported:
  assumes "valid s" and "allFit es s" and "runs es s = (s', rs)" and "left s p = None"
    and "\<forall>e \<in> set es. beat e \<noteq> Some p"
  shows "p \<notin> set rs \<and> left s' p = None"
  using assms
proof (induction es arbitrary: s rs)
  case (Cons e es)
  obtain s1 r where s1: "step e s = (s1, r)" by (cases "step e s")
  obtain rs' where rs': "runs es s1 = (s', rs')" "rs = (case r of None \<Rightarrow> rs' | Some q \<Rightarrow> q # rs')"
    using Cons.prems(3) s1 by (cases "runs es s1") auto
  have v: "valid s1" "fits e s" "allFit es s1" using Cons.prems(1,2) s1 step_valid by auto
  have "left s1 p = None \<and> r \<noteq> Some p"
  proof (cases "beat e")
    case None
    show ?thesis
    proof (cases r)
      case None
      with step_quiet [of s e s1 p] Cons.prems(1,4) v(2) s1 \<open>beat e = None\<close> show ?thesis by simp
    next
      case (Some q)
      with step_report [of s e s1 q] Cons.prems(1,4) v(2) s1 \<open>beat e = None\<close> show ?thesis
        by (cases "p = q") auto
    qed
  next
    case (Some q)
    with Cons.prems(5) have "q \<noteq> p" by auto
    with step_beat [OF Cons.prems(1) v(2) s1 Some] Cons.prems(4) show ?thesis by simp
  qed
  with Cons.IH [OF v(1,3) rs'(1)] Cons.prems(5) rs'(2) show ?case by (auto split: option.splits)
qed simp

text \<open>A report leaves the peer unknown: it is not reported again until it is heard.\<close>

lemma report_forgets:
  assumes "valid s" and "fits e s" and "step e s = (s', Some p)"
  shows "left s' p = None"
proof (cases "beat e")
  case None
  with step_report [OF assms] show ?thesis by simp
next
  case (Some q)
  with step_beat [OF assms] show ?thesis by simp
qed

lemma reported_once:
  assumes "valid s" and "fits e s" and "step e s = (s1, Some p)" and "allFit es s1" and "runs es s1 = (s', rs)"
    and "p \<in> set rs"
  shows "\<exists>e \<in> set es. beat e = Some p"
  using unheard_not_reported [OF step_valid [OF assms(1-3)] assms(4,5) report_forgets [OF assms(1-3)]] assms(6)
  by blast

end

end
