(* ===== verification/Detector.thy ===== *)
theory Detector
  imports Countdown Net Peers Lab2Wire
begin

text \<open>
  The failure detector of lab2 (\<open>failure_detector.h\<close>, \<open>failure_detector.cpp\<close>). The state is the hash
  map of the heartbeat counts; the order in which an iteration of the detector thread meets its
  entries is an argument, since it is unspecified and may change with every insertion. The operations
  of the two threads exclude each other by a mutex, so that a run is a sequence of heartbeats and ticks.
\<close>

type_synonym heartBeatMap = "PeerId \<rightharpoonup> int"

section \<open>Sending and receiving heartbeats\<close>

definition heartBeatMsg :: "PeerInfo \<Rightarrow> HeartBeatMsg" where
  "heartBeatMsg info = \<lparr>hb_msgType = msgTypeCode HEARTBEAT, hb_peerId = getMyPeerId info\<rparr>"

text \<open>One round of \<open>startHeartBeatSender\<close>: whatever goes wrong with the socket is ignored.\<close>

definition sendHeartBeat :: "endian \<Rightarrow> PeerInfo \<Rightarrow> hostname \<Rightarrow> byte list \<Rightarrow> (unit, 'z Network_scheme) act" where
  "sendHeartBeat en info hostname junk =
     (let buffer = serializeHeartBeatMsg en (heartBeatMsg info) (take sizeof_HeartBeatMsg junk)
      in catching isRuntimeError
           (andThen (newUDPSender hostname 0) (\<lambda>udpSender.
            andThen (udpSenderSend udpSender buffer) (\<lambda>_. udpSenderClose udpSender)))
           (ret ()))"

text \<open>The hosts to which \<open>FailureDetector::start\<close> sends heartbeats, with their identifiers.\<close>

fun heartBeatTargets :: "PeerInfo \<Rightarrow> hostname list \<Rightarrow> (hostname \<times> PeerId) list res" where
  "heartBeatTargets info [] = Inr []"
| "heartBeatTargets info (hostname # hs) =
     rbind (getPeerId info hostname) (\<lambda>peerId.
     rbind (heartBeatTargets info hs) (\<lambda>rest.
       Inr (if peerId = getMyPeerId info then rest else (hostname, peerId) # rest)))"

text \<open>One iteration of \<open>startHeartBeatListener\<close>.\<close>

definition processHeartBeat :: "endian \<Rightarrow> PeerInfo \<Rightarrow> Message \<Rightarrow> heartBeatMap \<Rightarrow> heartBeatMap res" where
  "processHeartBeat en info message peerHeartBeatMap =
     rbind (getMsgType en message) (\<lambda>msgTypeEnum.
     rbind (checkMsgType msgTypeEnum HEARTBEAT) (\<lambda>_.
     rbind (deserializeHeartBeatMsg en message) (\<lambda>heartBeatMsg.
     rbind (getPeerId info (getParsedSender message)) (\<lambda>peerId.
     rbind (check (hb_peerId heartBeatMsg = peerId)) (\<lambda>_.
       Inr (peerHeartBeatMap(hb_peerId heartBeatMsg \<mapsto> 2)))))))"

section \<open>The detector thread\<close>

text \<open>
  The loop over the map, from the first of the remaining entries on: it ends at the first peer whose
  count was zero, which is erased and reported.
\<close>

fun tickLoop :: "PeerId list \<Rightarrow> heartBeatMap \<Rightarrow> heartBeatMap \<times> PeerId option" where
  "tickLoop [] m = (m, None)"
| "tickLoop (p # ps) m =
     (case m p of
        None \<Rightarrow> tickLoop ps m
      | Some count \<Rightarrow>
          let peerCrashed = (count = 0);
              m = m(p \<mapsto> count - 1)
          in if peerCrashed then (m(p := None), Some p) else tickLoop ps m)"

text \<open>One iteration of \<open>startDetectorThread\<close> with the callbacks, on the state of their owner.\<close>

definition detectorStep :: "(PeerId \<Rightarrow> (unit, 's) act) list \<Rightarrow> PeerId list \<Rightarrow> heartBeatMap \<Rightarrow> (heartBeatMap, 's) act" where
  "detectorStep onFailureCallbacks order peerHeartBeatMap =
     (case tickLoop order peerHeartBeatMap of
        (m, None) \<Rightarrow> ret m
      | (m, Some crashedPeerId) \<Rightarrow>
          andThen (forEach onFailureCallbacks (\<lambda>callback. callback crashedPeerId)) (\<lambda>_. ret m))"

definition getAlivePeers :: "heartBeatMap \<Rightarrow> PeerId set" where
  "getAlivePeers peerHeartBeatMap = dom peerHeartBeatMap"

section \<open>Runs\<close>

text \<open>A heartbeat of a peer that was accepted, or a tick that meets the entries in this order.\<close>

datatype detectorEvent = Beat PeerId | Tick "PeerId list"

fun detect :: "detectorEvent \<Rightarrow> heartBeatMap \<Rightarrow> heartBeatMap \<times> PeerId option" where
  "detect (Beat p) m = (m(p \<mapsto> 2), None)"
| "detect (Tick order) m = tickLoop order m"

fun possible :: "detectorEvent \<Rightarrow> heartBeatMap \<Rightarrow> bool" where
  "possible (Beat p) m \<longleftrightarrow> True"
| "possible (Tick order) m \<longleftrightarrow> distinct order \<and> set order = dom m"

fun detectorRun :: "detectorEvent list \<Rightarrow> heartBeatMap \<Rightarrow> heartBeatMap \<times> PeerId list" where
  "detectorRun [] m = (m, [])"
| "detectorRun (e # es) m =
     (case detect e m of (m', r) \<Rightarrow> case detectorRun es m' of (m'', rs) \<Rightarrow>
        (m'', (case r of None \<Rightarrow> rs | Some q \<Rightarrow> q # rs)))"

fun possibleRun :: "detectorEvent list \<Rightarrow> heartBeatMap \<Rightarrow> bool" where
  "possibleRun [] m \<longleftrightarrow> True"
| "possibleRun (e # es) m \<longleftrightarrow> possible e m \<and> possibleRun es (fst (detect e m))"

fun heartbeatOf :: "detectorEvent \<Rightarrow> PeerId option" where
  "heartbeatOf (Beat p) = Some p"
| "heartbeatOf (Tick order) = None"

definition ticksIn :: "detectorEvent list \<Rightarrow> nat" where
  "ticksIn es = length (filter (\<lambda>e. heartbeatOf e = None) es)"

text \<open>Never more than two ticks between heartbeats of \<open>p\<close>, and at most \<open>k\<close> before the first.\<close>

fun regular :: "PeerId \<Rightarrow> nat \<Rightarrow> detectorEvent list \<Rightarrow> bool" where
  "regular p k [] \<longleftrightarrow> True"
| "regular p k (Beat q # es) \<longleftrightarrow> regular p (if q = p then 2 else k) es"
| "regular p k (Tick order # es) \<longleftrightarrow> 0 < k \<and> regular p (k - 1) es"

section \<open>The counts\<close>

definition validCounts :: "heartBeatMap \<Rightarrow> bool" where
  "validCounts m \<longleftrightarrow> finite (dom m) \<and> (\<forall>p n. m p = Some n \<longrightarrow> 0 \<le> n \<and> n \<le> 2)"

definition countOf :: "heartBeatMap \<Rightarrow> PeerId \<Rightarrow> nat option" where
  "countOf m p = map_option nat (m p)"

lemma tickLoop_other: "p \<notin> set ps \<Longrightarrow> fst (tickLoop ps m) p = m p"
  by (induction ps m rule: tickLoop.induct) (auto simp: Let_def split: option.splits)

text \<open>
  What a tick does to one entry: \<open>n\<close> and \<open>n'\<close> are the counts before and after, \<open>met\<close> tells whether it
  is one of the entries of the iteration.
\<close>

definition entryAfter :: "PeerId option \<Rightarrow> PeerId \<Rightarrow> bool \<Rightarrow> int option \<Rightarrow> int option \<Rightarrow> bool" where
  "entryAfter r p met n n' \<longleftrightarrow>
     (case n of
        None \<Rightarrow> n' = None \<and> r \<noteq> Some p
      | Some k \<Rightarrow> if r = Some p then k = 0 \<and> n' = None
                  else n' = Some k \<and> (r = None \<longrightarrow> \<not> met) \<or> k \<noteq> 0 \<and> n' = Some (k - 1))"

lemma tickLoop_entry:
  assumes "distinct ps" and "tickLoop ps m = (m', r)"
  shows "entryAfter r p (p \<in> set ps) (m p) (m' p)"
  using assms
proof (induction ps arbitrary: m)
  case Nil
  then show ?case by (auto simp: entryAfter_def split: option.splits)
next
  case (Cons q ps)
  have d: "distinct ps" "q \<notin> set ps" using Cons.prems(1) by simp_all
  show ?case
  proof (cases "m q")
    case None
    with Cons.prems(2) have "tickLoop ps m = (m', r)" by simp
    from Cons.IH [OF d(1) this] None show ?thesis by (cases "p = q") (simp_all add: entryAfter_def)
  next
    case (Some count)
    show ?thesis
    proof (cases "count = 0")
      case True
      with Some Cons.prems(2) have "r = Some q" "m' = m(q := None)" by (simp_all add: Let_def)
      with Some True show ?thesis
        by (cases "p = q"; cases "m p") (simp_all add: entryAfter_def)
    next
      case False
      have t: "tickLoop ps (m(q \<mapsto> count - 1)) = (m', r)"
        using Cons.prems(2) Some False by (simp add: Let_def)
      note IH = Cons.IH [OF d(1) this]
      have q: "m' q = Some (count - 1)"
        using tickLoop_other [of q ps "m(q \<mapsto> count - 1)"] t d(2) by simp
      show ?thesis
      proof (cases "p = q")
        case True
        with IH q have "r \<noteq> Some q" by (auto simp: entryAfter_def)
        with True q Some False show ?thesis by (simp add: entryAfter_def)
      next
        case False
        with IH show ?thesis by simp
      qed
    qed
  qed
qed

interpretation detector: countdown detect possible validCounts countOf heartbeatOf 2
proof
  fix m m' :: heartBeatMap and e r q p
  assume v: "validCounts m" and f: "possible e m"
  show "validCounts m'" if d: "detect e m = (m', r)"
  proof (cases e)
    case (Beat p)
    with v d show ?thesis by (auto simp: validCounts_def split: if_splits)
  next
    case (Tick order)
    have t: "tickLoop order m = (m', r)" "distinct order" using d f Tick by simp_all
    note entry = tickLoop_entry [OF t(2,1)]
    have "m' p = None" if "m p = None" for p using entry [of p] that by (simp add: entryAfter_def)
    then have "dom m' \<subseteq> dom m" by (metis domIff subsetI)
    then have "finite (dom m')" using v by (auto simp: validCounts_def intro: finite_subset)
    moreover have "0 \<le> n \<and> n \<le> 2" if n: "m' p = Some n" for p n
    proof -
      obtain k where k: "m p = Some k" using n entry [of p] by (cases "m p") (auto simp: entryAfter_def)
      then have "0 \<le> k \<and> k \<le> 2" using v by (simp add: validCounts_def)
      with entry [of p] k n show ?thesis by (auto simp: entryAfter_def split: if_splits)
    qed
    ultimately show ?thesis by (simp add: validCounts_def)
  qed
  show "r = None \<and> countOf m' q = Some 2 \<and> (\<forall>p. p \<noteq> q \<longrightarrow> countOf m' p = countOf m p)"
    if "detect e m = (m', r)" "heartbeatOf e = Some q"
    using that by (cases e) (auto simp: countOf_def)
  show "(countOf m p = None \<longrightarrow> countOf m' p = None) \<and>
      (\<forall>n. countOf m p = Some n \<longrightarrow> 0 < n \<and> countOf m' p = Some (n - 1))"
    if d: "detect e m = (m', None)" "heartbeatOf e = None"
  proof -
    obtain order where o: "e = Tick order" using d(2) by (cases e) auto
    have t: "tickLoop order m = (m', None)" "distinct order" "set order = dom m" using d f o by simp_all
    show ?thesis
    proof (cases "m p")
      case None
      with tickLoop_entry [OF t(2,1), of p] show ?thesis by (simp add: countOf_def entryAfter_def)
    next
      case (Some n)
      then have "p \<in> set order" "0 \<le> n" using t(3) v by (auto simp: validCounts_def)
      with tickLoop_entry [OF t(2,1), of p] Some show ?thesis by (auto simp: countOf_def entryAfter_def)
    qed
  qed
  show "countOf m q = Some 0 \<and> countOf m' q = None \<and>
      (\<forall>p. p \<noteq> q \<longrightarrow> countOf m' p = countOf m p \<or> (\<exists>n. countOf m p = Some (Suc n) \<and> countOf m' p = Some n))"
    if d: "detect e m = (m', Some q)" "heartbeatOf e = None"
  proof -
    obtain order where o: "e = Tick order" using d(2) by (cases e) auto
    have t: "tickLoop order m = (m', Some q)" "distinct order" using d f o by simp_all
    note entry = tickLoop_entry [OF t(2,1)]
    have "countOf m q = Some 0 \<and> countOf m' q = None"
      using entry [of q] by (cases "m q") (auto simp: countOf_def entryAfter_def split: if_splits)
    moreover have "countOf m' p = countOf m p \<or> (\<exists>n. countOf m p = Some (Suc n) \<and> countOf m' p = Some n)"
      if "p \<noteq> q" for p
    proof (cases "m p")
      case None
      with entry [of p] show ?thesis by (simp add: countOf_def entryAfter_def)
    next
      case (Some n)
      then have "0 \<le> n" using v by (auto simp: validCounts_def)
      with entry [of p] Some that show ?thesis
        by (auto simp: countOf_def entryAfter_def intro!: exI [of _ "nat n - 1"])
    qed
    ultimately show ?thesis by blast
  qed
qed

lemma detectorRun_runs: "detectorRun es m = detector.runs es m"
  by (induction es arbitrary: m) simp_all

lemma possibleRun_allFit: "possibleRun es m = detector.allFit es m"
  by (induction es arbitrary: m) simp_all

lemma ticksIn_ticks: "ticksIn es = detector.ticks es"
  by (simp add: ticksIn_def detector.ticks_def)

lemma regular_heardOften: "regular p k es = detector.heardOften p k es"
  by (induction p k es rule: regular.induct) simp_all

lemma heartbeatOf_Beat: "heartbeatOf e = Some p \<longleftrightarrow> e = Beat p"
  by (cases e) auto

section \<open>What the detector guarantees\<close>

text \<open>
  A silent peer is reported. From the moment when no heartbeat of a peer arrives any more, the
  peer is reported at the latest when there have been more ticks than its count and the reports
  together; a tick that reports another peer may leave it out, every other tick counts.
\<close>

theorem silent_peer_reported:
  assumes "validCounts m" and "possibleRun es m" and "detectorRun es m = (m', rs)" and "m p = Some n"
    and "Beat p \<notin> set es" and "nat n + length rs < ticksIn es"
  shows "p \<in> set rs"
proof (rule detector.silent_reported [OF assms(1)])
  show "detector.allFit es m" "detector.runs es m = (m', rs)" "nat n + length rs < detector.ticks es"
    using assms by (simp_all add: detectorRun_runs possibleRun_allFit ticksIn_ticks)
  show "countOf m p = Some (nat n)" using assms(4) by (simp add: countOf_def)
  show "\<forall>e \<in> set es. heartbeatOf e \<noteq> Some p" using assms(5) by (auto simp: heartbeatOf_Beat)
qed

theorem silent_peer_reported_witness:
  "7 \<in> set (snd (detectorRun [Tick [7], Tick [7], Tick []] [7 \<mapsto> 1]))"
  by (rule silent_peer_reported [of "[7 \<mapsto> 1]" "[Tick [7], Tick [7], Tick []]" Map.empty "[7]" _ 1, THEN rev_subsetD])
    (simp_all add: validCounts_def ticksIn_def Let_def)

text \<open>
  C25: no false suspicion. A peer that is heard at least once between any three ticks is never
  reported, whatever the other peers do and in whatever order the entries are met.
\<close>

theorem regular_peer_not_reported:
  assumes "validCounts m" and "possibleRun es m" and "m p = Some n" and "regular p (nat n) es"
  shows "p \<notin> set (snd (detectorRun es m))"
proof (rule detector.heard_not_reported [OF assms(1)])
  show "detector.allFit es m" "detector.runs es m = (fst (detectorRun es m), snd (detectorRun es m))"
    "detector.heardOften p (nat n) es"
    using assms by (simp_all add: detectorRun_runs possibleRun_allFit regular_heardOften)
  show "countOf m p = Some (nat n)" using assms(3) by (simp add: countOf_def)
qed simp

theorem regular_peer_not_reported_witness:
  "7 \<notin> set (snd (detectorRun [Tick [7], Tick [7], Beat 7, Tick [7], Tick [7]] [7 \<mapsto> 2]))"
  by (rule regular_peer_not_reported [of _ _ _ 2]) (auto simp: validCounts_def Let_def split: if_splits)

text \<open>
  A peer is reported only after it has been heard. From the empty map, a peer whose first
  heartbeat never arrives is never reported, and never counts as alive: a crash before the first
  heartbeat goes unnoticed.
\<close>

theorem unheard_peer_not_reported:
  assumes "possibleRun es Map.empty" and "detectorRun es Map.empty = (m', rs)" and "Beat p \<notin> set es"
  shows "p \<notin> set rs \<and> p \<notin> getAlivePeers m'"
proof -
  have "p \<notin> set rs \<and> countOf m' p = None"
  proof (rule detector.unheard_not_reported)
    show "validCounts Map.empty" by (simp add: validCounts_def)
    show "detector.allFit es Map.empty" "detector.runs es Map.empty = (m', rs)"
      using assms by (simp_all add: detectorRun_runs possibleRun_allFit)
    show "countOf Map.empty p = None" by (simp add: countOf_def)
    show "\<forall>e \<in> set es. heartbeatOf e \<noteq> Some p" using assms(3) by (auto simp: heartbeatOf_Beat)
  qed
  then show ?thesis by (auto simp: countOf_def getAlivePeers_def)
qed

theorem unheard_peer_not_reported_witness:
  "8 \<notin> set (snd (detectorRun [Beat 7, Tick [7]] Map.empty))"
proof -
  have "detectorRun [Beat 7, Tick [7]] Map.empty = ([7 \<mapsto> 1], [])"
    by (simp add: Let_def)
  from unheard_peer_not_reported [OF _ this, of 8] show ?thesis by (simp add: Let_def)
qed

text \<open>
  C33: the invariant of the map. In every run from the empty map the counts stay between zero and two,
  and a peer that is reported is not alive afterwards and is reported again only after a heartbeat.
\<close>

theorem counts_bounded:
  assumes "possibleRun es Map.empty"
  shows "validCounts (fst (detectorRun es Map.empty)) \<and>
    (\<forall>e m' p. possible e (fst (detectorRun es Map.empty)) \<and> detect e (fst (detectorRun es Map.empty)) = (m', Some p) \<longrightarrow>
       p \<notin> getAlivePeers m' \<and>
       (\<forall>es' m'' rs. possibleRun es' m' \<and> detectorRun es' m' = (m'', rs) \<and> p \<in> set rs \<longrightarrow> Beat p \<in> set es'))"
proof -
  have e: "validCounts Map.empty" by (simp add: validCounts_def)
  have v: "validCounts (fst (detectorRun es Map.empty))"
    using detector.runs_valid [OF e] assms by (simp add: detectorRun_runs possibleRun_allFit)
  moreover have "p \<notin> getAlivePeers m'" if "possible e m" "detect e m = (m', Some p)" "validCounts m" for e m m' p
    using detector.report_forgets [OF that(3,1,2)] by (auto simp: countOf_def getAlivePeers_def)
  moreover have "Beat p \<in> set es'" if "possible e m" "detect e m = (m', Some p)" "validCounts m"
    "possibleRun es' m'" "detectorRun es' m' = (m'', rs)" "p \<in> set rs" for e m m' p es' m'' rs
    using detector.reported_once [OF that(3,1,2), of es' m'' rs] that(4-6)
    by (auto simp: detectorRun_runs possibleRun_allFit heartbeatOf_Beat)
  ultimately show ?thesis by blast
qed

theorem counts_bounded_witness:
  "validCounts (fst (detectorRun [Beat 7, Tick [7], Tick [7], Tick [7]] Map.empty))"
  using counts_bounded [of "[Beat 7, Tick [7], Tick [7], Tick [7]]"] by (simp add: Let_def)

section \<open>Heartbeats on the wire\<close>

lemma heartBeat_received:
  assumes "length buf = sizeof_HeartBeatMsg"
  shows "getMsgType en (received (serializeHeartBeatMsg en' (heartBeatMsg info) buf) junk from) = Inr HEARTBEAT"
    "deserializeHeartBeatMsg en (received (serializeHeartBeatMsg en' (heartBeatMsg info) buf) junk from) =
       Inr (heartBeatMsg info)"
proof -
  have w: "serializeHeartBeatMsg en' (heartBeatMsg info) buf = wire_words [5, getMyPeerId info]"
    using assms by (simp add: heartBeat_codec.ser_image fieldsHeartBeatMsg_def heartBeatMsg_def)
  show "getMsgType en (received (serializeHeartBeatMsg en' (heartBeatMsg info) buf) junk from) = Inr HEARTBEAT"
    unfolding w by (simp add: getMsgType_def getTypeWord_received wire_words_simps MAX_BUFFER_SIZE_def)
  show "deserializeHeartBeatMsg en (received (serializeHeartBeatMsg en' (heartBeatMsg info) buf) junk from) =
       Inr (heartBeatMsg info)"
    using assms by (intro heartBeat_codec.roundtrip) (simp_all add: sizeof_HeartBeatMsg_def MAX_BUFFER_SIZE_def)
qed

text \<open>
  A heartbeat that a process sends and another receives, with the sender's name in the network,
  renews the count of exactly that process; if the name is not the sender's own the receiver aborts,
  and a name outside the directory makes it throw.
\<close>

theorem heartbeat_renews_sender:
  assumes v: "validPeerInfo receiver" and sender: "getHostname receiver (getMyPeerId sender) = Inr h"
    and len: "length buf = sizeof_HeartBeatMsg"
  shows "processHeartBeat en receiver (received (serializeHeartBeatMsg en' (heartBeatMsg sender) buf) junk name) m =
    (if parseHostnameFromSender name = h then Inr (m(getMyPeerId sender \<mapsto> 2))
     else if parseHostnameFromSender name \<in> set (getAllPeerHostnames receiver) then Inl CheckFailed
     else Inl OutOfRange)"
proof -
  let ?n = "parseHostnameFromSender name"
  have p: "processHeartBeat en receiver (received (serializeHeartBeatMsg en' (heartBeatMsg sender) buf) junk name) m =
    rbind (getPeerId receiver ?n) (\<lambda>peerId.
     rbind (check (getMyPeerId sender = peerId)) (\<lambda>_. Inr (m(getMyPeerId sender \<mapsto> 2))))"
    by (simp add: processHeartBeat_def heartBeat_received [OF len] checkMsgType_def getParsedSender_def)
      (simp add: heartBeatMsg_def)
  have h: "getPeerId receiver h = Inr (getMyPeerId sender)" using peers.ident_name [OF v] sender by simp
  show ?thesis
  proof (cases "?n = h")
    case True
    with h show ?thesis unfolding p by simp
  next
    case False
    show ?thesis
    proof (cases "?n \<in> set (getAllPeerHostnames receiver)")
      case True
      then obtain i where i: "getPeerId receiver ?n = Inr i" using peers.ident_total [OF v] by blast
      then have "i \<noteq> getMyPeerId sender" using peers.ident_inject [OF v, of ?n i h] h False by auto
      with i False True show ?thesis unfolding p by (auto simp: check_def)
    next
      case False
      with \<open>?n \<noteq> h\<close> peers.ident_absent [OF v] show ?thesis unfolding p by simp
    qed
  qed
qed

theorem heartbeat_renews_sender_witness:
  "\<exists>receiver sender. getMyPeerId sender = 1 \<and>
     processHeartBeat LittleEndian receiver
       (received (serializeHeartBeatMsg LittleEndian (heartBeatMsg sender) (replicate 8 0)) [] ''a.net'') [1 \<mapsto> 0] =
     Inr [1 \<mapsto> 2]"
proof -
  let ?info = "\<lambda>i. \<lparr>myPeerId = i, allPeerHostnames = [''a'', ''b''],
    hostnameToPeerIdMap = [''a'' \<mapsto> 1, ''b'' \<mapsto> 2], peerIdToHostnameMap = [1 \<mapsto> ''a'', 2 \<mapsto> ''b'']\<rparr>"
  have i: "initialize ''b'' [''a'', ''b''] = Inr (?info 2)"
    by (simp add: initialize_def getProcessIdentifier_lab2_def)
  have v: "validPeerInfo (?info 2)" by (rule validPeerInfo_initialize [OF _ _ i]) (simp_all add: valid_hosts_def)
  have my: "getMyPeerId (?info 1) = 1" by (simp add: getMyPeerId_def)
  then have h: "getHostname (?info 2) (getMyPeerId (?info 1)) = Inr ''a''" by (simp add: getHostname_def)
  have "parseHostnameFromSender ''a.net'' = ''a''" by (simp add: parseHostnameFromSender_def)
  with my heartbeat_renews_sender [OF v h, of "replicate 8 0" LittleEndian LittleEndian "[]" "''a.net''" "[1 \<mapsto> 0]"]
  have "processHeartBeat LittleEndian (?info 2)
      (received (serializeHeartBeatMsg LittleEndian (heartBeatMsg (?info 1)) (replicate 8 0)) [] ''a.net'') [1 \<mapsto> 0] =
    Inr [1 \<mapsto> 2]"
    by (simp add: sizeof_HeartBeatMsg_def)
  with my show ?thesis by blast
qed

section \<open>The sockets of the sender threads\<close>

text \<open>
  The loop of a sender thread for some rounds; every round creates a socket, and only a round whose
  send succeeds reaches the call of \<open>close\<close>.
\<close>

definition heartBeatRounds :: "endian \<Rightarrow> PeerInfo \<Rightarrow> hostname \<Rightarrow> byte list \<Rightarrow> nat \<Rightarrow> (unit, 'z Network_scheme) act" where
  "heartBeatRounds en info hostname junk n = forEach [0..<n] (\<lambda>_. sendHeartBeat en info hostname junk)"

definition heartBeatBytes :: "PeerInfo \<Rightarrow> byte list" where
  "heartBeatBytes info = wire_words [msgTypeCode HEARTBEAT, getMyPeerId info]"

lemma heartBeat_image:
  "8 \<le> length junk \<Longrightarrow> serializeHeartBeatMsg en (heartBeatMsg info) (take sizeof_HeartBeatMsg junk) = heartBeatBytes info"
  by (subst heartBeat_codec.ser_image) (simp_all add: heartBeatBytes_def lab2_codec_defs heartBeatMsg_def)

text \<open>One round: the socket of the first address, or none because the name is unknown.\<close>

lemma sendHeartBeat_round:
  assumes "attempts s h = a # as" and "8 \<le> length junk"
    and "udpSenderSocket a = r" and "r = Inr f \<or> r = Inl RuntimeError"
  shows "sendHeartBeat en info h junk s = (Inr (),
    (if r = Inr f \<and> \<not> sendFails s f
     then s\<lparr>attempts := (attempts s)(h := as), sent := sent s @ [(f, heartBeatBytes info)], closed := closed s @ [f]\<rparr>
     else s\<lparr>attempts := (attempts s)(h := as)\<rparr>))"
  using assms
  by (auto simp: sendHeartBeat_def Let_def heartBeat_image catching_def andThen_def newUDPSender_def
      udpSenderSend_def udpSenderClose_def closeSocket_def act_basic isRuntimeError_def)


text \<open>The sockets that a sequence of attempts yields.\<close>

definition socketsOf :: "attempt list \<Rightarrow> fd list" where
  "socketsOf as = concat (map (\<lambda>a. case udpSenderSocket a of Inl e \<Rightarrow> [] | Inr f \<Rightarrow> [f]) as)"

text \<open>
  The rounds of a sender thread. Every round whose host is known opens a socket; the heartbeats go
  out over the sockets whose send succeeds, and exactly those are closed again: the descriptor of a
  failed send is lost, as the exception passes over \<open>close\<close>.
\<close>

theorem heartbeat_rounds:
  assumes "attempts s h = as @ rest" and "\<forall>a \<in> set as. udpSenderSocket a \<noteq> Inl CheckFailed" and "8 \<le> length junk"
  shows "\<exists>s'. heartBeatRounds en info h junk (length as) s = (Inr (), s') \<and> attempts s' h = rest \<and>
    sent s' = sent s @ map (\<lambda>f. (f, heartBeatBytes info)) (filter (\<lambda>f. \<not> sendFails s f) (socketsOf as)) \<and>
    closed s' = closed s @ filter (\<lambda>f. \<not> sendFails s f) (socketsOf as)"
proof -
  have "\<exists>s'. forEach ks (\<lambda>_. sendHeartBeat en info h junk) s = (Inr (), s') \<and> attempts s' h = rest \<and>
      sent s' = sent s @ map (\<lambda>f. (f, heartBeatBytes info)) (filter (\<lambda>f. \<not> sendFails s f) (socketsOf as)) \<and>
      closed s' = closed s @ filter (\<lambda>f. \<not> sendFails s f) (socketsOf as)" if "length ks = length as" for ks :: "nat list"
    using assms(1,2) that
  proof (induction as arbitrary: s ks)
    case Nil
    then show ?case by (simp add: socketsOf_def act_basic)
  next
    case (Cons a as)
    obtain k ks' where ks: "ks = k # ks'" "length ks' = length as" using Cons.prems(3) by (cases ks) auto
    have "udpSenderSocket a \<noteq> Inl CheckFailed" using Cons.prems(2) by simp
    then consider f where "udpSenderSocket a = Inr f" | "udpSenderSocket a = Inl RuntimeError"
      by (auto simp: udpSenderSocket_def split: attempt.splits option.splits)
    then show ?case
    proof cases
      case 1
      define s1 where "s1 = (if \<not> sendFails s f
         then s\<lparr>attempts := (attempts s)(h := as @ rest), sent := sent s @ [(f, heartBeatBytes info)], closed := closed s @ [f]\<rparr>
         else s\<lparr>attempts := (attempts s)(h := as @ rest)\<rparr>)"
      have one: "sendHeartBeat en info h junk s = (Inr (), s1)"
        using sendHeartBeat_round [of s h a "as @ rest" junk _ f en info] Cons.prems(1) assms(3) 1 by (simp add: s1_def)
      have "sendFails s1 = sendFails s" "attempts s1 h = as @ rest" by (simp_all add: s1_def)
      with Cons.IH [of s1 ks'] Cons.prems(2) ks(2) one 1 show ?thesis
        by (auto simp: ks(1) andThen_def socketsOf_def s1_def)
    next
      case 2
      define s1 where "s1 = s\<lparr>attempts := (attempts s)(h := as @ rest)\<rparr>"
      have one: "sendHeartBeat en info h junk s = (Inr (), s1)"
        using sendHeartBeat_round [of s h a "as @ rest" junk _ undefined en info] Cons.prems(1) assms(3) 2 by (simp add: s1_def)
      have "sendFails s1 = sendFails s" "attempts s1 h = as @ rest" by (simp_all add: s1_def)
      with Cons.IH [of s1 ks'] Cons.prems(2) ks(2) one 2 show ?thesis
        by (auto simp: ks(1) andThen_def socketsOf_def s1_def)
    qed
  qed
  from this [of "[0..<length as]"] show ?thesis by (simp add: heartBeatRounds_def)
qed

definition senderInfo :: PeerInfo where
  "senderInfo = \<lparr>myPeerId = 2, allPeerHostnames = [], hostnameToPeerIdMap = Map.empty, peerIdToHostnameMap = Map.empty\<rparr>"

theorem heartbeat_rounds_witness:
  "\<exists>s'. heartBeatRounds LittleEndian senderInfo ''c'' (replicate 8 0) 3 (idleNetwork
      \<lparr>attempts := (\<lambda>_. [NoSuchHost, Addresses [None, Some 3] True, Addresses [Some 4] True]), sendFails := (\<lambda>f. f = 3)\<rparr>)
    = (Inr (), s') \<and> sent s' = [(4, heartBeatBytes senderInfo)] \<and> closed s' = [4]"
  using heartbeat_rounds [of "idleNetwork\<lparr>attempts := (\<lambda>_. [NoSuchHost, Addresses [None, Some 3] True, Addresses [Some 4] True]),
      sendFails := (\<lambda>f. f = 3)\<rparr>" "''c''" "[NoSuchHost, Addresses [None, Some 3] True, Addresses [Some 4] True]" "[]"
      "replicate 8 0" LittleEndian senderInfo]
  by (auto simp: socketsOf_def udpSenderSocket_def idleNetwork_def numeral_3_eq_3)

end
