(* ===== verification/CrashHandling.thy ===== *)
theory CrashHandling
  imports Detector ViewAgreement
begin

text \<open>
  The failure detector of the leader drives the membership service: \<open>main\<close> registers
  \<open>handlePeerFailure\<close> as the only callback of the detector. A peer that falls silent leaves the group.
\<close>

section \<open>The two services together\<close>

text \<open>The callbacks that \<open>main\<close> registers, and a run of the detector with them.\<close>

definition onFailureCallbacks :: "Config \<Rightarrow> (PeerId \<Rightarrow> unit ms) list" where
  "onFailureCallbacks cfg = [\<lambda>crashedPeerId. handlePeerFailure cfg crashedPeerId]"

fun groupRun :: "Config \<Rightarrow> detectorEvent list \<Rightarrow> heartBeatMap \<Rightarrow> heartBeatMap ms" where
  "groupRun cfg [] m = ret m"
| "groupRun cfg (Beat p # es) m = groupRun cfg es (m(p \<mapsto> 2))"
| "groupRun cfg (Tick order # es) m =
     andThen (detectorStep (onFailureCallbacks cfg) order m) (groupRun cfg es)"

text \<open>The membership service sees the detector only through its reports.\<close>

lemma groupRun_reports:
  "groupRun cfg es m s =
     andThen (forEach (snd (detectorRun es m)) (handlePeerFailure cfg)) (\<lambda>_. ret (fst (detectorRun es m))) s"
proof (induction cfg es m arbitrary: s rule: groupRun.induct)
  case (2 cfg p es m)
  show ?case unfolding groupRun.simps 2 by (simp add: split_beta)
next
  case (3 cfg order es m)
  obtain m' r where t: "tickLoop order m = (m', r)" by (cases "tickLoop order m")
  show ?case
  proof (cases r)
    case None
    then have "detectorStep (onFailureCallbacks cfg) order m s = (Inr m', s)"
      using t by (simp add: detectorStep_def act_basic)
    with 3 [of m' s] t None show ?thesis by (simp add: andThen_apply split_beta)
  next
    case (Some q)
    have step: "detectorStep (onFailureCallbacks cfg) order m = andThen (handlePeerFailure cfg q) (\<lambda>_. ret m')"
      using t Some by (simp add: detectorStep_def onFailureCallbacks_def fun_eq_iff andThen_assoc andThen_simps)
        (simp add: andThen_def act_basic split: prod.splits sum.splits)
    show ?thesis
    proof (cases "handlePeerFailure cfg q s")
      case (Pair a s1)
      with 3 [of m' s1] t Some step show ?thesis
        by (cases a) (simp_all add: andThen_apply andThen_assoc act_basic split_beta andThen_def)
    qed
  qed
qed (simp add: andThen_simps)

lemma handlePeerFailure_leads:
  assumes "leaderPeerId s = me cfg" and "handlePeerFailure cfg q s = (Inr u, s')" and "finite (alivePeers s)"
  shows "leaderPeerId s' = me cfg \<and> alivePeers s' = alivePeers s - {q} \<and> viewId s' = viewId s + 1"
proof -
  have "modifyGroupMembership cfg q DEL s = (Inr u, s')"
    using assms(1,2) by (simp add: handlePeerFailure_def andThen_simps me_def)
  from modify_Inr [OF this assms(3)] obtain bs rv where
    "s' = s\<lparr>requestCounter := requestCounter s + 1, tcpClientMap := newClients DEL q (tcpClientMap s),
           recvs := rv, viewId := viewId s + 1, alivePeers := newPeers DEL q (alivePeers s),
           sent := sent s @ requestsSent DEL q s @ map (\<lambda>q'. (fdOf (askingState DEL q s) q', bs))
                     (sorted_list_of_set (newPeers DEL q (alivePeers s)))\<rparr>" by (elim exE conjE)
  then show ?thesis using assms(1) by (simp add: newPeers_def)
qed

lemma failures_leave:
  assumes "leaderPeerId s = me cfg" and "finite (alivePeers s)"
    and "forEach rs (handlePeerFailure cfg) s = (Inr u, s')"
  shows "alivePeers s' = alivePeers s - set rs \<and> viewId s' = viewId s + of_nat (length rs)"
  using assms
proof (induction rs arbitrary: s)
  case Nil
  then show ?case by (simp add: act_basic)
next
  case (Cons q rs)
  from Cons.prems(3) obtain s1 where s1: "handlePeerFailure cfg q s = (Inr (), s1)"
    "forEach rs (handlePeerFailure cfg) s1 = (Inr u, s')" by (auto simp: andThen_eq_Inr)
  from handlePeerFailure_leads [OF Cons.prems(1) s1(1) Cons.prems(2)] Cons.IH [OF _ _ s1(2)] Cons.prems(2) show ?case
    by auto
qed

text \<open>
  C6: a crash ends in a new view. On the leader, a member from which no heartbeat comes any more has
  left the group when there have been more ticks than its count and the reports together: if all
  changes succeed, exactly the reported peers have left and each made one new view. If it is the only
  one that is reported, and the others acknowledge, the change does succeed.
\<close>

theorem silent_peer_leaves_group:
  assumes "validCounts m" and "possibleRun es m" and "m p = Some n" and "Beat p \<notin> set es"
    and "nat n + length (snd (detectorRun es m)) < ticksIn es"
    and "leaderPeerId s = me cfg" and "finite (alivePeers s)"
  shows "(\<forall>m' s'. groupRun cfg es m s = (Inr m', s') \<longrightarrow>
        p \<notin> alivePeers s' \<and> alivePeers s' = alivePeers s - set (snd (detectorRun es m)) \<and>
        viewId s' = viewId s + of_nat (length (snd (detectorRun es m)))) \<and>
    (readyFor cfg DEL p s \<and> length (snd (detectorRun es m)) = 1 \<longrightarrow>
      (\<exists>m' s'. groupRun cfg es m s = (Inr m', s') \<and> viewId s' = viewId s + 1 \<and> alivePeers s' = alivePeers s - {p}))"
proof -
  let ?rs = "snd (detectorRun es m)"
  have p: "p \<in> set ?rs"
  proof (rule detector.silent_reported [OF assms(1)])
    show "detector.allFit es m" "detector.runs es m = (fst (detectorRun es m), ?rs)"
      "nat n + length ?rs < detector.ticks es"
      using assms by (simp_all add: detectorRun_runs possibleRun_allFit ticksIn_ticks)
    show "countOf m p = Some (nat n)" using assms(3) by (simp add: countOf_def)
    show "\<forall>e \<in> set es. heartbeatOf e \<noteq> Some p" using assms(4) by (auto simp: heartbeatOf_Beat)
  qed
  have left: "p \<notin> alivePeers s' \<and> alivePeers s' = alivePeers s - set ?rs \<and> viewId s' = viewId s + of_nat (length ?rs)"
    if "groupRun cfg es m s = (Inr m', s')" for m' s'
  proof -
    from that obtain u where "forEach ?rs (handlePeerFailure cfg) s = (Inr u, s')"
      by (auto simp: groupRun_reports andThen_eq_Inr act_eq_Inr)
    with failures_leave [OF assms(6,7)] p show ?thesis by blast
  qed
  moreover have "\<exists>m' s'. groupRun cfg es m s = (Inr m', s') \<and> viewId s' = viewId s + 1 \<and> alivePeers s' = alivePeers s - {p}"
    if ready: "readyFor cfg DEL p s" and one: "length ?rs = 1"
  proof -
    have rs: "?rs = [p]" using one p by (cases ?rs) auto
    obtain s' where "modifyGroupMembership cfg p DEL s = (Inr (), s')" using modify_ready [OF ready] by blast
    then have "handlePeerFailure cfg p s = (Inr (), s')"
      using assms(6) by (simp add: handlePeerFailure_def andThen_simps me_def)
    then have g: "groupRun cfg es m s = (Inr (fst (detectorRun es m)), s')"
      by (simp add: groupRun_reports rs andThen_apply act_basic)
    with left [OF g] rs show ?thesis by (intro exI [of _ "fst (detectorRun es m)"] exI [of _ s']) simp
  qed
  ultimately show ?thesis by blast
qed

theorem silent_peer_leaves_group_witness:
  "\<exists>m' s'. groupRun (exampleConfig 1) [Tick [2], Tick [2], Tick []] [2 \<mapsto> 1] exampleLeader = (Inr m', s') \<and>
    viewId s' = 3 \<and> alivePeers s' = {}"
proof -
  let ?es = "[Tick [2], Tick [2], Tick []]"
  have "detectorRun ?es [2 \<mapsto> 1] = (Map.empty, [2])" by (simp add: Let_def)
  with silent_peer_leaves_group [of "[2 \<mapsto> 1]" ?es 2 1 exampleLeader "exampleConfig 1"] exampleLeader_ready(2)
  show ?thesis
    by (simp add: validCounts_def ticksIn_def Let_def exampleLeader_canJoin)
      (simp add: example_defs)
qed

end
