(* ===== verification/Failover.thy ===== *)
theory Failover
  imports ViewAgreement
begin

text \<open>
  The crash of the leader: the peer with the smallest identifier takes over, connects to the peers it
  knows, collects the requests that were pending, and completes one of them.
\<close>

section \<open>Connecting to the old members\<close>

text \<open>What becomes of the connection to a peer: the descriptor, or the exception.\<close>

definition dial :: "Config \<Rightarrow> MembershipService \<Rightarrow> PeerId \<Rightarrow> fd res" where
  "dial cfg s q = rbind (getHostname (cfg_info cfg) q) (\<lambda>h.
     if h = [] then Inl FatalLog else fst (connectLoop 0 5 False (attempts s h)))"

definition dialled :: "Config \<Rightarrow> MembershipService \<Rightarrow> PeerId \<Rightarrow> bool" where
  "dialled cfg s q \<longleftrightarrow> (\<exists>f. dial cfg s q = Inr f \<and> \<not> sendFails s f)"

text \<open>A peer that cannot be reached: the connection is refused six times, or it is lost at once.\<close>

definition undialled :: "Config \<Rightarrow> MembershipService \<Rightarrow> PeerId \<Rightarrow> bool" where
  "undialled cfg s q \<longleftrightarrow> (\<exists>h. getHostname (cfg_info cfg) q = Inr h) \<and>
     ((\<exists>e. dial cfg s q = Inl e \<and> isRuntimeError e) \<or> (\<exists>f. dial cfg s q = Inr f \<and> sendFails s f))"

definition dialFd :: "Config \<Rightarrow> MembershipService \<Rightarrow> PeerId \<Rightarrow> fd" where
  "dialFd cfg s q = projr (dial cfg s q)"

definition dialClient :: "Config \<Rightarrow> MembershipService \<Rightarrow> PeerId \<Rightarrow> TcpClient" where
  "dialClient cfg s q = \<lparr>tc_hostname = projr (getHostname (cfg_info cfg) q), tc_port = membershipPort cfg,
     tc_sockFd = dialFd cfg s q\<rparr>"

lemma dial_Inr:
  "dial cfg s q = Inr f \<Longrightarrow> \<exists>h. getHostname (cfg_info cfg) q = Inr h \<and> h \<noteq> [] \<and>
     fst (connectLoop 0 5 False (attempts s h)) = Inr f"
  by (auto simp: dial_def rbind_eq_Inr split: if_splits)

lemma newLeaderTo_dialled:
  assumes d: "dialled cfg s q" and new: "tcpClientMap s q = None"
  shows "\<exists>h as. getHostname (cfg_info cfg) q = Inr h \<and> newLeaderTo cfg buf q s =
    (Inr (), s\<lparr>attempts := (attempts s)(h := as), sent := sent s @ [(dialFd cfg s q, buf)],
       tcpClientMap := (tcpClientMap s)(q \<mapsto> dialClient cfg s q)\<rparr>)"
proof -
  obtain f where f: "dial cfg s q = Inr f" "\<not> sendFails s f" using d by (auto simp: dialled_def)
  from dial_Inr [OF f(1)] obtain h where h: "getHostname (cfg_info cfg) q = Inr h" "h \<noteq> []"
    "fst (connectLoop 0 5 False (attempts s h)) = Inr f" by blast
  obtain as where "connectLoop 0 5 False (attempts s h) = (Inr f, as)"
    using h(3) by (cases "connectLoop 0 5 False (attempts s h)") auto
  with h f new show ?thesis
    by (intro exI [of _ h] exI [of _ as])
      (simp add: newLeaderTo_def andThen_def act_basic newTcpClient_def tcpSend_def insertClient_def
        dialFd_def dialClient_def)
qed

lemma newLeaderTo_undialled:
  assumes "undialled cfg s q"
  shows "\<exists>h as e. getHostname (cfg_info cfg) q = Inr h \<and> isRuntimeError e \<and>
    newLeaderTo cfg buf q s = (Inl e, s\<lparr>attempts := (attempts s)(h := as)\<rparr>)"
proof -
  obtain h where h: "getHostname (cfg_info cfg) q = Inr h" using assms by (auto simp: undialled_def)
  consider (refused) e where "dial cfg s q = Inl e" "isRuntimeError e"
    | (lost) f where "dial cfg s q = Inr f" "sendFails s f"
    using assms by (auto simp: undialled_def)
  then show ?thesis
  proof cases
    case refused
    with h have ne: "h \<noteq> []" by (auto simp: dial_def isRuntimeError_def)
    then obtain as where "connectLoop 0 5 False (attempts s h) = (Inl e, as)"
      using refused(1) h by (cases "connectLoop 0 5 False (attempts s h)") (auto simp: dial_def)
    with ne refused(2) h show ?thesis
      by (intro exI [of _ h] exI [of _ as] exI [of _ e])
        (simp add: newLeaderTo_def andThen_def act_basic newTcpClient_def)
  next
    case lost
    with dial_Inr [OF lost(1)] h have ne: "h \<noteq> []" and
      f: "fst (connectLoop 0 5 False (attempts s h)) = Inr f" by auto
    obtain as where "connectLoop 0 5 False (attempts s h) = (Inr f, as)"
      using f by (cases "connectLoop 0 5 False (attempts s h)") auto
    with ne lost(2) h show ?thesis
      by (intro exI [of _ h] exI [of _ as] exI [of _ TransportException])
        (simp add: newLeaderTo_def andThen_def act_basic newTcpClient_def tcpSend_def isRuntimeError_def)
  qed
qed

text \<open>Dialling one peer does not change what happens to another: their names differ.\<close>

lemma dial_other:
  assumes v: "validPeerInfo (cfg_info cfg)" and h: "getHostname (cfg_info cfg) q = Inr h" and "q' \<noteq> q"
    and a: "attempts s' = (attempts s)(h := as)"
  shows "dial cfg s' q' = dial cfg s q'"
proof (cases "getHostname (cfg_info cfg) q'")
  case (Inr h')
  have "h' \<noteq> h"
    using peers.ident_name [OF v] h Inr \<open>q' \<noteq> q\<close> by (metis sum.inject(2))
  then show ?thesis using Inr by (simp add: dial_def a)
qed (simp add: dial_def)

lemma dialled_cong:
  "dial cfg s' q = dial cfg s q \<Longrightarrow> sendFails s' = sendFails s \<Longrightarrow>
   dialled cfg s' q = dialled cfg s q \<and> undialled cfg s' q = undialled cfg s q \<and>
   dialFd cfg s' q = dialFd cfg s q \<and> dialClient cfg s' q = dialClient cfg s q"
  by (simp add: dialled_def undialled_def dialFd_def dialClient_def)

lemma dial_frame:
  assumes "attempts s' = attempts s" and "sendFails s' = sendFails s"
  shows "dialled cfg s' = dialled cfg s" "undialled cfg s' = undialled cfg s" "dialFd cfg s' = dialFd cfg s"
    "dialClient cfg s' = dialClient cfg s"
proof -
  have "dial cfg s' q = dial cfg s q" for q unfolding dial_def assms(1) ..
  from dialled_cong [OF this assms(2)]
  show "dialled cfg s' = dialled cfg s" "undialled cfg s' = undialled cfg s" "dialFd cfg s' = dialFd cfg s"
    "dialClient cfg s' = dialClient cfg s"
    by (simp_all add: fun_eq_iff)
qed

text \<open>One iteration of the loop.\<close>

definition afterDial :: "Config \<Rightarrow> byte list \<Rightarrow> (hostname \<Rightarrow> attempt list) \<Rightarrow> PeerId list \<Rightarrow> MembershipService \<Rightarrow> MembershipService" where
  "afterDial cfg buf a ps s = s\<lparr>attempts := a,
     sent := sent s @ map (\<lambda>q. (dialFd cfg s q, buf)) (filter (dialled cfg s) ps),
     tcpClientMap := (\<lambda>q. if q \<in> set ps \<and> dialled cfg s q then Some (dialClient cfg s q) else tcpClientMap s q)\<rparr>"

lemma newLeader_iteration:
  assumes "dialled cfg s p \<or> undialled cfg s p" and "tcpClientMap s p = None"
  shows "\<exists>h as. getHostname (cfg_info cfg) p = Inr h \<and>
    catching isRuntimeError (andThen (newLeaderTo cfg buf p) (\<lambda>_. ret (insert p T))) (ret T) s =
      (Inr (T \<union> {q \<in> {p}. dialled cfg s q}), afterDial cfg buf ((attempts s)(h := as)) [p] s)"
proof (cases "dialled cfg s p")
  case True
  from newLeaderTo_dialled [OF this assms(2), of buf] obtain h as where
    "getHostname (cfg_info cfg) p = Inr h" "newLeaderTo cfg buf p s = (Inr (), s\<lparr>attempts := (attempts s)(h := as),
         sent := sent s @ [(dialFd cfg s p, buf)], tcpClientMap := (tcpClientMap s)(p \<mapsto> dialClient cfg s p)\<rparr>)"
    by blast
  moreover have "(\<lambda>q. if q = p \<and> dialled cfg s q then Some (dialClient cfg s q) else tcpClientMap s q) =
      (tcpClientMap s)(p \<mapsto> dialClient cfg s p)"
    using True by (auto simp: fun_eq_iff)
  moreover have "{q. q = p \<and> dialled cfg s q} = {p}" using True by auto
  ultimately show ?thesis
    using True by (intro exI [of _ h] exI [of _ as]) (simp add: catching_def andThen_def act_basic afterDial_def)
next
  case False
  with assms(1) have "undialled cfg s p" by simp
  from newLeaderTo_undialled [OF this, of buf] obtain h as e where
    "getHostname (cfg_info cfg) p = Inr h" "isRuntimeError e"
    "newLeaderTo cfg buf p s = (Inl e, s\<lparr>attempts := (attempts s)(h := as)\<rparr>)" by blast
  moreover have "(\<lambda>q. if q = p \<and> dialled cfg s q then Some (dialClient cfg s q) else tcpClientMap s q) = tcpClientMap s"
    using False by (auto simp: fun_eq_iff)
  moreover have "T \<union> {q. q = p \<and> dialled cfg s q} = T" using False by auto
  ultimately show ?thesis
    using False by (intro exI [of _ h] exI [of _ as]) (simp add: catching_def andThen_def act_basic afterDial_def)
qed

lemma newLeaderLoop_result:
  assumes v: "validPeerInfo (cfg_info cfg)" and "distinct ps"
    and "\<forall>q \<in> set ps. (dialled cfg s q \<or> undialled cfg s q) \<and> tcpClientMap s q = None"
  shows "\<exists>a. newLeaderLoop cfg buf ps T s = (Inr (T \<union> {q \<in> set ps. dialled cfg s q}), afterDial cfg buf a ps s)"
  using assms(2,3)
proof (induction ps arbitrary: s T)
  case Nil
  then show ?case by (intro exI [of _ "attempts s"]) (simp add: act_basic afterDial_def)
next
  case (Cons p ps)
  let ?T = "T \<union> {q \<in> {p}. dialled cfg s q}"
  have "dialled cfg s p \<or> undialled cfg s p" "tcpClientMap s p = None" using Cons.prems(2) by simp_all
  from newLeader_iteration [OF this, of buf T] obtain h as where
    h: "getHostname (cfg_info cfg) p = Inr h" and
    n: "catching isRuntimeError (andThen (newLeaderTo cfg buf p) (\<lambda>_. ret (insert p T))) (ret T) s =
      (Inr ?T, afterDial cfg buf ((attempts s)(h := as)) [p] s)" by blast
  define s1 where "s1 = afterDial cfg buf ((attempts s)(h := as)) [p] s"
  have same: "dialled cfg s1 q = dialled cfg s q \<and> undialled cfg s1 q = undialled cfg s q \<and>
      dialFd cfg s1 q = dialFd cfg s q \<and> dialClient cfg s1 q = dialClient cfg s q" if "q \<in> set ps" for q
    using that Cons.prems(1) by (intro dialled_cong dial_other [OF v h]) (auto simp: s1_def afterDial_def)
  have "\<forall>q \<in> set ps. (dialled cfg s1 q \<or> undialled cfg s1 q) \<and> tcpClientMap s1 q = None"
    using Cons.prems same by (auto simp: s1_def afterDial_def)
  with Cons.IH [of s1 ?T] Cons.prems(1) obtain a where
    a: "newLeaderLoop cfg buf ps ?T s1 = (Inr (?T \<union> {q \<in> set ps. dialled cfg s1 q}), afterDial cfg buf a ps s1)"
    by auto
  have f: "filter (dialled cfg s1) ps = filter (dialled cfg s) ps" using same by (intro filter_cong) auto
  have sends: "map (\<lambda>q. (dialFd cfg s1 q, buf)) (filter (dialled cfg s1) ps) =
      map (\<lambda>q. (dialFd cfg s q, buf)) (filter (dialled cfg s) ps)" using same unfolding f by auto
  have clients: "(\<lambda>q. if q \<in> set ps \<and> dialled cfg s1 q then Some (dialClient cfg s1 q) else tcpClientMap s1 q) =
      (\<lambda>q. if q \<in> set (p # ps) \<and> dialled cfg s q then Some (dialClient cfg s q) else tcpClientMap s q)"
  proof
    fix q
    show "(if q \<in> set ps \<and> dialled cfg s1 q then Some (dialClient cfg s1 q) else tcpClientMap s1 q) =
      (if q \<in> set (p # ps) \<and> dialled cfg s q then Some (dialClient cfg s q) else tcpClientMap s q)"
      using same [of q] Cons.prems(1) by (cases "q \<in> set ps") (auto simp: s1_def afterDial_def)
  qed
  have "afterDial cfg buf a ps s1 = s1\<lparr>attempts := a,
     sent := sent s1 @ map (\<lambda>q. (dialFd cfg s q, buf)) (filter (dialled cfg s) ps),
     tcpClientMap := (\<lambda>q. if q \<in> set (p # ps) \<and> dialled cfg s q then Some (dialClient cfg s q) else tcpClientMap s q)\<rparr>"
    by (simp only: afterDial_def [of cfg buf a ps s1] sends clients)
  also have "\<dots> = afterDial cfg buf a (p # ps) s"
    unfolding s1_def afterDial_def by (cases "dialled cfg s p") simp_all
  finally have "afterDial cfg buf a ps s1 = afterDial cfg buf a (p # ps) s" .
  moreover have "?T \<union> {q \<in> set ps. dialled cfg s1 q} = T \<union> {q \<in> set (p # ps). dialled cfg s q}"
    using same by auto
  ultimately have "newLeaderLoop cfg buf (p # ps) T s =
      (Inr (T \<union> {q \<in> set (p # ps). dialled cfg s q}), afterDial cfg buf a (p # ps) s)"
    unfolding newLeaderLoop.simps andThen_def n [folded s1_def] using a by (simp only: prod.case sum.case)
  then show ?case by (intro exI [of _ a])
qed

section \<open>Collecting the pending requests\<close>

definition requestOf :: "RequestMsg \<Rightarrow> byte list" where
  "requestOf m = requestBytes (rq_requestId m) (rq_currentViewId m) (rq_operationType m) (rq_peerId m)"

text \<open>The request that is kept: the last one, in the order of the identifiers, that asks for something.\<close>

fun chosen :: "(PeerId \<Rightarrow> RequestMsg) \<Rightarrow> PeerId list \<Rightarrow> RequestMsg \<Rightarrow> RequestMsg" where
  "chosen req [] m = m"
| "chosen req (p # ps) m = chosen req ps (if rq_operationType (req p) \<noteq> 0 then req p else m)"

definition reported :: "(PeerId \<Rightarrow> RequestMsg) \<Rightarrow> MembershipService \<Rightarrow> PeerId \<Rightarrow> bool" where
  "reported req s p \<longleftrightarrow> tcpClientMap s p \<noteq> None \<and> rq_msgType (req p) = 1 \<and>
     knownOp (operationOf (rq_operationType (req p))) \<and>
     (\<exists>rest. recvs s (fdOf s p) = Some (requestOf (req p)) # rest)"

lemma pendingFrom_reported:
  assumes "reported req s p"
  shows "pendingFrom cfg p m s = (Inr (if rq_operationType (req p) \<noteq> 0 then req p else m),
    s\<lparr>recvs := (recvs s)(fdOf s p := tl (recvs s (fdOf s p)))\<rparr>)"
proof -
  obtain c rest where c: "tcpClientMap s p = Some c" "recvs s (tc_sockFd c) = Some (requestOf (req p)) # rest"
    "rq_msgType (req p) = 1" "knownOp (operationOf (rq_operationType (req p)))" "fdOf s p = tc_sockFd c"
    using assms by (auto simp: reported_def fdOf_def)
  obtain r v op q where q: "req p = \<lparr>rq_msgType = 1, rq_requestId = r, rq_currentViewId = v,
      rq_operationType = op, rq_peerId = q\<rparr>"
    using c(3) by (cases "req p") auto
  obtain str where "showRequestMsg \<lparr>rq_msgType = 1, rq_requestId = r, rq_currentViewId = v,
      rq_operationType = op, rq_peerId = q\<rparr> = Inr str"
    using showRequestMsg_iff [of r v op q] c(4) q by auto
  then show ?thesis
    using c by (simp add: pendingFrom_def clientAt_def andThen_def act_basic tcpReceive_chunk requestOf_def q
        getMsgType_request checkMsgType_def deserializeRequestMsg_received)
qed

lemma pendingLoop_reported:
  assumes "\<forall>p \<in> set ps. reported req s p" and "inj_on (fdOf s) (set ps)" and "distinct ps"
  shows "\<exists>rv. pendingLoop cfg ps m s = (Inr (chosen req ps m), s\<lparr>recvs := rv\<rparr>) \<and>
    (\<forall>p \<in> set ps. rv (fdOf s p) = tl (recvs s (fdOf s p)))  \<and>
    (\<forall>f. f \<notin> fdOf s ` set ps \<longrightarrow> rv f = recvs s f)"
  using assms
proof (induction ps arbitrary: s m)
  case Nil
  then show ?case by (intro exI [of _ "recvs s"]) (simp add: act_basic)
next
  case (Cons p ps)
  let ?s1 = "s\<lparr>recvs := (recvs s)(fdOf s p := tl (recvs s (fdOf s p)))\<rparr>"
  let ?m = "if rq_operationType (req p) \<noteq> 0 then req p else m"
  have p: "pendingFrom cfg p m s = (Inr ?m, ?s1)" "tcpClientMap s p \<noteq> None"
    using Cons.prems(1) pendingFrom_reported by (simp_all add: reported_def)
  have apart: "fdOf s q \<noteq> fdOf s p" if "q \<in> set ps" for q
    using Cons.prems(2,3) that by (auto simp: inj_on_def)
  have "\<forall>q \<in> set ps. reported req ?s1 q" using Cons.prems(1) apart by (auto simp: reported_def)
  moreover have "inj_on (fdOf ?s1) (set ps)" using Cons.prems(2) by simp
  ultimately obtain rv where rv: "pendingLoop cfg ps ?m ?s1 = (Inr (chosen req ps ?m), ?s1\<lparr>recvs := rv\<rparr>)"
    "\<forall>q \<in> set ps. rv (fdOf s q) = tl (recvs ?s1 (fdOf s q))" "\<forall>f. f \<notin> fdOf s ` set ps \<longrightarrow> rv f = recvs ?s1 f"
    using Cons.IH [of ?s1 ?m] Cons.prems(3) by auto
  have "pendingLoop cfg (p # ps) m s = (Inr (chosen req (p # ps) m), s\<lparr>recvs := rv\<rparr>)"
    using p rv(1) by (cases "tcpClientMap s p") (simp_all add: andThen_def act_basic)
  moreover have "rv (fdOf s p) = tl (recvs s (fdOf s p))"
  proof -
    have "fdOf s p \<notin> fdOf s ` set ps" using apart by (metis imageE)
    with rv(3) show ?thesis by simp
  qed
  ultimately show ?case
    using rv(2,3) apart by (intro exI [of _ rv]) (simp add: image_iff)
qed

section \<open>Taking over\<close>

definition newLeaderBytes :: "RequestId \<Rightarrow> ViewId \<Rightarrow> byte list" where
  "newLeaderBytes r v = wire_words [4, r, v, 3]"

text \<open>The old members that the new leader can reach.\<close>

definition survivors :: "Config \<Rightarrow> MembershipService \<Rightarrow> PeerId set" where
  "survivors cfg s = {q \<in> alivePeers s - {leaderPeerId s}. dialled cfg s q}"

text \<open>
  The conditions of a take-over: this peer has the smallest identifier, every old member is reached or
  refuses, the reached ones have sent the request \<open>req q\<close>, on connections of their own.
\<close>

definition takesOver :: "Config \<Rightarrow> PeerId set \<Rightarrow> (PeerId \<Rightarrow> RequestMsg) \<Rightarrow> MembershipService \<Rightarrow> bool" where
  "takesOver cfg alive req s \<longleftrightarrow> validPeerInfo (cfg_info cfg) \<and> me cfg = Min (insert (me cfg) alive) \<and>
     finite (alivePeers s) \<and>
     (\<forall>q \<in> alivePeers s - {leaderPeerId s}. dialled cfg s q \<or> undialled cfg s q) \<and>
     inj_on (dialFd cfg s) (survivors cfg s) \<and>
     (\<forall>q \<in> survivors cfg s. rq_msgType (req q) = 1 \<and> knownOp (operationOf (rq_operationType (req q))) \<and>
        (\<exists>rest. recvs s (dialFd cfg s q) = Some (requestOf (req q)) # rest))"

lemma filter_sorted_list_of_set:
  fixes A :: "'a :: linorder set"
  assumes "finite A"
  shows "filter P (sorted_list_of_set A) = sorted_list_of_set {x \<in> A. P x}"
  using assms by (intro sorted_distinct_set_unique) (simp_all add: sorted_wrt_filter)

lemma serializeNewLeaderMsg_bytes:
  "length buf = sizeof_NewLeaderMsg \<Longrightarrow>
   serializeNewLeaderMsg en \<lparr>nl_msgType = 4, nl_requestId = r, nl_currentViewId = v, nl_operationType = 3\<rparr> buf =
   newLeaderBytes r v"
  by (simp add: newLeader_codec.ser_image fieldsNewLeaderMsg_def newLeaderBytes_def)

lemma sendNewLeaderMsg_result:
  assumes v: "validPeerInfo (cfg_info cfg)" and fin: "finite (alivePeers t)" and new: "tcpClientMap t = Map.empty"
    and d: "\<forall>q \<in> alivePeers t. dialled cfg t q \<or> undialled cfg t q"
  shows "\<exists>a. sendNewLeaderMsg cfg t = (Inr (), t\<lparr>attempts := a, requestCounter := requestCounter t + 1,
     alivePeers := {q \<in> alivePeers t. dialled cfg t q},
     tcpClientMap := (Some \<circ> dialClient cfg t) |` {q \<in> alivePeers t. dialled cfg t q},
     sent := sent t @ map (\<lambda>q. (dialFd cfg t q, newLeaderBytes (requestCounter t + 1) (viewId t)))
       (sorted_list_of_set {q \<in> alivePeers t. dialled cfg t q})\<rparr>)"
proof -
  let ?t = "t\<lparr>requestCounter := requestCounter t + 1\<rparr>"
  let ?buf = "newLeaderBytes (requestCounter t + 1) (viewId t)"
  have same: "dialled cfg ?t = dialled cfg t" "undialled cfg ?t = undialled cfg t" "dialFd cfg ?t = dialFd cfg t"
    "dialClient cfg ?t = dialClient cfg t"
    by (rule dial_frame; simp)+
  have "\<exists>a. newLeaderLoop cfg ?buf (sorted_list_of_set (alivePeers t)) {} ?t =
      (Inr ({} \<union> {q \<in> set (sorted_list_of_set (alivePeers t)). dialled cfg ?t q}),
       afterDial cfg ?buf a (sorted_list_of_set (alivePeers t)) ?t)"
    using fin d new by (intro newLeaderLoop_result v) (simp_all add: same)
  then obtain a where a: "newLeaderLoop cfg ?buf (sorted_list_of_set (alivePeers t)) {} ?t =
      (Inr {q \<in> alivePeers t. dialled cfg t q}, afterDial cfg ?buf a (sorted_list_of_set (alivePeers t)) ?t)"
    using fin by (auto simp: same)
  have "sendNewLeaderMsg cfg t = (Inr (),
      (afterDial cfg ?buf a (sorted_list_of_set (alivePeers t)) ?t)\<lparr>alivePeers := {q \<in> alivePeers t. dialled cfg t q}\<rparr>)"
    by (simp add: sendNewLeaderMsg_def createNewLeaderMsg_def andThen_def act_basic showNewLeaderMsg_def
        serializeNewLeaderMsg_bytes a)
  moreover have "(\<lambda>q. if q \<in> set (sorted_list_of_set (alivePeers t)) \<and> dialled cfg t q
      then Some (dialClient cfg t q) else tcpClientMap ?t q) = (Some \<circ> dialClient cfg t) |` {q \<in> alivePeers t. dialled cfg t q}"
    using fin by (simp add: fun_eq_iff restrict_map_def new)
  ultimately show ?thesis
    using fin by (intro exI [of _ a]) (simp only: afterDial_def same filter_sorted_list_of_set, simp)
qed

text \<open>What the new leader does with the request it has chosen, and the state it does it in.\<close>

definition completePending :: "Config \<Rightarrow> nat \<Rightarrow> RequestMsg \<Rightarrow> bool ms" where
  "completePending cfg n m =
     andThen (if rq_operationType m \<noteq> operationCode NOTHING
              then andThen (lift (showRequestMsg m)) (\<lambda>_.
                   modifyGroupMembership cfg (rq_peerId m) (operationOf (rq_operationType m)))
              else sendNewViewMsg cfg) (\<lambda>_.
     andThen (modify (\<lambda>s. s\<lparr>leaderPeerId := me cfg\<rparr>)) (\<lambda>_.
     andThen (startAsLeader cfg n) (\<lambda>_. ret True)))"

definition takenOver :: "Config \<Rightarrow> MembershipService \<Rightarrow> MembershipService \<Rightarrow> bool" where
  "takenOver cfg s t \<longleftrightarrow> viewId t = viewId s \<and> leaderPeerId t = leaderPeerId s \<and> requestCounter t = requestCounter s + 1 \<and>
     alivePeers t = survivors cfg s \<and> sendFails t = sendFails s \<and> servers t = servers s \<and>
     tcpClientMap t = (Some \<circ> dialClient cfg s) |` survivors cfg s \<and>
     (\<forall>q \<in> survivors cfg s. recvs t (dialFd cfg s q) = tl (recvs s (dialFd cfg s q))) \<and>
     sent t = sent s @ map (\<lambda>q. (dialFd cfg s q, newLeaderBytes (requestCounter s + 1) (viewId s)))
       (sorted_list_of_set (survivors cfg s))"

lemma handleLeaderCrash_takesOver:
  assumes t: "takesOver cfg alive req s"
  shows "\<exists>t. handleLeaderCrash cfg alive n s =
      completePending cfg n (chosen req (sorted_list_of_set (survivors cfg s)) getDummyPendingRequestMsg) t \<and>
    takenOver cfg s t"
proof -
  let ?R = "survivors cfg s"
  let ?t = "s\<lparr>tcpClientMap := Map.empty, alivePeers := alivePeers s - {leaderPeerId s}\<rparr>"
  have same: "dialled cfg ?t = dialled cfg s" "undialled cfg ?t = undialled cfg s" "dialFd cfg ?t = dialFd cfg s"
    "dialClient cfg ?t = dialClient cfg s"
    by (rule dial_frame; simp)+
  have R: "{q \<in> alivePeers ?t. dialled cfg s q} = ?R" by (simp add: survivors_def)
  have fin: "finite ?R" using t by (auto simp: takesOver_def survivors_def)
  from t have "\<exists>a. sendNewLeaderMsg cfg ?t = (Inr (), ?t\<lparr>attempts := a, requestCounter := requestCounter ?t + 1,
     alivePeers := {q \<in> alivePeers ?t. dialled cfg ?t q},
     tcpClientMap := (Some \<circ> dialClient cfg ?t) |` {q \<in> alivePeers ?t. dialled cfg ?t q},
     sent := sent ?t @ map (\<lambda>q. (dialFd cfg ?t q, newLeaderBytes (requestCounter ?t + 1) (viewId ?t)))
       (sorted_list_of_set {q \<in> alivePeers ?t. dialled cfg ?t q})\<rparr>)"
    unfolding takesOver_def by (intro sendNewLeaderMsg_result) (simp_all add: same)
  then obtain a where a: "sendNewLeaderMsg cfg ?t = (Inr (), ?t\<lparr>attempts := a, requestCounter := requestCounter ?t + 1,
     alivePeers := {q \<in> alivePeers ?t. dialled cfg ?t q},
     tcpClientMap := (Some \<circ> dialClient cfg ?t) |` {q \<in> alivePeers ?t. dialled cfg ?t q},
     sent := sent ?t @ map (\<lambda>q. (dialFd cfg ?t q, newLeaderBytes (requestCounter ?t + 1) (viewId ?t)))
       (sorted_list_of_set {q \<in> alivePeers ?t. dialled cfg ?t q})\<rparr>)" by (elim exE)
  define t1 where "t1 = ?t\<lparr>attempts := a, requestCounter := requestCounter s + 1, alivePeers := ?R,
     tcpClientMap := (Some \<circ> dialClient cfg s) |` ?R,
     sent := sent s @ map (\<lambda>q. (dialFd cfg s q, newLeaderBytes (requestCounter s + 1) (viewId s)))
       (sorted_list_of_set ?R)\<rparr>"
  have a1: "sendNewLeaderMsg cfg ?t = (Inr (), t1)"
    using a unfolding same R t1_def by simp
  have fd: "fdOf t1 q = dialFd cfg s q" if "q \<in> ?R" for q
    using that by (simp add: fdOf_def t1_def dialClient_def)
  have "reported req t1 q" if "q \<in> ?R" for q
    using t that fd [OF that] by (auto simp: reported_def takesOver_def t1_def)
  moreover have "inj_on (fdOf t1) ?R" using t fd by (auto simp: takesOver_def inj_on_def)
  ultimately obtain rv where
    rv: "pendingLoop cfg (sorted_list_of_set ?R) getDummyPendingRequestMsg t1 =
      (Inr (chosen req (sorted_list_of_set ?R) getDummyPendingRequestMsg), t1\<lparr>recvs := rv\<rparr>)"
    "\<forall>p \<in> ?R. rv (fdOf t1 p) = tl (recvs t1 (fdOf t1 p))"
    using pendingLoop_reported [of "sorted_list_of_set ?R" req t1 cfg getDummyPendingRequestMsg] fin by auto
  have "waitForPendingRequestMsg cfg t1 =
      (Inr (chosen req (sorted_list_of_set ?R) getDummyPendingRequestMsg), t1\<lparr>recvs := rv\<rparr>)"
    using rv(1) by (simp add: waitForPendingRequestMsg_def andThen_def act_basic) (simp add: t1_def)
  then have "handleLeaderCrash cfg alive n s =
      completePending cfg n (chosen req (sorted_list_of_set ?R) getDummyPendingRequestMsg) (t1\<lparr>recvs := rv\<rparr>)"
    using t a1 unfolding handleLeaderCrash_def completePending_def takesOver_def me_def Let_def
    by (simp add: andThen_def act_basic)
  moreover have "takenOver cfg s (t1\<lparr>recvs := rv\<rparr>)"
    using rv(2) fd by (simp add: takenOver_def t1_def)
  ultimately show ?thesis by (intro exI conjI)
qed

section \<open>The outcome of a take-over\<close>

lemma chosen_kind:
  assumes "\<forall>q \<in> set ps. P (req q)" and "P m"
  shows "P (chosen req ps m)"
  using assms by (induction req ps m rule: chosen.induct) auto

lemma chosen_nothing:
  "\<forall>q \<in> set ps. rq_operationType (req q) = 0 \<Longrightarrow> chosen req ps m = m"
  by (induction ps) auto

lemma takesOver_finite: "takesOver cfg alive req s \<Longrightarrow> finite (survivors cfg s)"
  by (auto simp: takesOver_def survivors_def)

lemma chosen_shown:
  assumes "takesOver cfg alive req s"
  shows "\<exists>str. showRequestMsg (chosen req (sorted_list_of_set (survivors cfg s)) getDummyPendingRequestMsg) = Inr str"
proof -
  let ?P = "\<lambda>m. rq_msgType m = 1 \<and> knownOp (operationOf (rq_operationType m))"
  let ?m = "chosen req (sorted_list_of_set (survivors cfg s)) getDummyPendingRequestMsg"
  have "?P ?m"
    using assms takesOver_finite [OF assms]
    by (intro chosen_kind [where P = ?P]) (auto simp: takesOver_def getDummyPendingRequestMsg_def)
  then show ?thesis
    using showRequestMsg_iff [of "rq_requestId ?m" "rq_currentViewId ?m" "rq_operationType ?m" "rq_peerId ?m"]
    by (cases ?m) auto
qed

lemma takenOver_peer:
  assumes "takenOver cfg s t" and "q \<in> survivors cfg s"
  shows "tcpClientMap t q = Some (dialClient cfg s q)" "fdOf t q = dialFd cfg s q" "reachable t q"
proof -
  show c: "tcpClientMap t q = Some (dialClient cfg s q)" using assms by (simp add: takenOver_def)
  then show f: "fdOf t q = dialFd cfg s q" by (simp add: fdOf_def dialClient_def)
  have "\<not> sendFails s (dialFd cfg s q)" using assms(2) by (auto simp: survivors_def dialled_def dialFd_def)
  then show "reachable t q" using c assms(1) by (auto simp: reachable_def takenOver_def dialClient_def)
qed

text \<open>The old members that are asked have answered on the new connections.\<close>

definition answersAfter :: "Config \<Rightarrow> (PeerId \<Rightarrow> RequestMsg) \<Rightarrow> MembershipService \<Rightarrow> PeerId \<Rightarrow> bool" where
  "answersAfter cfg req s q \<longleftrightarrow> (\<exists>v rest. recvs s (dialFd cfg s q) =
     Some (requestOf (req q)) # Some (okBytes (requestCounter s + 2) v) # rest)"

lemma takenOver_asked:
  assumes t: "takesOver cfg alive req s" "takenOver cfg s t" and "A \<subseteq> survivors cfg s"
    and "\<forall>q \<in> A. answersAfter cfg req s q"
  shows "\<forall>q \<in> A. answered (requestCounter t + 1) t q" "inj_on (fdOf t) A"
proof
  fix q
  assume q: "q \<in> A"
  with assms obtain v rest where
    "recvs s (dialFd cfg s q) = Some (requestOf (req q)) # Some (okBytes (requestCounter s + 2) v) # rest"
    unfolding answersAfter_def by blast
  then have "recvs t (dialFd cfg s q) = Some (okBytes (requestCounter s + 2) v) # rest"
    using t(2) assms(3) q by (auto simp: takenOver_def)
  moreover have counter: "requestCounter t + 1 = requestCounter s + 2" using t(2) by (simp add: takenOver_def)
  moreover have "tcpClientMap t q = Some (dialClient cfg s q)"
    using takenOver_peer(1) [OF t(2)] assms(3) q by blast
  ultimately show "answered (requestCounter t + 1) t q"
    unfolding answered_def counter by (intro exI [of _ "dialClient cfg s q"] exI [of _ v] exI [of _ rest])
      (simp add: dialClient_def)
next
  have "inj_on (dialFd cfg s) A" using t(1) assms(3) by (auto simp: takesOver_def intro: inj_on_subset)
  moreover have "\<forall>q \<in> A. fdOf t q = dialFd cfg s q" using takenOver_peer(2) [OF t(2)] assms(3) by blast
  ultimately show "inj_on (fdOf t) A" by (simp add: inj_on_def)
qed

text \<open>
  C18: a deletion that was pending when the leader crashed is completed, if a survivor other than the
  new leader reports it (the new leader does not look at its own pending request, see below). The new
  leader reaches the survivors, the last request that one of them reports is the deletion, and they
  acknowledge it again: the new leader installs the next view, without the crashed leader, the
  unreachable peers and the deleted one, and has sent it to all survivors of the deletion.
\<close>

theorem takeover_completes_delete:
  assumes t: "takesOver cfg alive req s"
    and m: "chosen req (sorted_list_of_set (survivors cfg s)) getDummyPendingRequestMsg = m"
      "rq_operationType m = operationCode DEL" "\<not> leaderFailureDemo cfg"
    and answers: "\<forall>q \<in> survivors cfg s - {rq_peerId m}. answersAfter cfg req s q"
    and card: "card (insert (me cfg) (survivors cfg s - {rq_peerId m})) \<le> MAX_PEERS"
    and server: "servers s = su # sus" "serverSocket su = Inr f"
  shows "\<exists>s' bs. handleLeaderCrash cfg alive 0 s = (Inr True, s') \<and> leaderPeerId s' = me cfg \<and>
    viewId s' = viewId s + 1 \<and> alivePeers s' = survivors cfg s - {rq_peerId m} \<and>
    isViewMsg bs (viewId s + 1) (getGroupMembers cfg s') \<and>
    (\<forall>q \<in> alivePeers s'. (dialFd cfg s q, bs) \<in> set (sent s'))"
proof -
  let ?R = "survivors cfg s"
  let ?A = "?R - {rq_peerId m}"
  obtain t where crash: "handleLeaderCrash cfg alive 0 s = completePending cfg 0 m t" and
    to: "takenOver cfg s t"
    using handleLeaderCrash_takesOver [OF t, of 0] m(1) by auto
  have alive: "alivePeers t = ?R" "viewId t = viewId s" using to by (simp_all add: takenOver_def)
  have fin: "finite ?R" by (rule takesOver_finite [OF t])
  have sub: "?A \<subseteq> ?R" by auto
  have new: "newPeers DEL (rq_peerId m) ?R = ?A" "askedPeers DEL (rq_peerId m) ?R = ?A"
    by (simp_all add: newPeers_def askedPeers_def)
  have "readyFor cfg DEL (rq_peerId m) t"
    unfolding readyFor_def alive new using takenOver_asked [OF t to sub answers] takenOver_peer(3) [OF to]
      m(3) fin card by (simp add: me_def)
  from modify_ready [OF this] obtain s1 bs where
    s1: "modifyGroupMembership cfg (rq_peerId m) DEL t = (Inr (), s1)" "viewId s1 = viewId s + 1"
      "alivePeers s1 = ?A" "isViewMsg bs (viewId s + 1) (getGroupMembers cfg s1)"
      "sent s1 = sent t @ map (\<lambda>q. (fdOf t q, requestBytes (requestCounter t + 1) (viewId s)
         (operationCode DEL) (rq_peerId m))) (sorted_list_of_set ?A) @ map (\<lambda>q. (fdOf t q, bs)) (sorted_list_of_set ?A)"
    unfolding alive new by (elim exE conjE)
  have "servers s1 = su # sus"
    using modify_Inr [OF s1(1)] fin to server(1) by (auto simp: alive takenOver_def)
  then have "completePending cfg 0 m t = (Inr True, s1\<lparr>leaderPeerId := me cfg, servers := sus\<rparr>)"
    using chosen_shown [OF t] s1(1) m server(2)
    by (auto simp: completePending_def andThen_def act_basic startAsLeader_def newTcpServer_def)
  moreover have "(dialFd cfg s q, bs) \<in> set (sent s1)" if "q \<in> ?A" for q
  proof -
    have "(dialFd cfg s q, bs) \<in> set (map (\<lambda>q. (fdOf t q, bs)) (sorted_list_of_set ?A))"
      using fin that takenOver_peer(2) [OF to, of q] by (auto intro!: image_eqI [of _ _ q])
    then show ?thesis unfolding s1(5) set_append by blast
  qed
  ultimately show ?thesis
    using s1 crash
    by (intro exI [of _ "s1\<lparr>leaderPeerId := me cfg, servers := sus\<rparr>"] exI [of _ bs])
      (simp add: getGroupMembers_def)
qed

text \<open>
  A take-over in which no survivor reports a request. The new leader, whatever request it has
  pending itself, installs the group of the survivors under the identifier of the old view, which had
  the crashed leader as a member, and sends it to the survivors.
\<close>

theorem takeover_without_pending:
  assumes t: "takesOver cfg alive req s"
    and idle: "\<forall>q \<in> survivors cfg s. rq_operationType (req q) = operationCode NOTHING"
    and card: "card (insert (me cfg) (survivors cfg s)) \<le> MAX_PEERS"
    and server: "servers s = su # sus" "serverSocket su = Inr f"
  shows "\<exists>s' bs. handleLeaderCrash cfg alive 0 s = (Inr True, s') \<and> leaderPeerId s' = me cfg \<and>
    viewId s' = viewId s \<and> alivePeers s' = survivors cfg s \<and> leaderPeerId s \<notin> alivePeers s' \<and>
    isViewMsg bs (viewId s) (getGroupMembers cfg s') \<and>
    (\<forall>q \<in> alivePeers s'. (dialFd cfg s q, bs) \<in> set (sent s'))"
proof -
  let ?R = "survivors cfg s"
  have fin: "finite ?R" by (rule takesOver_finite [OF t])
  have "\<forall>q \<in> set (sorted_list_of_set ?R). rq_operationType (req q) = 0"
    using idle fin by simp
  then have none: "chosen req (sorted_list_of_set ?R) getDummyPendingRequestMsg = getDummyPendingRequestMsg"
    by (rule chosen_nothing)
  obtain t where crash: "handleLeaderCrash cfg alive 0 s = completePending cfg 0 getDummyPendingRequestMsg t" and
    to: "takenOver cfg s t"
    using handleLeaderCrash_takesOver [OF t, of 0] none by auto
  have alive: "alivePeers t = ?R" "viewId t = viewId s" "servers t = su # sus"
    "getGroupMembers cfg t = insert (me cfg) ?R"
    using to server by (simp_all add: takenOver_def getGroupMembers_def me_def)
  have "\<exists>bs. isViewMsg bs (viewId t) (getGroupMembers cfg t) \<and>
    (\<forall>u s'. sendNewViewMsg cfg t = (Inr u, s') \<longleftrightarrow> (\<forall>p \<in> alivePeers t. reachable t p) \<and>
       s' = t\<lparr>sent := sent t @ map (\<lambda>p. (fdOf t p, bs)) (sorted_list_of_set (alivePeers t))\<rparr>)"
    using fin card by (intro sendNewViewMsg_iff) (simp_all add: alive)
  then obtain bs where bs: "isViewMsg bs (viewId s) (insert (me cfg) ?R)"
    "sendNewViewMsg cfg t = (Inr (), t\<lparr>sent := sent t @ map (\<lambda>p. (fdOf t p, bs)) (sorted_list_of_set ?R)\<rparr>)"
    using takenOver_peer(3) [OF to] unfolding alive by blast
  have "completePending cfg 0 getDummyPendingRequestMsg t =
      (Inr True, t\<lparr>sent := sent t @ map (\<lambda>p. (fdOf t p, bs)) (sorted_list_of_set ?R), leaderPeerId := me cfg, servers := sus\<rparr>)"
    using bs(2) server(2)
    by (simp add: completePending_def andThen_def act_basic startAsLeader_def newTcpServer_def
        getDummyPendingRequestMsg_def alive)
  moreover have "leaderPeerId s \<notin> ?R" by (simp add: survivors_def)
  moreover have "(dialFd cfg s q, bs) \<in> set (sent t @ map (\<lambda>p. (fdOf t p, bs)) (sorted_list_of_set ?R))"
    if "q \<in> ?R" for q
  proof -
    have "(dialFd cfg s q, bs) \<in> set (map (\<lambda>p. (fdOf t p, bs)) (sorted_list_of_set ?R))"
      using fin that takenOver_peer(2) [OF to, of q] by (auto intro!: image_eqI [of _ _ q])
    then show ?thesis unfolding set_append by blast
  qed
  ultimately show ?thesis
    using crash bs(1) alive
    by (intro exI [of _ "t\<lparr>sent := sent t @ map (\<lambda>p. (fdOf t p, bs)) (sorted_list_of_set ?R),
        leaderPeerId := me cfg, servers := sus\<rparr>"] exI [of _ bs])
      (simp add: getGroupMembers_def me_def)
qed

section \<open>A pending addition\<close>

text \<open>
  C19: the new leader does not look at its own pending request. Suppose the old leader crashed when it
  had sent the request to delete \<open>p\<close> to this peer only, which then becomes the leader, and \<open>p\<close> can still be
  reached. Then the deletion is lost: \<open>p\<close> stays in the group, and the survivors are sent a view with
  \<open>p\<close>, under the identifier of the old view.
\<close>

theorem takeover_loses_own_pending:
  assumes t: "takesOver cfg alive req s"
    and own: "rq_operationType (pendingRequest s) = operationCode DEL" "rq_peerId (pendingRequest s) \<in> survivors cfg s"
    and idle: "\<forall>q \<in> survivors cfg s. rq_operationType (req q) = operationCode NOTHING"
    and card: "card (insert (me cfg) (survivors cfg s)) \<le> MAX_PEERS"
    and server: "servers s = su # sus" "serverSocket su = Inr f"
  shows "\<exists>s' bs. handleLeaderCrash cfg alive 0 s = (Inr True, s') \<and> leaderPeerId s' = me cfg \<and>
    rq_peerId (pendingRequest s) \<in> alivePeers s' \<and> viewId s' = viewId s \<and>
    isViewMsg bs (viewId s) (getGroupMembers cfg s') \<and>
    (\<forall>q \<in> alivePeers s'. (dialFd cfg s q, bs) \<in> set (sent s'))"
proof -
  obtain s' bs where "handleLeaderCrash cfg alive 0 s = (Inr True, s')" "leaderPeerId s' = me cfg"
    "viewId s' = viewId s" "alivePeers s' = survivors cfg s" "isViewMsg bs (viewId s) (getGroupMembers cfg s')"
    "\<forall>q \<in> alivePeers s'. (dialFd cfg s q, bs) \<in> set (sent s')"
    using takeover_without_pending [OF t idle card server] by blast
  with own(2) show ?thesis by blast
qed


lemma forEach_view_fails:
  assumes b: "serializeNewViewMsg en m (stackBuffer sizeof_NewViewMsg s) = Inr bs"
    and pre: "\<forall>p \<in> set pre. reachable s p" and q: "tcpClientMap s q = None"
  shows "\<exists>s'. forEach (pre @ q # post) (\<lambda>peerId. andThen (get (stackBuffer sizeof_NewViewMsg)) (\<lambda>buffer.
           andThen (lift (serializeNewViewMsg en m buffer)) (\<lambda>buffer. sendTo peerId buffer))) s =
    (Inl OutOfRange, s') \<and> leaderPeerId s' = leaderPeerId s"
proof -
  let ?body = "\<lambda>peerId. andThen (get (stackBuffer sizeof_NewViewMsg)) (\<lambda>buffer.
           andThen (lift (serializeNewViewMsg en m buffer)) (\<lambda>buffer. sendTo peerId buffer))"
  let ?s = "s\<lparr>sent := sent s @ map (\<lambda>p. (fdOf s p, bs)) pre\<rparr>"
  have "forEach pre ?body s = (Inr (), ?s)"
    using pre by (simp add: forEach_view_iff [OF b])
  moreover have "serializeNewViewMsg en m (stackBuffer sizeof_NewViewMsg ?s) = Inr bs"
    using b by (simp add: stackBuffer_def)
  then have "forEach (q # post) ?body ?s = (Inl OutOfRange, ?s)"
    using q by (simp add: andThen_def act_basic sendTo_def clientAt_def)
  ultimately have "forEach (pre @ q # post) ?body s = (Inl OutOfRange, ?s)"
    unfolding forEach_append by (simp add: andThen_def)
  then show ?thesis by (intro exI [of _ ?s]) simp
qed

text \<open>A view cannot be sent to a member without a connection.\<close>

lemma sendNewViewMsg_unconnected:
  assumes fin: "finite (alivePeers t)" and card: "card (getGroupMembers cfg t) \<le> MAX_PEERS"
    and q: "q \<in> alivePeers t" "tcpClientMap t q = None" and others: "\<forall>p \<in> alivePeers t - {q}. reachable t p"
  shows "\<exists>t'. sendNewViewMsg cfg t = (Inl OutOfRange, t') \<and> leaderPeerId t' = leaderPeerId t"
proof -
  let ?ps = "sorted_list_of_set (getGroupMembers cfg t)"
  have len: "length ?ps \<le> MAX_PEERS" using card by simp
  obtain ws where ws: "serializeNewViewMsg (cfg_en cfg) (newViewOf (viewId t) ?ps) (stackBuffer sizeof_NewViewMsg t) =
       Inr (wire_words ([3, viewId t, of_nat (length ?ps)] @ ?ps @ ws))"
    using serializeNewViewMsg_words [OF len, of "stackBuffer sizeof_NewViewMsg t"] by force
  obtain str where str: "showNewViewMsg (newViewOf (viewId t) ?ps) = Inr str"
    using showNewViewMsg_ok [OF len] by blast
  obtain pre post where ps: "sorted_list_of_set (alivePeers t) = pre @ q # post"
    using q(1) fin by (metis set_sorted_list_of_set split_list)
  have "q \<notin> set pre" "set pre \<subseteq> alivePeers t"
    using fin ps by (metis distinct_append distinct_sorted_list_of_set disjoint_iff list.set_intros(1),
      metis Un_upper1 set_append set_sorted_list_of_set)
  with others have "\<forall>p \<in> set pre. reachable t p" by auto
  from forEach_view_fails [OF ws this q(2), of post] show ?thesis
    using len str by (simp add: sendNewViewMsg_apply sendViewAs_def andThen_def act_basic ps newViewOf_def)
qed

text \<open>
  C39: an addition that was pending when the leader crashed cannot be completed. The new leader has
  dropped the connections of its predecessor and has none to the peer to be added, so that sending
  the new view throws \<open>std::out_of_range\<close> after the survivors have acknowledged the addition.
\<close>

theorem takeover_pending_add_faults:
  assumes t: "takesOver cfg alive req s"
    and m: "chosen req (sorted_list_of_set (survivors cfg s)) getDummyPendingRequestMsg = m"
      "rq_operationType m = operationCode ADD" "rq_peerId m \<notin> survivors cfg s"
    and answers: "\<forall>q \<in> survivors cfg s. answersAfter cfg req s q"
    and card: "card (insert (me cfg) (insert (rq_peerId m) (survivors cfg s))) \<le> MAX_PEERS"
  shows "\<exists>s'. handleLeaderCrash cfg alive n s = (Inl OutOfRange, s') \<and> leaderPeerId s' = leaderPeerId s"
proof -
  let ?R = "survivors cfg s"
  let ?p = "rq_peerId m"
  obtain t where crash: "handleLeaderCrash cfg alive n s = completePending cfg n m t" and
    to: "takenOver cfg s t"
    using handleLeaderCrash_takesOver [OF t, of n] m(1) by auto
  have ld: "leaderPeerId t = leaderPeerId s" using to by (simp add: takenOver_def)
  have alive: "alivePeers t = ?R" "tcpClientMap t ?p = None"
    using to m(3) by (simp_all add: takenOver_def)
  have fin: "finite ?R" by (rule takesOver_finite [OF t])
  let ?a = "askingState ADD ?p t"
  have asked: "askedPeers ADD ?p (alivePeers t) = ?R" by (simp add: askedPeers_def alive)
  have reach: "\<forall>q \<in> askedPeers ADD ?p (alivePeers t). reachable t q"
    unfolding asked using takenOver_peer(3) [OF to] by blast
  have a: "alivePeers ?a = ?R" "fdOf ?a = fdOf t" "reachable ?a = reachable t" "tcpClientMap ?a = tcpClientMap t"
    by (simp_all add: asked fun_eq_iff fdOf_def reachable_def newClients_def)
  define t1 where "t1 = ?a\<lparr>sent := sent t @ requestsSent ADD ?p t\<rparr>"
  have "sendRequestMsg cfg \<lparr>rq_msgType = 1, rq_requestId = requestCounter t + 1, rq_currentViewId = viewId t,
        rq_operationType = operationCode ADD, rq_peerId = ?p\<rparr> ?a = (Inr (), t1)"
    unfolding t1_def using reach fin a by (subst sendRequestMsg_iff) (auto simp: requestsSent_def asked)
  moreover obtain rv where "waitForOkMsg cfg (requestCounter t + 1) t1 = (Inr (), t1\<lparr>recvs := rv\<rparr>)"
  proof -
    have fd1: "fdOf t1 = fdOf t" "tcpClientMap t1 = tcpClientMap t" "recvs t1 = recvs t" "alivePeers t1 = ?R"
      by (simp_all add: t1_def a asked newClients_def)
    have "answered (requestCounter t + 1) t1 q" if "q \<in> ?R" for q
      using takenOver_asked(1) [OF t to subset_refl answers] that unfolding answered_def fd1 by blast
    moreover have "inj_on (fdOf t1) ?R"
      unfolding fd1 by (rule takenOver_asked(2) [OF t to subset_refl answers])
    ultimately obtain rv where "forEach (sorted_list_of_set ?R) (okFrom cfg (requestCounter t + 1)) t1 =
        (Inr (), t1\<lparr>recvs := rv\<rparr>)"
      using forEach_okFrom_reply [of "sorted_list_of_set ?R" "requestCounter t + 1" t1 cfg] fin by auto
    then show ?thesis using that by (simp add: waitForOkMsg_def act_simps fd1)
  qed
  moreover define t2 where "t2 = t1\<lparr>recvs := rv, alivePeers := insert ?p (alivePeers t1), viewId := viewId t1 + 1\<rparr>"
  moreover have "\<exists>t'. sendNewViewMsg cfg t2 = (Inl OutOfRange, t') \<and> leaderPeerId t' = leaderPeerId t2"
  proof (rule sendNewViewMsg_unconnected)
    show "?p \<in> alivePeers t2" "tcpClientMap t2 ?p = None"
      by (simp_all add: t2_def t1_def newClients_def alive)
    show "\<forall>q \<in> alivePeers t2 - {?p}. reachable t2 q"
      using reach a by (auto simp: t2_def t1_def asked reachable_def newClients_def)
  qed (use fin card in \<open>simp_all add: t2_def t1_def asked getGroupMembers_def me_def\<close>)
  ultimately obtain t' where "modifyGroupMembership cfg ?p ADD t = (Inl OutOfRange, t')" "leaderPeerId t' = leaderPeerId t"
    unfolding modify_unfold by (auto simp: act_simps andThen_def t1_def)
  then show ?thesis
    using crash chosen_shown [OF t] m ld by (auto simp: completePending_def andThen_def act_basic)
qed

section \<open>Examples\<close>

lemma exampleInfo_valid: "validPeerInfo (exampleInfo 2)"
proof (rule validPeerInfo_initialize)
  show "initialize ''b'' [''a'', ''b'', ''c'', ''d'', ''e''] = Inr (exampleInfo 2)"
    by (simp add: initialize_def getProcessIdentifier_lab2_def exampleInfo_def)
qed (simp_all add: valid_hosts_def)

definition exampleRequest :: "u32 \<Rightarrow> PeerId \<Rightarrow> RequestMsg" where
  "exampleRequest op p = \<lparr>rq_msgType = 1, rq_requestId = 5, rq_currentViewId = 4, rq_operationType = op, rq_peerId = p\<rparr>"

text \<open>
  The peer 2 after the crash of the leader 1, in the fourth view with the members 3 and 4. The host
  \<open>c\<close> is up, the host \<open>d\<close> is not; \<open>m\<close> is the request that \<open>c\<close> reports, and the peer itself has been
  asked to delete the peer 3.
\<close>

definition exampleHeir :: "RequestMsg \<Rightarrow> MembershipService" where
  "exampleHeir m = (newMembershipService (idleNetwork\<lparr>
       attempts := (\<lambda>h. if h = ''c'' then [Addresses [Some 7] True] else replicate 6 NoSuchHost),
       servers := [\<lparr>su_addresses = Addresses [Some 5] True, su_setsockopt = True, su_bind = True, su_listen = True\<rparr>],
       recvs := (\<lambda>f. [Some (requestOf m), Some (okBytes 3 4)])\<rparr>))
     \<lparr>viewId := 4, alivePeers := {1, 3, 4}, pendingRequest := exampleRequest 2 3\<rparr>"

lemma exampleRequest_simps [simp]:
  "rq_msgType (exampleRequest op p) = 1" "rq_operationType (exampleRequest op p) = op"
  "rq_peerId (exampleRequest op p) = p"
  by (simp_all add: exampleRequest_def)

lemma exampleHeir_simps:
  "alivePeers (exampleHeir m) = {1, 3, 4}" "leaderPeerId (exampleHeir m) = 1" "viewId (exampleHeir m) = 4"
  "recvs (exampleHeir m) f = [Some (requestOf m), Some (okBytes 3 4)]" "requestCounter (exampleHeir m) = 1"
  "sendFails (exampleHeir m) f = False" "pendingRequest (exampleHeir m) = exampleRequest 2 3"
  "servers (exampleHeir m) = [\<lparr>su_addresses = Addresses [Some 5] True, su_setsockopt = True, su_bind = True, su_listen = True\<rparr>]"
  by (simp_all add: exampleHeir_def newMembershipService_def idleNetwork_def Network.defs)

lemma connectLoop_refusals:
  "fst (connectLoop 0 5 False (replicate 6 NoSuchHost)) = Inl RuntimeError"
  by (simp add: numeral_eq_Suc bindSocketToFd_def isRuntimeError_def)

lemma exampleHeir_dial:
  "dial (exampleConfig 2) (exampleHeir m) 3 = Inr 7"
  "dial (exampleConfig 2) (exampleHeir m) 4 = Inl RuntimeError"
  using connectLoop_refusals
  by (simp_all add: dial_def getHostname_def exampleInfo_maps map_at_def exampleHeir_def newMembershipService_def
      idleNetwork_def Network.defs bindSocketToFd_def)

lemma exampleHeir_survivors: "survivors (exampleConfig 2) (exampleHeir m) = {3}"
proof -
  have "dialled (exampleConfig 2) (exampleHeir m) 3" "\<not> dialled (exampleConfig 2) (exampleHeir m) 4"
    by (simp_all add: dialled_def exampleHeir_dial exampleHeir_simps)
  then show ?thesis by (auto simp: survivors_def exampleHeir_simps)
qed

lemma exampleHeir_takesOver:
  assumes "knownOp (operationOf op)"
  shows "takesOver (exampleConfig 2) {3, 4} (\<lambda>q. exampleRequest op p) (exampleHeir (exampleRequest op p))"
proof -
  let ?s = "exampleHeir (exampleRequest op p)"
  have "dialled (exampleConfig 2) ?s 3" "undialled (exampleConfig 2) ?s 4"
    by (simp_all add: dialled_def undialled_def exampleHeir_dial exampleHeir_simps isRuntimeError_def
        getHostname_def exampleInfo_maps map_at_def)
  then show ?thesis
    using assms exampleInfo_valid by (auto simp: takesOver_def exampleHeir_survivors exampleHeir_simps)
qed

lemma exampleHeir_server:
  "serverSocket \<lparr>su_addresses = Addresses [Some 5] True, su_setsockopt = True, su_bind = True, su_listen = True\<rparr> = Inr 5"
  by (simp add: serverSocket_def bindSocketToFd_def)

lemma exampleHeir_chosen:
  "op \<noteq> 0 \<Longrightarrow> chosen (\<lambda>q. exampleRequest op p) (sorted_list_of_set (survivors (exampleConfig 2) (exampleHeir m)))
     getDummyPendingRequestMsg = exampleRequest op p"
  by (simp add: exampleHeir_survivors)

lemma exampleHeir_answers:
  "answersAfter (exampleConfig 2) (\<lambda>q. m) (exampleHeir m) 3"
  unfolding answersAfter_def exampleHeir_simps by (intro exI [of _ 4] exI [of _ "[]"]) simp

theorem takeover_completes_delete_witness:
  "\<exists>s'. handleLeaderCrash (exampleConfig 2) {3, 4} 0 (exampleHeir (exampleRequest 2 4)) = (Inr True, s') \<and>
    leaderPeerId s' = 2 \<and> viewId s' = 5 \<and> alivePeers s' = {3}"
  using takeover_completes_delete [OF exampleHeir_takesOver exampleHeir_chosen _ _ _ _ _ exampleHeir_server,
      of 2 4 "[]"] exampleHeir_answers [of "exampleRequest 2 4"]
  by (auto simp: exampleHeir_survivors exampleHeir_simps MAX_PEERS_def)

theorem takeover_without_pending_witness:
  "\<exists>s'. handleLeaderCrash (exampleConfig 2) {3, 4} 0 (exampleHeir (exampleRequest 0 0)) = (Inr True, s') \<and>
    leaderPeerId s' = 2 \<and> viewId s' = 4 \<and> alivePeers s' = {3}"
  using takeover_without_pending [OF exampleHeir_takesOver _ _ _ exampleHeir_server, of 0 0 "[]"]
  by (auto simp: exampleHeir_survivors exampleHeir_simps MAX_PEERS_def)

theorem takeover_loses_own_pending_witness:
  "\<exists>s'. handleLeaderCrash (exampleConfig 2) {3, 4} 0 (exampleHeir (exampleRequest 0 0)) = (Inr True, s') \<and>
    pendingRequest (exampleHeir (exampleRequest 0 0)) = exampleRequest (operationCode DEL) 3 \<and>
    3 \<in> alivePeers s' \<and> viewId s' = 4"
  using takeover_loses_own_pending [OF exampleHeir_takesOver _ _ _ _ _ exampleHeir_server, of 0 0 "[]"]
  by (auto simp: exampleHeir_survivors exampleHeir_simps MAX_PEERS_def)

theorem takeover_pending_add_faults_witness:
  "\<exists>s'. handleLeaderCrash (exampleConfig 2) {3, 4} 0 (exampleHeir (exampleRequest 1 5)) = (Inl OutOfRange, s')"
  using takeover_pending_add_faults [OF exampleHeir_takesOver exampleHeir_chosen, of 1 5 0]
    exampleHeir_answers [of "exampleRequest 1 5"]
  by (auto simp: exampleHeir_survivors exampleHeir_simps MAX_PEERS_def)

end
