(* ===== verification/Startup.thy ===== *)
theory Startup
  imports Failover
begin

text \<open>
  How a process of the membership service starts: it looks for a leader among the hosts in the order
  of the host file, becomes its member or the leader itself. And what happens when the stream from
  the leader does not keep the messages apart.
\<close>

section \<open>Looking for a leader\<close>

text \<open>The one attempt to connect to a host: it succeeds with a descriptor, or is refused.\<close>

definition knock :: "MembershipService \<Rightarrow> hostname \<Rightarrow> fd res" where
  "knock s h = fst (connectLoop 0 0 False (attempts s h))"

definition refusedBy :: "MembershipService \<Rightarrow> hostname \<Rightarrow> bool" where
  "refusedBy s h \<longleftrightarrow> h \<noteq> [] \<and> (\<exists>e. knock s h = Inl e \<and> isRuntimeError e)"

lemma findLeaderLoop_own:
  "getPeerId (cfg_info cfg) h = Inr (me cfg) \<Longrightarrow> findLeaderLoop cfg (h # hs) s = findLeaderLoop cfg hs s"
  by (simp add: andThen_def act_basic me_def)

lemma findLeaderLoop_refused:
  assumes "getPeerId (cfg_info cfg) h = Inr i" and "i \<noteq> me cfg" and r: "refusedBy s h"
  shows "\<exists>as. findLeaderLoop cfg (h # hs) s = findLeaderLoop cfg hs (s\<lparr>attempts := (attempts s)(h := as)\<rparr>)"
proof -
  obtain e where e: "h \<noteq> []" "fst (connectLoop 0 0 False (attempts s h)) = Inl e" "isRuntimeError e"
    using r by (auto simp: refusedBy_def knock_def)
  obtain as where "connectLoop 0 0 False (attempts s h) = (Inl e, as)"
    using e(2) by (cases "connectLoop 0 0 False (attempts s h)") auto
  with e assms(1,2) show ?thesis
    by (intro exI [of _ as]) (simp add: andThen_def act_basic me_def catching_def newTcpClient_def)
qed

lemma findLeaderLoop_connected:
  assumes "getPeerId (cfg_info cfg) h = Inr i" and "i \<noteq> me cfg" and "h \<noteq> []" and k: "knock s h = Inr f"
    and "tcpClientMap s i = None"
  shows "\<exists>as. findLeaderLoop cfg (h # hs) s = (Inr (), s\<lparr>attempts := (attempts s)(h := as), leaderPeerId := i,
    tcpClientMap := (tcpClientMap s)(i \<mapsto> \<lparr>tc_hostname = h, tc_port = membershipPort cfg, tc_sockFd = f\<rparr>)\<rparr>)"
proof -
  obtain as where "connectLoop 0 0 False (attempts s h) = (Inr f, as)"
    using k by (cases "connectLoop 0 0 False (attempts s h)") (auto simp: knock_def)
  with assms show ?thesis
    by (intro exI [of _ as])
      (simp add: andThen_def act_basic me_def catching_def newTcpClient_def insertClient_def)
qed

text \<open>The hosts that are passed over: the own one, and those that refuse.\<close>

definition passedOver :: "Config \<Rightarrow> MembershipService \<Rightarrow> hostname \<Rightarrow> bool" where
  "passedOver cfg s h \<longleftrightarrow> getPeerId (cfg_info cfg) h = Inr (me cfg) \<or>
     (\<exists>i. getPeerId (cfg_info cfg) h = Inr i \<and> i \<noteq> me cfg \<and> refusedBy s h)"

lemma findLeaderLoop_passed:
  assumes "distinct pre" and "\<forall>h \<in> set pre. passedOver cfg s h"
  shows "\<exists>a. (\<forall>h. h \<notin> set pre \<longrightarrow> a h = attempts s h) \<and>
    findLeaderLoop cfg (pre @ post) s = findLeaderLoop cfg post (s\<lparr>attempts := a\<rparr>)"
  using assms
proof (induction pre arbitrary: s)
  case Nil
  show ?case by (intro exI [of _ "attempts s"]) simp
next
  case (Cons h pre)
  have "passedOver cfg s h" using Cons.prems by simp
  then obtain as where as: "findLeaderLoop cfg ((h # pre) @ post) s =
      findLeaderLoop cfg (pre @ post) (s\<lparr>attempts := (attempts s)(h := as)\<rparr>)"
    unfolding passedOver_def append_Cons
  proof (elim disjE exE conjE)
    assume "getPeerId (cfg_info cfg) h = Inr (me cfg)"
    then have "findLeaderLoop cfg (h # pre @ post) s = findLeaderLoop cfg (pre @ post) s"
      by (rule findLeaderLoop_own)
    then show ?thesis using that [of "attempts s h"] by simp
  next
    fix i
    assume "getPeerId (cfg_info cfg) h = Inr i" "i \<noteq> me cfg" "refusedBy s h"
    from findLeaderLoop_refused [OF this] show ?thesis using that by force
  qed
  let ?s = "s\<lparr>attempts := (attempts s)(h := as)\<rparr>"
  have "\<forall>h' \<in> set pre. passedOver cfg ?s h'"
    using Cons.prems by (auto simp: passedOver_def refusedBy_def knock_def)
  with Cons.IH [of ?s] Cons.prems(1) obtain a where
    a: "\<forall>h'. h' \<notin> set pre \<longrightarrow> a h' = attempts ?s h'"
      "findLeaderLoop cfg (pre @ post) ?s = findLeaderLoop cfg post (s\<lparr>attempts := a\<rparr>)" by auto
  then show ?case using as by (intro exI [of _ a]) simp
qed

lemma findLeader_result:
  assumes v: "validPeerInfo (cfg_info cfg)" and hosts: "getAllPeerHostnames (cfg_info cfg) = pre @ h # post"
    and passed: "\<forall>h \<in> set pre. passedOver cfg s h"
    and h: "getPeerId (cfg_info cfg) h = Inr i" "i \<noteq> me cfg" "h \<noteq> []" "knock s h = Inr f" "tcpClientMap s i = None"
  shows "\<exists>a. findLeader cfg s = (Inr (), s\<lparr>attempts := a, leaderPeerId := i,
    tcpClientMap := (tcpClientMap s)(i \<mapsto> \<lparr>tc_hostname = h, tc_port = membershipPort cfg, tc_sockFd = f\<rparr>)\<rparr>)"
proof -
  have d: "distinct pre" "h \<notin> set pre"
    using validPeerInfo_maps(3) [OF v] hosts by (auto simp: getAllPeerHostnames_def)
  from findLeaderLoop_passed [OF d(1) passed, of "h # post"] obtain a where
    a: "a h = attempts s h" "findLeader cfg s = findLeaderLoop cfg (h # post) (s\<lparr>attempts := a\<rparr>)"
    using d(2) by (auto simp: findLeader_def hosts)
  have "knock (s\<lparr>attempts := a\<rparr>) h = Inr f" using h(4) a(1) by (simp add: knock_def)
  from findLeaderLoop_connected [OF h(1,2,3) this] h(5) a(2) show ?thesis by auto
qed

text \<open>
  C29: the choice of the leader. The leader is the first host of the host file, other than this one,
  that accepts a connection, and the connection to it is kept; if all others refuse, this process is
  the leader.
\<close>

theorem leader_found:
  assumes v: "validPeerInfo (cfg_info cfg)" and hosts: "getAllPeerHostnames (cfg_info cfg) = pre @ post"
    and passed: "\<forall>h \<in> set pre. passedOver cfg s h" and new: "tcpClientMap s = Map.empty"
  shows "case post of
      [] \<Rightarrow> \<exists>s'. findLeader cfg s = (Inr (), s') \<and> leaderPeerId s' = me cfg \<and> tcpClientMap s' = Map.empty
    | h # _ \<Rightarrow> \<forall>i f. getPeerId (cfg_info cfg) h = Inr i \<and> i \<noteq> me cfg \<and> h \<noteq> [] \<and> knock s h = Inr f \<longrightarrow>
        (\<exists>s'. findLeader cfg s = (Inr (), s') \<and> leaderPeerId s' = i \<and>
          tcpClientMap s' = [i \<mapsto> \<lparr>tc_hostname = h, tc_port = membershipPort cfg, tc_sockFd = f\<rparr>])"
proof (cases post)
  case Nil
  have "distinct pre"
    using validPeerInfo_maps(3) [OF v] hosts by (simp add: getAllPeerHostnames_def)
  from findLeaderLoop_passed [OF this passed, of "[]"] obtain a where
    "findLeader cfg s = findLeaderLoop cfg [] (s\<lparr>attempts := a\<rparr>)"
    using hosts Nil by (auto simp: findLeader_def)
  then show ?thesis using new by (simp add: Nil act_basic me_def)
next
  case (Cons h post')
  show ?thesis unfolding Cons list.case
  proof (intro allI impI, elim conjE)
    fix i f
    assume h: "getPeerId (cfg_info cfg) h = Inr i" "i \<noteq> me cfg" "h \<noteq> []" "knock s h = Inr f"
    have "tcpClientMap s i = None" by (simp add: new)
    from findLeader_result [OF v hosts [unfolded Cons] passed h this]
    show "\<exists>s'. findLeader cfg s = (Inr (), s') \<and> leaderPeerId s' = i \<and>
          tcpClientMap s' = [i \<mapsto> \<lparr>tc_hostname = h, tc_port = membershipPort cfg, tc_sockFd = f\<rparr>]"
      by (auto simp: new)
  qed
qed

text \<open>
  From the start to the first view. A process that finds a leader and to which the leader sends a
  view has, after one message, the view's identifier and, if it is one of the members, its group.
\<close>

theorem start_installs_view:
  assumes "validPeerInfo (cfg_info cfg)" and "getAllPeerHostnames (cfg_info cfg) = pre @ h # post"
    and "\<forall>h \<in> set pre. passedOver cfg (newMembershipService net) h"
    and "getPeerId (cfg_info cfg) h = Inr i" and "i \<noteq> me cfg" and "h \<noteq> []"
    and "knock (newMembershipService net) h = Inr f"
    and "recvs net f = Some bs # rest" and "isViewMsg bs v M" and "me cfg \<in> M"
  shows "\<exists>s'. start cfg n [(1, [], {}, 0)] (newMembershipService net) = (Inr (), s') \<and>
    leaderPeerId s' = i \<and> viewId s' = v \<and> getGroupMembers cfg s' = M \<and>
    pendingRequest s' = getDummyPendingRequestMsg"
proof -
  let ?s = "newMembershipService net"
  have fields: "tcpClientMap ?s = Map.empty" "recvs ?s = recvs net"
    by (simp_all add: newMembershipService_def Network.defs)
  let ?c = "\<lparr>tc_hostname = h, tc_port = membershipPort cfg, tc_sockFd = f\<rparr>"
  obtain a where a: "findLeader cfg ?s = (Inr (), ?s\<lparr>attempts := a, leaderPeerId := i,
      tcpClientMap := [i \<mapsto> ?c]\<rparr>)"
    using findLeader_result [OF assms(1-7)] by (auto simp: fields)
  define t where "t = ?s\<lparr>attempts := a, leaderPeerId := i, tcpClientMap := [i \<mapsto> ?c]\<rparr>"
  have "tcpClientMap t (leaderPeerId t) = Some ?c" "recvs t (tc_sockFd ?c) = Some bs # rest"
    using assms(8) by (simp_all add: t_def fields)
  from followerStep_view [OF this assms(9), of cfg] obtain t' where
    t': "followerStep cfg t = (Inr (), t')" "leaderPeerId t' = i" "viewId t' = v"
      "alivePeers t' = M - {me cfg}" "pendingRequest t' = getDummyPendingRequestMsg"
    by (simp add: t_def me_def)
  have "start cfg n [(1, [], {}, 0)] ?s = (Inr (), t')"
    using a t'(1) assms(5)
    by (simp add: start_def andThen_def act_basic catching_def t_def [symmetric] me_def [symmetric])
      (simp add: t_def)
  then show ?thesis using t' assms(10) by (auto simp: getGroupMembers_def me_def)
qed

section \<open>Messages that arrive together\<close>

text \<open>
  The stream may deliver two messages at once, for example a view and the request of the next
  change. The follower takes them for one message of a wrong size and aborts.
\<close>

theorem coalesced_messages_abort:
  assumes "tcpClientMap t (leaderPeerId t) = Some c"
    and "recvs t (tc_sockFd c) = Some (bs @ requestBytes r w op p) # rest" and "isViewMsg bs v M"
  shows "\<exists>t'. followerStep cfg t = (Inl CheckFailed, t') \<and> viewId t' = viewId t \<and> alivePeers t' = alivePeers t"
proof -
  obtain ws where ws: "length ws + card M = MAX_PEERS" "finite M"
    "bs = wire_words ([3, v, of_nat (card M)] @ sorted_list_of_set M @ ws)"
    using assms(3) by (auto simp: isViewMsg_def)
  let ?b = "bs @ requestBytes r w op p"
  have b: "?b = wire_words (3 # ([v, of_nat (card M)] @ sorted_list_of_set M @ ws @ [1, r, w, op, p]))"
    by (simp add: ws(3) requestBytes_def wire_words_append wire_words_simps)
  have len: "length bs = 52" using ws by (simp add: MAX_PEERS_def)
  have ty: "getMsgType (cfg_en cfg) (received ?b junk from) = Inr NEW_VIEW" for junk "from"
    unfolding b using ws by (subst getMsgType_received) (simp_all add: MAX_PEERS_def)
  have "m_n (received ?b junk from) = 72" for junk "from"
    by (simp add: len requestBytes_def MAX_BUFFER_SIZE_def)
  then have de: "deserializeNewViewMsg (cfg_en cfg) (received ?b junk from) = Inl CheckFailed" for junk "from"
    by (simp add: deserializeNewViewMsg_def sizeof_NewViewMsg_def)
  show ?thesis
    using assms(1,2) isViewMsg_ne [OF assms(3)]
    by (simp add: followerStep_def clientAt_def andThen_def act_basic tcpReceive_chunk ty processNewViewMsg_def de)
qed

section \<open>Examples\<close>

text \<open>The host \<open>b\<close> starts: \<open>a\<close> refuses, \<open>c\<close> accepts and sends a view.\<close>

definition exampleNet :: "byte list \<Rightarrow> Network" where
  "exampleNet bs = idleNetwork\<lparr>
     attempts := (\<lambda>h. if h = ''c'' then [Addresses [Some 7] True] else [Addresses [Some 6] False]),
     recvs := (\<lambda>f. [Some bs])\<rparr>"

lemma exampleNet_simps:
  "passedOver (exampleConfig 2) (newMembershipService (exampleNet bs)) ''a''"
  "passedOver (exampleConfig 2) (newMembershipService (exampleNet bs)) ''b''"
  "knock (newMembershipService (exampleNet bs)) ''c'' = Inr 7"
  "recvs (exampleNet bs) 7 = [Some bs]" "tcpClientMap (newMembershipService (exampleNet bs)) = Map.empty"
  by (simp_all add: passedOver_def refusedBy_def knock_def exampleNet_def newMembershipService_def Network.defs
      getPeerId_def exampleInfo_maps map_at_def bindSocketToFd_def isRuntimeError_def)

lemma exampleHosts: "getAllPeerHostnames (exampleInfo 2) = [''a'', ''b''] @ ''c'' # [''d'', ''e'']"
  by (simp add: getAllPeerHostnames_def exampleInfo_maps)

theorem leader_found_witness:
  "\<exists>s'. findLeader (exampleConfig 2) (newMembershipService (exampleNet [])) = (Inr (), s') \<and> leaderPeerId s' = 3"
  using leader_found [of "exampleConfig 2" "[''a'', ''b'']" "''c'' # [''d'', ''e'']" "newMembershipService (exampleNet [])"]
    exampleHosts exampleInfo_valid
  by (auto simp: exampleNet_simps getPeerId_def exampleInfo_maps map_at_def)

lemma exampleView: "\<exists>bs. isViewMsg bs 3 {2, 3}"
  unfolding isViewMsg_def
  by (intro exI [of _ "wire_words ([3, 3, of_nat (card {2 :: PeerId, 3})] @ sorted_list_of_set {2, 3} @ replicate 8 0)"]
      conjI exI [of _ "replicate 8 0"]) (simp_all add: MAX_PEERS_def)

theorem start_installs_view_witness:
  "\<exists>bs s'. start (exampleConfig 2) 0 [(1, [], {}, 0)] (newMembershipService (exampleNet bs)) = (Inr (), s') \<and>
    leaderPeerId s' = 3 \<and> viewId s' = 3 \<and> getGroupMembers (exampleConfig 2) s' = {2, 3}"
proof -
  obtain bs where bs: "isViewMsg bs 3 {2, 3}" using exampleView by blast
  have "\<exists>s'. start (exampleConfig 2) 0 [(1, [], {}, 0)] (newMembershipService (exampleNet bs)) = (Inr (), s') \<and>
    leaderPeerId s' = 3 \<and> viewId s' = 3 \<and> getGroupMembers (exampleConfig 2) s' = {2, 3} \<and>
    pendingRequest s' = getDummyPendingRequestMsg"
    by (rule start_installs_view [of _ "[''a'', ''b'']" "''c''" "[''d'', ''e'']", where f = 7 and bs = bs])
      (use bs exampleHosts exampleInfo_valid in
        \<open>auto simp: exampleNet_simps getPeerId_def exampleInfo_maps map_at_def\<close>)
  then show ?thesis by blast
qed

theorem coalesced_messages_abort_witness:
  "\<exists>bs t'. isViewMsg bs 3 {2, 3} \<and>
    followerStep (exampleConfig 2) (exampleMember (bs @ requestBytes 4 3 1 4)) = (Inl CheckFailed, t')"
proof -
  obtain bs where bs: "isViewMsg bs 3 {2, 3}" using exampleView by blast
  have "tcpClientMap (exampleMember (bs @ requestBytes 4 3 1 4)) (leaderPeerId (exampleMember (bs @ requestBytes 4 3 1 4))) =
      Some (clientTo ''a'' 9)"
    "recvs (exampleMember (bs @ requestBytes 4 3 1 4)) (tc_sockFd (clientTo ''a'' 9)) = [Some (bs @ requestBytes 4 3 1 4)]"
    by (simp_all add: example_defs)
  from coalesced_messages_abort [OF this bs, of "exampleConfig 2"] bs show ?thesis by blast
qed

end
