(* ===== verification/Heartbeat.thy ===== *)
theory Heartbeat
  imports Net Hosts "HOL-Library.Sublist"
begin

text \<open>
  The start-up protocol of lab0 (\<open>heartbeat.h\<close>, \<open>heartbeat.cpp\<close>, \<open>socket_utils.cpp\<close>, \<open>main.cpp\<close>): a process
  sends \<open>I am alive\<close> to its peers until each has acknowledged it, acknowledges theirs, and is ready
  when it has heard from all of them. The static members of \<open>HeartbeatSender\<close>, the set of the receiver
  and the positions of the two threads form the state; a run is a list of the steps of the threads,
  in which a step that cannot happen is \<open>Blocked\<close>. Messages are strings of characters.
\<close>

section \<open>Sockets\<close>

record UDPSender =
  us_socketFD :: fd
  us_closed :: bool

datatype listenerPc = Checking | Waiting | ListenerEnded

record HeartbeatState =
  aliveMessageReceivers :: "hostname set"
  udpSenders :: "hostname \<rightharpoonup> UDPSender"
  stopAliveMessageLoop :: bool
  validSenders :: "hostname set"
  listener :: listenerPc
  aliveLoopEnded :: bool
  lookups :: "hostname \<Rightarrow> attempt list"
  sendErrors :: "fd \<Rightarrow> bool"
  sentMessages :: "(fd \<times> string) list"

type_synonym 'a hb = "('a, HeartbeatState) act"

text \<open>\<open>UDPSender::initSocket\<close> and the constructor; \<open>sendMessage\<close> only logs errors.\<close>

definition initSenderSocket :: "attempt \<Rightarrow> fd res" where
  "initSenderSocket a =
     (case a of
        NoSuchHost \<Rightarrow> Inl RuntimeError
      | Addresses rs connects \<Rightarrow>
          (case firstSocket rs of None \<Rightarrow> Inl FatalLog | Some socketFD \<Rightarrow> Inr socketFD))"

definition newUDPSender_lab0 :: "hostname \<Rightarrow> UDPSender hb" where
  "newUDPSender_lab0 host s =
     (case lookups s host of
        [] \<Rightarrow> (Inl Blocked, s)
      | a # as \<Rightarrow> (rbind (initSenderSocket a) (\<lambda>socketFD. Inr \<lparr>us_socketFD = socketFD, us_closed = False\<rparr>),
                   s\<lparr>lookups := (lookups s)(host := as)\<rparr>))"

text \<open>A closed sender has freed the address to which it sends.\<close>

definition sendMessage :: "UDPSender \<Rightarrow> string \<Rightarrow> unit hb" where
  "sendMessage udpSender message s =
     (if us_closed udpSender then (Inl UndefinedBehaviour, s)
      else if sendErrors s (us_socketFD udpSender) then (Inr (), s)
      else (Inr (), s\<lparr>sentMessages := sentMessages s @ [(us_socketFD udpSender, message)]\<rparr>))"

text \<open>
  \<open>UDPReceiver::initSocket\<close>, and \<open>receiveMessage\<close>: at most 99 bytes are received, and the message is
  the C string in the buffer, which ends at the first zero.
\<close>

fun initReceiverSocket :: "(fd option \<times> bool) list option \<Rightarrow> fd res" where
  "initReceiverSocket None = Inl FatalLog"
| "initReceiverSocket (Some []) = Inl FatalLog"
| "initReceiverSocket (Some ((None, bound) # rs)) = initReceiverSocket (Some rs)"
| "initReceiverSocket (Some ((Some sockfd, bound) # rs)) =
     (if bound then Inr sockfd else initReceiverSocket (Some rs))"

definition MAX_BUFFER_SIZE_lab0 :: nat where
  "MAX_BUFFER_SIZE_lab0 = 100"

definition receiveMessage :: "(string \<times> string) option \<Rightarrow> (string \<times> string) res" where
  "receiveMessage r =
     (case r of
        None \<Rightarrow> Inl RuntimeError
      | Some (bytes, receivedFrom) \<Rightarrow>
          Inr (takeWhile (\<lambda>c. c \<noteq> CHR 0x00) (take (MAX_BUFFER_SIZE_lab0 - 1) bytes), receivedFrom))"

section \<open>The sender\<close>

definition aliveMessage :: string where
  "aliveMessage = ''I am alive''"

definition ackMessage :: string where
  "ackMessage = ''Ack''"

text \<open>A sender that cannot be created is a null pointer (\<open>None\<close>).\<close>

definition getUDPSender :: "hostname \<Rightarrow> UDPSender option hb" where
  "getUDPSender hostname =
     andThen (get (\<lambda>s. udpSenders s hostname)) (\<lambda>found.
     andThen (if found = None
              then catching isRuntimeError
                     (andThen (newUDPSender_lab0 hostname) (\<lambda>udpSender.
                        modify (\<lambda>s. s\<lparr>udpSenders := (udpSenders s)(hostname \<mapsto> udpSender)\<rparr>)))
                     (ret ())
              else ret ()) (\<lambda>_.
     get (\<lambda>s. udpSenders s hostname)))"

definition addToAliveMessageReceiverList :: "hostname \<Rightarrow> unit hb" where
  "addToAliveMessageReceiverList hostname =
     modify (\<lambda>s. s\<lparr>aliveMessageReceivers := insert hostname (aliveMessageReceivers s)\<rparr>)"

definition removeFromAliveMessageReceiverList :: "hostname \<Rightarrow> unit hb" where
  "removeFromAliveMessageReceiverList hostname =
     modify (\<lambda>s. let s = s\<lparr>aliveMessageReceivers := aliveMessageReceivers s - {hostname}\<rparr>
                 in if aliveMessageReceivers s = {} then s\<lparr>stopAliveMessageLoop := True\<rparr> else s)"

definition getAliveMessageReceiverListSIze :: "HeartbeatState \<Rightarrow> nat" where
  "getAliveMessageReceiverListSIze s = card (aliveMessageReceivers s)"

definition sendingAckMessages :: "hostname \<Rightarrow> unit hb" where
  "sendingAckMessages hostname =
     andThen (getUDPSender hostname) (\<lambda>udpSender.
       case udpSender of None \<Rightarrow> lift (Inl UndefinedBehaviour) | Some u \<Rightarrow> sendMessage u ackMessage)"

text \<open>The body of the loop of \<open>startSendingAliveMessages\<close>; \<open>order\<close> is the iteration order of the set.\<close>

definition aliveRound :: "hostname list \<Rightarrow> unit hb" where
  "aliveRound order =
     forEach order (\<lambda>hostname.
       andThen (getUDPSender hostname) (\<lambda>udpSender.
         case udpSender of None \<Rightarrow> ret () | Some u \<Rightarrow> sendMessage u aliveMessage))"

definition closeConnection :: "UDPSender \<Rightarrow> UDPSender" where
  "closeConnection udpSender = udpSender\<lparr>us_closed := True\<rparr>"

lemma closeConnection_simps [simp]:
  "us_closed (closeConnection u)" "us_socketFD (closeConnection u) = us_socketFD u"
  by (simp_all add: closeConnection_def)

definition closeConnections :: "unit hb" where
  "closeConnections =
     modify (\<lambda>s. s\<lparr>udpSenders := (\<lambda>h. map_option closeConnection (udpSenders s h))\<rparr>)"

text \<open>One evaluation of the loop condition with what follows it.\<close>

definition startSendingAliveMessages :: "hostname list \<Rightarrow> unit hb" where
  "startSendingAliveMessages order =
     andThen (get (\<lambda>s. (aliveLoopEnded s, stopAliveMessageLoop s, aliveMessageReceivers s))) (\<lambda>(ended, stop, receivers).
     if ended then lift (Inl Blocked)
     else if stop then andThen closeConnections (\<lambda>_. modify (\<lambda>s. s\<lparr>aliveLoopEnded := True\<rparr>))
     else if distinct order \<and> set order = receivers then aliveRound order
     else lift (Inl Blocked))"

section \<open>The receiver\<close>

definition listening :: "HeartbeatState \<Rightarrow> bool" where
  "listening s \<longleftrightarrow> validSenders s \<noteq> {} \<or> getAliveMessageReceiverListSIze s \<noteq> 0"

definition handleMessage :: "string \<times> string \<Rightarrow> unit hb" where
  "handleMessage pair =
     (case pair of (message, sender) \<Rightarrow>
        let sender = parseHostnameFromSender sender
        in if prefix aliveMessage message
           then andThen (sendingAckMessages sender) (\<lambda>_.
                modify (\<lambda>s. s\<lparr>validSenders := validSenders s - {sender}\<rparr>))
           else if prefix ackMessage message then removeFromAliveMessageReceiverList sender
           else ret ())"

text \<open>The loop of \<open>startListeningForMessages\<close>: its condition, and its body.\<close>

definition listenerCheck :: "unit hb" where
  "listenerCheck =
     andThen (get listener) (\<lambda>pc.
     if pc \<noteq> Checking then lift (Inl Blocked)
     else modify (\<lambda>s. s\<lparr>listener := if listening s then Waiting else ListenerEnded\<rparr>))"

definition listenerReceive :: "(string \<times> string) option \<Rightarrow> unit hb" where
  "listenerReceive r =
     andThen (get listener) (\<lambda>pc.
     if pc \<noteq> Waiting then lift (Inl Blocked)
     else andThen (lift (receiveMessage r)) (\<lambda>pair.
          andThen (handleMessage pair) (\<lambda>_.
          modify (\<lambda>s. s\<lparr>listener := Checking\<rparr>))))"

section \<open>Runs\<close>

datatype hbEvent =
    AddReceiver hostname
  | AliveLoop "hostname list"
  | ListenerCheck
  | Datagram "(string \<times> string) option"

fun hbStep :: "hbEvent \<Rightarrow> unit hb" where
  "hbStep (AddReceiver hostname) = addToAliveMessageReceiverList hostname"
| "hbStep (AliveLoop order) = startSendingAliveMessages order"
| "hbStep ListenerCheck = listenerCheck"
| "hbStep (Datagram r) = listenerReceive r"

definition newHeartbeat :: "hostname list \<Rightarrow> (hostname \<Rightarrow> attempt list) \<Rightarrow> (fd \<Rightarrow> bool) \<Rightarrow> HeartbeatState" where
  "newHeartbeat peers looked errors =
     \<lparr>aliveMessageReceivers = {}, udpSenders = Map.empty, stopAliveMessageLoop = False,
      validSenders = set peers, listener = Checking, aliveLoopEnded = False,
      lookups = looked, sendErrors = errors, sentMessages = []\<rparr>"

text \<open>Both threads have been joined: \<open>main\<close> logs \<open>READY\<close>.\<close>

definition ready :: "HeartbeatState \<Rightarrow> bool" where
  "ready s \<longleftrightarrow> listener s = ListenerEnded \<and> aliveLoopEnded s"

definition parseHostFileFromCmdArguments :: "string list \<Rightarrow> string res" where
  "parseHostFileFromCmdArguments argv =
     (if length argv \<noteq> 3 then Inl FatalLog
      else if argv ! 1 \<noteq> ''-h'' then Inl FatalLog
      else Inr (argv ! 2))"

text \<open>\<open>main\<close> up to the start of the threads: the peers of this host.\<close>

definition heartbeatPeers :: "string list \<Rightarrow> (string \<Rightarrow> string) \<Rightarrow> hostname \<Rightarrow> hostname list res" where
  "heartbeatPeers argv contentOf current =
     rbind (parseHostFileFromCmdArguments argv) (\<lambda>hostFilePath.
     rbind (readHostFile_lab0 (contentOf hostFilePath)) (\<lambda>hostnames.
     rbind (getProcessIdentifier_lab0 hostnames current) (\<lambda>_.
       Inr (getPeerContainerHostnames_lab0 hostnames current))))"

section \<open>What a step changes\<close>

text \<open>The hosts that a datagram counts for, as a message or as an acknowledgement.\<close>

fun aliveFrom :: "hbEvent \<Rightarrow> hostname set" where
  "aliveFrom (Datagram (Some (bytes, receivedFrom))) =
     (case receiveMessage (Some (bytes, receivedFrom)) of
        Inl e \<Rightarrow> {}
      | Inr (message, sender) \<Rightarrow> if prefix aliveMessage message then {parseHostnameFromSender sender} else {})"
| "aliveFrom _ = {}"

fun ackFrom :: "hbEvent \<Rightarrow> hostname set" where
  "ackFrom (Datagram (Some (bytes, receivedFrom))) =
     (case receiveMessage (Some (bytes, receivedFrom)) of
        Inl e \<Rightarrow> {}
      | Inr (message, sender) \<Rightarrow>
          if \<not> prefix aliveMessage message \<and> prefix ackMessage message then {parseHostnameFromSender sender} else {})"
| "ackFrom _ = {}"

fun isAddReceiver :: "hbEvent \<Rightarrow> bool" where
  "isAddReceiver (AddReceiver h) = True"
| "isAddReceiver _ = False"

definition control :: "HeartbeatState \<Rightarrow> hostname set \<times> hostname set \<times> bool \<times> listenerPc \<times> bool" where
  "control s = (aliveMessageReceivers s, validSenders s, stopAliveMessageLoop s, listener s, aliveLoopEnded s)"

definition keepsControl :: "'a hb \<Rightarrow> bool" where
  "keepsControl m \<longleftrightarrow> (\<forall>s. control (snd (m s)) = control s)"

lemma keepsControl_andThen:
  assumes "keepsControl m" and "\<And>x. keepsControl (f x)"
  shows "keepsControl (andThen m f)"
  unfolding keepsControl_def
proof
  fix s
  show "control (snd (andThen m f s)) = control s"
  proof (cases "m s")
    case (Pair r s')
    then have "control s' = control s" using assms(1) by (metis keepsControl_def snd_conv)
    with Pair assms(2) show ?thesis by (cases r) (auto simp: andThen_def keepsControl_def)
  qed
qed

lemma keepsControl_basic: "keepsControl (ret x)" "keepsControl (lift r)" "keepsControl (get g)"
  by (simp_all add: keepsControl_def act_basic)

lemma keepsControl_forEach: "(\<And>x. keepsControl (body x)) \<Longrightarrow> keepsControl (forEach xs body)"
  by (induction xs) (auto intro: keepsControl_basic keepsControl_andThen)

lemma keepsControl_catching: "keepsControl m \<Longrightarrow> keepsControl h \<Longrightarrow> keepsControl (catching c m h)"
  by (auto simp: keepsControl_def catching_def split: prod.splits sum.splits) (metis snd_conv)+

lemma keepsControl_new: "keepsControl (newUDPSender_lab0 h)"
  by (auto simp: keepsControl_def newUDPSender_lab0_def control_def split: list.splits)

lemma keepsControl_getUDPSender: "keepsControl (getUDPSender h)"
  unfolding getUDPSender_def
proof (intro keepsControl_andThen keepsControl_basic)
  fix found :: "UDPSender option"
  have m: "keepsControl (modify (\<lambda>s. s\<lparr>udpSenders := (udpSenders s)(h \<mapsto> u)\<rparr>))" for u
    by (simp add: keepsControl_def act_basic control_def)
  show "keepsControl (if found = None then catching isRuntimeError
      (andThen (newUDPSender_lab0 h) (\<lambda>udpSender. modify (\<lambda>s. s\<lparr>udpSenders := (udpSenders s)(h \<mapsto> udpSender)\<rparr>)))
      (ret ()) else ret ())"
    by (simp add: keepsControl_basic keepsControl_catching keepsControl_andThen keepsControl_new m)
qed

lemma keepsControl_sendMessage: "keepsControl (sendMessage u m)"
  by (simp add: keepsControl_def sendMessage_def control_def)

lemma keepsControl_sendingAckMessages: "keepsControl (sendingAckMessages h)"
  unfolding sendingAckMessages_def
  by (intro keepsControl_andThen keepsControl_getUDPSender)
    (auto simp: keepsControl_basic keepsControl_sendMessage split: option.split)

lemma keepsControl_aliveRound: "keepsControl (aliveRound order)"
  unfolding aliveRound_def
  by (intro keepsControl_forEach keepsControl_andThen keepsControl_getUDPSender)
    (auto simp: keepsControl_basic keepsControl_sendMessage split: option.split)

lemma keepsControlD: "keepsControl m \<Longrightarrow> m s = (r, s') \<Longrightarrow> control s' = control s"
  by (metis keepsControl_def snd_conv)

lemma hbStep_AliveLoop:
  assumes "hbStep (AliveLoop order) s = (Inr (), s')"
  shows "control s' = (aliveMessageReceivers s, validSenders s, stopAliveMessageLoop s, listener s,
    stopAliveMessageLoop s) \<and> \<not> aliveLoopEnded s"
proof (cases "stopAliveMessageLoop s")
  case True
  with assms show ?thesis
    by (auto simp: startSendingAliveMessages_def andThen_simps act_basic closeConnections_def control_def
        split: if_splits)
next
  case False
  with assms have "aliveRound order s = (Inr (), s')" "\<not> aliveLoopEnded s"
    by (auto simp: startSendingAliveMessages_def andThen_simps act_basic split: if_splits)
  with keepsControlD [OF keepsControl_aliveRound] False show ?thesis by (fastforce simp: control_def)
qed

lemma hbStep_ListenerCheck:
  assumes "hbStep ListenerCheck s = (Inr (), s')"
  shows "listener s = Checking \<and> s' = s\<lparr>listener := if listening s then Waiting else ListenerEnded\<rparr>"
  using assms by (auto simp: listenerCheck_def andThen_simps act_basic split: if_splits)

lemma hbStep_Datagram:
  assumes "hbStep (Datagram r) s = (Inr (), s')"
  shows "listener s = Waiting \<and> listener s' = Checking \<and> aliveLoopEnded s' = aliveLoopEnded s \<and>
    validSenders s' = validSenders s - aliveFrom (Datagram r) \<and>
    aliveMessageReceivers s' = aliveMessageReceivers s - ackFrom (Datagram r) \<and>
    stopAliveMessageLoop s' = (stopAliveMessageLoop s \<or> ackFrom (Datagram r) \<noteq> {} \<and> aliveMessageReceivers s' = {})"
proof -
  have w: "listener s = Waiting"
    using assms by (auto simp: listenerReceive_def andThen_simps act_basic split: if_splits)
  obtain bytes from' where r: "r = Some (bytes, from')"
    using assms w by (cases r) (auto simp: listenerReceive_def andThen_simps act_basic receiveMessage_def)
  obtain message sender where m: "receiveMessage r = Inr (message, sender)" by (simp add: r receiveMessage_def)
  obtain s1 where s1: "handleMessage (message, sender) s = (Inr (), s1)" "s' = s1\<lparr>listener := Checking\<rparr>"
    using assms w by (auto simp: listenerReceive_def andThen_simps act_basic m andThen_eq_Inr)
  note s1' = s1(2)
  let ?h = "parseHostnameFromSender sender"
  show ?thesis
  proof (cases "prefix aliveMessage message")
    case True
    then obtain s2 where s2: "sendingAckMessages ?h s = (Inr (), s2)"
      "s1 = s2\<lparr>validSenders := validSenders s2 - {?h}\<rparr>"
      using s1(1) by (auto simp: handleMessage_def Let_def andThen_eq_Inr act_basic)
    with keepsControlD [OF keepsControl_sendingAckMessages s2(1)] True w s1(2) m r show ?thesis
      by (simp add: control_def)
  next
    case False
    show ?thesis
    proof (cases "prefix ackMessage message")
      case True
      with False s1(1) have s1: "s1 = (if aliveMessageReceivers s - {?h} = {}
          then s\<lparr>aliveMessageReceivers := aliveMessageReceivers s - {?h}, stopAliveMessageLoop := True\<rparr>
          else s\<lparr>aliveMessageReceivers := aliveMessageReceivers s - {?h}\<rparr>)"
        by (simp add: handleMessage_def Let_def removeFromAliveMessageReceiverList_def act_basic)
      have "ackFrom (Datagram r) = {?h}" "aliveFrom (Datagram r) = {}" using True False m r by simp_all
      then show ?thesis using w s1 s1' by (cases "aliveMessageReceivers s - {?h} = {}") simp_all
    next
      case False
      with \<open>\<not> prefix aliveMessage message\<close> s1(1) have "s1 = s" by (simp add: handleMessage_def Let_def act_basic)
      moreover have "ackFrom (Datagram r) = {}" "aliveFrom (Datagram r) = {}"
        using False \<open>\<not> prefix aliveMessage message\<close> m r by simp_all
      ultimately show ?thesis using w s1' by simp
    qed
  qed
qed

section \<open>The invariant of a run\<close>

definition alivesIn :: "hbEvent list \<Rightarrow> hostname set" where
  "alivesIn es = (\<Union>e \<in> set es. aliveFrom e)"

definition acksIn :: "hbEvent list \<Rightarrow> hostname set" where
  "acksIn es = (\<Union>e \<in> set es. ackFrom e)"

lemma alivesIn_simps [simp]: "alivesIn [] = {}" "alivesIn (e # es) = aliveFrom e \<union> alivesIn es"
  "acksIn [] = {}" "acksIn (e # es) = ackFrom e \<union> acksIn es"
  by (simp_all add: alivesIn_def acksIn_def)

definition waitingFor :: "HeartbeatState \<Rightarrow> bool" where
  "waitingFor s \<longleftrightarrow> validSenders s \<noteq> {} \<or> aliveMessageReceivers s \<noteq> {}"

lemma listening_waitingFor: "finite (aliveMessageReceivers s) \<Longrightarrow> listening s = waitingFor s"
  by (simp add: listening_def waitingFor_def getAliveMessageReceiverListSIze_def)

definition settled :: "HeartbeatState \<Rightarrow> bool" where
  "settled s \<longleftrightarrow> finite (aliveMessageReceivers s) \<and> (stopAliveMessageLoop s \<longleftrightarrow> aliveMessageReceivers s = {}) \<and>
     (aliveLoopEnded s \<longrightarrow> stopAliveMessageLoop s) \<and> (listener s = Waiting \<longrightarrow> waitingFor s) \<and>
     (listener s = ListenerEnded \<longrightarrow> \<not> waitingFor s)"

lemma settled_step:
  assumes "settled s" and "\<not> isAddReceiver e" and "hbStep e s = (Inr (), s')"
  shows "settled s' \<and> validSenders s' = validSenders s - aliveFrom e \<and>
    aliveMessageReceivers s' = aliveMessageReceivers s - ackFrom e"
proof (cases e)
  case (AliveLoop order)
  with assms hbStep_AliveLoop [of order s s'] show ?thesis
    by (auto simp: settled_def control_def waitingFor_def)
next
  case ListenerCheck
  with assms hbStep_ListenerCheck [of s s'] listening_waitingFor [of s] show ?thesis
    by (auto simp: settled_def waitingFor_def)
next
  case (Datagram r)
  with assms hbStep_Datagram [of r s s'] show ?thesis by (auto simp: settled_def)
qed (use assms in simp)

lemma settled_run:
  assumes "settled s" and "\<forall>e \<in> set es. \<not> isAddReceiver e" and "forEach es hbStep s = (Inr (), s')"
  shows "settled s' \<and> validSenders s' = validSenders s - alivesIn es \<and>
    aliveMessageReceivers s' = aliveMessageReceivers s - acksIn es"
  using assms
proof (induction es arbitrary: s)
  case Nil
  then show ?case by (simp add: act_basic)
next
  case (Cons e es)
  from Cons.prems(3) obtain s1 where s1: "hbStep e s = (Inr (), s1)" "forEach es hbStep s1 = (Inr (), s')"
    by (auto simp: andThen_eq_Inr)
  from settled_step [OF Cons.prems(1) _ s1(1)] Cons.prems(2) Cons.IH [OF _ _ s1(2)] show ?case by auto
qed

lemma addReceivers:
  "forEach (map AddReceiver hs) hbStep s =
     (Inr (), s\<lparr>aliveMessageReceivers := aliveMessageReceivers s \<union> set hs\<rparr>)"
  by (induction hs arbitrary: s)
    (simp_all add: act_basic andThen_simps addToAliveMessageReceiverList_def Un_commute)

lemma newHeartbeat_settled:
  assumes "peers \<noteq> []"
  shows "\<exists>s. forEach (map AddReceiver peers) hbStep (newHeartbeat peers looked errors) = (Inr (), s) \<and>
    settled s \<and> validSenders s = set peers \<and> aliveMessageReceivers s = set peers \<and>
    lookups s = looked \<and> sendErrors s = errors \<and> udpSenders s = Map.empty \<and> \<not> aliveLoopEnded s"
  using assms by (simp add: addReceivers settled_def newHeartbeat_def)

lemma listenerCheck_ends:
  "listener s = Checking \<Longrightarrow> \<not> listening s \<Longrightarrow>
   hbStep ListenerCheck s = (Inr (), s\<lparr>listener := ListenerEnded\<rparr>)"
  by (simp add: listenerCheck_def andThen_simps act_basic)

lemma aliveLoop_ends:
  "\<not> aliveLoopEnded s \<Longrightarrow> stopAliveMessageLoop s \<Longrightarrow>
   hbStep (AliveLoop order) s = (Inr (), s\<lparr>udpSenders := (\<lambda>h. map_option closeConnection (udpSenders s h)),
     aliveLoopEnded := True\<rparr>)"
  by (simp add: startSendingAliveMessages_def andThen_simps act_basic closeConnections_def)

section \<open>What is guaranteed\<close>

text \<open>
  C21: ready exactly when all peers have answered. When the sending thread has added all peers before
  the receiving thread checks its condition, a process is ready only after it has received the
  message and the acknowledgement of every peer, and when it has received them all nothing but the
  ends of the two loops is left.
\<close>

theorem ready_after_all_answered:
  assumes peers: "peers \<noteq> []" and es: "\<forall>e \<in> set es. \<not> isAddReceiver e"
    and run: "forEach (map AddReceiver peers @ es) hbStep (newHeartbeat peers looked errors) = (Inr (), s)"
  shows "(ready s \<longrightarrow> set peers \<subseteq> alivesIn es \<and> set peers \<subseteq> acksIn es) \<and>
    (set peers \<subseteq> alivesIn es \<and> set peers \<subseteq> acksIn es \<longrightarrow>
      (\<exists>tail s'. set tail \<subseteq> {ListenerCheck, AliveLoop []} \<and> forEach tail hbStep s = (Inr (), s') \<and> ready s'))"
proof -
  obtain s0 where s0: "forEach (map AddReceiver peers) hbStep (newHeartbeat peers looked errors) = (Inr (), s0)"
    "settled s0" "validSenders s0 = set peers" "aliveMessageReceivers s0 = set peers"
    using newHeartbeat_settled [OF peers] by blast
  have "forEach es hbStep s0 = (Inr (), s)" using run s0(1) by (auto simp: forEach_append andThen_eq_Inr)
  from settled_run [OF s0(2) es this] s0(3,4) have
    st: "settled s" "validSenders s = set peers - alivesIn es" "aliveMessageReceivers s = set peers - acksIn es"
    by simp_all
  have "set peers \<subseteq> alivesIn es \<and> set peers \<subseteq> acksIn es" if "ready s"
    using that st by (auto simp: ready_def settled_def waitingFor_def)
  moreover have "\<exists>tail s'. set tail \<subseteq> {ListenerCheck, AliveLoop []} \<and> forEach tail hbStep s = (Inr (), s') \<and> ready s'"
    if "set peers \<subseteq> alivesIn es" "set peers \<subseteq> acksIn es"
  proof -
    have w: "\<not> waitingFor s" "stopAliveMessageLoop s" "listener s \<noteq> Waiting" "\<not> listening s"
      using that st listening_waitingFor [of s] by (auto simp: settled_def waitingFor_def)
    obtain es1 s1 where s1: "set es1 \<subseteq> {ListenerCheck}" "forEach es1 hbStep s = (Inr (), s1)"
      "listener s1 = ListenerEnded" "stopAliveMessageLoop s1"
    proof (cases "listener s")
      case Checking
      with listenerCheck_ends [OF Checking w(4)] w(2) that [of "[ListenerCheck]"] show ?thesis
        by (simp add: andThen_apply act_basic)
    next
      case ListenerEnded
      with w(2) that [of "[]"] show ?thesis by (simp add: act_basic)
    qed (use w(3) in simp)
    obtain es2 s2 where s2: "set es2 \<subseteq> {AliveLoop []}" "forEach es2 hbStep s1 = (Inr (), s2)" "ready s2"
    proof (cases "aliveLoopEnded s1")
      case True
      with s1(3) that [of "[]"] show ?thesis by (simp add: act_basic ready_def)
    next
      case False
      with aliveLoop_ends [OF False s1(4)] s1(3) that [of "[AliveLoop []]"] show ?thesis
        by (simp add: andThen_apply act_basic ready_def)
    qed
    have "forEach (es1 @ es2) hbStep s = (Inr (), s2)"
      using s1(2) s2(2) by (simp add: forEach_append andThen_apply)
    moreover have "set (es1 @ es2) \<subseteq> {ListenerCheck, AliveLoop []}" using s1(1) s2(1) by auto
    ultimately show ?thesis using s2(3) by blast
  qed
  ultimately show ?thesis by blast
qed

text \<open>The protocol of two hosts, seen from one of them.\<close>

definition exampleNet :: "hostname \<Rightarrow> attempt list" where
  "exampleNet h = [Addresses [Some 4] True]"

lemmas heartbeat_run = Let_def startSendingAliveMessages_def listenerCheck_def listenerReceive_def
  handleMessage_def receiveMessage_def MAX_BUFFER_SIZE_lab0_def aliveRound_def getUDPSender_def newUDPSender_lab0_def
  initSenderSocket_def sendingAckMessages_def sendMessage_def removeFromAliveMessageReceiverList_def
  addToAliveMessageReceiverList_def closeConnections_def listening_def getAliveMessageReceiverListSIze_def
  aliveMessage_def ackMessage_def newHeartbeat_def exampleNet_def parseHostnameFromSender_def andThen_def catching_def
  act_basic

theorem ready_after_all_answered_witness:
  "\<exists>s tail s'. forEach (map AddReceiver [''a''] @ [AliveLoop [''a''], ListenerCheck,
       Datagram (Some (''I am alive'', ''a.net'')), ListenerCheck, Datagram (Some (''Ack'', ''a.net''))]) hbStep
       (newHeartbeat [''a''] exampleNet (\<lambda>fd. False)) = (Inr (), s) \<and>
     set tail \<subseteq> {ListenerCheck, AliveLoop []} \<and> forEach tail hbStep s = (Inr (), s') \<and> ready s'"
proof -
  let ?es = "[AliveLoop [''a''], ListenerCheck, Datagram (Some (''I am alive'', ''a.net'')), ListenerCheck,
    Datagram (Some (''Ack'', ''a.net''))]"
  obtain s where s: "forEach (map AddReceiver [''a''] @ ?es) hbStep (newHeartbeat [''a''] exampleNet (\<lambda>fd. False)) =
      (Inr (), s)"
    by (simp add: heartbeat_run)
  have "set [''a''] \<subseteq> alivesIn ?es \<and> set [''a''] \<subseteq> acksIn ?es"
    by (simp add: receiveMessage_def MAX_BUFFER_SIZE_lab0_def aliveMessage_def ackMessage_def parseHostnameFromSender_def)
  with ready_after_all_answered [OF _ _ s] s show ?thesis by simp
qed

text \<open>
  Every message of a peer is acknowledged, or the process dies. While the connection to the peer
  is open, or can be opened, exactly one acknowledgement is sent to it. If the name of the peer
  cannot be resolved a null pointer is used, and if the sending thread has ended, because all
  acknowledgements have come before this message, a socket that has been closed and freed.
\<close>

theorem alive_answered_or_faults:
  assumes "listener s = Waiting" and "aliveFrom (Datagram r) = {h}"
  shows "(\<forall>u. udpSenders s h = Some u \<and> \<not> us_closed u \<and> \<not> sendErrors s (us_socketFD u) \<longrightarrow>
      hbStep (Datagram r) s = (Inr (), s\<lparr>sentMessages := sentMessages s @ [(us_socketFD u, ''Ack'')],
        validSenders := validSenders s - {h}, listener := Checking\<rparr>)) \<and>
    (\<forall>rs connects as socketFD. udpSenders s h = None \<and> lookups s h = Addresses rs connects # as \<and>
        firstSocket rs = Some socketFD \<and> \<not> sendErrors s socketFD \<longrightarrow>
      hbStep (Datagram r) s = (Inr (), s\<lparr>lookups := (lookups s)(h := as),
        udpSenders := (udpSenders s)(h \<mapsto> \<lparr>us_socketFD = socketFD, us_closed = False\<rparr>),
        sentMessages := sentMessages s @ [(socketFD, ''Ack'')],
        validSenders := validSenders s - {h}, listener := Checking\<rparr>)) \<and>
    (\<forall>as. udpSenders s h = None \<and> lookups s h = NoSuchHost # as \<longrightarrow>
      hbStep (Datagram r) s = (Inl UndefinedBehaviour, s\<lparr>lookups := (lookups s)(h := as)\<rparr>)) \<and>
    (\<forall>u. udpSenders s h = Some u \<and> us_closed u \<longrightarrow> hbStep (Datagram r) s = (Inl UndefinedBehaviour, s))"
proof -
  obtain bytes from' where r: "r = Some (bytes, from')" using assms(2) by (cases r) auto
  obtain message sender where m: "receiveMessage r = Inr (message, sender)" by (simp add: r receiveMessage_def)
  then have h: "prefix aliveMessage message" "parseHostnameFromSender sender = h"
    using assms(2) by (auto simp: r split: if_splits)
  have step: "hbStep (Datagram r) s = andThen (andThen (sendingAckMessages h)
      (\<lambda>_. modify (\<lambda>s. s\<lparr>validSenders := validSenders s - {h}\<rparr>))) (\<lambda>_. modify (\<lambda>s. s\<lparr>listener := Checking\<rparr>)) s"
    using assms(1) h by (simp add: listenerReceive_def andThen_simps m handleMessage_def Let_def)
  show ?thesis unfolding step
    by (auto simp: sendingAckMessages_def getUDPSender_def newUDPSender_lab0_def initSenderSocket_def sendMessage_def
        andThen_def catching_def isRuntimeError_def ackMessage_def act_basic)
qed

theorem alive_answered_or_faults_witness:
  "\<exists>s s'. forEach [AddReceiver ''a'', AliveLoop [''a''], ListenerCheck, Datagram (Some (''Ack'', ''a.net'')),
       AliveLoop [], ListenerCheck] hbStep (newHeartbeat [''a''] exampleNet (\<lambda>fd. False)) = (Inr (), s) \<and>
     hbStep (Datagram (Some (''I am alive'', ''a.net''))) s = (Inl UndefinedBehaviour, s')"
proof -
  obtain s u where s: "forEach [AddReceiver ''a'', AliveLoop [''a''], ListenerCheck, Datagram (Some (''Ack'', ''a.net'')),
       AliveLoop [], ListenerCheck] hbStep (newHeartbeat [''a''] exampleNet (\<lambda>fd. False)) = (Inr (), s)"
    "listener s = Waiting" "udpSenders s ''a'' = Some u" "us_closed u"
    by (simp add: heartbeat_run)
  have "aliveFrom (Datagram (Some (''I am alive'', ''a.net''))) = {''a''}"
    by (simp add: receiveMessage_def MAX_BUFFER_SIZE_lab0_def aliveMessage_def parseHostnameFromSender_def)
  with alive_answered_or_faults [OF s(2), of _ "''a''"] s show ?thesis by blast
qed

lemma unstopped_step:
  assumes "\<not> stopAliveMessageLoop s" and "\<not> aliveLoopEnded s" and "hbStep e s = (Inr (), s')"
  shows "\<not> aliveLoopEnded s' \<and> (ackFrom e = {} \<longrightarrow> \<not> stopAliveMessageLoop s') \<and>
    validSenders s' = validSenders s - aliveFrom e \<and>
    (\<not> isAddReceiver e \<longrightarrow> aliveMessageReceivers s' = aliveMessageReceivers s - ackFrom e) \<and>
    (listener s = ListenerEnded \<longrightarrow> listener s' = ListenerEnded \<and> ackFrom e = {})"
proof (cases e)
  case (AddReceiver h)
  with assms show ?thesis by (auto simp: addToAliveMessageReceiverList_def act_basic)
next
  case (AliveLoop order)
  with assms hbStep_AliveLoop [of order s s'] show ?thesis by (auto simp: control_def)
next
  case ListenerCheck
  with assms hbStep_ListenerCheck [of s s'] show ?thesis by auto
next
  case (Datagram r)
  with assms hbStep_Datagram [of r s s'] show ?thesis by auto
qed

lemma unstopped_run:
  assumes "\<not> stopAliveMessageLoop s" and "\<not> aliveLoopEnded s" and "forEach es hbStep s = (Inr (), s')"
    and "acksIn es = {} \<or> listener s = ListenerEnded"
  shows "\<not> stopAliveMessageLoop s' \<and> \<not> aliveLoopEnded s' \<and> validSenders s' = validSenders s - alivesIn es \<and>
    ((\<forall>e \<in> set es. \<not> isAddReceiver e) \<longrightarrow> aliveMessageReceivers s' = aliveMessageReceivers s - acksIn es)"
  using assms
proof (induction es arbitrary: s)
  case Nil
  then show ?case by (simp add: act_basic)
next
  case (Cons e es)
  from Cons.prems(3) obtain s1 where s1: "hbStep e s = (Inr (), s1)" "forEach es hbStep s1 = (Inr (), s')"
    by (auto simp: andThen_eq_Inr)
  note step = unstopped_step [OF Cons.prems(1,2) s1(1)]
  then have "ackFrom e = {}" "acksIn es = {} \<or> listener s1 = ListenerEnded" using Cons.prems(4) by auto
  with step Cons.IH [OF _ _ s1(2)] show ?case by auto
qed

text \<open>
  The race at the start. If the messages of all peers are handled before the sending thread has
  added the first peer, the receiving thread takes nobody to be waited for and ends; no acknowledgement
  is received any more, so that the sending thread goes on for ever and the process is never ready.
\<close>

theorem early_alives_end_listener:
  assumes "forEach (es @ [ListenerCheck]) hbStep (newHeartbeat peers looked errors) = (Inr (), s)"
    and "\<forall>e \<in> set es. \<not> isAddReceiver e" and "set peers \<subseteq> alivesIn es" and "acksIn es = {}"
  shows "listener s = ListenerEnded \<and>
    (\<forall>es' s'. forEach es' hbStep s = (Inr (), s') \<longrightarrow> \<not> stopAliveMessageLoop s' \<and> \<not> ready s')"
proof -
  let ?s0 = "newHeartbeat peers looked errors"
  obtain s1 where s1: "forEach es hbStep ?s0 = (Inr (), s1)" "hbStep ListenerCheck s1 = (Inr (), s)"
    using assms(1) by (auto simp: forEach_append andThen_eq_Inr act_eq_Inr)
  have "\<not> stopAliveMessageLoop ?s0" "\<not> aliveLoopEnded ?s0" by (simp_all add: newHeartbeat_def)
  from unstopped_run [OF this s1(1)] assms(2-4) have
    r: "\<not> stopAliveMessageLoop s1" "\<not> aliveLoopEnded s1" "validSenders s1 = {}" "aliveMessageReceivers s1 = {}"
    by (auto simp: newHeartbeat_def)
  with hbStep_ListenerCheck [OF s1(2)] have
    s: "listener s = ListenerEnded" "\<not> stopAliveMessageLoop s" "\<not> aliveLoopEnded s"
    by (simp_all add: listening_def getAliveMessageReceiverListSIze_def)
  have "\<not> stopAliveMessageLoop s' \<and> \<not> ready s'" if "forEach es' hbStep s = (Inr (), s')" for es' s'
    using unstopped_run [OF s(2,3) that] s(1) by (simp add: ready_def)
  with s(1) show ?thesis by blast
qed

theorem early_alives_end_listener_witness:
  "\<exists>s. forEach ([ListenerCheck, Datagram (Some (''I am alive'', ''a.net''))] @ [ListenerCheck]) hbStep
       (newHeartbeat [''a''] exampleNet (\<lambda>fd. False)) = (Inr (), s) \<and> listener s = ListenerEnded"
proof -
  let ?es = "[ListenerCheck, Datagram (Some (''I am alive'', ''a.net''))]"
  obtain s where s: "forEach (?es @ [ListenerCheck]) hbStep (newHeartbeat [''a''] exampleNet (\<lambda>fd. False)) = (Inr (), s)"
    by (simp add: heartbeat_run)
  have "alivesIn ?es = {''a''}" "acksIn ?es = {}"
    by (simp_all add: receiveMessage_def MAX_BUFFER_SIZE_lab0_def aliveMessage_def parseHostnameFromSender_def)
  with early_alives_end_listener [OF s] s show ?thesis by simp
qed

section \<open>Runs without faults\<close>

fun resolves :: "attempt list \<Rightarrow> bool" where
  "resolves (Addresses rs connects # as) \<longleftrightarrow> firstSocket rs \<noteq> None"
| "resolves _ \<longleftrightarrow> False"

definition openSenders :: "hostname set \<Rightarrow> HeartbeatState \<Rightarrow> bool" where
  "openSenders H s \<longleftrightarrow> (\<forall>h \<in> H. udpSenders s h = None \<longrightarrow> resolves (lookups s h)) \<and>
     (\<forall>h u. udpSenders s h = Some u \<longrightarrow> \<not> us_closed u)"

lemma getUDPSender_open:
  assumes "openSenders H s" and "h \<in> H"
  shows "\<exists>u s'. getUDPSender h s = (Inr (Some u), s') \<and> \<not> us_closed u \<and> openSenders H s'"
proof (cases "udpSenders s h")
  case None
  with assms have "resolves (lookups s h)" by (simp add: openSenders_def)
  then obtain rs connects as fd where l: "lookups s h = Addresses rs connects # as" "firstSocket rs = Some fd"
    by (auto elim!: resolves.elims)
  with None have "getUDPSender h s = (Inr (Some \<lparr>us_socketFD = fd, us_closed = False\<rparr>),
      s\<lparr>lookups := (lookups s)(h := as), udpSenders := (udpSenders s)(h \<mapsto> \<lparr>us_socketFD = fd, us_closed = False\<rparr>)\<rparr>)"
    by (simp add: getUDPSender_def newUDPSender_lab0_def initSenderSocket_def andThen_def catching_def act_basic)
  with assms show ?thesis by (auto simp: openSenders_def)
next
  case (Some u)
  with assms show ?thesis
    by (auto simp: getUDPSender_def andThen_def act_basic openSenders_def)
qed

lemma sendMessage_open:
  assumes "openSenders H s" and "\<not> us_closed u"
  shows "\<exists>s'. sendMessage u m s = (Inr (), s') \<and> openSenders H s'"
  using assms by (simp add: sendMessage_def openSenders_def)

lemma sendingAckMessages_open:
  assumes "openSenders H s" and "h \<in> H"
  shows "\<exists>s'. sendingAckMessages h s = (Inr (), s') \<and> openSenders H s'"
proof -
  obtain u s1 where "getUDPSender h s = (Inr (Some u), s1)" "\<not> us_closed u" "openSenders H s1"
    using getUDPSender_open [OF assms] by blast
  with sendMessage_open [of H s1 u] show ?thesis by (simp add: sendingAckMessages_def andThen_apply)
qed

lemma aliveRound_open:
  assumes "openSenders H s" and "set order \<subseteq> H"
  shows "\<exists>s'. aliveRound order s = (Inr (), s') \<and> openSenders H s'"
  using assms
proof (induction order arbitrary: s)
  case Nil
  then show ?case by (simp add: aliveRound_def act_basic)
next
  case (Cons h order)
  obtain u s1 where s1: "getUDPSender h s = (Inr (Some u), s1)" "\<not> us_closed u" "openSenders H s1"
    using getUDPSender_open [OF Cons.prems(1), of h] Cons.prems(2) by auto
  obtain s2 where s2: "sendMessage u aliveMessage s1 = (Inr (), s2)" "openSenders H s2"
    using sendMessage_open [OF s1(3,2)] by blast
  from Cons.IH [OF s2(2)] Cons.prems(2) s1 s2 show ?case
    by (auto simp: aliveRound_def andThen_apply)
qed

text \<open>The sending thread does not end while the message of a peer is still missing.\<close>

fun timely :: "hbEvent list \<Rightarrow> HeartbeatState \<Rightarrow> bool" where
  "timely [] s \<longleftrightarrow> True"
| "timely (e # es) s \<longleftrightarrow>
     ((\<exists>order. e = AliveLoop order) \<and> stopAliveMessageLoop s \<longrightarrow> validSenders s = {}) \<and> timely es (snd (hbStep e s))"

definition sound :: "hostname set \<Rightarrow> HeartbeatState \<Rightarrow> bool" where
  "sound H s \<longleftrightarrow> settled s \<and> aliveMessageReceivers s \<subseteq> H \<and>
     (if aliveLoopEnded s then \<not> waitingFor s else openSenders H s)"

lemma sound_AliveLoop:
  assumes s: "sound H s" and t: "stopAliveMessageLoop s \<Longrightarrow> validSenders s = {}"
  shows "fst (hbStep (AliveLoop order) s) = Inl Blocked \<or> (\<exists>s'. hbStep (AliveLoop order) s = (Inr (), s') \<and> sound H s')"
proof -
  have st: "settled s" using s by (simp add: sound_def)
  consider (ended) "aliveLoopEnded s" | (stop) "\<not> aliveLoopEnded s" "stopAliveMessageLoop s"
    | (round) "\<not> aliveLoopEnded s" "\<not> stopAliveMessageLoop s" "distinct order \<and> set order = aliveMessageReceivers s"
    | (other) "\<not> aliveLoopEnded s" "\<not> stopAliveMessageLoop s" "\<not> (distinct order \<and> set order = aliveMessageReceivers s)"
    by blast
  then show ?thesis
  proof cases
    case ended
    then show ?thesis by (simp add: startSendingAliveMessages_def andThen_simps act_basic)
  next
    case stop
    let ?s' = "s\<lparr>udpSenders := (\<lambda>h. map_option closeConnection (udpSenders s h)), aliveLoopEnded := True\<rparr>"
    have "sound H ?s'"
      using s st t [OF stop(2)] stop by (simp add: sound_def settled_def waitingFor_def)
    with aliveLoop_ends [OF stop] show ?thesis by blast
  next
    case round
    have "openSenders H s" "set order \<subseteq> H" using s round by (simp_all add: sound_def)
    from aliveRound_open [OF this] obtain s' where s': "aliveRound order s = (Inr (), s')" "openSenders H s'" by blast
    have step: "hbStep (AliveLoop order) s = (Inr (), s')"
      using round s'(1) by (simp add: startSendingAliveMessages_def andThen_simps)
    have "control s' = control s" by (rule keepsControlD [OF keepsControl_aliveRound s'(1)])
    then have "\<not> aliveLoopEnded s'" "aliveMessageReceivers s' = aliveMessageReceivers s"
      using round by (simp_all add: control_def)
    moreover have "settled s'" using settled_step [OF st _ step] by simp
    ultimately have "sound H s'" using s s'(2) by (simp add: sound_def)
    with step show ?thesis by blast
  next
    case other
    then show ?thesis by (auto simp: startSendingAliveMessages_def andThen_simps act_basic)
  qed
qed

lemma sound_ListenerCheck:
  assumes s: "sound H s"
  shows "fst (hbStep ListenerCheck s) = Inl Blocked \<or> (\<exists>s'. hbStep ListenerCheck s = (Inr (), s') \<and> sound H s')"
proof (cases "listener s = Checking")
  case True
  let ?s' = "s\<lparr>listener := if listening s then Waiting else ListenerEnded\<rparr>"
  have step: "hbStep ListenerCheck s = (Inr (), ?s')"
    using True by (simp add: listenerCheck_def andThen_simps act_basic)
  have "settled s" using s by (simp add: sound_def)
  from settled_step [OF this _ step] have "settled ?s'" by simp
  then have "sound H ?s'" using s by (cases "aliveLoopEnded s") (simp_all add: sound_def openSenders_def waitingFor_def)
  with step show ?thesis by blast
next
  case False
  then show ?thesis by (simp add: listenerCheck_def andThen_simps act_basic)
qed

lemma handleMessage_open:
  assumes "openSenders H s" and "prefix aliveMessage message \<Longrightarrow> parseHostnameFromSender sender \<in> H"
  shows "\<exists>s'. handleMessage (message, sender) s = (Inr (), s') \<and> openSenders H s'"
proof (cases "prefix aliveMessage message")
  case True
  from sendingAckMessages_open [OF assms(1) assms(2) [OF True]] obtain s1 where
    "sendingAckMessages (parseHostnameFromSender sender) s = (Inr (), s1)" "openSenders H s1" by blast
  with True show ?thesis
    by (simp add: handleMessage_def Let_def andThen_apply act_basic openSenders_def)
next
  case False
  with assms(1) show ?thesis
    by (simp add: handleMessage_def Let_def removeFromAliveMessageReceiverList_def act_basic openSenders_def)
qed

lemma sound_Datagram:
  assumes s: "sound H s" and e: "aliveFrom (Datagram r) \<subseteq> H" "r \<noteq> None"
  shows "fst (hbStep (Datagram r) s) = Inl Blocked \<or> (\<exists>s'. hbStep (Datagram r) s = (Inr (), s') \<and> sound H s')"
proof (cases "listener s = Waiting")
  case True
  obtain bytes from' where r: "r = Some (bytes, from')" using e(2) by auto
  obtain message sender where m: "receiveMessage r = Inr (message, sender)" by (simp add: r receiveMessage_def)
  have st: "settled s" using s by (simp add: sound_def)
  have o: "openSenders H s" "\<not> aliveLoopEnded s"
    using s True by (auto simp: sound_def settled_def split: if_splits)
  have "parseHostnameFromSender sender \<in> H" if "prefix aliveMessage message"
    using e(1) m r that by simp
  from handleMessage_open [OF o(1) this] obtain s1 where
    s1: "handleMessage (message, sender) s = (Inr (), s1)" "openSenders H s1" by blast
  let ?s' = "s1\<lparr>listener := Checking\<rparr>"
  have step: "hbStep (Datagram r) s = (Inr (), ?s')"
    using True s1(1) by (simp add: listenerReceive_def andThen_simps m andThen_apply act_basic)
  have "openSenders H ?s'" using s1(2) by (simp add: openSenders_def)
  moreover have "\<not> aliveLoopEnded ?s'" using hbStep_Datagram [OF step] o(2) by simp
  moreover have "settled ?s' \<and> aliveMessageReceivers ?s' \<subseteq> H"
    using settled_step [OF st _ step] s by (auto simp: sound_def)
  ultimately have "sound H ?s'" by (simp add: sound_def)
  with step show ?thesis by blast
next
  case False
  then show ?thesis by (simp add: listenerReceive_def andThen_simps act_basic)
qed

lemma sound_step:
  assumes "sound H s" and "\<not> isAddReceiver e" and "aliveFrom e \<subseteq> H" and "e \<noteq> Datagram None"
    and "\<And>order. e = AliveLoop order \<Longrightarrow> stopAliveMessageLoop s \<Longrightarrow> validSenders s = {}"
  shows "fst (hbStep e s) = Inl Blocked \<or> (\<exists>s'. hbStep e s = (Inr (), s') \<and> sound H s')"
proof (cases e)
  case (AliveLoop order)
  show ?thesis unfolding AliveLoop by (rule sound_AliveLoop [OF assms(1)]) (rule assms(5) [OF AliveLoop])
next
  case ListenerCheck
  show ?thesis unfolding ListenerCheck by (rule sound_ListenerCheck [OF assms(1)])
next
  case (Datagram r)
  show ?thesis unfolding Datagram by (rule sound_Datagram) (use assms Datagram in simp_all)
qed (use assms(2) in simp)

lemma sound_run:
  assumes "sound H s" and "\<forall>e \<in> set es. \<not> isAddReceiver e \<and> e \<noteq> Datagram None" and "alivesIn es \<subseteq> H"
    and "timely es s"
  shows "fst (forEach es hbStep s) = Inl Blocked \<or> fst (forEach es hbStep s) = Inr ()"
  using assms
proof (induction es arbitrary: s)
  case Nil
  then show ?case by (simp add: act_basic)
next
  case (Cons e es)
  have "fst (hbStep e s) = Inl Blocked \<or> (\<exists>s'. hbStep e s = (Inr (), s') \<and> sound H s')"
    using Cons.prems by (intro sound_step) auto
  then show ?case
  proof
    assume "fst (hbStep e s) = Inl Blocked"
    then show ?thesis by (auto simp: andThen_def split: prod.splits sum.splits)
  next
    assume "\<exists>s'. hbStep e s = (Inr (), s') \<and> sound H s'"
    then obtain s' where "hbStep e s = (Inr (), s')" "sound H s'" by blast
    with Cons.IH [of s'] Cons.prems show ?thesis by (simp add: andThen_apply)
  qed
qed

text \<open>
  C35: no faults otherwise. If the sending thread has added the peers before anything else happens, every
  host that is written to can be resolved, no receive fails, and the sending thread does not end before
  the messages of all peers have come, no interleaving of the two threads throws, aborts or uses a dead
  socket.
\<close>

theorem heartbeat_does_not_fault:
  assumes "peers \<noteq> []" and "\<forall>h \<in> set peers \<union> alivesIn es. resolves (looked h)"
    and "\<forall>e \<in> set es. \<not> isAddReceiver e \<and> e \<noteq> Datagram None"
    and "timely (map AddReceiver peers @ es) (newHeartbeat peers looked errors)"
  shows "fst (forEach (map AddReceiver peers @ es) hbStep (newHeartbeat peers looked errors)) \<in> {Inr (), Inl Blocked}"
proof -
  let ?s0 = "newHeartbeat peers looked errors"
  obtain s where s: "forEach (map AddReceiver peers) hbStep ?s0 = (Inr (), s)" "settled s"
    "validSenders s = set peers" "aliveMessageReceivers s = set peers" "lookups s = looked"
    "udpSenders s = Map.empty" "\<not> aliveLoopEnded s"
    using newHeartbeat_settled [OF assms(1)] by blast
  have "timely es s'" if "timely (map AddReceiver hs @ es) s0" "forEach (map AddReceiver hs) hbStep s0 = (Inr (), s')"
    for hs s0 s'
    using that
    by (induction hs arbitrary: s0) (auto simp: act_basic andThen_simps addToAliveMessageReceiverList_def)
  from this [OF assms(4) s(1)] have "timely es s" .
  moreover have "sound (set peers \<union> alivesIn es) s" using s(2-7) assms(2) by (simp add: sound_def openSenders_def)
  ultimately have "fst (forEach es hbStep s) = Inl Blocked \<or> fst (forEach es hbStep s) = Inr ()"
    using assms(3) by (intro sound_run) auto
  then show ?thesis using s(1) by (auto simp: forEach_append andThen_apply)
qed

theorem heartbeat_does_not_fault_witness:
  "fst (forEach (map AddReceiver [''a''] @ [AliveLoop [''a''], ListenerCheck,
      Datagram (Some (''I am alive'', ''a.net''))]) hbStep
      (newHeartbeat [''a''] exampleNet (\<lambda>fd. False))) \<in> {Inr (), Inl Blocked}"
proof (rule heartbeat_does_not_fault)
  show "\<forall>h \<in> set [''a''] \<union> alivesIn [AliveLoop [''a''], ListenerCheck, Datagram (Some (''I am alive'', ''a.net''))].
      resolves (exampleNet h)"
    by (simp add: exampleNet_def)
  show "timely (map AddReceiver [''a''] @ [AliveLoop [''a''], ListenerCheck, Datagram (Some (''I am alive'', ''a.net''))])
      (newHeartbeat [''a''] exampleNet (\<lambda>fd. False))"
    by (simp add: heartbeat_run)
qed simp_all

end
