(* ===== verification/Lab0System.thy ===== *)
theory Lab0System
  imports Heartbeat
begin

text \<open>
  The processes of lab0 together. Every host runs the two threads of \<open>Heartbeat\<close>; the datagrams that they
  send travel over a network that may lose, duplicate and reorder them. A thread that faults takes no
  further step.
\<close>

section \<open>Where datagrams go\<close>

text \<open>
  \<open>to\<close> gives the host at the other end of a descriptor: a socket that is created for a host sends to
  that host.
\<close>

definition routes :: "(fd \<Rightarrow> hostname) \<Rightarrow> HeartbeatState \<Rightarrow> bool" where
  "routes to s \<longleftrightarrow> (\<forall>h u. udpSenders s h = Some u \<longrightarrow> to (us_socketFD u) = h) \<and>
     (\<forall>h. \<forall>a \<in> set (lookups s h). \<forall>f. initSenderSocket a = Inr f \<longrightarrow> to f = h)"

text \<open>What is sent between two states, and to whom.\<close>

definition sendsBetween :: "(fd \<Rightarrow> hostname) \<Rightarrow> HeartbeatState \<Rightarrow> HeartbeatState \<Rightarrow> (hostname \<times> string) list" where
  "sendsBetween to s s' = map (\<lambda>(f, text). (to f, text)) (drop (length (sentMessages s)) (sentMessages s'))"

definition sendsWithin :: "(fd \<Rightarrow> hostname) \<Rightarrow> (hostname \<times> string) set \<Rightarrow> HeartbeatState \<Rightarrow> HeartbeatState \<Rightarrow> bool" where
  "sendsWithin to X s s' \<longleftrightarrow> routes to s' \<and>
     (\<exists>out. sentMessages s' = sentMessages s @ out \<and> (\<forall>e \<in> set out. (to (fst e), snd e) \<in> X))"

lemma sendsWithin_between: "sendsWithin to X s s' \<Longrightarrow> set (sendsBetween to s s') \<subseteq> X"
  by (force simp: sendsWithin_def sendsBetween_def)

lemma sendsWithin_refl: "routes to s \<Longrightarrow> sendsWithin to X s s"
  by (simp add: sendsWithin_def)

lemma sendsWithin_trans: "sendsWithin to X s s1 \<Longrightarrow> sendsWithin to Y s1 s2 \<Longrightarrow> sendsWithin to (X \<union> Y) s s2"
  by (auto simp: sendsWithin_def)

lemma sendsWithin_mono: "sendsWithin to X s s' \<Longrightarrow> X \<subseteq> Y \<Longrightarrow> sendsWithin to Y s s'"
  unfolding sendsWithin_def by (meson subsetD)

lemma sendsWithin_same:
  assumes "routes to s" and "udpSenders s' = udpSenders s" and "lookups s' = lookups s" and "sentMessages s' = sentMessages s"
  shows "sendsWithin to X s s'"
  using assms by (simp add: sendsWithin_def routes_def)

lemma newUDPSender_routes:
  assumes "newUDPSender_lab0 h s = (r, s')" and "routes to s"
  shows "routes to s' \<and> sentMessages s' = sentMessages s \<and> udpSenders s' = udpSenders s \<and>
    (\<forall>u. r = Inr u \<longrightarrow> to (us_socketFD u) = h)"
proof (cases "lookups s h")
  case Nil
  with assms show ?thesis by (auto simp: newUDPSender_lab0_def)
next
  case (Cons a as)
  have "to f = h" if "initSenderSocket a = Inr f" for f
  proof -
    have "a \<in> set (lookups s h)" using Cons by simp
    then show ?thesis using assms(2) that unfolding routes_def by blast
  qed
  moreover have "routes to (s\<lparr>lookups := (lookups s)(h := as)\<rparr>)"
    unfolding routes_def
  proof (intro conjI allI ballI impI)
    fix k b f
    assume b: "b \<in> set (lookups (s\<lparr>lookups := (lookups s)(h := as)\<rparr>) k)" "initSenderSocket b = Inr f"
    then have "b \<in> set (lookups s k)" using Cons by (cases "k = h") auto
    then show "to f = k" using assms(2) b(2) unfolding routes_def by blast
  qed (use assms(2) in \<open>simp add: routes_def\<close>)
  ultimately show ?thesis
    using assms(1) Cons by (cases "initSenderSocket a") (auto simp: newUDPSender_lab0_def)
qed

lemma getUDPSender_routes:
  assumes "getUDPSender h s = (Inr found, s')" and "routes to s"
  shows "routes to s' \<and> sentMessages s' = sentMessages s \<and> (\<forall>u. found = Some u \<longrightarrow> to (us_socketFD u) = h)"
proof (cases "udpSenders s h")
  case (Some u)
  with assms show ?thesis by (auto simp: getUDPSender_def andThen_def act_basic routes_def)
next
  case None
  obtain r s1 where n: "newUDPSender_lab0 h s = (r, s1)" by (cases "newUDPSender_lab0 h s")
  note n' = newUDPSender_routes [OF n assms(2)]
  show ?thesis
  proof (cases r)
    case (Inl e)
    with n None assms(1) have "isRuntimeError e" "s' = s1" "found = udpSenders s1 h"
      by (auto simp: getUDPSender_def andThen_def act_basic catching_def split: if_splits)
    with n' None show ?thesis by simp
  next
    case (Inr u)
    with n None assms(1) have "s' = s1\<lparr>udpSenders := (udpSenders s1)(h \<mapsto> u)\<rparr>" "found = Some u"
      by (auto simp: getUDPSender_def andThen_def act_basic catching_def)
    with n' Inr show ?thesis by (auto simp: routes_def)
  qed
qed

lemma sendMessage_within:
  assumes "sendMessage u text s = (Inr (), s')" and "routes to s"
  shows "sendsWithin to {(to (us_socketFD u), text)} s s'"
  using assms by (auto simp: sendMessage_def sendsWithin_def routes_def split: if_splits)

text \<open>Looking up the sender of a host and sending to it, as both threads do.\<close>

lemma sendToHost_within:
  assumes "andThen (getUDPSender h) (\<lambda>found. case found of None \<Rightarrow> k | Some u \<Rightarrow> sendMessage u text) s = (Inr (), s')"
    and "k = ret () \<or> k = lift (Inl e)" and "routes to s"
  shows "sendsWithin to {(h, text)} s s'"
proof -
  obtain found s1 where g: "getUDPSender h s = (Inr found, s1)"
    "(case found of None \<Rightarrow> k | Some u \<Rightarrow> sendMessage u text) s1 = (Inr (), s')"
    using assms(1) by (auto simp: andThen_eq_Inr)
  note r = getUDPSender_routes [OF g(1) assms(3)]
  then have s1: "sendsWithin to {(h, text)} s s1" by (simp add: sendsWithin_def)
  show ?thesis
  proof (cases found)
    case None
    with g(2) assms(2) s1 show ?thesis by (auto simp: act_eq_Inr)
  next
    case (Some u)
    with g(2) r have "sendMessage u text s1 = (Inr (), s')" "routes to s1" "to (us_socketFD u) = h" by simp_all
    with sendMessage_within have "sendsWithin to {(h, text)} s1 s'" by blast
    with sendsWithin_trans [OF s1 this] show ?thesis by simp
  qed
qed

lemma aliveRound_within:
  assumes "aliveRound order s = (Inr (), s')" and "routes to s"
  shows "sendsWithin to (set order \<times> {aliveMessage}) s s'"
  using assms
proof (induction order arbitrary: s)
  case Nil
  then show ?case by (simp add: aliveRound_def act_eq_Inr sendsWithin_refl)
next
  case (Cons h order)
  obtain s1 where s1: "andThen (getUDPSender h) (\<lambda>found. case found of None \<Rightarrow> ret () | Some u \<Rightarrow> sendMessage u aliveMessage) s
      = (Inr (), s1)" "aliveRound order s1 = (Inr (), s')"
    using Cons.prems(1) by (auto simp: aliveRound_def andThen_eq_Inr)
  from sendToHost_within [OF s1(1) _ Cons.prems(2)] have h: "sendsWithin to {(h, aliveMessage)} s s1" by simp
  then have "routes to s1" by (simp add: sendsWithin_def)
  from sendsWithin_trans [OF h Cons.IH [OF s1(2) this]] show ?case
    by (rule sendsWithin_mono) auto
qed

lemma closeConnections_routes: "closeConnections s = (Inr (), s') \<Longrightarrow> routes to s \<Longrightarrow> sendsWithin to {} s s'"
  by (auto simp: closeConnections_def act_eq_Inr sendsWithin_def routes_def)

text \<open>What a step sends: messages to the hosts that have not acknowledged, an acknowledgement to the sender.\<close>

lemma hbStep_sends:
  assumes "hbStep e s = (Inr (), s')" and r: "routes to s"
  shows "sendsWithin to (case e of
      AliveLoop order \<Rightarrow> aliveMessageReceivers s \<times> {aliveMessage}
    | Datagram d \<Rightarrow> aliveFrom e \<times> {ackMessage}
    | _ \<Rightarrow> {}) s s'"
proof (cases e)
  case (AddReceiver h)
  with assms show ?thesis
    by (auto simp: addToAliveMessageReceiverList_def act_eq_Inr intro: sendsWithin_same)
next
  case (AliveLoop order)
  show ?thesis
  proof (cases "stopAliveMessageLoop s")
    case True
    with assms(1) AliveLoop obtain s1 where "closeConnections s = (Inr (), s1)" "s' = s1\<lparr>aliveLoopEnded := True\<rparr>"
      by (auto simp: startSendingAliveMessages_def andThen_simps andThen_eq_Inr act_eq_Inr split: if_splits)
    with closeConnections_routes [OF _ r, of s1] AliveLoop show ?thesis
      by (auto simp: sendsWithin_def routes_def)
  next
    case False
    with assms(1) AliveLoop have "aliveRound order s = (Inr (), s')" "set order = aliveMessageReceivers s"
      by (auto simp: startSendingAliveMessages_def andThen_simps act_eq_Inr split: if_splits)
    with aliveRound_within [OF _ r, of order s'] AliveLoop show ?thesis by simp
  qed
next
  case ListenerCheck
  with assms hbStep_ListenerCheck [of s s'] show ?thesis by (auto intro: sendsWithin_same)
next
  case (Datagram d)
  have w: "listener s = Waiting" using hbStep_Datagram [of d s s'] assms(1) Datagram by simp
  obtain bytes from' where d: "d = Some (bytes, from')"
    using assms(1) w Datagram by (cases d) (auto simp: listenerReceive_def andThen_simps act_basic receiveMessage_def)
  obtain message sender where m: "receiveMessage d = Inr (message, sender)" by (simp add: d receiveMessage_def)
  obtain s1 where s1: "handleMessage (message, sender) s = (Inr (), s1)" "s' = s1\<lparr>listener := Checking\<rparr>"
    using assms(1) w Datagram by (auto simp: listenerReceive_def andThen_simps act_basic m andThen_eq_Inr)
  have "sendsWithin to (aliveFrom e \<times> {ackMessage}) s s1"
  proof (cases "prefix aliveMessage message")
    case True
    then obtain s2 where s2: "sendingAckMessages (parseHostnameFromSender sender) s = (Inr (), s2)"
      "s1 = s2\<lparr>validSenders := validSenders s2 - {parseHostnameFromSender sender}\<rparr>"
      using s1(1) by (auto simp: handleMessage_def Let_def andThen_eq_Inr act_basic)
    have "aliveFrom e = {parseHostnameFromSender sender}" using True m d Datagram by simp
    moreover have "sendsWithin to {(parseHostnameFromSender sender, ackMessage)} s s2"
      using sendToHost_within [OF s2(1) [unfolded sendingAckMessages_def] _ r] by blast
    ultimately show ?thesis using s2(2) by (auto simp: sendsWithin_def routes_def)
  next
    case False
    with s1(1) r show ?thesis
      by (auto simp: handleMessage_def Let_def removeFromAliveMessageReceiverList_def act_eq_Inr split: if_splits
          intro: sendsWithin_same)
  qed
  then show ?thesis using s1(2) Datagram by (simp add: sendsWithin_def routes_def)
qed

section \<open>The system\<close>

text \<open>
  \<open>adding n\<close> are the peers that the sending thread of \<open>n\<close> still has to add before its loop; \<open>flying\<close> are
  the datagrams on the way, with sender and receiver.
\<close>

record lab0Sys =
  procs :: "hostname \<Rightarrow> HeartbeatState"
  adding :: "hostname \<Rightarrow> hostname list"
  flying :: "(hostname \<times> hostname \<times> string) list"

definition initLab0 ::
  "hostname list \<Rightarrow> (hostname \<Rightarrow> hostname \<Rightarrow> attempt list) \<Rightarrow> (hostname \<Rightarrow> fd \<Rightarrow> bool) \<Rightarrow> lab0Sys" where
  "initLab0 hosts looked errors =
     \<lparr>procs = (\<lambda>n. newHeartbeat (getPeerContainerHostnames hosts n) (looked n) (errors n)),
      adding = getPeerContainerHostnames hosts, flying = []\<rparr>"

definition afterStep :: "(hostname \<Rightarrow> fd \<Rightarrow> hostname) \<Rightarrow> hostname \<Rightarrow> HeartbeatState \<Rightarrow> lab0Sys \<Rightarrow> lab0Sys" where
  "afterStep to n s' S = S\<lparr>procs := (procs S)(n := s'),
     flying := flying S @ map (\<lambda>(q, text). (n, q, text)) (sendsBetween (to n) (procs S n) s')\<rparr>"

inductive lab0Step :: "hostname list \<Rightarrow> (hostname \<Rightarrow> fd \<Rightarrow> hostname) \<Rightarrow> lab0Sys \<Rightarrow> lab0Sys \<Rightarrow> bool" for hosts to where
  l_add: "n \<in> set hosts \<Longrightarrow> adding S n = h # hs \<Longrightarrow> hbStep (AddReceiver h) (procs S n) = (Inr (), s') \<Longrightarrow>
    lab0Step hosts to S ((afterStep to n s' S)\<lparr>adding := (adding S)(n := hs)\<rparr>)"
| l_alive: "n \<in> set hosts \<Longrightarrow> adding S n = [] \<Longrightarrow> hbStep (AliveLoop order) (procs S n) = (Inr (), s') \<Longrightarrow>
    lab0Step hosts to S (afterStep to n s' S)"
| l_check: "n \<in> set hosts \<Longrightarrow> hbStep ListenerCheck (procs S n) = (Inr (), s') \<Longrightarrow>
    lab0Step hosts to S (afterStep to n s' S)"
| l_receive: "n \<in> set hosts \<Longrightarrow> flying S = us @ (p, n, text) # vs \<Longrightarrow> parseHostnameFromSender from = p \<Longrightarrow>
    hbStep (Datagram (Some (text, from))) (procs S n) = (Inr (), s') \<Longrightarrow>
    lab0Step hosts to S (afterStep to n s' (S\<lparr>flying := us @ vs\<rparr>))"
| l_lose: "flying S = us @ m # vs \<Longrightarrow> lab0Step hosts to S (S\<lparr>flying := us @ vs\<rparr>)"
| l_duplicate: "flying S = us @ m # vs \<Longrightarrow> lab0Step hosts to S (S\<lparr>flying := m # us @ m # vs\<rparr>)"

inductive lab0Reach :: "hostname list \<Rightarrow> (hostname \<Rightarrow> fd \<Rightarrow> hostname) \<Rightarrow> lab0Sys \<Rightarrow> lab0Sys \<Rightarrow> bool" for hosts to where
  lr_here: "lab0Reach hosts to S S"
| lr_step: "lab0Reach hosts to S T \<Longrightarrow> lab0Step hosts to T U \<Longrightarrow> lab0Reach hosts to S U"

section \<open>The invariant of the system\<close>

abbreviation peersOf :: "hostname list \<Rightarrow> hostname \<Rightarrow> hostname set" where
  "peersOf hosts n \<equiv> set (getPeerContainerHostnames hosts n)"

text \<open>
  One process: it has heard only hosts that have added their peers, and the peers that are no longer
  waited for have heard it.
\<close>

definition procInv :: "hostname list \<Rightarrow> (hostname \<Rightarrow> fd \<Rightarrow> hostname) \<Rightarrow> lab0Sys \<Rightarrow> hostname \<Rightarrow> bool" where
  "procInv hosts to S n \<longleftrightarrow> routes (to n) (procs S n) \<and>
     (\<forall>h. h \<in> set hosts \<and> h \<noteq> n \<and> h \<notin> validSenders (procs S n) \<longrightarrow> adding S h = []) \<and>
     set (adding S n) \<subseteq> peersOf hosts n \<and> aliveMessageReceivers (procs S n) \<subseteq> peersOf hosts n \<and>
     (\<forall>h. h \<in> set hosts \<and> h \<noteq> n \<and> h \<notin> aliveMessageReceivers (procs S n) \<and> h \<notin> set (adding S n) \<longrightarrow>
        n \<notin> validSenders (procs S h)) \<and>
     (stopAliveMessageLoop (procs S n) \<longrightarrow> adding S n = [] \<and> aliveMessageReceivers (procs S n) = {}) \<and>
     (aliveLoopEnded (procs S n) \<longrightarrow> stopAliveMessageLoop (procs S n)) \<and>
     (listener (procs S n) = ListenerEnded \<longrightarrow> validSenders (procs S n) = {})"

text \<open>A datagram: a message of a host that has added its peers, or the acknowledgement of such a message.\<close>

definition flyingInv :: "hostname list \<Rightarrow> lab0Sys \<Rightarrow> hostname \<times> hostname \<times> string \<Rightarrow> bool" where
  "flyingInv hosts S m = (case m of (p, q, text) \<Rightarrow> p \<in> set hosts \<and> q \<in> peersOf hosts p \<and>
     (text = aliveMessage \<and> adding S p = [] \<or>
      text = ackMessage \<and> adding S q = [] \<and> q \<notin> validSenders (procs S p)))"

definition lab0Inv :: "hostname list \<Rightarrow> (hostname \<Rightarrow> fd \<Rightarrow> hostname) \<Rightarrow> lab0Sys \<Rightarrow> bool" where
  "lab0Inv hosts to S \<longleftrightarrow> (\<forall>n \<in> set hosts. procInv hosts to S n) \<and> (\<forall>m \<in> set (flying S). flyingInv hosts S m)"

lemma peersOf_simps [simp]: "h \<in> peersOf hosts n \<longleftrightarrow> h \<in> set hosts \<and> h \<noteq> n"
  by (auto simp: getPeerContainerHostnames_def)

lemma afterStep_simps [simp]:
  "procs (afterStep to n s' S) = (procs S)(n := s')" "adding (afterStep to n s' S) = adding S"
  "flying (afterStep to n s' S) = flying S @ map (\<lambda>(q, text). (n, q, text)) (sendsBetween (to n) (procs S n) s')"
  by (simp_all add: afterStep_def)

lemma procInvD:
  assumes "procInv hosts to S n"
  shows "routes (to n) (procs S n)" "h \<in> set hosts \<Longrightarrow> h \<noteq> n \<Longrightarrow> h \<notin> validSenders (procs S n) \<Longrightarrow> adding S h = []"
    "set (adding S n) \<subseteq> peersOf hosts n" "aliveMessageReceivers (procs S n) \<subseteq> peersOf hosts n"
    "h \<in> set hosts \<Longrightarrow> h \<noteq> n \<Longrightarrow> h \<notin> aliveMessageReceivers (procs S n) \<Longrightarrow> h \<notin> set (adding S n) \<Longrightarrow> n \<notin> validSenders (procs S h)"
    "stopAliveMessageLoop (procs S n) \<Longrightarrow> adding S n = []"
    "stopAliveMessageLoop (procs S n) \<Longrightarrow> aliveMessageReceivers (procs S n) = {}"
    "aliveLoopEnded (procs S n) \<Longrightarrow> stopAliveMessageLoop (procs S n)"
    "listener (procs S n) = ListenerEnded \<Longrightarrow> validSenders (procs S n) = {}"
  using assms by (simp_all add: procInv_def del: peersOf_simps)

lemma procInvI:
  assumes "routes (to n) (procs S n)"
    and "\<And>h. h \<in> set hosts \<Longrightarrow> h \<noteq> n \<Longrightarrow> h \<notin> validSenders (procs S n) \<Longrightarrow> adding S h = []"
    and "set (adding S n) \<subseteq> peersOf hosts n" and "aliveMessageReceivers (procs S n) \<subseteq> peersOf hosts n"
    and "\<And>h. h \<in> set hosts \<Longrightarrow> h \<noteq> n \<Longrightarrow> h \<notin> aliveMessageReceivers (procs S n) \<Longrightarrow> h \<notin> set (adding S n) \<Longrightarrow>
      n \<notin> validSenders (procs S h)"
    and "stopAliveMessageLoop (procs S n) \<Longrightarrow> adding S n = [] \<and> aliveMessageReceivers (procs S n) = {}"
    and "aliveLoopEnded (procs S n) \<Longrightarrow> stopAliveMessageLoop (procs S n)"
    and "listener (procs S n) = ListenerEnded \<Longrightarrow> validSenders (procs S n) = {}"
  shows "procInv hosts to S n"
  using assms by (simp add: procInv_def del: peersOf_simps)

text \<open>
  A step of one process: \<open>A\<close> are the hosts it has heard in the step, \<open>B\<close> those that have acknowledged.
\<close>

lemma afterStep_inv:
  assumes inv: "lab0Inv hosts to S" and n: "n \<in> set hosts" and r: "routes (to n) s'"
    and v: "validSenders s' = validSenders (procs S n) - A"
    and a: "aliveMessageReceivers s' = aliveMessageReceivers (procs S n) - B"
    and stop: "stopAliveMessageLoop s' \<Longrightarrow> stopAliveMessageLoop (procs S n) \<or> B \<noteq> {} \<and> aliveMessageReceivers s' = {}"
    and ended: "aliveLoopEnded s' \<Longrightarrow> stopAliveMessageLoop s'"
    and listened: "listener s' = ListenerEnded \<Longrightarrow> validSenders s' = {}"
    and sends: "set (sendsBetween (to n) (procs S n) s') \<subseteq> (if adding S n = [] then aliveMessageReceivers (procs S n) else {}) \<times> {aliveMessage} \<union> A \<times> {ackMessage}"
    and A: "\<forall>h \<in> A. h \<in> peersOf hosts n \<and> adding S h = []"
    and B: "\<forall>h \<in> B. n \<notin> validSenders (procs S h) \<and> adding S n = []"
  shows "lab0Inv hosts to (afterStep to n s' S)"
proof -
  let ?T = "afterStep to n s' S"
  have pn: "procInv hosts to S n" using inv n by (simp add: lab0Inv_def)
  have fewer: "k \<notin> validSenders (procs S h) \<Longrightarrow> k \<notin> validSenders (procs ?T h)" for h k
    using v by (cases "h = n") simp_all
  have "procInv hosts to ?T h" if "h \<in> set hosts" for h
  proof (cases "h = n")
    case True
    have same: "procs ?T n = s'" "adding ?T = adding S" by simp_all
    show ?thesis unfolding True
    proof (rule procInvI, unfold same)
      show "routes (to n) s'" by (rule r)
      show "adding S k = []" if "k \<in> set hosts" "k \<noteq> n" "k \<notin> validSenders s'" for k
        using that v A procInvD(2) [OF pn that(1,2)] by blast
      show "set (adding S n) \<subseteq> peersOf hosts n" by (rule procInvD(3) [OF pn])
      show "aliveMessageReceivers s' \<subseteq> peersOf hosts n" using a procInvD(4) [OF pn] by blast
      show "n \<notin> validSenders (procs ?T k)"
        if "k \<in> set hosts" "k \<noteq> n" "k \<notin> aliveMessageReceivers s'" "k \<notin> set (adding S n)" for k
      proof (rule fewer)
        show "n \<notin> validSenders (procs S k)" using that a B procInvD(5) [OF pn that(1,2)] by blast
      qed
      show "adding S n = [] \<and> aliveMessageReceivers s' = {}" if "stopAliveMessageLoop s'"
        using stop [OF that]
      proof
        assume "stopAliveMessageLoop (procs S n)"
        then show ?thesis using procInvD(6,7) [OF pn] a by simp
      next
        assume "B \<noteq> {} \<and> aliveMessageReceivers s' = {}"
        then show ?thesis using B by blast
      qed
    qed (rule ended listened, assumption)+
  next
    case False
    have same: "procs ?T h = procs S h" "adding ?T = adding S" using False by simp_all
    have ph: "procInv hosts to S h" using inv that by (simp add: lab0Inv_def)
    show ?thesis
    proof (rule procInvI, unfold same)
      show "h \<notin> validSenders (procs ?T k)"
        if "k \<in> set hosts" "k \<noteq> h" "k \<notin> aliveMessageReceivers (procs S h)" "k \<notin> set (adding S h)" for k
        by (rule fewer, rule procInvD(5) [OF ph that])
      show "adding S h = [] \<and> aliveMessageReceivers (procs S h) = {}" if "stopAliveMessageLoop (procs S h)"
        using procInvD(6,7) [OF ph that] by simp
    qed (rule procInvD [OF ph]; assumption?)+
  qed
  moreover have "flyingInv hosts ?T m" if mem: "m \<in> set (flying ?T)" for m
  proof (cases "m \<in> set (flying S)")
    case True
    then have "flyingInv hosts S m" using inv by (simp add: lab0Inv_def)
    moreover obtain p q msg where "m = (p, q, msg)" by (cases m)
    moreover have "adding ?T = adding S" by simp
    ultimately show ?thesis using fewer [of q p] unfolding flyingInv_def by auto
  next
    case False
    then obtain q msg where m: "m = (n, q, msg)" "(q, msg) \<in> set (sendsBetween (to n) (procs S n) s')"
      using mem by auto
    have "aliveMessageReceivers (procs S n) \<subseteq> peersOf hosts n" using pn by (simp add: procInv_def)
    then have recv: "k \<in> set hosts \<and> k \<noteq> n" if "k \<in> aliveMessageReceivers (procs S n)" for k
      using that peersOf_simps by blast
    consider (alive) "msg = aliveMessage" "adding S n = []" "q \<in> aliveMessageReceivers (procs S n)"
      | (ack) "msg = ackMessage" "q \<in> A"
      using subsetD [OF sends m(2)] by (auto split: if_splits)
    then show ?thesis
    proof cases
      case alive
      with recv [OF alive(3)] n show ?thesis by (simp add: flyingInv_def m(1))
    next
      case ack
      with A v n show ?thesis by (simp add: flyingInv_def m(1))
    qed
  qed
  ultimately show ?thesis by (simp add: lab0Inv_def)
qed

lemma lab0InvD: "lab0Inv hosts to S \<Longrightarrow> n \<in> set hosts \<Longrightarrow> procInv hosts to S n"
  by (simp add: lab0Inv_def)

lemma procInv_flying [simp]: "procInv hosts to (S\<lparr>flying := ms\<rparr>) n \<longleftrightarrow> procInv hosts to S n"
  "flyingInv hosts (S\<lparr>flying := ms\<rparr>) m \<longleftrightarrow> flyingInv hosts S m"
  by (simp_all add: procInv_def flyingInv_def del: peersOf_simps)

lemma alive_not_ack [simp]: "prefix aliveMessage aliveMessage" "prefix ackMessage ackMessage"
    "\<not> prefix aliveMessage ackMessage" "\<not> prefix ackMessage aliveMessage" "aliveMessage \<noteq> ackMessage" "ackMessage \<noteq> aliveMessage"
  by (simp_all add: aliveMessage_def ackMessage_def)

lemma datagram_from:
  "aliveFrom (Datagram (Some (aliveMessage, from))) = {parseHostnameFromSender from}"
  "ackFrom (Datagram (Some (aliveMessage, from))) = {}"
  "aliveFrom (Datagram (Some (ackMessage, from))) = {}"
  "ackFrom (Datagram (Some (ackMessage, from))) = {parseHostnameFromSender from}"
proof -
  have "receiveMessage (Some (aliveMessage, from)) = Inr (aliveMessage, from)"
    "receiveMessage (Some (ackMessage, from)) = Inr (ackMessage, from)"
    by (simp_all add: receiveMessage_def MAX_BUFFER_SIZE_lab0_def aliveMessage_def ackMessage_def)
  then show "aliveFrom (Datagram (Some (aliveMessage, from))) = {parseHostnameFromSender from}"
    "ackFrom (Datagram (Some (aliveMessage, from))) = {}"
    "aliveFrom (Datagram (Some (ackMessage, from))) = {}"
    "ackFrom (Datagram (Some (ackMessage, from))) = {parseHostnameFromSender from}"
    by simp_all
qed

declare aliveFrom.simps [simp del] ackFrom.simps [simp del]

lemma hbStep_AddReceiver:
  "hbStep (AddReceiver h) s = (Inr (), s') \<longleftrightarrow> s' = s\<lparr>aliveMessageReceivers := insert h (aliveMessageReceivers s)\<rparr>"
  by (auto simp: addToAliveMessageReceiverList_def act_eq_Inr)

lemma add_inv:
  assumes inv: "lab0Inv hosts to S" and n: "n \<in> set hosts" and h: "adding S n = h # hs"
    and s': "s' = (procs S n)\<lparr>aliveMessageReceivers := insert h (aliveMessageReceivers (procs S n))\<rparr>"
  shows "lab0Inv hosts to ((afterStep to n s' S)\<lparr>adding := (adding S)(n := hs)\<rparr>)"
proof -
  let ?T = "(afterStep to n s' S)\<lparr>adding := (adding S)(n := hs)\<rparr>"
  have none: "sendsBetween (to n) (procs S n) s' = []" by (simp add: sendsBetween_def s')
  have still: "validSenders (procs ?T k) = validSenders (procs S k)" "adding S k = [] \<Longrightarrow> adding ?T k = []" for k
    using h by (auto simp: s')
  have pn: "procInv hosts to S n" using inv n by (simp add: lab0Inv_def)
  have "procInv hosts to ?T k" if k: "k \<in> set hosts" for k
  proof (cases "k = n")
    case True
    have same: "procs ?T n = s'" "adding ?T n = hs" by simp_all
    have later: "adding ?T j = []" if "adding S j = []" for j using still(2) that .
    show ?thesis unfolding True
    proof (rule procInvI, unfold same)
      show "adding ?T j = []" if "j \<in> set hosts" "j \<noteq> n" "j \<notin> validSenders s'" for j
        using later procInvD(2) [OF pn that(1,2)] that(3) by (simp add: s')
      show "routes (to n) s'" using procInvD(1) [OF pn] by (simp add: routes_def s')
      show "set hs \<subseteq> peersOf hosts n" using procInvD(3) [OF pn] h by auto
      show "aliveMessageReceivers s' \<subseteq> peersOf hosts n" using procInvD(3,4) [OF pn] h by (auto simp: s')
      show "n \<notin> validSenders (procs ?T j)"
        if "j \<in> set hosts" "j \<noteq> n" "j \<notin> aliveMessageReceivers s'" "j \<notin> set hs" for j
        unfolding still(1) using that h by (intro procInvD(5) [OF pn]) (auto simp: s')
      show "hs = [] \<and> aliveMessageReceivers s' = {}" if "stopAliveMessageLoop s'"
        using that procInvD(6) [OF pn] h by (simp add: s')
      show "stopAliveMessageLoop s'" if "aliveLoopEnded s'" using that procInvD(8) [OF pn] by (simp add: s')
      show "validSenders s' = {}" if "listener s' = ListenerEnded" using that procInvD(9) [OF pn] by (simp add: s')
    qed
  next
    case False
    have same: "procs ?T k = procs S k" "adding ?T k = adding S k" using False by simp_all
    have pk: "procInv hosts to S k" using inv k by (simp add: lab0Inv_def)
    show ?thesis
    proof (rule procInvI, unfold same)
      show "adding ?T j = []" if "j \<in> set hosts" "j \<noteq> k" "j \<notin> validSenders (procs S k)" for j
        using still(2) procInvD(2) [OF pk that] by blast
      show "k \<notin> validSenders (procs ?T j)"
        if "j \<in> set hosts" "j \<noteq> k" "j \<notin> aliveMessageReceivers (procs S k)" "j \<notin> set (adding S k)" for j
        unfolding still(1) by (rule procInvD(5) [OF pk that])
      show "adding S k = [] \<and> aliveMessageReceivers (procs S k) = {}" if "stopAliveMessageLoop (procs S k)"
        using procInvD(6,7) [OF pk that] by simp
    qed (rule procInvD [OF pk]; assumption?)+
  qed
  moreover have "flyingInv hosts ?T m" if "m \<in> set (flying ?T)" for m
  proof -
    obtain p q msg where m: "m = (p, q, msg)" by (cases m)
    have "flyingInv hosts S m" using inv that none by (simp add: lab0Inv_def)
    then show ?thesis unfolding flyingInv_def m prod.case still(1) using still(2) by blast
  qed
  ultimately show ?thesis by (simp add: lab0Inv_def)
qed

lemma lab0Step_inv:
  assumes "lab0Step hosts to S T" and inv: "lab0Inv hosts to S"
  shows "lab0Inv hosts to T"
  using assms(1)
proof cases
  case (l_add n h hs s')
  show ?thesis unfolding l_add(1)
    by (rule add_inv [OF inv l_add(2,3) l_add(4) [unfolded hbStep_AddReceiver]])
next
  case (l_alive n order s')
  have r: "routes (to n) (procs S n)" by (rule procInvD(1) [OF lab0InvD [OF inv l_alive(2)]])
  have w: "sendsWithin (to n) (aliveMessageReceivers (procs S n) \<times> {aliveMessage}) (procs S n) s'"
    using hbStep_sends [OF l_alive(4) r] by simp
  have c: "validSenders s' = validSenders (procs S n)" "aliveMessageReceivers s' = aliveMessageReceivers (procs S n)"
    "stopAliveMessageLoop s' = stopAliveMessageLoop (procs S n)" "listener s' = listener (procs S n)"
    "aliveLoopEnded s' = stopAliveMessageLoop (procs S n)"
    using hbStep_AliveLoop [OF l_alive(4)] by (auto simp: control_def)
  have "procInv hosts to S n" using inv l_alive(2) by (simp add: lab0Inv_def)
  from procInvD(9) [OF this] show ?thesis unfolding l_alive(1)
    using w sendsWithin_between [OF w] l_alive(2,3) c
    by (intro afterStep_inv [OF inv, where A = "{}" and B = "{}"]) (auto simp: sendsWithin_def)
next
  case (l_check n s')
  note s' = hbStep_ListenerCheck [OF l_check(3)]
  have pn: "procInv hosts to S n" using inv l_check(2) by (simp add: lab0Inv_def)
  have none: "sendsBetween (to n) (procs S n) s' = []" using s' by (simp add: sendsBetween_def)
  have "routes (to n) s'" using procInvD(1) [OF pn] s' by (simp add: routes_def)
  moreover have "validSenders s' = {}" if "listener s' = ListenerEnded"
    using that s' by (auto simp: listening_def split: if_splits)
  ultimately show ?thesis unfolding l_check(1)
    using l_check(2) s' none procInvD(8) [OF pn]
    by (intro afterStep_inv [OF inv, where A = "{}" and B = "{}"]) auto
next
  case (l_receive n us p msg vs "from" s')
  let ?S = "S\<lparr>flying := us @ vs\<rparr>"
  have inv': "lab0Inv hosts to ?S" using inv l_receive(3) by (simp add: lab0Inv_def)
  have pn: "procInv hosts to S n" using inv l_receive(2) by (simp add: lab0Inv_def)
  have m: "flyingInv hosts S (p, n, msg)" using inv l_receive(3) by (simp add: lab0Inv_def)
  let ?e = "Datagram (Some (msg, from))"
  note c = hbStep_Datagram [OF l_receive(5)]
  have w: "sendsWithin (to n) (aliveFrom ?e \<times> {ackMessage}) (procs S n) s'"
    using hbStep_sends [OF l_receive(5) procInvD(1) [OF pn]] by simp
  have A: "\<forall>h \<in> aliveFrom ?e. h \<in> peersOf hosts n \<and> adding ?S h = []"
    using m l_receive(2,4) by (auto simp: flyingInv_def datagram_from)
  have B: "\<forall>h \<in> ackFrom ?e. n \<notin> validSenders (procs ?S h) \<and> adding ?S n = []"
    using m l_receive(4) by (auto simp: flyingInv_def datagram_from)
  show ?thesis unfolding l_receive(1)
  proof (rule afterStep_inv [OF inv' l_receive(2) _ _ _ _ _ _ _ A B])
    show "routes (to n) s'" using w by (simp add: sendsWithin_def)
    show "set (sendsBetween (to n) (procs ?S n) s') \<subseteq> (if adding ?S n = [] then aliveMessageReceivers (procs ?S n) else {})
        \<times> {aliveMessage} \<union> aliveFrom ?e \<times> {ackMessage}"
      using sendsWithin_between [OF w] by auto
    show "stopAliveMessageLoop s'" if "aliveLoopEnded s'" using that c procInvD(8) [OF pn] by simp
  qed (use c in auto)
next
  case (l_lose us m vs)
  then show ?thesis using inv by (simp add: lab0Inv_def)
next
  case (l_duplicate us m vs)
  then show ?thesis using inv by (simp add: lab0Inv_def)
qed

lemma lab0Reach_inv: "lab0Reach hosts to S T \<Longrightarrow> lab0Inv hosts to S \<Longrightarrow> lab0Inv hosts to T"
  by (induction rule: lab0Reach.induct) (auto intro: lab0Step_inv)

text \<open>The sockets of every process lead where they should.\<close>

definition wired :: "hostname list \<Rightarrow> (hostname \<Rightarrow> fd \<Rightarrow> hostname) \<Rightarrow> (hostname \<Rightarrow> hostname \<Rightarrow> attempt list) \<Rightarrow> bool" where
  "wired hosts to looked \<longleftrightarrow>
     (\<forall>n \<in> set hosts. \<forall>h. \<forall>a \<in> set (looked n h). \<forall>f. initSenderSocket a = Inr f \<longrightarrow> to n f = h)"

lemma initLab0_inv: "wired hosts to looked \<Longrightarrow> lab0Inv hosts to (initLab0 hosts looked errors)"
  by (auto simp: lab0Inv_def initLab0_def newHeartbeat_def wired_def routes_def getPeerContainerHostnames_def
      intro!: procInvI)

section \<open>Ready together\<close>

text \<open>
  C13: the barrier. When a process is ready, every other process has started and added its peers, and
  the two have received each other's message, in every interleaving of all threads and whatever the
  network loses, duplicates or reorders.
\<close>

theorem ready_is_a_barrier:
  assumes "wired hosts to looked" and "lab0Reach hosts to (initLab0 hosts looked errors) S"
    and "n \<in> set hosts" and "ready (procs S n)" and "h \<in> set hosts" and "h \<noteq> n"
  shows "adding S h = [] \<and> h \<notin> validSenders (procs S n) \<and> n \<notin> validSenders (procs S h)"
proof -
  have "lab0Inv hosts to S" using lab0Reach_inv [OF assms(2) initLab0_inv [OF assms(1)]] .
  then have pn: "procInv hosts to S n" using assms(3) by (simp add: lab0Inv_def)
  have "validSenders (procs S n) = {}" "stopAliveMessageLoop (procs S n)"
    using procInvD(8,9) [OF pn] assms(4) by (simp_all add: ready_def)
  with procInvD(2,5) [OF pn assms(5,6)] procInvD(6,7) [OF pn] show ?thesis by simp
qed

text \<open>
  A process that has ended while another still waits for its acknowledgement, which is not on its way.
\<close>

definition stranded :: "hostname \<Rightarrow> hostname \<Rightarrow> lab0Sys \<Rightarrow> bool" where
  "stranded a b S \<longleftrightarrow> listener (procs S a) = ListenerEnded \<and> adding S b = [] \<and>
     a \<in> aliveMessageReceivers (procs S b) \<and> (a, b, ackMessage) \<notin> set (flying S)"

lemma sends_no_ack:
  assumes "sendsWithin to (X \<times> {aliveMessage}) s s'"
  shows "(b, ackMessage) \<notin> set (sendsBetween to s s')"
  using sendsWithin_between [OF assms] by auto

lemma stranded_after:
  assumes str: "stranded a b S" and "a \<noteq> b"
    and a: "n = a \<Longrightarrow> listener s' = ListenerEnded \<and> (b, ackMessage) \<notin> set (sendsBetween (to n) (procs S n) s')"
    and b: "n = b \<Longrightarrow> a \<in> aliveMessageReceivers s'"
  shows "stranded a b (afterStep to n s' S)"
proof -
  have "(a, b, ackMessage) \<notin> set (flying (afterStep to n s' S))" using str a by (auto simp: stranded_def)
  with assms show ?thesis by (auto simp: stranded_def)
qed

lemma stranded_step:
  assumes "lab0Step hosts to S T" and inv: "lab0Inv hosts to S" and str: "stranded a b S" and ab: "a \<noteq> b"
  shows "stranded a b T"
  using assms(1)
proof cases
  case (l_add n h hs s')
  then have s': "s' = (procs S n)\<lparr>aliveMessageReceivers := insert h (aliveMessageReceivers (procs S n))\<rparr>"
    by (simp only: hbStep_AddReceiver)
  then have none: "sendsBetween (to n) (procs S n) s' = []" by (simp add: sendsBetween_def)
  have "n \<noteq> b" using l_add(3) str by (auto simp: stranded_def)
  moreover have "stranded a b (afterStep to n s' S)"
    by (rule stranded_after [OF str ab]) (use str none s' in \<open>auto simp: stranded_def\<close>)
  ultimately show ?thesis by (simp add: l_add(1) stranded_def)
next
  case (l_alive n order s')
  have r: "routes (to n) (procs S n)" by (rule procInvD(1) [OF lab0InvD [OF inv l_alive(2)]])
  have w: "sendsWithin (to n) (aliveMessageReceivers (procs S n) \<times> {aliveMessage}) (procs S n) s'"
    using hbStep_sends [OF l_alive(4) r] by simp
  have c: "aliveMessageReceivers s' = aliveMessageReceivers (procs S n)" "listener s' = listener (procs S n)"
    using hbStep_AliveLoop [OF l_alive(4)] by (auto simp: control_def)
  show ?thesis unfolding l_alive(1)
    by (rule stranded_after [OF str ab]) (use str sends_no_ack [OF w] c in \<open>auto simp: stranded_def\<close>)
next
  case (l_check n s')
  note s' = hbStep_ListenerCheck [OF l_check(3)]
  then have "n \<noteq> a" using str by (auto simp: stranded_def)
  then show ?thesis unfolding l_check(1)
    by (intro stranded_after [OF str ab]) (use str s' in \<open>auto simp: stranded_def\<close>)
next
  case (l_receive n us p msg vs "from" s')
  note c = hbStep_Datagram [OF l_receive(5)]
  have na: "n \<noteq> a" using str c by (auto simp: stranded_def)
  have m: "flyingInv hosts S (p, n, msg)" "(p, n, msg) \<in> set (flying S)"
    using inv l_receive(3) by (simp_all add: lab0Inv_def)
  have "a \<notin> ackFrom (Datagram (Some (msg, from)))" if "n = b"
    using m str that l_receive(4) by (auto simp: flyingInv_def stranded_def datagram_from)
  moreover have "stranded a b (S\<lparr>flying := us @ vs\<rparr>)" using str l_receive(3) by (auto simp: stranded_def)
  ultimately show ?thesis unfolding l_receive(1) using na c str
    by (intro stranded_after [OF _ ab]) (auto simp: stranded_def)
next
  case (l_lose us m vs)
  then show ?thesis using str by (auto simp: stranded_def)
next
  case (l_duplicate us m vs)
  then show ?thesis using str by (auto simp: stranded_def)
qed

text \<open>
  C30: the price of ending. A process stops listening as soon as it needs nothing more itself. If its
  last acknowledgement to a peer was lost, the peer goes on sending for ever: it is not ready in any
  continuation of the run.
\<close>

theorem lost_ack_strands_peer:
  assumes "wired hosts to looked" and "lab0Reach hosts to (initLab0 hosts looked errors) S"
    and "a \<noteq> b" and "b \<in> set hosts" and "stranded a b S" and "lab0Reach hosts to S T"
  shows "\<not> ready (procs T b) \<and> a \<in> aliveMessageReceivers (procs T b)"
proof -
  have inv: "lab0Inv hosts to S" using lab0Reach_inv [OF assms(2) initLab0_inv [OF assms(1)]] .
  have "lab0Inv hosts to T \<and> stranded a b T"
    using assms(6) inv assms(5)
    by (induction rule: lab0Reach.induct) (auto intro: lab0Step_inv stranded_step [OF _ _ _ assms(3)])
  then have pb: "procInv hosts to T b" and s: "stranded a b T" using assms(4) by (auto simp: lab0Inv_def)
  have w: "a \<in> aliveMessageReceivers (procs T b)" using s by (simp add: stranded_def)
  then have "\<not> stopAliveMessageLoop (procs T b)" using procInvD(7) [OF pb] by auto
  with procInvD(8) [OF pb] w show ?thesis by (auto simp: ready_def)
qed

section \<open>A run\<close>

text \<open>A scheduler: which process does what, and which datagram arrives or is lost.\<close>

datatype netEvent = EAdd hostname | EAlive hostname "hostname list" | ECheck hostname | EReceive nat | ELose nat

definition doneBy :: "(hostname \<Rightarrow> fd \<Rightarrow> hostname) \<Rightarrow> hostname \<Rightarrow> unit res \<times> HeartbeatState \<Rightarrow> lab0Sys \<Rightarrow> lab0Sys option" where
  "doneBy to n r S = (case r of (Inr _, s') \<Rightarrow> Some (afterStep to n s' S) | _ \<Rightarrow> None)"

fun netStep :: "hostname list \<Rightarrow> (hostname \<Rightarrow> fd \<Rightarrow> hostname) \<Rightarrow> netEvent \<Rightarrow> lab0Sys \<Rightarrow> lab0Sys option" where
  "netStep hosts to (EAdd n) S =
     (case adding S n of
        [] \<Rightarrow> None
      | h # hs \<Rightarrow> if n \<in> set hosts
                  then map_option (\<lambda>T. T\<lparr>adding := (adding S)(n := hs)\<rparr>) (doneBy to n (hbStep (AddReceiver h) (procs S n)) S)
                  else None)"
| "netStep hosts to (EAlive n order) S =
     (if n \<in> set hosts \<and> adding S n = [] then doneBy to n (hbStep (AliveLoop order) (procs S n)) S else None)"
| "netStep hosts to (ECheck n) S = (if n \<in> set hosts then doneBy to n (hbStep ListenerCheck (procs S n)) S else None)"
| "netStep hosts to (EReceive k) S =
     (if k < length (flying S)
      then case flying S ! k of (p, n, text) \<Rightarrow>
        if n \<in> set hosts \<and> parseHostnameFromSender (p @ ''.net'') = p
        then doneBy to n (hbStep (Datagram (Some (text, p @ ''.net''))) (procs S n))
               (S\<lparr>flying := take k (flying S) @ drop (Suc k) (flying S)\<rparr>)
        else None
      else None)"
| "netStep hosts to (ELose k) S =
     (if k < length (flying S) then Some (S\<lparr>flying := take k (flying S) @ drop (Suc k) (flying S)\<rparr>) else None)"

lemma doneBy_eq: "doneBy to n r S = Some T \<longleftrightarrow> (\<exists>s'. r = (Inr (), s') \<and> T = afterStep to n s' S)"
  by (auto simp: doneBy_def split: prod.splits sum.splits)

lemma netStep_step:
  assumes "netStep hosts to e S = Some T"
  shows "lab0Step hosts to S T"
proof (cases e)
  case (EAdd n)
  then obtain h hs where h: "adding S n = h # hs" using assms by (cases "adding S n") auto
  with assms EAdd show ?thesis by (auto simp: doneBy_eq simp del: hbStep.simps split: if_splits intro: l_add)
next
  case (EAlive n order)
  with assms show ?thesis by (auto simp: doneBy_eq simp del: hbStep.simps split: if_splits intro: l_alive)
next
  case (ECheck n)
  with assms show ?thesis by (auto simp: doneBy_eq simp del: hbStep.simps split: if_splits intro: l_check)
next
  case (EReceive k)
  obtain p n msg where m: "flying S ! k = (p, n, msg)" by (cases "flying S ! k")
  have k: "k < length (flying S)" using assms EReceive by (simp split: if_splits)
  have "flying S = take k (flying S) @ (p, n, msg) # drop (Suc k) (flying S)"
    using id_take_nth_drop [OF k] m by simp
  then show ?thesis
    using assms EReceive k m by (auto simp: doneBy_eq simp del: hbStep.simps split: if_splits intro: l_receive)
next
  case (ELose k)
  have k: "k < length (flying S)" using assms ELose by (simp split: if_splits)
  from l_lose [OF id_take_nth_drop [OF k]] show ?thesis using assms ELose k by simp
qed

fun netRun :: "hostname list \<Rightarrow> (hostname \<Rightarrow> fd \<Rightarrow> hostname) \<Rightarrow> netEvent list \<Rightarrow> lab0Sys \<Rightarrow> lab0Sys option" where
  "netRun hosts to [] S = Some S"
| "netRun hosts to (e # es) S = (case netStep hosts to e S of None \<Rightarrow> None | Some T \<Rightarrow> netRun hosts to es T)"

lemma lab0Reach_trans: "lab0Reach hosts to T U \<Longrightarrow> lab0Reach hosts to S T \<Longrightarrow> lab0Reach hosts to S U"
  by (induction rule: lab0Reach.induct) (auto intro: lr_step)

lemma netRun_reach: "netRun hosts to es S = Some T \<Longrightarrow> lab0Reach hosts to S T"
proof (induction es arbitrary: S)
  case Nil
  then show ?case by (simp add: lr_here)
next
  case (Cons e es)
  then obtain U where "netStep hosts to e S = Some U" "netRun hosts to es U = Some T" by (auto split: option.splits)
  with Cons.IH lab0Reach_trans [OF _ lr_step [OF lr_here netStep_step]] show ?case by blast
qed

definition twoWires :: "hostname \<Rightarrow> fd \<Rightarrow> hostname" where
  "twoWires n f = (if f = 1 then ''a'' else ''b'')"

definition twoLookups :: "hostname \<Rightarrow> hostname \<Rightarrow> attempt list" where
  "twoLookups n h = (if h = ''a'' then [Addresses [Some 1] True] else if h = ''b'' then [Addresses [Some 2] True] else [])"

lemma two_wired: "wired [''a'', ''b''] twoWires twoLookups"
  by (auto simp: wired_def twoWires_def twoLookups_def initSenderSocket_def)

text \<open>Two hosts; the acknowledgement of \<open>a\<close> to \<open>b\<close> is lost, and \<open>a\<close> ends.\<close>

definition strandingRun :: "netEvent list" where
  "strandingRun = [EAdd ''a'', EAdd ''b'', EAlive ''a'' [''b''], EAlive ''b'' [''a''], ECheck ''a'', ECheck ''b'',
     EReceive 0, EReceive 0, ECheck ''a'', EReceive 0, ECheck ''a'', EAlive ''a'' [], ELose 0]"

lemma strandingRun_result:
  "\<exists>S. netRun [''a'', ''b''] twoWires strandingRun (initLab0 [''a'', ''b''] twoLookups (\<lambda>_ _. False)) = Some S \<and>
     ready (procs S ''a'') \<and> stranded ''a'' ''b'' S"
  by (simp add: strandingRun_def initLab0_def getPeerContainerHostnames_def doneBy_def heartbeat_run afterStep_def
      sendsBetween_def twoWires_def twoLookups_def ready_def stranded_def)

lemma strandingRun_reach:
  "\<exists>S. lab0Reach [''a'', ''b''] twoWires (initLab0 [''a'', ''b''] twoLookups (\<lambda>_ _. False)) S \<and>
     ready (procs S ''a'') \<and> stranded ''a'' ''b'' S"
  using strandingRun_result netRun_reach by blast

theorem ready_is_a_barrier_witness:
  "\<exists>S :: lab0Sys. ready (procs S ''a'') \<and> adding S ''b'' = [] \<and> ''b'' \<notin> validSenders (procs S ''a'') \<and> ''a'' \<notin> validSenders (procs S ''b'')"
proof -
  obtain S where "lab0Reach [''a'', ''b''] twoWires (initLab0 [''a'', ''b''] twoLookups (\<lambda>_ _. False)) S"
    "ready (procs S ''a'')" using strandingRun_reach by blast
  moreover from ready_is_a_barrier [OF two_wired this(1) _ this(2), of "''b''"]
  have "adding S ''b'' = [] \<and> ''b'' \<notin> validSenders (procs S ''a'') \<and> ''a'' \<notin> validSenders (procs S ''b'')"
    by simp
  ultimately show ?thesis by blast
qed

theorem lost_ack_strands_peer_witness:
  "\<exists>S. ready (procs S ''a'') \<and> (\<forall>T. lab0Reach [''a'', ''b''] twoWires S T \<longrightarrow> \<not> ready (procs T ''b''))"
proof -
  obtain S where "lab0Reach [''a'', ''b''] twoWires (initLab0 [''a'', ''b''] twoLookups (\<lambda>_ _. False)) S"
    "ready (procs S ''a'')" "stranded ''a'' ''b'' S" using strandingRun_reach by blast
  moreover from lost_ack_strands_peer [OF two_wired this(1) _ _ this(3)]
  have "\<not> ready (procs T ''b'')" if "lab0Reach [''a'', ''b''] twoWires S T" for T using that by simp
  ultimately show ?thesis by blast
qed

end
