(* ===== verification/Programs.thy ===== *)
theory Programs
  imports Complex_Main Resolver SnapshotSystem CrashHandling Startup Lab0System
begin

text \<open>
  The three \<open>main.cpp\<close>, up to the start of the threads: from the command line, the host file and the name
  of the host to the states in which the services start. The file system is the function from paths to
  contents. The signal handlers of lab1 and lab2 flush the logs and change no state.
\<close>

section \<open>Lab1\<close>

text \<open>The flags that \<open>main\<close> reads.\<close>

record lab1Flags =
  fl_hostfile :: string
  fl_senders :: string
  fl_msgCount :: nat
  fl_initiateSnapshotCount :: nat

text \<open>The validator of the flag \<open>hostfile\<close>: the process exits without one.\<close>

definition validateHostfile :: "string \<Rightarrow> unit res" where
  "validateHostfile value = (if value = [] then Inl ProcessExit else Inr ())"

text \<open>The loop over the comma separated list of senders.\<close>

function senderLoop :: "string \<Rightarrow> hostname \<Rightarrow> bool" where
  "senderLoop ss currentHostname =
     (if ss = [] then False
      else if takeWhile (\<lambda>c. c \<noteq> CHR '','') ss = currentHostname then True
      else senderLoop (drop 1 (dropWhile (\<lambda>c. c \<noteq> CHR '','') ss)) currentHostname)"
  by pat_completeness auto
termination by (relation "measure (length \<circ> fst)") (simp_all only: in_measure o_apply fst_conv rest_shorter wf_measure simp_thms)

declare senderLoop.simps [simp del]

definition main_lab1 ::
  "lab1Flags \<Rightarrow> (string \<Rightarrow> string) \<Rightarrow> hostCall \<Rightarrow> (SnapshotService \<times> MulticastService \<times> mainCall list) res" where
  "main_lab1 flags contentOf gethostname =
     rbind (validateHostfile (fl_hostfile flags)) (\<lambda>_.
     rbind (readHostFile_lab1 (contentOf (fl_hostfile flags))) (\<lambda>hostnames.
     rbind (getCurrentHostname_lab1 gethostname) (\<lambda>currentHostname.
     rbind (startSnapshotService hostnames currentHostname) (\<lambda>snapshotService.
     rbind (startNode hostnames currentHostname) (\<lambda>multicastService.
     let sendMulticastMsg = senderLoop (fl_senders flags) currentHostname
     in Inr (snapshotService, multicastService,
          mainCalls sendMulticastMsg (fl_msgCount flags) (fl_initiateSnapshotCount flags)))))))"

text \<open>A list of names as it stands on the command line.\<close>

fun commaSeparated :: "string list \<Rightarrow> string" where
  "commaSeparated [] = []"
| "commaSeparated [n] = n"
| "commaSeparated (n # ns) = n @ CHR '','' # commaSeparated ns"

lemma senderLoop_names:
  "\<forall>n \<in> set ns. n \<noteq> [] \<and> CHR '','' \<notin> set n \<Longrightarrow> senderLoop (commaSeparated ns) h \<longleftrightarrow> h \<in> set ns"
proof (induction ns rule: commaSeparated.induct)
  case 1
  then show ?case by (simp add: senderLoop.simps)
next
  case (2 n)
  have cut: "takeWhile (\<lambda>c. c \<noteq> CHR '','') n = n" "dropWhile (\<lambda>c. c \<noteq> CHR '','') n = []"
    using 2 by auto
  show ?case using 2 by (subst commaSeparated.simps, subst senderLoop.simps)
      (auto simp: cut senderLoop.simps [of "[]"])
next
  case (3 n n' ns)
  let ?rest = "commaSeparated (n' # ns)"
  have cut: "takeWhile (\<lambda>c. c \<noteq> CHR '','') (n @ CHR '','' # ?rest) = n"
    "dropWhile (\<lambda>c. c \<noteq> CHR '','') (n @ CHR '','' # ?rest) = CHR '','' # ?rest"
    using 3(2) by (auto simp: takeWhile_append dropWhile_append)
  have "senderLoop (n @ CHR '','' # ?rest) h \<longleftrightarrow> n = h \<or> senderLoop ?rest h"
    by (subst senderLoop.simps) (simp add: cut)
  with 3 show ?case by auto
qed

text \<open>
  C26: the initial state of the system is what the programs build. On every host of an accepted host
  file, started with the same file, the services of lab1 start in the initial state of the system of
  all processes, and the host multicasts if and only if it is in the list of senders.
\<close>

theorem lab1_starts:
  assumes "readHostFile_lab1 (contentOf (fl_hostfile flags)) = Inr hosts" and "length (contentOf (fl_hostfile flags)) < 2 ^ 32"
    and "fl_hostfile flags \<noteq> []" and "fl_senders flags = commaSeparated names"
    and "\<forall>n \<in> set names. n \<noteq> [] \<and> CHR '','' \<notin> set n"
    and "namesHost gethostname h" and "length h < 64" and "h \<in> set hosts"
  shows "main_lab1 flags contentOf gethostname = Inr (snaps (initSnapSys hosts) h, nodes (base (initSnapSys hosts)) h,
    mainCalls (h \<in> set names) (fl_msgCount flags) (fl_initiateSnapshotCount flags))"
proof -
  have hosts: "hosts = uniqueLines {} (fileLines (contentOf (fl_hostfile flags)))"
    using assms(1) by (auto simp: readHostFile_lab1_def Let_def rbind_eq_Inr)
  have v: "valid_hosts hosts" unfolding hosts by (rule uniqueLines_valid [OF assms(2)])
  then have d: "distinct hosts" by (simp add: valid_hosts_def)
  obtain i where i: "getProcessIdentifier hosts h = Inr i" using getProcessIdentifier_ex [OF d assms(8)] by blast
  obtain m where m: "recipientIdMapOf hosts = Inr m" using recipientIdMapOf_lookup [OF v] by blast
  have start: "startSnapshotService hosts h = Inr (snaps (initSnapSys hosts) h)"
    "startNode hosts h = Inr (nodes (base (initSnapSys hosts)) h)"
    using i m by (simp_all add: initSnapSys_def initSys_def startSnapshotService_def startNode_def)
  have "getCurrentHostname_lab1 gethostname = Inr h" using current_hostname(2) [OF assms(6)] assms(7) by simp
  with assms(1,3,4) start senderLoop_names [OF assms(5)] show ?thesis
    by (simp add: main_lab1_def validateHostfile_def)
qed

definition exampleFlags :: lab1Flags where
  "exampleFlags = \<lparr>fl_hostfile = ''hosts'', fl_senders = ''b,c'', fl_msgCount = 1, fl_initiateSnapshotCount = 0\<rparr>"

definition exampleFile :: "string \<Rightarrow> string" where
  "exampleFile path = ''a'' @ newline # ''b'' @ newline # ''c''"

definition hostCallOf :: "string \<Rightarrow> hostCall" where
  "hostCallOf name addrlen = (if length name < addrlen then (0, name @ [NUL]) else (-1, []))"

lemma hostCallOf_names: "NUL \<notin> set name \<Longrightarrow> namesHost (hostCallOf name) name"
  by (simp add: namesHost_def hostCallOf_def)

theorem lab1_starts_witness:
  "main_lab1 exampleFlags exampleFile (hostCallOf ''b'') = Inr (snaps (initSnapSys [''a'', ''b'', ''c'']) ''b'',
    nodes (base (initSnapSys [''a'', ''b'', ''c''])) ''b'', [CallMulticast 11])"
proof -
  have hf: "readHostFile_lab1 (exampleFile (fl_hostfile exampleFlags)) = Inr [''a'', ''b'', ''c'']"
    by (simp add: readHostFile_lab1_def exampleFile_def fileLines.simps newline_def)
  have names: "fl_senders exampleFlags = commaSeparated [''b'', ''c'']"
    by (simp add: exampleFlags_def)
  have calls: "mainCalls True 1 0 = [CallMulticast 11]"
    by (simp add: mainCalls_def mainLoop.simps)
  have b: "namesHost (hostCallOf ''b'') ''b''" by (rule hostCallOf_names) (simp add: NUL_def)
  from lab1_starts [of exampleFile exampleFlags "[''a'', ''b'', ''c'']" "[''b'', ''c'']" "hostCallOf ''b''" "''b''"] hf names b
  show ?thesis
    by (simp add: exampleFile_def newline_def exampleFlags_def calls [unfolded One_nat_def])
qed

text \<open>
  The random decisions of the receiving loop: \<open>u\<close> is the next number of the random engine, from 0
  (inclusive) to 1 (exclusive), scaled to an interval. The loop drops a message with the ratio of the
  flag \<open>dropRate\<close>, and sleeps for half of the messages.
\<close>

definition getRandomNumber :: "real \<Rightarrow> real \<Rightarrow> real \<Rightarrow> real" where
  "getRandomNumber low high u = low + u * (high - low)"

definition dropMessage :: "real \<Rightarrow> real \<Rightarrow> bool" where
  "dropMessage dropRate u \<longleftrightarrow> getRandomNumber 0 1 u < dropRate"

definition delayMessage :: "nat \<Rightarrow> real \<Rightarrow> nat" where
  "delayMessage messageDelay u =
     (if messageDelay \<noteq> 0 \<and> getRandomNumber 0 1 u < 1 / 2 then messageDelay else 0)"

text \<open>Without the flags nothing is dropped or delayed; with a ratio of 1 the loop handles no message at all.\<close>

lemma drop_rate_extremes:
  assumes "0 \<le> u" and "u < 1"
  shows "\<not> dropMessage 0 u" and "dropMessage 1 u" and "delayMessage 0 u = 0"
    and "getMessageType en message = Inr t \<Longrightarrow> showMessageType t = Inr str \<Longrightarrow>
      listenStep en acceptAll (dropMessage 1 u) message (svc, ()) = Inr ((svc, ()), [])"
  using assms by (simp_all add: dropMessage_def getRandomNumber_def delayMessage_def listenStep_def acceptAll_def)

section \<open>Lab2\<close>

definition MEMBERSHIP_PORT :: nat where
  "MEMBERSHIP_PORT = 10000"

record lab2Flags =
  fl2_hostfile :: string
  fl2_leaderFailureDemo :: bool

text \<open>The directory, the membership service and the counts of the failure detector; \<open>network\<close> is what the network will do.\<close>

definition main_lab2 ::
  "lab2Flags \<Rightarrow> (string \<Rightarrow> string) \<Rightarrow> hostCall \<Rightarrow> endian \<Rightarrow> Network \<Rightarrow> (Config \<times> MembershipService \<times> heartBeatMap) res" where
  "main_lab2 flags contentOf gethostname en network =
     rbind (validateHostfile (fl2_hostfile flags)) (\<lambda>_.
     rbind (readHostFile_lab2 (contentOf (fl2_hostfile flags))) (\<lambda>hostnames.
     rbind (getCurrentHostname gethostname) (\<lambda>currentHostname.
     rbind (initialize currentHostname hostnames) (\<lambda>info.
       Inr (\<lparr>cfg_en = en, cfg_info = info, membershipPort = MEMBERSHIP_PORT,
             leaderFailureDemo = fl2_leaderFailureDemo flags\<rparr>,
            newMembershipService network, Map.empty)))))"

lemma heartBeatTargets_peers:
  assumes "\<forall>h \<in> set hs. getPeerId info h = Inr (pid h)"
  shows "heartBeatTargets info hs = Inr (map (\<lambda>h. (h, pid h)) (filter (\<lambda>h. pid h \<noteq> getMyPeerId info) hs))"
  using assms by (induction hs) auto

text \<open>
  C27: the start of lab2. On every host of an accepted host file the program starts with a directory in
  which its own identifier is that of its name, sends heartbeats to exactly the other hosts, and, if
  none of them accepts a connection, becomes the leader of a first view that has only itself.
\<close>

theorem lab2_starts:
  assumes hf: "readHostFile_lab2 (contentOf (fl2_hostfile flags)) = Inr hosts" and "fl2_hostfile flags \<noteq> []"
    and "namesHost gethostname h" and "length h < 64" and "h \<in> set hosts"
  shows "\<exists>cfg s. main_lab2 flags contentOf gethostname en network = Inr (cfg, s, Map.empty) \<and>
    validPeerInfo (cfg_info cfg) \<and> getPeerId (cfg_info cfg) h = Inr (me cfg) \<and>
    (\<exists>pid. heartBeatTargets (cfg_info cfg) (getAllPeerHostnames (cfg_info cfg)) =
       Inr (map (\<lambda>k. (k, pid k)) (getPeerContainerHostnames hosts h))) \<and>
    ((\<forall>k \<in> set hosts. k \<noteq> h \<longrightarrow> refusedBy s k) \<longrightarrow>
       (\<exists>s'. findLeader cfg s = (Inr (), s') \<and> leaderPeerId s' = me cfg \<and> viewId s' = 1 \<and> getGroupMembers cfg s' = {me cfg}))"
proof -
  have hosts: "hosts = uniqueLines {} (fileLines (contentOf (fl2_hostfile flags)))" and ten: "length hosts \<le> 10"
    using hf by (auto simp: readHostFile_lab2_def Let_def rbind_eq_Inr)
  have v: "valid_hosts hosts" using ten uniqueLines_distinct [of "{}" "fileLines (contentOf (fl2_hostfile flags))"]
    by (simp add: valid_hosts_def hosts)
  then have d: "distinct hosts" by (simp add: valid_hosts_def)
  obtain info where info: "initialize h hosts = Inr info" "allPeerHostnames info = hosts"
    "getProcessIdentifier hosts h = Inr (myPeerId info)"
    "\<And>k i. hostnameToPeerIdMap info k = Some i \<longleftrightarrow> getProcessIdentifier hosts k = Inr i"
    using initialize_lookup [OF v assms(5)] by blast
  define cfg where "cfg = \<lparr>cfg_en = en, cfg_info = info, membershipPort = MEMBERSHIP_PORT,
      leaderFailureDemo = fl2_leaderFailureDemo flags\<rparr>"
  let ?s = "newMembershipService network"
  have main: "main_lab2 flags contentOf gethostname en network = Inr (cfg, ?s, Map.empty)"
    using hf assms(2) current_hostname(1) [OF assms(3)] assms(4) info(1)
    by (simp add: main_lab2_def validateHostfile_def cfg_def)
  have vi: "validPeerInfo info" by (rule validPeerInfo_initialize [OF v assms(5) info(1)])
  have ids: "getPeerId info k = Inr i \<longleftrightarrow> getProcessIdentifier hosts k = Inr i" for k i
    using info(4) by (simp add: getPeerId_def map_at_eq_Inr)
  have mine: "getPeerId info h = Inr (me cfg)" "getMyPeerId info = me cfg" "cfg_info cfg = info"
    using info(3) by (simp_all add: ids me_def cfg_def getMyPeerId_def)
  define pid where "pid k = projr (getProcessIdentifier hosts k)" for k
  have pid: "getPeerId info k = Inr (pid k)" if "k \<in> set hosts" for k
    using getProcessIdentifier_ex [OF d that] by (auto simp: ids pid_def)
  have other: "pid k \<noteq> me cfg \<longleftrightarrow> k \<noteq> h" if "k \<in> set hosts" for k
    using getProcessIdentifier_inject [OF v, of k "me cfg" h] pid [OF that] mine(1) by (auto simp: ids)
  have "heartBeatTargets info hosts = Inr (map (\<lambda>k. (k, pid k)) (getPeerContainerHostnames hosts h))"
    using heartBeatTargets_peers [of hosts info pid] pid other
    by (simp add: getPeerContainerHostnames_def mine(2) cong: filter_cong)
  moreover have "\<exists>s'. findLeader cfg ?s = (Inr (), s') \<and> leaderPeerId s' = me cfg \<and> viewId s' = 1 \<and>
      getGroupMembers cfg s' = {me cfg}" if ref: "\<forall>k \<in> set hosts. k \<noteq> h \<longrightarrow> refusedBy ?s k"
  proof -
    have "\<forall>k \<in> set hosts. passedOver cfg ?s k"
      using ref pid other mine(1) by (auto simp: passedOver_def mine(3))
    from findLeaderLoop_passed [OF d this, of "[]"] obtain a where
      "findLeader cfg ?s = findLeaderLoop cfg [] (?s\<lparr>attempts := a\<rparr>)"
      by (auto simp: findLeader_def getAllPeerHostnames_def mine(3) info(2))
    then show ?thesis
      by (simp add: act_basic mine getGroupMembers_def newMembershipService_def Network.defs)
  qed
  ultimately show ?thesis
    using main vi mine(1,3) info(2) by (intro exI [of _ cfg] exI [of _ ?s]) (auto simp: getAllPeerHostnames_def)
qed

theorem lab2_starts_witness:
  "\<exists>cfg s s'. main_lab2 \<lparr>fl2_hostfile = ''hosts'', fl2_leaderFailureDemo = False\<rparr> (\<lambda>_. sampleHosts) (hostCallOf ''b'')
      LittleEndian (idleNetwork\<lparr>attempts := (\<lambda>_. [NoSuchHost])\<rparr>) = Inr (cfg, s, Map.empty) \<and>
    findLeader cfg s = (Inr (), s') \<and> getGroupMembers cfg s' = {me cfg}"
proof -
  have hf: "readHostFile_lab2 ((\<lambda>_. sampleHosts) (fl2_hostfile \<lparr>fl2_hostfile = ''hosts'', fl2_leaderFailureDemo = False\<rparr>)) =
      Inr [''a'', ''b'', ''c'', ''d'', ''e'']"
    by (simp add: readHostFile_lab2_def sampleHosts_lines)
  have b: "namesHost (hostCallOf ''b'') ''b''" by (rule hostCallOf_names) (simp add: NUL_def)
  let ?net = "idleNetwork\<lparr>attempts := (\<lambda>_. [NoSuchHost])\<rparr>"
  have ref: "refusedBy (newMembershipService ?net) k" if "k \<noteq> []" for k
    using that by (simp add: refusedBy_def knock_def newMembershipService_def Network.defs idleNetwork_def
        bindSocketToFd_def isRuntimeError_def)
  from lab2_starts [where flags = "\<lparr>fl2_hostfile = ''hosts'', fl2_leaderFailureDemo = False\<rparr>"
      and contentOf = "\<lambda>_. sampleHosts", OF hf _ b, where en = LittleEndian and network = ?net] obtain cfg s where
    m: "main_lab2 \<lparr>fl2_hostfile = ''hosts'', fl2_leaderFailureDemo = False\<rparr> (\<lambda>_. sampleHosts) (hostCallOf ''b'')
      LittleEndian ?net = Inr (cfg, s, Map.empty)" and
    l: "(\<forall>k \<in> set [''a'', ''b'', ''c'', ''d'', ''e'']. k \<noteq> ''b'' \<longrightarrow> refusedBy s k) \<longrightarrow>
       (\<exists>s'. findLeader cfg s = (Inr (), s') \<and> leaderPeerId s' = me cfg \<and> viewId s' = 1 \<and> getGroupMembers cfg s' = {me cfg})"
    by auto
  have "s = newMembershipService ?net" using m by (auto simp: main_lab2_def rbind_eq_Inr)
  with l ref obtain s' where "findLeader cfg s = (Inr (), s')" "getGroupMembers cfg s' = {me cfg}" by auto
  with m show ?thesis by blast
qed

section \<open>Lab0\<close>

definition main_lab0 ::
  "string list \<Rightarrow> (string \<Rightarrow> string) \<Rightarrow> hostCall \<Rightarrow> (hostname \<Rightarrow> attempt list) \<Rightarrow> (fd \<Rightarrow> bool) \<Rightarrow> (HeartbeatState \<times> hostname list) res" where
  "main_lab0 argv contentOf gethostname looked errors =
     rbind (parseHostFileFromCmdArguments argv) (\<lambda>hostFilePath.
     rbind (readHostFile_lab0 (contentOf hostFilePath)) (\<lambda>hostnames.
     rbind (getCurrentContainerHostname gethostname) (\<lambda>currentContainerHostname.
     let peerContainerHostnames = getPeerContainerHostnames_lab0 hostnames currentContainerHostname
     in rbind (getProcessIdentifier_lab0 hostnames currentContainerHostname) (\<lambda>_.
          Inr (newHeartbeat peerContainerHostnames looked errors, peerContainerHostnames)))))"

text \<open>Every process of lab0 starts in the initial state of the system.\<close>

lemma lab0_starts:
  assumes "readHostFile_lab0 (contentOf path) = Inr hosts" and "namesHost gethostname h" and "length h < 64"
    and "h \<in> set hosts"
  shows "main_lab0 [prog, ''-h'', path] contentOf gethostname (looked h) (errors h) =
    Inr (procs (initLab0 hosts looked errors) h, adding (initLab0 hosts looked errors) h)"
proof -
  obtain i where "getProcessIdentifier_lab0 hosts h = Inr i" using getProcessIdentifier_lab0_ex [OF assms(4)] by blast
  with assms current_hostname(3) [OF assms(2)] show ?thesis
    by (simp add: main_lab0_def parseHostFileFromCmdArguments_def initLab0_def Let_def)
qed

end
