(* ===== verification/Spec2Isabelle.thy ===== *)
theory Spec2Isabelle
  imports SnapshotRuns Overlap GroupProgress Programs
begin

text \<open>
  Verification of the distributed systems labs of the repository: \<open>lab0\<close> (the start-up protocol of a
  group of processes), \<open>lab1\<close> (a totally ordered multicast and a global snapshot) and \<open>lab2\<close> (group
  membership with a failure detector).

  The program. All three labs read a host file with one host per line; the position of a host in it is
  its process identifier. In lab0 every process sends a datagram to its peers until they have
  acknowledged it. In lab1 a process multicasts messages over UDP: the receivers propose sequence
  numbers, the sender announces the largest one, and a hold-back queue delivers in the order of the
  final numbers; a retransmission thread repeats every message until it is acknowledged. On top of it
  the snapshot service records the local state and the messages in flight, with markers over TCP. In
  lab2 the first process becomes the leader; it accepts connections and drives every change of the
  group by a request, acknowledgements and a new view over TCP, while heartbeats over UDP detect
  crashes; when the leader crashes, the process with the least identifier takes over and completes the
  pending request.

  Shared theories. \<open>Prelude\<close>: machine words, byte buffers, byte orders, faults and the sequencing of
  fallible operations. \<open>Decimal\<close>: printed numbers. \<open>Codec\<close>: the class \<open>Message\<close> and the contract
  \<open>struct_codec\<close> of a serializer with its deserializer. \<open>Hosts\<close>: host files and process identifiers
  (\<open>utils.cpp\<close> of the three labs). The byte order of a host, the bytes that an uninitialised buffer
  holds and the bytes that a receive leaves behind a message are parameters everywhere.

  Lab1, multicast. \<open>Lab1Wire\<close>: \<open>message.h\<close>, \<open>message.cpp\<close>, \<open>serde.cpp\<close>. \<open>Sender\<close>: \<open>ContinuousMsgSender\<close>
  with its thread, and the contract \<open>retransmitter\<close> on which the service relies. \<open>HoldBack\<close>:
  \<open>HoldBackQueue\<close>. \<open>Multicast\<close>: \<open>MulticastService\<close> with all handlers. \<open>MulticastSystem\<close>: all processes and
  the channels between them, as a step relation that interleaves all threads. A channel may lose and
  duplicate datagrams at any time, and reorder them as far as a parameter of the relation says
  (\<open>overtaking\<close>: which datagram may overtake which). The promises hold for every parameter with
  \<open>dataFirst\<close>: no copy of a data message arrives behind the sequence message of the same message. UDP
  does not promise it, and the last properties of \<open>MulticastProps\<close> show that without it a process dies or
  delivers twice. \<open>Isis\<close> is the abstract protocol,
  \<open>IsisInvariant\<close> its invariant, \<open>MulticastRefine\<close> and \<open>MulticastSim\<close> the simulation of the system by
  it, \<open>MulticastOrder\<close> the reachable states, \<open>MulticastRun\<close> an executable scheduler with an example run,
  \<open>MulticastProps\<close> the promises: refinement, total order, integrity, absence of faults, delivery of
  everything when all senders are quiet. Identifiers and sequence numbers are 32 bits wide; the
  promises are stated for runs in which the number of hosts times the number of multicast messages
  stays below \<open>2 ^ 32 - 1\<close> (\<open>smallRun\<close>), so that no counter wraps around.

  Lab1, snapshot. \<open>Snapshot\<close>: \<open>part2/snapshot.cpp\<close>. The critical sections of the marker threads, of
  \<open>takeSnapshot\<close> and of the callback for incoming messages are the events of a run, in any order. The
  lemmas show how long a channel is recorded, and that every process sends its markers once. \<open>Lab1Net\<close>:
  the sockets of lab1, and the connections over which the markers go. \<open>MulticastState\<close>: the text of the
  multicast state that is recorded, and the calls of lab1's \<open>main\<close>.

  Lab1, both services. \<open>SnapshotSystem\<close>: all processes with both services, as a step relation over
  \<open>MulticastSystem\<close>: the receiving loop calls the callback for every datagram before it handles it, the
  markers travel over connections of their own, marker threads and the main thread take the locks that
  the code takes. What the network guarantees is a parameter (\<open>discipline\<close>): order of datagrams and
  markers, no datagram between a local state and its markers, no losses, which datagrams may overtake;
  the code ensures none of them. The multicast takes the same steps as without the snapshot, and with
  \<open>dataFirst\<close> the callback never faults. \<open>SnapshotCut\<close>: the invariant of the markers and of the cut (the
  history of what was sent, read and handled when a local state was recorded). \<open>SnapshotProgress\<close>: the
  work left decreases, and when none is left every process has its snapshot. \<open>SnapshotConsistent\<close>: with
  one initiator and under the guarantees, the recorded local state is that of a service that has handled
  what was read, but for one datagram that the receiving loop may have in hand, and the recorded texts
  are the rest of the channel; with losses there is still no effect without its cause.
  \<open>SnapshotRuns\<close>: an executable scheduler,
  example runs, and what goes wrong without each guarantee.

  Lab2, messages and network. \<open>Lab2Wire\<close>: \<open>message.h\<close>, \<open>message.cpp\<close>, \<open>serde.cpp\<close>, with the array of the
  view message. \<open>Peers\<close>: \<open>PeerInfo\<close>, and the contract \<open>peer_directory\<close>: identifiers and names determine
  each other. \<open>Net\<close>: operations with state and exceptions, and \<open>network_utils.cpp\<close>: the record \<open>Network\<close>
  holds scripts of what the system calls return for every descriptor, host and server, and the log of
  what was sent. A script that is used up stands for a call that does not return (the fault \<open>Blocked\<close>);
  as the scripts are arbitrary this is no restriction.

  Lab2, membership. \<open>Membership\<close>: every function of \<open>membership.cpp\<close>, on a record that extends
  \<open>Network\<close>; a state survives an exception. The endless loops (\<open>startAsLeader\<close>, \<open>startAsFollower\<close>, the loop
  of \<open>start\<close>) are given by their first \<open>n\<close> iterations for every \<open>n\<close>, so that a property of all numbers of
  iterations is one of the loop. \<open>MembershipLemmas\<close>: what each message does on the wire and the inverse
  of a successful change. \<open>MembershipProps\<close>: single changes, on the success path and when a peer is lost.
  \<open>ViewAgreement\<close>: joins and failures in any order, and the agreement of all members on the group of a
  view. \<open>Failover\<close>: the take-over after a crash of the leader; a deletion that a survivor reports is
  completed, one that only the new leader knows is lost. \<open>Startup\<close>: the search for the leader
  and the first view. In these theories the leader handles one join or failure at a time. In the code
  \<open>alivePeersMutex\<close> keeps the critical sections of its two threads apart, but a second change can begin
  between the end of such a section and the sending of its view. \<open>Overlap\<close>: a change as the sequence of its
  parts between the locks, and two changes of different peers interleaved; the group is right in the
  end, but the views can be sent in the wrong order.

  Lab2, a leader with its members. \<open>Streams\<close>: connections as streams of bytes from which \<open>recv\<close> takes
  chunks, or their end when the process at the other end has ended, and the locale \<open>stream_network\<close> of a server and clients that are functions of what they have
  read. \<open>Blocking\<close>: the operations of the membership service are such functions (more input never takes
  back what was sent), proved for each of them. \<open>GroupSystem\<close>: the leader that goes through joins and
  failures and the followers at the other ends of its connections, as an interpretation of the locale,
  and the well-formedness of the leader's state. \<open>GroupChange\<close>, \<open>GroupRuns\<close>: what one change and a run do
  when the acknowledgements that have been read are right. \<open>GroupProgress\<close>: acknowledgements come from
  the members themselves, in any interleaving; if every \<open>recv\<close> yields one whole message (TCP does not
  promise it) nothing faults, no connection ends, every run ends, and at its end every member has the
  last view of the specified group; if two messages come in one chunk, the member aborts, and the end
  of its connection ends the leader. The changes follow one another, as in \<open>ViewAgreement\<close>.

  Lab2, failure detection. \<open>Countdown\<close>: the contract of a detector that counts down. \<open>Detector\<close>:
  \<open>failure_detector.cpp\<close>, which satisfies it in whatever order the hash map is iterated. A run is a list
  of heartbeats and ticks, which the mutex of the map keeps apart. \<open>CrashHandling\<close>: the detector with
  the callback that \<open>main\<close> registers; a silent member leaves the group. The rounds of the sender threads,
  with the sockets that they open and close, are at the end of \<open>Detector\<close>.

  Lab0. \<open>Heartbeat\<close>: \<open>heartbeat.cpp\<close>, \<open>socket_utils.cpp\<close>, \<open>main.cpp\<close>. The steps of the two threads are the
  evaluation of a loop condition, one iteration or one added peer, in any order; a step that cannot
  happen is \<open>Blocked\<close>. \<open>Lab0System\<close>: all processes over a network that loses, duplicates and reorders
  datagrams; being ready is a barrier, and a lost acknowledgement can strand a peer.

  Programs. \<open>Resolver\<close>: the names of hosts of the three labs over \<open>gethostname\<close> and \<open>getnameinfo\<close>, which
  are arguments with their documented behaviour as hypotheses, and when \<open>accept\<close> and \<open>recvfrom\<close> yield
  the names and ports that the other theories start from. \<open>Programs\<close>: the three \<open>main\<close> functions from
  flags, host file and host name to the states in which the services start, which are the initial
  states of the systems above, and the random decisions of lab1.

  Interfaces. The locale \<open>struct_codec\<close> is interpreted by all nine message types of fixed size,
  \<open>retransmitter\<close> by \<open>ContinuousMsgSender\<close>, \<open>peer_directory\<close> by \<open>PeerInfo\<close>, \<open>countdown\<close> by the failure
  detector, \<open>stream_network\<close> by a leader with its members; the properties use the facts of the interpretations.

  Not modelled. Logging, except where an expression that is logged by default can throw or abort
  (\<open>LOG(INFO)\<close> of a value with an unnamed enumeration constant); verbose logging (\<open>VLOG\<close>) is taken to be
  off. Sleeping and delays, except for how long they are. The parsing of flags by gflags, and the signal
  handlers of lab1 and lab2, which flush the logs. Descriptors that a constructor closes after a failed
  attempt (the log \<open>closed\<close> has those of the \<open>close\<close> operations) and the reuse of descriptor numbers. The
  signal that a send to a closed connection can raise (only the exception is modelled), and in
  \<open>tcpAccept\<close> an \<open>accept\<close> that fails (\<open>acceptFrom\<close> of \<open>Resolver\<close> has it). The
  message that \<open>TcpClient::receive\<close> of lab1 returns points into a dead stack frame; the model gives it its
  bytes. Other memory that is freed and data races that the mutexes do not exclude, such as the
  reference to a loop variable that the threads of \<open>FailureDetector::start\<close> capture: they are findings of
  the manifest where they matter. The condition variable of lab0's \<open>main\<close>, which only delays the sending
  thread.
\<close>

end
